(* ===== verification/Zapwire_Prelude.thy ===== *)
theory Zapwire_Prelude
  imports Main "HOL-Library.Word"
begin

text \<open>
  Shared vocabulary of the development: bytes and machine integers, Go strings as byte lists,
  results as sums, the named collections the component proofs simplify with, and the generic
  list and word lemmas that more than one component needs.
\<close>

unbundle bit_operations_syntax

section \<open>Types\<close>

type_synonym byte = "8 word"
type_synonym bytes = "byte list"
type_synonym u32 = "32 word"
type_synonym u64 = "64 word"

text \<open>A fallible Go call returns its error or its value.\<close>

type_synonym ('e, 'a) result = "'e + 'a"

text \<open>A Go string is its sequence of bytes; literals are written as ASCII strings.\<close>

definition str :: "string \<Rightarrow> bytes" where
  "str s = map of_char s"

section \<open>Collections\<close>

named_theorems append_simps \<open>encoders append to their destination buffer\<close>
named_theorems decode_simps \<open>decoders applied to encoded input\<close>
named_theorems inv_defs \<open>definitions of the component invariants\<close>

section \<open>Lists\<close>

lemma length_concat_map: "length (concat (map f xs)) = (\<Sum>x\<leftarrow>xs. length (f x))"
  by (induction xs) auto

lemma foldl_append_concat: "foldl (\<lambda>d x. d @ f x) d xs = d @ concat (map f xs)"
  by (induction xs arbitrary: d) auto

lemma takeWhile_append_stop:
  assumes "\<forall>x\<in>set xs. P x" and "\<not> P y"
  shows "takeWhile P (xs @ y # ys) = xs" and "dropWhile P (xs @ y # ys) = y # ys"
  using assms by (induction xs) auto

lemma sum_list_le_length:
  "\<forall>x\<in>set xs. f x \<le> (n::nat) \<Longrightarrow> (\<Sum>x\<leftarrow>xs. f x) \<le> n * length xs"
  by (induction xs) auto

section \<open>Words\<close>

lemma unat_drop_bit_div: "unat (drop_bit n (v :: 'a::len word)) = unat v div 2 ^ n"
  by (metis unat_drop_bit_eq drop_bit_eq_div)

lemma unat_ucast_byte: "unat (ucast (v :: 'a::len word) :: byte) = unat v mod 256"
  by (simp add: unsigned_ucast_eq take_bit_eq_mod)

lemma unat_of_nat_u64: "n < 2 ^ 64 \<Longrightarrow> unat (of_nat n :: u64) = n"
  by (simp add: unat_of_nat take_bit_nat_eq_self)

lemma unat_of_nat_byte: "n < 256 \<Longrightarrow> unat (of_nat n :: byte) = n"
  by (simp add: unat_of_nat take_bit_nat_eq_self)

lemma byte_unat_less: "unat (b :: byte) < 256"
  using unsigned_less [of b] by simp

text \<open>A statement about every byte can be checked byte by byte.\<close>

lemma byte_all: "list_all P (map of_nat [0..<256]) \<Longrightarrow> P (b :: byte)"
  using byte_unat_less [of b] by (auto simp: list_all_iff dest: bspec [of _ _ "unat b"])

end
