(* ===== verification/Go_Runtime.thy ===== *)
theory Go_Runtime
  imports Zapwire_Prelude
begin

text \<open>
  The parts of the Go language and standard library that zapwire's code computes with:
  \<^verbatim>\<open>strconv\<close> decimal formatting, \<^verbatim>\<open>math/bits.Len64\<close>, \<^verbatim>\<open>encoding/binary\<close>
  (Uvarint and fixed-width integers), int64 wrap-around, and buffered channels with
  non-blocking send and receive. Channels come with an interface locale; both writers of
  zapwire rely on its laws.
\<close>

section \<open>Signed 64-bit arithmetic\<close>

definition wrap64 :: "int \<Rightarrow> int" where
  "wrap64 x = signed_take_bit 63 x"

lemma wrap64_id: "- (2 ^ 63) \<le> x \<Longrightarrow> x < 2 ^ 63 \<Longrightarrow> wrap64 x = x"
  by (simp add: wrap64_def signed_take_bit_int_eq_self)

lemma wrap64_range: "- (2 ^ 63) \<le> wrap64 x" "wrap64 x < 2 ^ 63"
  unfolding wrap64_def
  by (rule signed_take_bit_int_greater_eq_minus_exp, rule signed_take_bit_int_less_exp)

section \<open>strconv: decimal digits\<close>

fun decimal :: "nat \<Rightarrow> bytes" where
  "decimal n = (if n < 10 then [of_nat (48 + n)]
     else decimal (n div 10) @ [of_nat (48 + n mod 10)])"

declare decimal.simps [simp del]

definition format_int :: "int \<Rightarrow> bytes" where
  "format_int i = (if i < 0 then 45 # decimal (nat (- i)) else decimal (nat i))"

definition is_digit :: "byte \<Rightarrow> bool" where
  "is_digit b \<longleftrightarrow> 48 \<le> b \<and> b \<le> 57"

definition undecimal :: "bytes \<Rightarrow> nat" where
  "undecimal ds = foldl (\<lambda>n b. 10 * n + (unat b - 48)) 0 ds"

lemma unat_digit: "n < 10 \<Longrightarrow> unat (of_nat (48 + n) :: byte) = 48 + n"
  by (rule unat_of_nat_byte) simp

lemma is_digit_of_nat: "n < 10 \<Longrightarrow> is_digit (of_nat (48 + n))"
  by (simp only: is_digit_def word_le_nat_alt unat_digit) simp

lemma decimal_digits: "\<forall>b\<in>set (decimal n). is_digit b"
proof (induction n rule: decimal.induct)
  case (1 n)
  show ?case
  proof (cases "n < 10")
    case True
    then show ?thesis
      by (subst decimal.simps) (simp add: is_digit_of_nat del: of_nat_add)
  next
    case False
    with 1 have "\<forall>b\<in>set (decimal (n div 10)). is_digit b" by simp
    moreover have "is_digit (of_nat (48 + n mod 10))" by (rule is_digit_of_nat) simp
    ultimately show ?thesis using False
      by (subst decimal.simps) (auto simp del: of_nat_add)
  qed
qed

lemma decimal_nonempty: "decimal n \<noteq> []"
  by (subst decimal.simps) simp

lemma undecimal_decimal: "undecimal (decimal n) = n"
proof (induction n rule: decimal.induct)
  case (1 n)
  show ?case
  proof (cases "n < 10")
    case True
    then show ?thesis
      using unat_digit [OF True] by (subst decimal.simps) (simp add: undecimal_def del: of_nat_add)
  next
    case False
    have d: "unat (of_nat (48 + n mod 10) :: byte) = 48 + n mod 10"
      by (rule unat_digit) simp
    have "undecimal (decimal n) = 10 * undecimal (decimal (n div 10)) + (unat (of_nat (48 + n mod 10) :: byte) - 48)"
      using False by (subst decimal.simps) (simp add: undecimal_def del: of_nat_add)
    also have "\<dots> = 10 * (n div 10) + n mod 10"
      using 1 False unfolding d by simp
    finally show ?thesis by simp
  qed
qed

lemma length_decimal_le: "n < 10 ^ k \<Longrightarrow> 0 < k \<Longrightarrow> length (decimal n) \<le> k"
proof (induction k arbitrary: n)
  case 0
  then show ?case by simp
next
  case (Suc k)
  show ?case
  proof (cases "n < 10")
    case True
    then show ?thesis by (subst decimal.simps) simp
  next
    case False
    have "n div 10 < 10 ^ k" using Suc.prems by (simp add: less_mult_imp_div_less)
    moreover have "0 < k" using False Suc.prems by (cases k) auto
    ultimately have "length (decimal (n div 10)) \<le> k" by (rule Suc.IH)
    with False show ?thesis by (subst decimal.simps) simp
  qed
qed

section \<open>math/bits\<close>

fun bit_len :: "nat \<Rightarrow> nat" where
  "bit_len n = (if n = 0 then 0 else Suc (bit_len (n div 2)))"

declare bit_len.simps [simp del]

definition Len64 :: "u64 \<Rightarrow> nat" where
  "Len64 v = bit_len (unat v)"

lemma bit_len_0 [simp]: "bit_len 0 = 0"
  by (simp add: bit_len.simps)

lemma bit_len_pos: "0 < n \<Longrightarrow> bit_len n = Suc (bit_len (n div 2))"
  by (subst bit_len.simps) simp

lemma bit_len_shift: "2 ^ k \<le> n \<Longrightarrow> bit_len n = k + bit_len (n div 2 ^ k)"
proof (induction k arbitrary: n)
  case 0
  then show ?case by simp
next
  case (Suc k)
  have "2 ^ k \<le> n div 2" using Suc.prems by (simp add: less_eq_div_iff_mult_less_eq mult.commute)
  then have "bit_len (n div 2) = k + bit_len (n div 2 div 2 ^ k)" by (rule Suc.IH)
  moreover have "0 < n" using Suc.prems by (cases n) auto
  ultimately show ?case by (simp add: bit_len_pos [of n] div_mult2_eq)
qed

lemma bit_len_le: "n < 2 ^ k \<Longrightarrow> bit_len n \<le> k"
proof (induction k arbitrary: n)
  case 0
  then show ?case by simp
next
  case (Suc k)
  show ?case
  proof (cases "n = 0")
    case False
    have "n div 2 < 2 ^ k" using Suc.prems by (simp add: less_mult_imp_div_less)
    then have "bit_len (n div 2) \<le> k" by (rule Suc.IH)
    with False show ?thesis by (simp add: bit_len_pos)
  qed simp
qed

section \<open>encoding/binary\<close>

text \<open>
  \<^verbatim>\<open>binary.Uvarint\<close>: the value and the number of bytes read; 0 for a truncated buffer,
  a negative count when the value overflows 64 bits. The arguments after the buffer are the
  loop's index and accumulator; the shift is seven times the index.
\<close>

fun uvarint_loop :: "bytes \<Rightarrow> nat \<Rightarrow> u64 \<Rightarrow> u64 \<times> int" where
  "uvarint_loop [] i x = (0, 0)"
| "uvarint_loop (b # bs) i x =
     (if i = 10 then (0, - int (i + 1))
      else if b < 0x80 then
        (if i = 9 \<and> b > 1 then (0, - int (i + 1))
         else (x OR push_bit (7 * i) (ucast b), int (i + 1)))
      else uvarint_loop bs (i + 1) (x OR push_bit (7 * i) (ucast (b AND 0x7f))))"

definition Uvarint :: "bytes \<Rightarrow> u64 \<times> int" where
  "Uvarint buf = uvarint_loop buf 0 0"

lemma uvarint_loop_count:
  "uvarint_loop bs i x = (v, n) \<Longrightarrow> 0 < n \<Longrightarrow> int i < n \<and> n \<le> int (i + length bs)"
proof (induction bs i x rule: uvarint_loop.induct)
  case (2 b bs i x)
  then show ?case by (fastforce split: if_splits)
qed simp

lemma Uvarint_count: "Uvarint bs = (v, n) \<Longrightarrow> 0 < n \<Longrightarrow> n \<le> int (length bs)"
  using uvarint_loop_count [of bs 0 0 v n] by (simp add: Uvarint_def)

text \<open>Fixed-width integers.\<close>

definition be32 :: "u32 \<Rightarrow> bytes" where
  "be32 v = [ucast (drop_bit 24 v), ucast (drop_bit 16 v), ucast (drop_bit 8 v), ucast v]"

fun be32_read :: "bytes \<Rightarrow> u32" where
  "be32_read (a # b # c # d # _) =
     push_bit 24 (ucast a) OR push_bit 16 (ucast b) OR push_bit 8 (ucast c) OR ucast d"
| "be32_read _ = 0"

definition le32 :: "u32 \<Rightarrow> bytes" where
  "le32 v = [ucast v, ucast (drop_bit 8 v), ucast (drop_bit 16 v), ucast (drop_bit 24 v)]"

fun le32_read :: "bytes \<Rightarrow> u32" where
  "le32_read (a # b # c # d # _) =
     ucast a OR push_bit 8 (ucast b) OR push_bit 16 (ucast c) OR push_bit 24 (ucast d)"
| "le32_read _ = 0"

definition le64 :: "u64 \<Rightarrow> bytes" where
  "le64 v = [ucast v, ucast (drop_bit 8 v), ucast (drop_bit 16 v), ucast (drop_bit 24 v),
     ucast (drop_bit 32 v), ucast (drop_bit 40 v), ucast (drop_bit 48 v), ucast (drop_bit 56 v)]"

fun le64_read :: "bytes \<Rightarrow> u64" where
  "le64_read (a # b # c # d # e # f # g # h # _) =
     ucast a OR push_bit 8 (ucast b) OR push_bit 16 (ucast c) OR push_bit 24 (ucast d) OR
     push_bit 32 (ucast e) OR push_bit 40 (ucast f) OR push_bit 48 (ucast g) OR
     push_bit 56 (ucast h)"
| "le64_read _ = 0"

lemma length_be32 [simp]: "length (be32 v) = 4"
  by (simp add: be32_def)

lemma length_le32 [simp]: "length (le32 v) = 4"
  by (simp add: le32_def)

lemma length_le64 [simp]: "length (le64 v) = 8"
  by (simp add: le64_def)

lemma bit_shifted_byte:
  "bit (push_bit m (ucast (ucast (drop_bit m v) :: byte) :: 'a word)) n \<longleftrightarrow>
     m \<le> n \<and> n < m + 8 \<and> bit (v :: 'a::len word) n"
  by (auto simp: bit_simps dest: bit_imp_le_length)

lemma bit_low_byte:
  "bit (ucast (ucast v :: byte) :: 'a word) n \<longleftrightarrow> n < 8 \<and> bit (v :: 'a::len word) n"
  by (auto simp: bit_simps dest: bit_imp_le_length)

lemma be32_read_be32 [decode_simps]: "be32_read (be32 v @ rest) = v"
  unfolding be32_def append_Cons append_Nil be32_read.simps
  by (rule bit_word_eqI) (simp only: bit_or_iff bit_shifted_byte bit_low_byte, auto)

lemma le32_read_le32 [decode_simps]: "le32_read (le32 v @ rest) = v"
  unfolding le32_def append_Cons append_Nil le32_read.simps
  by (rule bit_word_eqI) (simp only: bit_or_iff bit_shifted_byte bit_low_byte, auto)

lemma le64_read_le64 [decode_simps]: "le64_read (le64 v @ rest) = v"
  unfolding le64_def append_Cons append_Nil le64_read.simps
  by (rule bit_word_eqI) (simp only: bit_or_iff bit_shifted_byte bit_low_byte, auto)

section \<open>Buffered channels\<close>

text \<open>
  A buffered channel is its buffer and its capacity. \<^verbatim>\<open>select\<close> with a \<^verbatim>\<open>default\<close>
  case tries one operation: a send fails when the buffer is full, a receive when it is empty.
\<close>

record 'a chan =
  buf :: "'a list"
  cap :: nat

definition make_chan :: "nat \<Rightarrow> 'a chan" where
  "make_chan n = \<lparr>buf = [], cap = n\<rparr>"

definition try_send :: "'a chan \<Rightarrow> 'a \<Rightarrow> 'a chan option" where
  "try_send q x = (if length (buf q) < cap q then Some (q\<lparr>buf := buf q @ [x]\<rparr>) else None)"

definition try_recv :: "'a chan \<Rightarrow> ('a \<times> 'a chan) option" where
  "try_recv q = (case buf q of [] \<Rightarrow> None | x # xs \<Rightarrow> Some (x, q\<lparr>buf := xs\<rparr>))"

locale bounded_queue =
  fixes send :: "'q \<Rightarrow> 'a \<Rightarrow> 'q option"
    and recv :: "'q \<Rightarrow> ('a \<times> 'q) option"
    and contents :: "'q \<Rightarrow> 'a list"
    and capacity :: "'q \<Rightarrow> nat"
  assumes send_Some: "send q x = Some q' \<Longrightarrow> contents q' = contents q @ [x] \<and>
      capacity q' = capacity q \<and> length (contents q) < capacity q"
    and send_None: "send q x = None \<longleftrightarrow> capacity q \<le> length (contents q)"
    and recv_Some: "recv q = Some (x, q') \<Longrightarrow> contents q = x # contents q' \<and>
      capacity q' = capacity q"
    and recv_None: "recv q = None \<longleftrightarrow> contents q = []"
begin

lemma send_bounded:
  "send q x = Some q' \<Longrightarrow> length (contents q') \<le> capacity q'"
  by (drule send_Some) simp

lemma recv_nonempty: "contents q = x # xs \<Longrightarrow>
  \<exists>q'. recv q = Some (x, q') \<and> contents q' = xs \<and> capacity q' = capacity q"
proof -
  assume q: "contents q = x # xs"
  then obtain y q' where r: "recv q = Some (y, q')"
    using recv_None [of q] by (cases "recv q") auto
  with q show ?thesis using recv_Some [OF r] by auto
qed

lemma evict_then_send:
  assumes full: "send q x = None" and pos: "0 < capacity q"
    and fit: "length (contents q) \<le> capacity q"
  shows "\<exists>y q1 q2. recv q = Some (y, q1) \<and> send q1 x = Some q2 \<and>
    contents q = y # contents q1 \<and> contents q2 = contents q1 @ [x] \<and> capacity q2 = capacity q"
proof -
  have len: "length (contents q) = capacity q" using full fit send_None [of q x] by simp
  then obtain y ys where q: "contents q = y # ys" using pos by (cases "contents q") auto
  then obtain q1 where q1: "recv q = Some (y, q1)" "contents q1 = ys" "capacity q1 = capacity q"
    using recv_nonempty by blast
  then have "send q1 x \<noteq> None" using len q send_None [of q1 x] by simp
  then obtain q2 where q2: "send q1 x = Some q2" by blast
  with q1 q show ?thesis using send_Some [OF q2] by auto
qed

end

interpretation gochan: bounded_queue try_send try_recv buf cap
  by unfold_locales (auto simp: try_send_def try_recv_def split: if_splits list.splits)

lemma try_recv_buf: "try_recv q = Some (x, q') \<longleftrightarrow>
    buf q = x # buf q' \<and> cap q' = cap q \<and> chan.more q' = chan.more q"
  by (cases q; cases q') (auto simp: try_recv_def split: list.splits)

lemma buf_make_chan [simp]: "buf (make_chan n) = []" and cap_make_chan [simp]: "cap (make_chan n) = n"
  by (simp_all add: make_chan_def)

end
