(* ===== verification/Root_Options.thy ===== *)
theory Root_Options
  imports Go_Runtime
begin

text \<open>
  \<^verbatim>\<open>options.go\<close> and \<^verbatim>\<open>errors.go\<close>: the writer's configuration, the functional options
  and the normalisation that every writer's configuration goes through. An option is a
  function on the configuration; durations are signed 64-bit nanosecond counts.
\<close>

datatype Mode = ModeSync | ModeAsync

datatype DropPolicy = DropNewest | DropOldest

text \<open>An installed error handler is represented by its identity.\<close>

record config =
  mode :: Mode
  writeTimeout :: int
  reconnectInterval :: int
  maxReconnect :: int
  maxRetries :: int
  bufferSize :: int
  flushInterval :: int
  batchSize :: int
  dropPolicy :: DropPolicy
  onError :: "nat option"

definition Millisecond :: int where "Millisecond = 1000000"
definition Second :: int where "Second = 1000000000"

definition defaultWriteTimeout :: int where "defaultWriteTimeout = 100 * Millisecond"
definition defaultReconnectInterval :: int where "defaultReconnectInterval = 100 * Millisecond"
definition defaultMaxReconnect :: int where "defaultMaxReconnect = 3 * Second"
definition defaultMaxRetries :: int where "defaultMaxRetries = 30"
definition defaultBufferSize :: int where "defaultBufferSize = 4096"
definition defaultFlushInterval :: int where "defaultFlushInterval = 200 * Millisecond"
definition defaultBatchSize :: int where "defaultBatchSize = 128"
definition maxBufferSize :: int where "maxBufferSize = 16777216"

lemmas default_defs = Millisecond_def Second_def defaultWriteTimeout_def
  defaultReconnectInterval_def defaultMaxReconnect_def defaultMaxRetries_def
  defaultBufferSize_def defaultFlushInterval_def defaultBatchSize_def maxBufferSize_def

definition defaultConfig :: config where
  "defaultConfig =
    \<lparr>mode = ModeSync, writeTimeout = defaultWriteTimeout,
     reconnectInterval = defaultReconnectInterval, maxReconnect = defaultMaxReconnect,
     maxRetries = defaultMaxRetries, bufferSize = defaultBufferSize,
     flushInterval = defaultFlushInterval, batchSize = defaultBatchSize,
     dropPolicy = DropNewest, onError = None\<rparr>"

type_synonym Option = "config \<Rightarrow> config"

definition WithSyncMode :: Option where "WithSyncMode c = c\<lparr>mode := ModeSync\<rparr>"
definition WithAsyncMode :: Option where "WithAsyncMode c = c\<lparr>mode := ModeAsync\<rparr>"
definition WithWriteTimeout :: "int \<Rightarrow> Option" where
  "WithWriteTimeout d c = c\<lparr>writeTimeout := d\<rparr>"
definition WithBufferSize :: "int \<Rightarrow> Option" where
  "WithBufferSize n c = c\<lparr>bufferSize := n\<rparr>"
definition WithBatchSize :: "int \<Rightarrow> Option" where
  "WithBatchSize n c = c\<lparr>batchSize := n\<rparr>"
definition WithFlushInterval :: "int \<Rightarrow> Option" where
  "WithFlushInterval d c = c\<lparr>flushInterval := d\<rparr>"
definition WithDropPolicy :: "DropPolicy \<Rightarrow> Option" where
  "WithDropPolicy p c = c\<lparr>dropPolicy := p\<rparr>"
definition WithMaxRetries :: "int \<Rightarrow> Option" where
  "WithMaxRetries n c = c\<lparr>maxRetries := n\<rparr>"
definition WithReconnect :: "int \<Rightarrow> int \<Rightarrow> Option" where
  "WithReconnect initial maxInterval c =
     c\<lparr>reconnectInterval := initial, maxReconnect := maxInterval\<rparr>"
definition WithErrorHandler :: "nat option \<Rightarrow> Option" where
  "WithErrorHandler fn c = c\<lparr>onError := fn\<rparr>"

definition normalizeConfig :: "config \<Rightarrow> config" where
  "normalizeConfig c0 =
     (let c1 = (if writeTimeout c0 \<le> 0 then c0\<lparr>writeTimeout := defaultWriteTimeout\<rparr> else c0);
          c2 = (if reconnectInterval c1 \<le> 0
                then c1\<lparr>reconnectInterval := defaultReconnectInterval\<rparr> else c1);
          c3 = (if maxReconnect c2 \<le> 0 then c2\<lparr>maxReconnect := defaultMaxReconnect\<rparr> else c2);
          c4 = (if maxRetries c3 \<le> 0 then c3\<lparr>maxRetries := defaultMaxRetries\<rparr> else c3);
          c5 = (if bufferSize c4 \<le> 0 then c4\<lparr>bufferSize := defaultBufferSize\<rparr>
                else if bufferSize c4 > maxBufferSize then c4\<lparr>bufferSize := maxBufferSize\<rparr>
                else c4);
          c6 = (if flushInterval c5 \<le> 0 then c5\<lparr>flushInterval := defaultFlushInterval\<rparr> else c5);
          c7 = (if batchSize c6 \<le> 0 then c6\<lparr>batchSize := defaultBatchSize\<rparr> else c6)
      in c7)"

text \<open>The configuration \<^verbatim>\<open>New\<close> builds: defaults, the options in order, normalisation.\<close>

definition applyOptions :: "Option list \<Rightarrow> config" where
  "applyOptions opts = normalizeConfig (foldl (\<lambda>c opt. opt c) defaultConfig opts)"

datatype new_error = ErrNoTransport | ErrNoEncoder | ErrNoFramer

section \<open>Well-formed configurations\<close>

definition config_wf :: "config \<Rightarrow> bool" where
  "config_wf c \<longleftrightarrow> 0 < writeTimeout c \<and> 0 < reconnectInterval c \<and> 0 < maxReconnect c \<and>
     0 < maxRetries c \<and> 0 < bufferSize c \<and> bufferSize c \<le> maxBufferSize \<and>
     0 < flushInterval c \<and> 0 < batchSize c"

lemma normalizeConfig_fields:
  "mode (normalizeConfig c) = mode c"
  "dropPolicy (normalizeConfig c) = dropPolicy c"
  "onError (normalizeConfig c) = onError c"
  "writeTimeout (normalizeConfig c) = (if writeTimeout c \<le> 0 then defaultWriteTimeout else writeTimeout c)"
  "reconnectInterval (normalizeConfig c) =
     (if reconnectInterval c \<le> 0 then defaultReconnectInterval else reconnectInterval c)"
  "maxReconnect (normalizeConfig c) = (if maxReconnect c \<le> 0 then defaultMaxReconnect else maxReconnect c)"
  "maxRetries (normalizeConfig c) = (if maxRetries c \<le> 0 then defaultMaxRetries else maxRetries c)"
  "bufferSize (normalizeConfig c) =
     (if bufferSize c \<le> 0 then defaultBufferSize else min (bufferSize c) maxBufferSize)"
  "flushInterval (normalizeConfig c) = (if flushInterval c \<le> 0 then defaultFlushInterval else flushInterval c)"
  "batchSize (normalizeConfig c) = (if batchSize c \<le> 0 then defaultBatchSize else batchSize c)"
  by (simp_all add: normalizeConfig_def Let_def)

lemma normalizeConfig_wf: "config_wf (normalizeConfig c)"
  by (simp add: config_wf_def normalizeConfig_fields default_defs)

lemma normalizeConfig_id: "config_wf c \<Longrightarrow> normalizeConfig c = c"
  by (rule config.equality) (simp_all add: normalizeConfig_fields config_wf_def)

lemma applyOptions_wf: "config_wf (applyOptions opts)"
  by (simp add: applyOptions_def normalizeConfig_wf)

section \<open>Properties\<close>

text \<open>C40: whatever options a caller passes, the writer's configuration is well formed (every
  timeout, interval, retry count and size positive, the queue capacity at most 2^24);
  normalisation changes nothing in a well-formed configuration and is idempotent, and it
  never touches the mode, the drop policy or the error handler.\<close>

theorem applyOptions_contract:
  "config_wf (applyOptions opts) \<and>
   normalizeConfig (applyOptions opts) = applyOptions opts \<and>
   (let c = foldl (\<lambda>c opt. opt c) defaultConfig opts in
      mode (applyOptions opts) = mode c \<and> dropPolicy (applyOptions opts) = dropPolicy c \<and>
      onError (applyOptions opts) = onError c \<and>
      (config_wf c \<longrightarrow> applyOptions opts = c))"
  using applyOptions_wf [of opts] normalizeConfig_id
  by (simp add: applyOptions_def normalizeConfig_fields Let_def)

theorem applyOptions_contract_witness:
  "config_wf (applyOptions [WithAsyncMode, WithBatchSize 0, WithBufferSize 1099511627776]) \<and>
   mode (applyOptions [WithAsyncMode, WithBatchSize 0, WithBufferSize 1099511627776]) = ModeAsync \<and>
   config_wf (foldl (\<lambda>c opt. opt c) defaultConfig [WithBatchSize 7]) \<and>
   applyOptions [WithBatchSize 7] = defaultConfig\<lparr>batchSize := 7\<rparr>"
proof -
  have wf: "config_wf (foldl (\<lambda>c opt. opt c) defaultConfig [WithBatchSize 7])"
    by (simp add: config_wf_def defaultConfig_def WithBatchSize_def default_defs)
  show ?thesis
    using applyOptions_contract [of "[WithAsyncMode, WithBatchSize 0, WithBufferSize 1099511627776]"]
      applyOptions_contract [of "[WithBatchSize 7]"] wf
    by (simp add: Let_def WithAsyncMode_def WithBatchSize_def WithBufferSize_def)
qed

end
