(* ===== verification/Wire_Interface.thy ===== *)
theory Wire_Interface
  imports Go_Runtime
begin

text \<open>
  \<^verbatim>\<open>encoder.go\<close>: the two interfaces between the writer and a wire format, as locales. An
  \<^verbatim>\<open>Encoder\<close> turns one record into a payload, a \<^verbatim>\<open>Framer\<close> a batch of payloads into one
  frame; both append to a destination buffer the writer reuses. A stream framer also has a
  receiver: parsing the concatenation of any number of frames yields the payloads of all
  batches in order. The formats interpret these locales on their own definitions, and the
  writer's lemmas are proved once here.
\<close>

type_synonym go_error = bytes
type_synonym encode_fn = "bytes \<Rightarrow> bytes \<Rightarrow> (go_error, bytes) result"
type_synonym frame_fn = "bytes \<Rightarrow> bytes list \<Rightarrow> (go_error, bytes) result"

text \<open>\<^verbatim>\<open>passthrough.go\<close>: the identity encoder.\<close>

definition passthrough_Encode :: encode_fn where
  "passthrough_Encode dst record = Inr (dst @ record)"

locale append_encoder =
  fixes Encode :: encode_fn
  assumes encode_append:
    "Encode dst r = (case Encode [] r of Inl e \<Rightarrow> Inl e | Inr p \<Rightarrow> Inr (dst @ p))"

locale append_framer =
  fixes Frame :: frame_fn
  assumes frame_append:
    "Frame dst ps = (case Frame [] ps of Inl e \<Rightarrow> Inl e | Inr f \<Rightarrow> Inr (dst @ f))"
begin

lemma frame_total_any_dst: "(\<exists>f. Frame dst ps = Inr f) \<longleftrightarrow> (\<exists>f. Frame [] ps = Inr f)"
  by (subst frame_append) (auto split: sum.splits)

lemma frame_prefix: "Frame dst ps = Inr f \<Longrightarrow> \<exists>g. f = dst @ g \<and> Frame [] ps = Inr g"
  by (subst (asm) frame_append) (auto split: sum.splits)

end

text \<open>
  \<open>ok\<close> is what the format asks of a payload (an LF-terminated format cannot carry an
  LF), \<open>parse\<close> is the receiver.
\<close>

locale stream_framer = append_framer +
  fixes ok :: "bytes \<Rightarrow> bool"
    and parse :: "bytes \<Rightarrow> bytes list option"
  assumes frame_ok: "\<forall>p\<in>set ps. ok p \<Longrightarrow> \<exists>f. Frame [] ps = Inr f"
    and parse_Nil: "parse [] = Some []"
    and parse_frame: "\<forall>p\<in>set ps. ok p \<Longrightarrow> Frame [] ps = Inr f \<Longrightarrow>
      parse (f @ rest) = map_option (\<lambda>qs. ps @ qs) (parse rest)"
begin

lemma stream_roundtrip:
  assumes "list_all2 (\<lambda>b f. Frame [] b = Inr f) batches frames"
    and "\<forall>b\<in>set batches. \<forall>p\<in>set b. ok p"
  shows "parse (concat frames) = Some (concat batches)"
  using assms
proof (induction batches frames rule: list_all2_induct)
  case Nil
  then show ?case by (simp add: parse_Nil)
next
  case (Cons b bs f fs)
  then show ?case using parse_frame [of b f "concat fs"] by simp
qed

lemma frames_exist:
  assumes "\<forall>b\<in>set batches. \<forall>p\<in>set b. ok p"
  shows "\<exists>frames. list_all2 (\<lambda>b f. Frame [] b = Inr f) batches frames"
  using assms
proof (induction batches)
  case Nil
  show ?case by (rule exI [of _ "[]"]) simp
next
  case (Cons b bs)
  then obtain f fs where "Frame [] b = Inr f" "list_all2 (\<lambda>b f. Frame [] b = Inr f) bs fs"
    using frame_ok [of b] by auto
  then have "list_all2 (\<lambda>b f. Frame [] b = Inr f) (b # bs) (f # fs)" by simp
  then show ?case by blast
qed

end

interpretation passthrough: append_encoder passthrough_Encode
  by unfold_locales (simp add: passthrough_Encode_def)

end
