(* ===== verification/Root_Writer.thy ===== *)
theory Root_Writer
  imports Root_Options Wire_Interface
begin

text \<open>
  \<^verbatim>\<open>writer.go\<close> and \<^verbatim>\<open>transport.go\<close>: the writer's state and its methods as functions on
  that state, one caller at a time. What the network answers (a dial, a deadline, a write) is an
  argument of the method that asks. Interleavings of callers, the flush goroutine, the reconnect
  goroutine and Close are in the theories \<open>Root_Async\<close> and \<open>Root_Conn\<close>.
\<close>

section \<open>Transports\<close>

record transport =
  network :: bytes
  address :: bytes
  dialTimeout :: int

definition defaultDialTimeout :: int where "defaultDialTimeout = 3 * Second"

definition UDS :: "bytes \<Rightarrow> transport" where
  "UDS path = \<lparr>network = str ''unix'', address = path, dialTimeout = defaultDialTimeout\<rparr>"

definition TCP :: "bytes \<Rightarrow> transport" where
  "TCP addr = \<lparr>network = str ''tcp'', address = addr, dialTimeout = defaultDialTimeout\<rparr>"

text \<open>\<^verbatim>\<open>net.Dialer.DialContext\<close> with the timeout, the network and the address is an argument.\<close>

definition Dial :: "(int \<Rightarrow> bytes \<Rightarrow> bytes \<Rightarrow> (go_error, nat) result) \<Rightarrow> transport \<Rightarrow> (go_error, nat) result" where
  "Dial dialer t = dialer (dialTimeout t) (network t) (address t)"

section \<open>State\<close>

text \<open>Connections are numbered in the order they are dialled.\<close>

type_synonym conn = nat

datatype writer_error =
    InitialConnect bytes bytes go_error
  | EncodeFailed go_error
  | FrameFailed go_error
  | ConnectionError go_error
  | FrameBatchFailed go_error

text \<open>
  What a connection received: whole frames, each with the number of logs it carries, and the
  prefix of a frame whose write failed half-way.
\<close>

datatype chunk = Whole bytes nat | Partial bytes

text \<open>
  The fields after \<open>flushDone\<close> record the writer's effects: what went on the wire, each
  piece with its connection, the connections it closed, and the errors it reported, each with the
  handler that got it (none for stderr).
\<close>

record writer =
  w_transport :: transport
  w_enc :: encode_fn
  w_framer :: frame_fn
  w_cfg :: config
  w_conn :: "conn option"
  w_closed :: bool
  w_reconnectCh :: "unit chan"
  w_done :: bool
  w_cancelled :: bool
  w_dropped :: u64
  w_reconnects :: u64
  w_queue :: "bytes chan"
  w_flushDone :: bool
  w_wire :: "(conn \<times> chunk) list"
  w_closedConns :: "conn list"
  w_reported :: "(nat option \<times> writer_error) list"

datatype write_io =
    DeadlineFails go_error
  | WriteFails nat go_error
  | WriteOk

section \<open>Errors, reconnect signals\<close>

definition reportErr :: "writer_error \<Rightarrow> writer \<Rightarrow> writer" where
  "reportErr err w = w\<lparr>w_reported := w_reported w @ [(onError (w_cfg w), err)]\<rparr>"

definition triggerReconnect :: "writer \<Rightarrow> writer" where
  "triggerReconnect w =
     (case try_send (w_reconnectCh w) () of
        Some ch \<Rightarrow> w\<lparr>w_reconnectCh := ch\<rparr>
      | None \<Rightarrow> w)"

function drain_signals :: "unit chan \<Rightarrow> unit chan" where
  "drain_signals ch = (case try_recv ch of Some (_, ch') \<Rightarrow> drain_signals ch' | None \<Rightarrow> ch)"
  by pat_completeness auto
termination
  by (relation "measure (\<lambda>ch. length (buf ch))") (auto simp: try_recv_def split: list.splits)

declare drain_signals.simps [simp del]

definition drainReconnectCh :: "writer \<Rightarrow> writer" where
  "drainReconnectCh w = w\<lparr>w_reconnectCh := drain_signals (w_reconnectCh w)\<rparr>"

definition add_dropped :: "nat \<Rightarrow> writer \<Rightarrow> writer" where
  "add_dropped n w = w\<lparr>w_dropped := w_dropped w + of_nat n\<rparr>"

definition close_conn :: "conn \<Rightarrow> writer \<Rightarrow> writer" where
  "close_conn c w = w\<lparr>w_closedConns := w_closedConns w @ [c]\<rparr>"

definition put_chunk :: "conn \<Rightarrow> chunk \<Rightarrow> writer \<Rightarrow> writer" where
  "put_chunk c ch w = w\<lparr>w_wire := w_wire w @ [(c, ch)]\<rparr>"

section \<open>Construction\<close>

definition New :: "transport option \<Rightarrow> encode_fn option \<Rightarrow> frame_fn option \<Rightarrow> Option list \<Rightarrow>
    (go_error, conn) result \<Rightarrow> (new_error, writer) result" where
  "New t enc framer opts dialed =
     (case (t, enc, framer) of
        (None, _, _) \<Rightarrow> Inl ErrNoTransport
      | (_, None, _) \<Rightarrow> Inl ErrNoEncoder
      | (_, _, None) \<Rightarrow> Inl ErrNoFramer
      | (Some t, Some enc, Some framer) \<Rightarrow>
          (let cfg = applyOptions opts;
               w0 = \<lparr>w_transport = t, w_enc = enc, w_framer = framer, w_cfg = cfg,
                 w_conn = None, w_closed = False, w_reconnectCh = make_chan 1, w_done = False,
                 w_cancelled = False, w_dropped = 0, w_reconnects = 0,
                 w_queue = make_chan (if mode cfg = ModeAsync then nat (bufferSize cfg) else 0),
                 w_flushDone = False, w_wire = [], w_closedConns = [],
                 w_reported = []\<rparr>
           in Inr (case dialed of
                Inl err \<Rightarrow>
                  triggerReconnect (reportErr (InitialConnect (network t) (address t) err) w0)
              | Inr c \<Rightarrow> w0\<lparr>w_conn := Some c\<rparr>)))"

definition hasConn :: "writer \<Rightarrow> bool" where
  "hasConn w \<longleftrightarrow> w_conn w \<noteq> None"

definition IsConnected :: "writer \<Rightarrow> bool" where
  "IsConnected w \<longleftrightarrow> hasConn w \<and> \<not> w_closed w"

definition DroppedLogs :: "writer \<Rightarrow> u64" where "DroppedLogs w = w_dropped w"

definition ReconnectCount :: "writer \<Rightarrow> u64" where "ReconnectCount w = w_reconnects w"

section \<open>Writing a frame\<close>

definition handleWriteError :: "conn \<Rightarrow> go_error \<Rightarrow> writer \<Rightarrow> writer" where
  "handleWriteError failed err w =
     (if w_conn w \<noteq> Some failed then w
      else triggerReconnect (reportErr (ConnectionError err)
             (close_conn failed (w\<lparr>w_conn := None\<rparr>))))"

definition writeFrame :: "write_io \<Rightarrow> bytes \<Rightarrow> nat \<Rightarrow> writer \<Rightarrow> writer" where
  "writeFrame io frame n w =
     (case w_conn w of
        None \<Rightarrow> triggerReconnect (add_dropped n w)
      | Some c \<Rightarrow>
          (case io of
             DeadlineFails err \<Rightarrow> handleWriteError c err (add_dropped n w)
           | WriteFails k err \<Rightarrow>
               handleWriteError c err (add_dropped n (put_chunk c (Partial (take k frame)) w))
           | WriteOk \<Rightarrow> put_chunk c (Whole frame n) w))"

text \<open>
  The pooled buffers are passed with length zero (\<^verbatim>\<open>s.enc[:0]\<close>), so encoder and framer
  start from an empty destination.
\<close>

definition writeSync :: "write_io \<Rightarrow> bytes \<Rightarrow> writer \<Rightarrow> (writer_error, nat) result \<times> writer" where
  "writeSync io p w =
     (case w_enc w [] p of
        Inl err \<Rightarrow> (Inl (EncodeFailed err), w)
      | Inr payload \<Rightarrow>
          (case w_framer w [] [payload] of
             Inl err \<Rightarrow> (Inl (FrameFailed err), w)
           | Inr frame \<Rightarrow> (Inr (length p), writeFrame io frame 1 w)))"

section \<open>The queue\<close>

definition enqueue :: "bytes \<Rightarrow> writer \<Rightarrow> writer" where
  "enqueue payload w =
     (case try_send (w_queue w) payload of
        Some q \<Rightarrow> w\<lparr>w_queue := q\<rparr>
      | None \<Rightarrow>
          if dropPolicy (w_cfg w) = DropOldest then
            (let w1 = (case try_recv (w_queue w) of
                         Some (_, q) \<Rightarrow> add_dropped 1 (w\<lparr>w_queue := q\<rparr>)
                       | None \<Rightarrow> w)
             in case try_send (w_queue w1) payload of
                  Some q \<Rightarrow> w1\<lparr>w_queue := q\<rparr>
                | None \<Rightarrow> add_dropped 1 w1)
          else add_dropped 1 w)"

definition writeAsync :: "bytes \<Rightarrow> writer \<Rightarrow> (writer_error, nat) result \<times> writer" where
  "writeAsync p w =
     (case w_enc w [] p of
        Inl err \<Rightarrow> (Inl (EncodeFailed err), w)
      | Inr payload \<Rightarrow>
          if w_closed w then (Inr (length p), add_dropped 1 w)
          else (Inr (length p), enqueue payload w))"

definition Write :: "write_io \<Rightarrow> bytes \<Rightarrow> writer \<Rightarrow> (writer_error, nat) result \<times> writer" where
  "Write io p w =
     (if w_closed w then (Inr (length p), w)
      else if mode (w_cfg w) = ModeAsync then writeAsync p w
      else writeSync io p w)"

section \<open>Flushing\<close>

definition flush :: "write_io \<Rightarrow> bytes list \<Rightarrow> writer \<Rightarrow> writer" where
  "flush io batch w =
     (if length batch = 0 then w
      else case w_framer w [] batch of
        Inl err \<Rightarrow> reportErr (FrameBatchFailed err) (add_dropped (length batch) w)
      | Inr frame \<Rightarrow> writeFrame io frame (length batch) w)"

function drain :: "bytes list \<Rightarrow> writer \<Rightarrow> bytes list \<times> writer" where
  "drain batch w =
     (if int (length batch) < batchSize (w_cfg w) then
        (case try_recv (w_queue w) of
           Some (p, q) \<Rightarrow> drain (batch @ [p]) (w\<lparr>w_queue := q\<rparr>)
         | None \<Rightarrow> (batch, w))
      else (batch, w))"
  by pat_completeness auto
termination
  by (relation "measure (\<lambda>(batch, w). length (buf (w_queue w)))")
    (auto simp: try_recv_def split: list.splits)

declare drain.simps [simp del]

text \<open>
  The network answers of a whole flush are given in advance: the \<open>k\<close>th write of the loop
  gets \<open>ios k\<close>.
\<close>

lemma drain_shrinks:
  "drain batch w = (b, w') \<Longrightarrow>
     length b + length (buf (w_queue w')) = length batch + length (buf (w_queue w))"
proof (induction batch w rule: drain.induct)
  case (1 batch w)
  show ?case
  proof (cases "int (length batch) < batchSize (w_cfg w)")
    case True
    show ?thesis
    proof (cases "try_recv (w_queue w)")
      case None
      with True "1.prems" show ?thesis by (simp add: drain.simps [of batch w])
    next
      case (Some pq)
      obtain p q where pq: "pq = (p, q)" by (cases pq)
      with Some True "1.prems" have "drain (batch @ [p]) (w\<lparr>w_queue := q\<rparr>) = (b, w')"
        by (simp add: drain.simps [of batch w])
      from "1.IH" [OF True Some pq [symmetric] this] show ?thesis
        using Some pq by (auto simp: try_recv_buf)
    qed
  next
    case False
    with "1.prems" show ?thesis by (simp add: drain.simps [of batch w])
  qed
qed

lemma flush_queue: "w_queue (flush io batch w) = w_queue w"
  by (auto simp: flush_def writeFrame_def handleWriteError_def reportErr_def add_dropped_def
      put_chunk_def close_conn_def triggerReconnect_def split: sum.splits option.splits write_io.splits)

function flushAll :: "(nat \<Rightarrow> write_io) \<Rightarrow> nat \<Rightarrow> bytes list \<Rightarrow> writer \<Rightarrow> writer" where
  "flushAll ios k batch w =
     (case drain batch w of
        (b, w') \<Rightarrow> if length b = 0 then w' else flushAll ios (Suc k) [] (flush (ios k) b w'))"
  by pat_completeness auto
termination
proof (relation "measure (\<lambda>(ios, k, batch, w). length batch + length (buf (w_queue w)))", goal_cases)
  case (2 ios k batch w b w')
  then have "0 < length b" by simp
  with drain_shrinks [OF 2(1) [symmetric]]
  have "length (buf (w_queue w')) < length batch + length (buf (w_queue w))" by linarith
  then show ?case by (simp add: flush_queue)
qed simp

declare flushAll.simps [simp del]

section \<open>Reconnecting\<close>

definition tryConnect :: "(go_error, conn) result \<Rightarrow> writer \<Rightarrow> bool \<times> writer" where
  "tryConnect dialed w =
     (case dialed of
        Inl _ \<Rightarrow> (False, w)
      | Inr c \<Rightarrow>
          if w_closed w then (False, close_conn c w)
          else case w_conn w of
            None \<Rightarrow> (True, w\<lparr>w_conn := Some c\<rparr>)
          | Some old \<Rightarrow> (True, close_conn old (w\<lparr>w_conn := Some c\<rparr>)))"

lemma tryConnect_cfg: "tryConnect d w = (b, w') \<Longrightarrow> w_cfg w' = w_cfg w"
  by (auto simp: tryConnect_def close_conn_def split: sum.splits if_splits option.splits)

text \<open>
  One attempt of the reconnect burst sees: whether the writer was closed before it, what the
  dial returned, and whether the writer was closed during the sleep after it.
\<close>

record attempt_env =
  closedBefore :: bool
  dialResult :: "(go_error, conn) result"
  closedInSleep :: bool

datatype burst_end = Connected | GaveUp | Exited

definition next_backoff :: "config \<Rightarrow> int \<Rightarrow> int" where
  "next_backoff cfg backoff = min (wrap64 (backoff * 2)) (maxReconnect cfg)"

text \<open>
  The inner loop of \<^verbatim>\<open>reconnectLoop\<close>: attempts up to \<^verbatim>\<open>maxRetries\<close>, the sleeps
  between them, and how the burst ended.
\<close>

function reconnect_attempts ::
  "(int \<Rightarrow> attempt_env) \<Rightarrow> int \<Rightarrow> int \<Rightarrow> writer \<Rightarrow> burst_end \<times> int list \<times> writer" where
  "reconnect_attempts env attempt backoff w =
     (if attempt \<le> maxRetries (w_cfg w) then
        (if closedBefore (env attempt) then (Exited, [], w)
         else case tryConnect (dialResult (env attempt)) w of
           (True, w1) \<Rightarrow> (Connected, [], w1\<lparr>w_reconnects := w_reconnects w1 + 1\<rparr>)
         | (False, w1) \<Rightarrow>
             if attempt < maxRetries (w_cfg w1) then
               (if closedInSleep (env attempt) then (Exited, [backoff], w1)
                else case reconnect_attempts env (attempt + 1) (next_backoff (w_cfg w1) backoff) w1 of
                  (r, sleeps, w2) \<Rightarrow> (r, backoff # sleeps, w2))
             else (GaveUp, [], w1))
      else (GaveUp, [], w))"
  by pat_completeness auto

termination
  by (relation "measure (\<lambda>(env, attempt, backoff, w). nat (maxRetries (w_cfg w) + 1 - attempt))")
    (auto dest!: tryConnect_cfg [OF sym])

declare reconnect_attempts.simps [simp del]

text \<open>One turn of the reconnect loop after a signal was received.\<close>

definition reconnect_turn :: "(int \<Rightarrow> attempt_env) \<Rightarrow> writer \<Rightarrow> burst_end \<times> int list \<times> writer" where
  "reconnect_turn env w =
     (let w1 = drainReconnectCh w in
      if hasConn w1 then (Connected, [], w1)
      else reconnect_attempts env 1 (reconnectInterval (w_cfg w1)) w1)"

section \<open>The loop of the flush goroutine, Sync and Close\<close>

text \<open>
  One turn of \<^verbatim>\<open>flushLoop\<close>, by the case its \<^verbatim>\<open>select\<close> chose; the result is the
  batch carried to the next turn, or none when the loop returned.
\<close>

datatype flush_event = OnDone | OnFlushReq | OnTick | OnPayload

definition flushLoop_turn :: "flush_event \<Rightarrow> (nat \<Rightarrow> write_io) \<Rightarrow> bytes list \<Rightarrow> writer \<Rightarrow>
    bytes list option \<times> writer" where
  "flushLoop_turn ev ios batch w =
     (case ev of
        OnDone \<Rightarrow> (None, (flushAll ios 0 batch w)\<lparr>w_flushDone := True\<rparr>)
      | OnFlushReq \<Rightarrow> (Some [], flushAll ios 0 batch w)
      | OnTick \<Rightarrow> (case drain batch w of (b, w1) \<Rightarrow> (Some [], flush (ios 0) b w1))
      | OnPayload \<Rightarrow>
          (case try_recv (w_queue w) of
             None \<Rightarrow> (Some batch, w)
           | Some (p, q) \<Rightarrow>
               (case drain (batch @ [p]) (w\<lparr>w_queue := q\<rparr>) of
                  (b, w1) \<Rightarrow>
                    if int (length b) \<ge> batchSize (w_cfg w1) then (Some [], flush (ios 0) b w1)
                    else (Some b, w1))))"

text \<open>
  \<^verbatim>\<open>Sync\<close> and \<^verbatim>\<open>Close\<close> with the flush goroutine waiting in its \<^verbatim>\<open>select\<close> with
  \<open>batch\<close> in hand and no other caller inside the writer; \<open>closeErr\<close> is what
  closing the connection returns.
\<close>

definition Sync :: "(nat \<Rightarrow> write_io) \<Rightarrow> bytes list \<Rightarrow> writer \<Rightarrow> bytes list option \<times> writer" where
  "Sync ios batch w =
     (if mode (w_cfg w) \<noteq> ModeAsync \<or> w_closed w then (Some batch, w)
      else if w_done w then (Some batch, w)
      else flushLoop_turn OnFlushReq ios batch w)"

definition Close :: "(nat \<Rightarrow> write_io) \<Rightarrow> go_error option \<Rightarrow> bytes list \<Rightarrow> writer \<Rightarrow>
    go_error option \<times> writer" where
  "Close ios closeErr batch w =
     (if w_closed w then (None, w)
      else
        (let w1 = w\<lparr>w_closed := True\<rparr>;
             w2 = w1\<lparr>w_cancelled := True, w_done := True\<rparr>;
             w3 = (if mode (w_cfg w2) = ModeAsync then snd (flushLoop_turn OnDone ios batch w2) else w2)
         in case w_conn w3 of
              Some c \<Rightarrow> (closeErr, close_conn c (w3\<lparr>w_conn := None\<rparr>))
            | None \<Rightarrow> (None, w3\<lparr>w_conn := None\<rparr>)))"

section \<open>What each method touches\<close>

lemmas effect_defs = reportErr_def add_dropped_def put_chunk_def close_conn_def triggerReconnect_def
  handleWriteError_def writeFrame_def

definition frame_logs :: "chunk \<Rightarrow> nat" where
  "frame_logs ch = (case ch of Whole _ n \<Rightarrow> n | Partial _ \<Rightarrow> 0)"

definition shipped :: "writer \<Rightarrow> nat" where
  "shipped w = (\<Sum>(c, ch) \<leftarrow> w_wire w. frame_logs ch)"

text \<open>Logs the writer answered for: counted as dropped or in a whole frame on some connection.\<close>

definition settled :: "writer \<Rightarrow> u64" where
  "settled w = w_dropped w + of_nat (shipped w)"

definition writer_wf :: "writer \<Rightarrow> bool" where
  "writer_wf w \<longleftrightarrow> config_wf (w_cfg w) \<and> length (buf (w_queue w)) \<le> cap (w_queue w) \<and>
     cap (w_queue w) = (if mode (w_cfg w) = ModeAsync then nat (bufferSize (w_cfg w)) else 0) \<and>
     cap (w_reconnectCh w) = 1 \<and> length (buf (w_reconnectCh w)) \<le> 1"

text \<open>The part of the state the write path never touches.\<close>

definition static :: "writer \<Rightarrow> config \<times> encode_fn \<times> frame_fn \<times> bool \<times> bool \<times> bytes chan" where
  "static w = (w_cfg w, w_enc w, w_framer w, w_closed w, w_done w, w_queue w)"

lemma triggerReconnect_fields [simp]:
  "static (triggerReconnect w) = static w" "w_wire (triggerReconnect w) = w_wire w"
  "w_dropped (triggerReconnect w) = w_dropped w" "w_conn (triggerReconnect w) = w_conn w"
  "shipped (triggerReconnect w) = shipped w"
  "settled (triggerReconnect w) = settled w"
  "writer_wf (triggerReconnect w) = writer_wf w"
  by (auto simp: triggerReconnect_def static_def shipped_def settled_def writer_wf_def try_send_def
      split: option.splits if_splits)

lemma writeFrame_static [simp]: "static (writeFrame io frame n w) = static w"
  by (auto simp: effect_defs static_def split: option.splits write_io.splits)

lemma writeFrame_settled: "settled (writeFrame io frame n w) = settled w + of_nat n"
  by (auto simp: writeFrame_def handleWriteError_def reportErr_def add_dropped_def put_chunk_def
      close_conn_def settled_def shipped_def frame_logs_def
      split: option.splits write_io.splits)

lemma writeFrame_ok:
  "w_conn w = Some c \<Longrightarrow> writeFrame WriteOk frame n w = w\<lparr>w_wire := w_wire w @ [(c, Whole frame n)]\<rparr>"
  by (simp add: writeFrame_def put_chunk_def)

lemma writer_wf_static:
  "writer_wf w \<Longrightarrow> static w' = static w \<Longrightarrow> cap (w_reconnectCh w') = 1 \<Longrightarrow>
     length (buf (w_reconnectCh w')) \<le> 1 \<Longrightarrow> writer_wf w'"
  by (simp add: writer_wf_def static_def)

lemma writeFrame_wf: "writer_wf w \<Longrightarrow> writer_wf (writeFrame io frame n w)"
  by (auto simp: effect_defs writer_wf_def try_send_def
      split: option.splits write_io.splits if_splits)

lemma flush_static [simp]: "static (flush io batch w) = static w"
  by (auto simp: flush_def static_def reportErr_def add_dropped_def split: sum.splits)
    (metis writeFrame_static static_def Pair_inject)+

lemma flush_settled: "settled (flush io batch w) = settled w + of_nat (length batch)"
  by (auto simp: flush_def writeFrame_settled settled_def shipped_def reportErr_def add_dropped_def
      split: sum.splits)
    (metis settled_def shipped_def writeFrame_settled)

lemma flush_wf: "writer_wf w \<Longrightarrow> writer_wf (flush io batch w)"
  by (auto simp: flush_def writeFrame_wf split: sum.splits)
    (simp add: writer_wf_def reportErr_def add_dropped_def)

section \<open>Draining and flushing\<close>

abbreviation batch_limit :: "writer \<Rightarrow> nat" where
  "batch_limit w \<equiv> nat (batchSize (w_cfg w))"

lemma drain_eq:
  "drain batch w = (let n = batch_limit w - length batch; q = w_queue w in
     (batch @ take n (buf q), w\<lparr>w_queue := q\<lparr>buf := drop n (buf q)\<rparr>\<rparr>))"
proof (induction batch w rule: drain.induct)
  case (1 batch w)
  show ?case
  proof (cases "int (length batch) < batchSize (w_cfg w)")
    case False
    then show ?thesis by (simp add: drain.simps [of batch w])
  next
    case less: True
    show ?thesis
    proof (cases "buf (w_queue w)")
      case Nil
      then have "try_recv (w_queue w) = None" by (simp add: try_recv_def)
      with less Nil show ?thesis by (simp add: drain.simps [of batch w])
    next
      case (Cons p ps)
      then have r: "try_recv (w_queue w) = Some (p, (w_queue w)\<lparr>buf := ps\<rparr>)"
        by (simp add: try_recv_def)
      have n: "batch_limit w - length batch = Suc (batch_limit w - Suc (length batch))"
        using less by simp
      show ?thesis
        using "1.IH" [OF less r refl] less r by (simp add: drain.simps [of batch w] n Cons Let_def)
    qed
  qed
qed

text \<open>Cutting a sequence of logs into batches of \<open>n\<close>.\<close>

fun cut :: "nat \<Rightarrow> 'a list \<Rightarrow> 'a list list" where
  "cut 0 xs = []"
| "cut (Suc n) [] = []"
| "cut (Suc n) (x # xs) = (x # take n xs) # cut (Suc n) (drop n xs)"

lemma concat_cut: "0 < n \<Longrightarrow> concat (cut n xs) = xs"
  by (induction n xs rule: cut.induct) simp_all

lemma cut_sizes: "b \<in> set (cut n xs) \<Longrightarrow> b \<noteq> [] \<and> length b \<le> n"
  by (induction n xs rule: cut.induct) auto

lemma cut_step: "xs \<noteq> [] \<Longrightarrow> 0 < n \<Longrightarrow> cut n xs = take n xs # cut n (drop n xs)"
  by (cases xs; cases n) auto

lemma cut_Nil [simp]: "cut n [] = []"
  by (cases n) auto

text \<open>The writes of \<open>flushAll\<close>, batch by batch.\<close>

fun flush_batches :: "(nat \<Rightarrow> write_io) \<Rightarrow> nat \<Rightarrow> bytes list list \<Rightarrow> writer \<Rightarrow> writer" where
  "flush_batches ios k [] w = w"
| "flush_batches ios k (b # bs) w = flush_batches ios (Suc k) bs (flush (ios k) b w)"

lemma flush_set_queue: "flush io b (w\<lparr>w_queue := q\<rparr>) = (flush io b w)\<lparr>w_queue := q\<rparr>"
  by (auto simp: flush_def effect_defs split: sum.splits option.splits write_io.splits)

lemma flush_batches_static [simp]: "static (flush_batches ios k bs w) = static w"
  by (induction bs arbitrary: k w) auto

lemma flush_cfg [simp]: "w_cfg (flush io b w) = w_cfg w"
  using flush_static [of io b w] by (simp add: static_def)

lemma flush_batches_set_queue:
  "flush_batches ios k bs (w\<lparr>w_queue := q\<rparr>) = (flush_batches ios k bs w)\<lparr>w_queue := q\<rparr>"
  by (induction bs arbitrary: k w) (auto simp: flush_set_queue)

lemma flushAll_eq:
  assumes "0 < batchSize (w_cfg w)" and "length batch \<le> batch_limit w"
  shows "flushAll ios k batch w =
    (flush_batches ios k (cut (batch_limit w) (batch @ buf (w_queue w))) w)
      \<lparr>w_queue := (w_queue w)\<lparr>buf := []\<rparr>\<rparr>"
  using assms
proof (induction ios k batch w rule: flushAll.induct)
  case (1 ios k batch w)
  let ?n = "batch_limit w" and ?m = "batch_limit w - length batch" and ?q = "buf (w_queue w)"
  let ?b = "batch @ take ?m ?q"
  let ?w = "w\<lparr>w_queue := (w_queue w)\<lparr>buf := drop ?m ?q\<rparr>\<rparr>"
  have d: "drain batch w = (?b, ?w)" by (simp add: drain_eq Let_def)
  have take: "take ?n (batch @ ?q) = ?b" and drop: "drop ?n (batch @ ?q) = drop ?m ?q"
    using "1.prems" by simp_all
  show ?case
  proof (cases "?b = []")
    case True
    then have "batch = []" "?q = []" using "1.prems" by (auto simp: take_eq_Nil)
    then show ?thesis using d by (simp add: flushAll.simps [of ios k "[]" w])
  next
    case False
    then have ne: "batch @ ?q \<noteq> []" by auto
    have "flushAll ios k batch w = flushAll ios (Suc k) [] (flush (ios k) ?b ?w)"
      unfolding flushAll.simps [of ios k batch w] d prod.case length_0_conv using False
      by (simp only: if_False)
    also have "\<dots> = (flush_batches ios (Suc k) (cut ?n (drop ?m ?q)) (flush (ios k) ?b ?w))
        \<lparr>w_queue := (w_queue w)\<lparr>buf := []\<rparr>\<rparr>"
      using "1.IH" [OF d [symmetric]] False "1.prems" by (simp add: flush_queue)
    also have "\<dots> = (flush_batches ios k (cut ?n (batch @ ?q)) w)\<lparr>w_queue := (w_queue w)\<lparr>buf := []\<rparr>\<rparr>"
      using cut_step [OF ne, of ?n] "1.prems" unfolding take drop
      by (simp add: flush_set_queue flush_batches_set_queue)
    finally show ?thesis .
  qed
qed

lemma flush_batches_settled:
  "settled (flush_batches ios k bs w) = settled w + of_nat (length (concat bs))"
  by (induction bs arbitrary: k w) (auto simp: flush_settled)

lemma settled_set_queue [simp]: "settled (w\<lparr>w_queue := q\<rparr>) = settled w"
  by (simp add: settled_def shipped_def)

lemma flush_batches_wf: "writer_wf w \<Longrightarrow> writer_wf (flush_batches ios k bs w)"
  by (induction bs arbitrary: k w) (auto simp: flush_wf)

lemma flush_batches_ok:
  assumes "w_conn w = Some c" and "\<And>b. b \<in> set bs \<Longrightarrow> b \<noteq> [] \<and> (\<exists>f. w_framer w [] b = Inr f)"
    and "\<And>i. ios i = WriteOk"
  shows "w_conn (flush_batches ios k bs w) = Some c \<and>
    w_dropped (flush_batches ios k bs w) = w_dropped w \<and>
    (\<exists>frames. list_all2 (\<lambda>b f. w_framer w [] b = Inr f) bs frames \<and>
       w_wire (flush_batches ios k bs w) =
         w_wire w @ map2 (\<lambda>b f. (c, Whole f (length b))) bs frames)"
  using assms(1,2)
proof (induction bs arbitrary: k w)
  case Nil
  then show ?case by simp
next
  case (Cons b bs)
  obtain f where f: "w_framer w [] b = Inr f" and b: "b \<noteq> []" using Cons.prems(2) [of b] by auto
  let ?w = "w\<lparr>w_wire := w_wire w @ [(c, Whole f (length b))]\<rparr>"
  have step: "flush (ios k) b w = ?w"
    using Cons.prems(1) assms(3) f b by (simp add: flush_def writeFrame_ok)
  have "w_conn ?w = Some c" and "\<And>b'. b' \<in> set bs \<Longrightarrow> b' \<noteq> [] \<and> (\<exists>f. w_framer ?w [] b' = Inr f)"
    using Cons.prems by auto
  from Cons.IH [OF this, of "Suc k"] obtain frames where
    "w_conn (flush_batches ios (Suc k) bs ?w) = Some c"
    "w_dropped (flush_batches ios (Suc k) bs ?w) = w_dropped w"
    "list_all2 (\<lambda>b f. w_framer w [] b = Inr f) bs frames"
    "w_wire (flush_batches ios (Suc k) bs ?w) =
       w_wire ?w @ map2 (\<lambda>b f. (c, Whole f (length b))) bs frames"
    by auto
  then show ?case
    using f by (intro conjI exI [of _ "f # frames"]) (simp_all add: step)
qed

section \<open>Enqueueing\<close>

lemma enqueue_room:
  "length (buf (w_queue w)) < cap (w_queue w) \<Longrightarrow>
     enqueue p w = w\<lparr>w_queue := (w_queue w)\<lparr>buf := buf (w_queue w) @ [p]\<rparr>\<rparr>"
  by (simp add: enqueue_def try_send_def)

lemma enqueue_full_newest:
  "cap (w_queue w) \<le> length (buf (w_queue w)) \<Longrightarrow> dropPolicy (w_cfg w) = DropNewest \<Longrightarrow>
     enqueue p w = add_dropped 1 w"
  by (simp add: enqueue_def try_send_def)

lemma enqueue_full_oldest:
  assumes "length (buf (w_queue w)) = cap (w_queue w)" and "0 < cap (w_queue w)"
    and "dropPolicy (w_cfg w) = DropOldest"
  shows "enqueue p w =
    add_dropped 1 (w\<lparr>w_queue := (w_queue w)\<lparr>buf := tl (buf (w_queue w)) @ [p]\<rparr>\<rparr>)"
proof -
  obtain y ys where q: "buf (w_queue w) = y # ys" using assms by (cases "buf (w_queue w)") auto
  then have "try_recv (w_queue w) = Some (y, (w_queue w)\<lparr>buf := ys\<rparr>)" by (simp add: try_recv_def)
  moreover have "Suc (length ys) = cap (w_queue w)" using assms q by simp
  then have "length ys < cap (w_queue w)" by simp
  ultimately show ?thesis using assms q by (simp add: enqueue_def try_send_def add_dropped_def)
qed

lemma writer_wf_add_dropped [simp]: "writer_wf (add_dropped n w) = writer_wf w"
  by (simp add: writer_wf_def add_dropped_def)

lemma writer_wf_async:
  assumes "writer_wf w" and "mode (w_cfg w) = ModeAsync"
  shows "0 < cap (w_queue w)" and "length (buf (w_queue w)) \<le> cap (w_queue w)"
    and "0 < batchSize (w_cfg w)"
  using assms by (auto simp: writer_wf_def config_wf_def)

lemma enqueue_cases:
  assumes "writer_wf w" and "mode (w_cfg w) = ModeAsync"
  obtains (room) "length (buf (w_queue w)) < cap (w_queue w)"
      "enqueue p w = w\<lparr>w_queue := (w_queue w)\<lparr>buf := buf (w_queue w) @ [p]\<rparr>\<rparr>"
  | (newest) "length (buf (w_queue w)) = cap (w_queue w)" "dropPolicy (w_cfg w) = DropNewest"
      "enqueue p w = add_dropped 1 w"
  | (oldest) "length (buf (w_queue w)) = cap (w_queue w)" "dropPolicy (w_cfg w) = DropOldest"
      "enqueue p w =
         add_dropped 1 (w\<lparr>w_queue := (w_queue w)\<lparr>buf := tl (buf (w_queue w)) @ [p]\<rparr>\<rparr>)"
  using writer_wf_async [OF assms] enqueue_room [of w p] enqueue_full_newest [of w p]
    enqueue_full_oldest [of w p]
  by (cases "dropPolicy (w_cfg w)") (auto simp: le_less)

lemma enqueue_wf: "writer_wf w \<Longrightarrow> mode (w_cfg w) = ModeAsync \<Longrightarrow> writer_wf (enqueue p w)"
  by (rule enqueue_cases [of w p])
    (use writer_wf_async(1) [of w] in \<open>auto simp: writer_wf_def add_dropped_def\<close>)

lemma Write_wf: "writer_wf w \<Longrightarrow> writer_wf (snd (Write io p w))"
  by (auto simp: Write_def writeAsync_def writeSync_def writeFrame_wf enqueue_wf split: sum.splits)

lemma drain_wf: "writer_wf w \<Longrightarrow> writer_wf (snd (drain batch w))"
  by (auto simp: drain_eq Let_def writer_wf_def)

lemma writer_wf_set_queue:
  "writer_wf w \<Longrightarrow> cap q = cap (w_queue w) \<Longrightarrow> length (buf q) \<le> cap q \<Longrightarrow>
     writer_wf (w\<lparr>w_queue := q\<rparr>)"
  by (simp add: writer_wf_def)

lemma flushAll_wf:
  assumes "writer_wf w" and "length batch \<le> batch_limit w"
  shows "writer_wf (flushAll ios k batch w)"
proof -
  let ?w = "flush_batches ios k (cut (batch_limit w) (batch @ buf (w_queue w))) w"
  have "w_queue ?w = w_queue w" using flush_batches_static [of ios k _ w] by (simp add: static_def)
  moreover have "0 < batchSize (w_cfg w)" using assms(1) by (simp add: writer_wf_def config_wf_def)
  ultimately show ?thesis
    using flushAll_eq [OF _ assms(2), of ios k] flush_batches_wf [OF assms(1)]
    by (simp add: writer_wf_set_queue)
qed

lemma flushLoop_turn_wf:
  assumes "writer_wf w" and "length batch \<le> batch_limit w"
  shows "writer_wf (snd (flushLoop_turn ev ios batch w))"
    and "fst (flushLoop_turn ev ios batch w) = Some b \<Longrightarrow>
      length b \<le> batch_limit (snd (flushLoop_turn ev ios batch w))"
proof -
  have recv: "writer_wf (w\<lparr>w_queue := q\<rparr>)" if "try_recv (w_queue w) = Some (x, q)" for x q
    using assms(1) that by (auto simp: try_recv_buf intro!: writer_wf_set_queue) (simp add: writer_wf_def)
  have wf: "writer_wf w1" if "drain b0 w0 = (b1, w1)" "writer_wf w0" for b0 w0 b1 w1
    using drain_wf [OF that(2), of b0] that(1) by simp
  have flushDone: "writer_wf (v\<lparr>w_flushDone := x\<rparr>) = writer_wf v" for v x
    by (simp add: writer_wf_def)
  show "writer_wf (snd (flushLoop_turn ev ios batch w))"
    by (cases ev) (auto simp: flushLoop_turn_def flushDone flushAll_wf assms flush_wf
        split: prod.splits option.splits dest: wf recv)
  show "length b \<le> batch_limit (snd (flushLoop_turn ev ios batch w))"
    if "fst (flushLoop_turn ev ios batch w) = Some b"
    using that assms(2) by (cases ev) (auto simp: flushLoop_turn_def split: prod.splits option.splits if_splits)
qed

lemma flushAll_empties:
  assumes "0 < batchSize (w_cfg w)" and "length batch \<le> batch_limit w"
  shows "buf (w_queue (flushAll ios k batch w)) = []"
    and "settled (flushAll ios k batch w) =
      settled w + of_nat (length batch) + of_nat (length (buf (w_queue w)))"
    and "w_closed (flushAll ios k batch w) = w_closed w" "w_done (flushAll ios k batch w) = w_done w"
    and "w_cfg (flushAll ios k batch w) = w_cfg w"
  using assms flush_batches_static [of ios k _ w]
  by (simp_all add: flushAll_eq flush_batches_settled concat_cut static_def)

lemma tryConnect_wf: "tryConnect d w = (b, w') \<Longrightarrow> writer_wf w \<Longrightarrow> writer_wf w'"
  by (auto simp: tryConnect_def close_conn_def writer_wf_def split: sum.splits if_splits option.splits)

lemma reconnect_attempts_wf:
  "writer_wf w \<Longrightarrow> writer_wf (snd (snd (reconnect_attempts env attempt backoff w)))"
proof (induction env attempt backoff w rule: reconnect_attempts.induct)
  case (1 env attempt backoff w)
  have cnt: "writer_wf (v\<lparr>w_reconnects := x\<rparr>) = writer_wf v" for v x by (simp add: writer_wf_def)
  obtain ok w1 where t: "tryConnect (dialResult (env attempt)) w = (ok, w1)" by fastforce
  then have "writer_wf w1" using tryConnect_wf "1.prems" by blast
  with 1 t show ?case
    by (subst reconnect_attempts.simps) (auto simp: cnt split: prod.splits bool.splits)
qed

lemma drain_signals_buf: "buf (drain_signals ch) = [] \<and> cap (drain_signals ch) = cap ch"
proof (induction ch rule: drain_signals.induct)
  case (1 ch)
  show ?case
  proof (cases "try_recv ch")
    case None
    then show ?thesis using gochan.recv_None [of ch] by (simp add: drain_signals.simps [of ch])
  next
    case (Some xq)
    obtain x q where xq: "xq = (x, q)" by (cases xq)
    then show ?thesis
      using Some "1.IH" [OF Some xq [symmetric]] gochan.recv_Some [of ch x q]
      by (simp add: drain_signals.simps [of ch])
  qed
qed

lemma reconnect_turn_wf: "writer_wf w \<Longrightarrow> writer_wf (snd (snd (reconnect_turn env w)))"
proof -
  assume "writer_wf w"
  then have "writer_wf (drainReconnectCh w)"
    using drain_signals_buf [of "w_reconnectCh w"] by (simp add: writer_wf_def drainReconnectCh_def)
  then show ?thesis by (simp add: reconnect_turn_def Let_def reconnect_attempts_wf)
qed

lemma close_conn_wf [simp]: "writer_wf (close_conn c w) = writer_wf w"
  by (simp add: close_conn_def writer_wf_def)

lemma Close_wf:
  assumes "writer_wf w" and "length batch \<le> batch_limit w"
  shows "writer_wf (snd (Close ios e batch w))"
proof -
  have flags: "writer_wf (v\<lparr>w_closed := x, w_cancelled := y, w_done := z\<rparr>) = writer_wf v"
    "writer_wf (v\<lparr>w_conn := oc\<rparr>) = writer_wf v" for v x y z oc by (auto simp: writer_wf_def)
  show ?thesis
    using assms flushLoop_turn_wf(1) [of "w\<lparr>w_closed := True, w_cancelled := True, w_done := True\<rparr>" batch OnDone ios]
    by (auto simp: Close_def Let_def flags split: option.splits)
qed

section \<open>Backoff\<close>

text \<open>The sleeps the loop means to take: the initial interval, then doubling up to the ceiling.\<close>

fun doubling :: "int \<Rightarrow> int \<Rightarrow> nat \<Rightarrow> int list" where
  "doubling d m 0 = []"
| "doubling d m (Suc n) = d # doubling (min (d * 2) m) m n"

lemma min_mult_absorb:
  assumes "1 \<le> p" and "0 \<le> (m::int)"
  shows "min (min x m * p) m = min (x * p) m"
proof (cases "x \<le> m")
  case False
  have "m * 1 \<le> m * p" using assms by (intro mult_left_mono)
  moreover have "m * p \<le> x * p" using False assms by (intro mult_right_mono) auto
  ultimately have "m \<le> m * p" "m \<le> x * p" by linarith+
  then show ?thesis using False by (simp only: min_absorb2 linear)
qed (simp add: min_def)

lemma doubling_nth: "0 \<le> d \<Longrightarrow> 0 \<le> m \<Longrightarrow> Suc i < n \<Longrightarrow> doubling d m n ! Suc i = min (d * 2 ^ Suc i) m"
proof (induction i arbitrary: d n)
  case 0
  then show ?case by (cases n; cases "n - 1") auto
next
  case (Suc i)
  then obtain k where "n = Suc k" "Suc i < k" by (cases n) auto
  with Suc.IH [of "min (d * 2) m" k] Suc.prems
  have "doubling d m n ! Suc (Suc i) = min (min (d * 2) m * 2 ^ Suc i) m" by simp
  also have "\<dots> = min (d * 2 * 2 ^ Suc i) m"
    using Suc.prems(2) by (intro min_mult_absorb one_le_power) simp_all
  finally show ?case by simp
qed

lemma length_doubling [simp]: "length (doubling d m n) = n"
  by (induction n arbitrary: d) auto

lemma next_backoff_small:
  "0 < d \<Longrightarrow> d < 2 ^ 62 \<Longrightarrow> next_backoff cfg d = min (d * 2) (maxReconnect cfg)"
  by (simp add: next_backoff_def wrap64_id)

lemma reconnect_attempts_spec:
  assumes "reconnect_attempts env attempt d w = (r, sleeps, w')"
    and "0 < d" "d < 2 ^ 62" "0 < maxReconnect (w_cfg w)" "maxReconnect (w_cfg w) < 2 ^ 62"
    and "w_conn w = None" "attempt \<le> maxRetries (w_cfg w)"
  shows "sleeps = doubling d (maxReconnect (w_cfg w)) (length sleeps) \<and>
    int (length sleeps) \<le> maxRetries (w_cfg w) - attempt \<and>
    (r = Connected \<longrightarrow> (\<exists>c. w_conn w' = Some c \<and>
       dialResult (env (attempt + int (length sleeps))) = Inr c) \<and>
       w_reconnects w' = w_reconnects w + 1 \<and> \<not> w_closed w) \<and>
    (r \<noteq> Connected \<longrightarrow> w_conn w' = None \<and> w_reconnects w' = w_reconnects w) \<and>
    (r = GaveUp \<longrightarrow> (\<forall>i\<in>{attempt..maxRetries (w_cfg w)}.
       \<not> closedBefore (env i) \<and> (w_closed w \<or> (\<exists>e. dialResult (env i) = Inl e))))"
  using assms
proof (induction env attempt d w arbitrary: r sleeps w' rule: reconnect_attempts.induct)
  case (1 env attempt d w)
  let ?m = "maxReconnect (w_cfg w)"
  show ?case
  proof (cases "closedBefore (env attempt)")
    case True
    with "1.prems" show ?thesis by (subst (asm) reconnect_attempts.simps) auto
  next
    case opn: False
    obtain ok w1 where t: "tryConnect (dialResult (env attempt)) w = (ok, w1)" by fastforce
    show ?thesis
    proof (cases ok)
      case True
      then obtain c where c: "dialResult (env attempt) = Inr c" "\<not> w_closed w" "w1 = w\<lparr>w_conn := Some c\<rparr>"
        using t "1.prems"(6) by (auto simp: tryConnect_def split: sum.splits if_splits)
      with "1.prems" opn t True show ?thesis by (subst (asm) reconnect_attempts.simps) auto
    next
      case fail: False
      then have w1: "w_conn w1 = None" "w_reconnects w1 = w_reconnects w" "w_cfg w1 = w_cfg w"
        "w_closed w1 = w_closed w" "w_closed w \<or> (\<exists>e. dialResult (env attempt) = Inl e)"
        using t "1.prems"(6) by (auto simp: tryConnect_def close_conn_def split: sum.splits if_splits)
      show ?thesis
      proof (cases "attempt < maxRetries (w_cfg w) \<and> \<not> closedInSleep (env attempt)")
        case False
        with "1.prems" opn t fail w1 show ?thesis
          by (subst (asm) reconnect_attempts.simps) (auto split: if_splits)
      next
        case True
        obtain s2 where rec: "reconnect_attempts env (attempt + 1) (next_backoff (w_cfg w1) d) w1 = (r, s2, w')"
          and s2: "sleeps = d # s2"
          using "1.prems"(1,7) opn t fail w1 True
          by (subst (asm) (2) reconnect_attempts.simps) (auto split: prod.splits)
        have nb: "next_backoff (w_cfg w) d = min (d * 2) ?m"
          using "1.prems" by (simp add: next_backoff_small)
        have ih: "s2 = doubling (min (d * 2) ?m) ?m (length s2) \<and>
            int (length s2) \<le> maxRetries (w_cfg w) - (attempt + 1) \<and>
            (r = Connected \<longrightarrow> (\<exists>c. w_conn w' = Some c \<and>
               dialResult (env (attempt + 1 + int (length s2))) = Inr c) \<and>
               w_reconnects w' = w_reconnects w + 1 \<and> \<not> w_closed w) \<and>
            (r \<noteq> Connected \<longrightarrow> w_conn w' = None \<and> w_reconnects w' = w_reconnects w) \<and>
            (r = GaveUp \<longrightarrow> (\<forall>i\<in>{attempt + 1..maxRetries (w_cfg w)}.
               \<not> closedBefore (env i) \<and> (w_closed w \<or> (\<exists>e. dialResult (env i) = Inl e))))"
          using "1.IH" [OF "1.prems"(7) opn t [symmetric], of r s2 w'] rec fail "1.prems" True w1
          by (simp add: nb min_less_iff_disj)
        have range: "{attempt..maxRetries (w_cfg w)} = insert attempt {attempt + 1..maxRetries (w_cfg w)}"
          using True by auto
        show ?thesis
          using ih w1(5) opn unfolding range s2 by (simp add: algebra_simps)
      qed
    qed
  qed
qed

section \<open>Properties\<close>

lemma New_wf: "New t enc framer opts d = Inr w \<Longrightarrow> writer_wf w"
  using applyOptions_wf [of opts]
  by (auto simp: New_def Let_def reportErr_def writer_wf_def triggerReconnect_def try_send_def
      split: option.splits sum.splits if_splits)

text \<open>New reports the first missing argument in the order transport, encoder, framer and
  otherwise returns a well-formed writer with empty queue and zero counters; it is connected
  exactly when the first dial succeeded, and when it failed the failure was reported once and a
  reconnect is already requested.\<close>

theorem New_contract:
  "(New t enc framer opts d = Inl ErrNoTransport \<longleftrightarrow> t = None) \<and>
   (New t enc framer opts d = Inl ErrNoEncoder \<longleftrightarrow> t \<noteq> None \<and> enc = None) \<and>
   (New t enc framer opts d = Inl ErrNoFramer \<longleftrightarrow> t \<noteq> None \<and> enc \<noteq> None \<and> framer = None) \<and>
   (\<forall>w. New t enc framer opts d = Inr w \<longrightarrow>
      writer_wf w \<and> \<not> w_closed w \<and> buf (w_queue w) = [] \<and> DroppedLogs w = 0 \<and> ReconnectCount w = 0 \<and>
      w_wire w = [] \<and> IsConnected w = (\<exists>c. d = Inr c) \<and>
      (\<forall>err. d = Inl err \<longrightarrow> buf (w_reconnectCh w) = [()] \<and>
         w_reported w = [(onError (applyOptions opts),
           InitialConnect (network (the t)) (address (the t)) err)]) \<and>
      (\<forall>c. d = Inr c \<longrightarrow> w_conn w = Some c \<and> buf (w_reconnectCh w) = [] \<and> w_reported w = []))"
proof -
  have "writer_wf w" if "New t enc framer opts d = Inr w" for w using New_wf [OF that] .
  then show ?thesis
    by (auto simp: New_def Let_def reportErr_def triggerReconnect_def try_send_def make_chan_def
        IsConnected_def hasConn_def DroppedLogs_def ReconnectCount_def split: option.splits sum.splits)
qed

definition concat_framer :: frame_fn where
  "concat_framer dst ps = Inr (dst @ concat ps)"

definition sample_writer :: "Option list \<Rightarrow> writer" where
  "sample_writer opts =
     projr (New (Some (TCP [])) (Some passthrough_Encode) (Some concat_framer) opts (Inr 0))"

lemma sample_writer_eq:
  "sample_writer opts = \<lparr>w_transport = TCP [], w_enc = passthrough_Encode, w_framer = concat_framer,
     w_cfg = applyOptions opts, w_conn = Some 0, w_closed = False, w_reconnectCh = make_chan 1,
     w_done = False, w_cancelled = False, w_dropped = 0, w_reconnects = 0,
     w_queue = make_chan (if mode (applyOptions opts) = ModeAsync then nat (bufferSize (applyOptions opts)) else 0),
     w_flushDone = False, w_wire = [], w_closedConns = [], w_reported = []\<rparr>"
  by (simp add: sample_writer_def New_def Let_def)

lemma sample_writer_wf: "writer_wf (sample_writer opts)"
  by (rule New_wf [of "Some (TCP [])" "Some passthrough_Encode" "Some concat_framer" opts "Inr 0"])
    (simp add: sample_writer_def New_def Let_def)

theorem New_contract_witness:
  "New (Some (UDS (str ''/s''))) None None [] (Inr 0) = Inl ErrNoEncoder \<and>
   writer_wf (sample_writer [WithAsyncMode]) \<and> IsConnected (sample_writer [WithAsyncMode])"
proof -
  have "New (Some (TCP [])) (Some passthrough_Encode) (Some concat_framer) [WithAsyncMode] (Inr 0) =
      Inr (sample_writer [WithAsyncMode])"
    by (simp add: sample_writer_def New_def Let_def)
  then show ?thesis
    using New_contract [of "Some (UDS (str ''/s''))" None None "[]" "Inr 0"]
      New_contract [of "Some (TCP [])" "Some passthrough_Encode" "Some concat_framer" "[WithAsyncMode]" "Inr 0"]
    by simp
qed

text \<open>C12: the writer's state stays well formed under every operation: the queue never exceeds
  the configured buffer size, at most one reconnect signal is pending, and the batch the flush
  goroutine carries from one turn to the next never exceeds the configured batch size.\<close>

theorem writer_state_invariant:
  assumes "writer_wf w" and "length batch \<le> batch_limit w"
  shows "writer_wf (snd (Write io p w)) \<and>
    writer_wf (snd (flushLoop_turn ev ios batch w)) \<and>
    writer_wf (snd (Sync ios batch w)) \<and> writer_wf (snd (Close ios closeErr batch w)) \<and>
    writer_wf (snd (snd (reconnect_turn env w))) \<and>
    (\<forall>b. fst (flushLoop_turn ev ios batch w) = Some b \<longrightarrow>
       length b \<le> batch_limit (snd (flushLoop_turn ev ios batch w)))"
  using assms Write_wf Close_wf reconnect_turn_wf flushLoop_turn_wf by (auto simp: Sync_def)

theorem writer_state_invariant_witness:
  "writer_wf (snd (Write WriteOk [1] (sample_writer [WithAsyncMode]))) \<and>
   writer_wf (snd (Close (\<lambda>_. WriteOk) None [] (sample_writer [WithAsyncMode])))"
  using writer_state_invariant [OF sample_writer_wf, of "[]" "[WithAsyncMode]" WriteOk "[1]"
      OnTick "\<lambda>_. WriteOk" None] by auto

lemma writeSync_inv:
  "writeSync io p w = (r, w') \<Longrightarrow>
     (\<exists>e. r = Inl e \<and> w' = w) \<or> (\<exists>f. r = Inr (length p) \<and> w' = writeFrame io f 1 w)"
  by (auto simp: writeSync_def split: sum.splits)

lemma enqueue_balance:
  assumes "writer_wf w" and "mode (w_cfg w) = ModeAsync"
  shows "settled (enqueue p w) + of_nat (length (buf (w_queue (enqueue p w)))) =
    settled w + of_nat (length (buf (w_queue w))) + 1"
proof (cases rule: enqueue_cases [OF assms, of p, case_names room newest oldest])
  case oldest
  then obtain y ys where "buf (w_queue w) = y # ys"
    using writer_wf_async(1) [OF assms] by (cases "buf (w_queue w)") auto
  with oldest show ?thesis by (simp add: settled_def shipped_def add_dropped_def)
qed (simp_all add: settled_def shipped_def add_dropped_def)

text \<open>C10: Write on every branch. A closed writer accepts and ignores the log; an encode error,
  and in synchronous mode a framing error, is returned and changes nothing; in every other case
  the whole length is returned and exactly one log is accounted for: in synchronous mode it is
  in a whole frame on the wire or counted as dropped, in asynchronous mode it (or the oldest
  queued log it displaced) is queued or counted as dropped.\<close>

theorem Write_accounting:
  assumes "writer_wf w"
  shows "(w_closed w \<longrightarrow> Write io p w = (Inr (length p), w)) \<and>
    (\<forall>e. fst (Write io p w) = Inl e \<longrightarrow> snd (Write io p w) = w \<and> \<not> w_closed w \<and>
       ((\<exists>x. w_enc w [] p = Inl x \<and> e = EncodeFailed x) \<or>
        (mode (w_cfg w) = ModeSync \<and>
          (\<exists>x y. w_enc w [] p = Inr x \<and> w_framer w [] [x] = Inl y \<and> e = FrameFailed y)))) \<and>
    (\<forall>n. fst (Write io p w) = Inr n \<longrightarrow> n = length p) \<and>
    (\<not> w_closed w \<and> (\<exists>n. fst (Write io p w) = Inr n) \<longrightarrow>
       settled (snd (Write io p w)) + of_nat (length (buf (w_queue (snd (Write io p w))))) =
         settled w + of_nat (length (buf (w_queue w))) + 1)"
proof -
  have q: "w_queue (writeFrame io f n w) = w_queue w" for f n
    using writeFrame_static [of io f n w] by (simp add: static_def)
  have sync: "mode (w_cfg w) = ModeSync" if "mode (w_cfg w) \<noteq> ModeAsync"
    using that by (cases "mode (w_cfg w)") auto
  show ?thesis
    using enqueue_balance [OF assms] sync
    by (auto simp: Write_def writeAsync_def writeSync_def q writeFrame_settled split: sum.splits)
qed

theorem Write_accounting_witness:
  "settled (snd (Write WriteOk [7] (sample_writer [WithAsyncMode]))) +
     of_nat (length (buf (w_queue (snd (Write WriteOk [7] (sample_writer [WithAsyncMode])))))) = 1"
proof -
  have "\<exists>n. fst (Write WriteOk [7] (sample_writer [WithAsyncMode])) = Inr n"
    by (simp add: sample_writer_eq Write_def writeAsync_def writeSync_def passthrough_Encode_def
        concat_framer_def)
  moreover have "settled (sample_writer [WithAsyncMode]) = 0" "\<not> w_closed (sample_writer [WithAsyncMode])"
    "buf (w_queue (sample_writer [WithAsyncMode])) = []"
    by (simp_all add: sample_writer_eq settled_def shipped_def)
  ultimately show ?thesis
    using Write_accounting [OF sample_writer_wf, of "[WithAsyncMode]" WriteOk "[7]"] by simp
qed

text \<open>with the policy DropOldest a full queue loses its head and takes the new payload at
  its tail, with DropNewest it is unchanged; in both cases one log is counted. Below capacity
  the payload is appended and nothing is counted.\<close>

theorem enqueue_policy:
  assumes "writer_wf w" and "mode (w_cfg w) = ModeAsync"
  shows "buf (w_queue (enqueue p w)) =
      (if length (buf (w_queue w)) < cap (w_queue w) then buf (w_queue w) @ [p]
       else if dropPolicy (w_cfg w) = DropOldest then tl (buf (w_queue w)) @ [p]
       else buf (w_queue w)) \<and>
    DroppedLogs (enqueue p w) =
      (if length (buf (w_queue w)) < cap (w_queue w) then DroppedLogs w else DroppedLogs w + 1) \<and>
    cap (w_queue (enqueue p w)) = cap (w_queue w)"
  by (cases rule: enqueue_cases [OF assms, of p]) (simp_all add: add_dropped_def DroppedLogs_def)

theorem enqueue_policy_witness:
  "buf (w_queue (enqueue [9] ((sample_writer [WithAsyncMode, WithBufferSize 2, WithDropPolicy DropOldest])
     \<lparr>w_queue := \<lparr>buf = [[1], [2]], cap = 2\<rparr>\<rparr>))) = [[2], [9]]"
proof -
  let ?o = "[WithAsyncMode, WithBufferSize 2, WithDropPolicy DropOldest]"
  let ?w = "(sample_writer ?o)\<lparr>w_queue := \<lparr>buf = [[1], [2]], cap = 2\<rparr>\<rparr>"
  have cfg: "mode (applyOptions ?o) = ModeAsync" "dropPolicy (applyOptions ?o) = DropOldest"
    "bufferSize (applyOptions ?o) = 2"
    by (simp_all add: applyOptions_def normalizeConfig_fields WithAsyncMode_def WithBufferSize_def
        WithDropPolicy_def maxBufferSize_def)
  then have "writer_wf ?w" "mode (w_cfg ?w) = ModeAsync"
    using applyOptions_wf [of ?o] by (simp_all add: writer_wf_def sample_writer_eq)
  then show ?thesis using enqueue_policy [of ?w "[9]"] cfg by (simp add: sample_writer_eq)
qed

text \<open>flushAll returns for every queue and every sequence of network answers, leaves the
  queue empty, and settles every log it took over: each one is in a whole frame on the wire or
  counted as dropped, none is lost and none is counted twice.\<close>

theorem flushAll_settles:
  assumes "0 < batchSize (w_cfg w)" and "length batch \<le> batch_limit w"
  shows "buf (w_queue (flushAll ios k batch w)) = [] \<and>
    settled (flushAll ios k batch w) =
      settled w + of_nat (length batch) + of_nat (length (buf (w_queue w)))"
  using flushAll_empties [OF assms] by blast

theorem flushAll_settles_witness:
  "settled (flushAll (\<lambda>k. if k = 0 then WriteFails 1 [] else WriteOk) 0 [[1], [2]]
     ((sample_writer [WithAsyncMode])\<lparr>w_queue := \<lparr>buf = [[3], [4], [5]], cap = 8\<rparr>\<rparr>)) = 5"
proof -
  let ?w = "(sample_writer [WithAsyncMode])\<lparr>w_queue := \<lparr>buf = [[3], [4], [5]], cap = 8\<rparr>\<rparr>"
  have "batchSize (w_cfg ?w) = 128"
    by (simp add: sample_writer_eq applyOptions_def normalizeConfig_fields WithAsyncMode_def
        defaultConfig_def defaultBatchSize_def)
  moreover have "settled ?w = 0" by (simp add: sample_writer_eq settled_def shipped_def)
  ultimately show ?thesis
    using flushAll_settles [of ?w "[[1], [2]]" "\<lambda>k. if k = 0 then WriteFails 1 [] else WriteOk" 0]
    by simp
qed

text \<open>on a live connection whose writes succeed, flushAll writes the carried batch and the
  queue in order, cut into frames of at most the batch size: the wire grows by one whole frame
  per batch, each the framer's output on that batch, and nothing is counted as dropped.\<close>

theorem flushAll_in_order:
  assumes "0 < batchSize (w_cfg w)" and "length batch \<le> batch_limit w"
    and "w_conn w = Some c" and "\<And>i. ios i = WriteOk"
    and "\<And>b. b \<in> set (cut (batch_limit w) (batch @ buf (w_queue w))) \<Longrightarrow>
      \<exists>f. w_framer w [] b = Inr f"
  shows "let bs = cut (batch_limit w) (batch @ buf (w_queue w)) in
    concat bs = batch @ buf (w_queue w) \<and> (\<forall>b\<in>set bs. b \<noteq> [] \<and> length b \<le> batch_limit w) \<and>
    w_dropped (flushAll ios k batch w) = w_dropped w \<and>
    (\<exists>frames. list_all2 (\<lambda>b f. w_framer w [] b = Inr f) bs frames \<and>
       w_wire (flushAll ios k batch w) =
         w_wire w @ map2 (\<lambda>b f. (c, Whole f (length b))) bs frames)"
  using assms flush_batches_ok [OF assms(3), of "cut (batch_limit w) (batch @ buf (w_queue w))" ios k]
    cut_sizes [of _ "batch_limit w" "batch @ buf (w_queue w)"]
  by (auto simp: Let_def flushAll_eq concat_cut)

theorem flushAll_in_order_witness:
  "w_dropped (flushAll (\<lambda>_. WriteOk) 0 [[1]]
     ((sample_writer [WithAsyncMode])\<lparr>w_queue := \<lparr>buf = [[2], [3]], cap = 8\<rparr>\<rparr>)) = 0"
proof -
  let ?w = "(sample_writer [WithAsyncMode])\<lparr>w_queue := \<lparr>buf = [[2], [3]], cap = 8\<rparr>\<rparr>"
  have "batchSize (w_cfg ?w) = 128"
    by (simp add: sample_writer_eq applyOptions_def normalizeConfig_fields WithAsyncMode_def
        defaultConfig_def defaultBatchSize_def)
  then show ?thesis
    using flushAll_in_order [of ?w "[[1]]" 0 "\<lambda>_. WriteOk" 0]
    by (simp add: sample_writer_eq concat_framer_def Let_def)
qed

text \<open>Close settles everything: it marks the writer closed, and in asynchronous mode every
  log still queued or carried by the flush goroutine is shipped or counted before the connection
  is torn down; afterwards the writer holds no connection and no queued log, and a second Close
  changes nothing and returns nil.\<close>

theorem Close_settles:
  assumes "writer_wf w" and "mode (w_cfg w) = ModeAsync" and "length batch \<le> batch_limit w"
    and "\<not> w_closed w"
  shows "let w' = snd (Close ios closeErr batch w) in
    w_closed w' \<and> w_done w' \<and> w_flushDone w' \<and> \<not> IsConnected w' \<and> w_conn w' = None \<and>
    buf (w_queue w') = [] \<and>
    settled w' = settled w + of_nat (length batch) + of_nat (length (buf (w_queue w))) \<and>
    (\<forall>ios2 e2 b2. Close ios2 e2 b2 w' = (None, w'))"
proof -
  let ?w = "w\<lparr>w_closed := True, w_cancelled := True, w_done := True\<rparr>"
  have pos: "0 < batchSize (w_cfg ?w)" "length batch \<le> batch_limit ?w" "settled ?w = settled w"
    using writer_wf_async(3) [OF assms(1,2)] assms(3) by (auto simp: settled_def shipped_def)
  have s: "settled (v\<lparr>w_conn := x\<rparr>) = settled v" "settled (v\<lparr>w_flushDone := y\<rparr>) = settled v"
    "settled (close_conn c v) = settled v" for v x y c
    by (simp_all add: settled_def shipped_def close_conn_def)
  show ?thesis
    using assms(2,4) flushAll_empties [OF pos(1,2), of ios 0] pos(3)
    by (auto simp: Close_def flushLoop_turn_def Let_def IsConnected_def hasConn_def s
        split: option.splits) (auto simp: close_conn_def)
qed

theorem Close_settles_witness:
  "settled (snd (Close (\<lambda>_. DeadlineFails []) None [[1]] (sample_writer [WithAsyncMode]))) = 1"
proof -
  let ?w = "sample_writer [WithAsyncMode]"
  have "mode (w_cfg ?w) = ModeAsync" "1 \<le> batch_limit ?w" "\<not> w_closed ?w" "settled ?w = 0"
    "buf (w_queue ?w) = []"
    by (simp_all add: sample_writer_eq applyOptions_def normalizeConfig_fields WithAsyncMode_def
        settled_def shipped_def defaultConfig_def defaultBatchSize_def)
  then show ?thesis
    using Close_settles [OF sample_writer_wf, of "[WithAsyncMode]" "[[1]]" "\<lambda>_. DeadlineFails []" None]
    by (simp add: Let_def)
qed

text \<open>C11: one reconnect burst dials at most maxRetries times. Its sleeps are the initial interval
  and then min (initial * 2^i) ceiling: only the first sleep can exceed the ceiling. It ends
  connected exactly when a dial succeeded on an open writer, and then the reconnect counter went
  up by one; otherwise the writer has no connection and the counter is unchanged, and giving up
  means that all maxRetries dials failed (or the writer had been closed).\<close>

theorem reconnect_burst:
  assumes "config_wf (w_cfg w)" and "w_conn w = None"
    and "reconnectInterval (w_cfg w) < 2 ^ 62" and "maxReconnect (w_cfg w) < 2 ^ 62"
    and "reconnect_turn env w = (r, sleeps, w')"
  shows "int (length sleeps) < maxRetries (w_cfg w) \<and>
    (\<forall>i < length sleeps. sleeps ! i =
       (if i = 0 then reconnectInterval (w_cfg w)
        else min (reconnectInterval (w_cfg w) * 2 ^ i) (maxReconnect (w_cfg w)))) \<and>
    (r = Connected \<longrightarrow> (\<exists>c. w_conn w' = Some c \<and> dialResult (env (1 + int (length sleeps))) = Inr c) \<and>
       ReconnectCount w' = ReconnectCount w + 1) \<and>
    (r \<noteq> Connected \<longrightarrow> w_conn w' = None \<and> ReconnectCount w' = ReconnectCount w) \<and>
    (r = GaveUp \<longrightarrow> (\<forall>i\<in>{1..maxRetries (w_cfg w)}.
       w_closed w \<or> (\<exists>e. dialResult (env i) = Inl e)))"
proof -
  let ?d = "reconnectInterval (w_cfg w)" and ?m = "maxReconnect (w_cfg w)"
  have rec: "reconnect_attempts env 1 ?d (drainReconnectCh w) = (r, sleeps, w')"
    using assms(2,5) by (simp add: reconnect_turn_def Let_def hasConn_def drainReconnectCh_def)
  have f: "w_cfg (drainReconnectCh w) = w_cfg w" "w_conn (drainReconnectCh w) = w_conn w"
    "w_closed (drainReconnectCh w) = w_closed w" "w_reconnects (drainReconnectCh w) = w_reconnects w"
    by (simp_all add: drainReconnectCh_def)
  note spec = reconnect_attempts_spec [OF rec, unfolded f]
  have pos: "0 < ?d" "0 < ?m" "1 \<le> maxRetries (w_cfg w)" using assms(1) by (auto simp: config_wf_def)
  have s: "sleeps = doubling ?d ?m (length sleeps)" using spec pos assms by blast
  have "sleeps ! i = (if i = 0 then ?d else min (?d * 2 ^ i) ?m)" if "i < length sleeps" for i
  proof (cases i)
    case 0
    with that s show ?thesis by (cases sleeps) auto
  next
    case (Suc j)
    with that pos show ?thesis by (subst s) (simp add: doubling_nth del: power_Suc)
  qed
  with spec pos assms show ?thesis by (simp add: ReconnectCount_def)
qed

theorem reconnect_burst_witness:
  "\<exists>w'. reconnect_turn (\<lambda>i. \<lparr>closedBefore = False, dialResult = (if i < 3 then Inl [] else Inr 4),
       closedInSleep = False\<rparr>) ((sample_writer [])\<lparr>w_conn := None\<rparr>) =
     (Connected, [100000000, 200000000], w') \<and> w_conn w' = Some 4 \<and> ReconnectCount w' = 1"
proof -
  let ?env = "\<lambda>i::int. \<lparr>closedBefore = False, dialResult = (if i < 3 then Inl [] else Inr 4),
       closedInSleep = False\<rparr>"
  let ?w = "(sample_writer [])\<lparr>w_conn := None\<rparr>"
  have cfg: "w_cfg ?w = defaultConfig"
    by (simp add: sample_writer_eq applyOptions_def normalizeConfig_id config_wf_def defaultConfig_def default_defs)
  have c: "config_wf (w_cfg ?w)" "reconnectInterval (w_cfg ?w) < 2 ^ 62" "maxReconnect (w_cfg ?w) < 2 ^ 62"
    by (simp_all add: cfg config_wf_def defaultConfig_def default_defs)
  have "\<exists>w'. reconnect_turn ?env ?w = (Connected, [100000000, 200000000], w')"
    using cfg
    by (simp add: reconnect_turn_def Let_def hasConn_def drainReconnectCh_def
        reconnect_attempts.simps tryConnect_def defaultConfig_def default_defs next_backoff_def
        wrap64_id sample_writer_eq)
  then obtain w' where t: "reconnect_turn ?env ?w = (Connected, [100000000, 200000000], w')" ..
  show ?thesis
    using reconnect_burst [OF c(1) _ c(2,3) t] t by (simp add: sample_writer_eq ReconnectCount_def)
qed

end
