(* ===== verification/Ndjson.thy ===== *)
theory Ndjson
  imports Wire_Interface
begin

text \<open>
  \<^verbatim>\<open>ndjson/ndjson.go\<close>: newline-delimited JSON. The encoder trims trailing newlines, the
  framer ends every payload with exactly one.
\<close>

abbreviation LF :: byte where "LF \<equiv> 10"

text \<open>\<^verbatim>\<open>bytes.TrimRight(record, "\n")\<close>.\<close>

definition trim_right_lf :: "bytes \<Rightarrow> bytes" where
  "trim_right_lf r = rev (dropWhile (\<lambda>b. b = LF) (rev r))"

definition ndjson_Encode :: encode_fn where
  "ndjson_Encode dst record = Inr (dst @ trim_right_lf record)"

definition ndjson_Frame :: frame_fn where
  "ndjson_Frame dst payloads = Inr (foldl (\<lambda>d p. (d @ p) @ [LF]) dst payloads)"

text \<open>The receiver: split at newlines; bytes after the last newline are an incomplete line.\<close>

function parse_lines :: "bytes \<Rightarrow> bytes list option" where
  "parse_lines bs =
     (if bs = [] then Some []
      else case dropWhile (\<lambda>b. b \<noteq> LF) bs of
        [] \<Rightarrow> None
      | _ # rest \<Rightarrow> map_option (\<lambda>ls. takeWhile (\<lambda>b. b \<noteq> LF) bs # ls) (parse_lines rest))"
  by pat_completeness auto
termination
proof (relation "measure length", goal_cases)
  case (2 bs x rest)
  then have "length (x # rest) \<le> length bs" using length_dropWhile_le by metis
  then show ?case by simp
qed simp

declare parse_lines.simps [simp del]

lemma ndjson_Frame_concat:
  "ndjson_Frame dst ps = Inr (dst @ concat (map (\<lambda>p. p @ [LF]) ps))"
  using foldl_append_concat [of "\<lambda>p. p @ [LF]"] by (simp add: ndjson_Frame_def)

lemma parse_lines_Nil: "parse_lines [] = Some []"
  by (simp add: parse_lines.simps)

lemma parse_lines_line:
  assumes "LF \<notin> set p"
  shows "parse_lines (p @ LF # rest) = map_option (\<lambda>ls. p # ls) (parse_lines rest)"
proof -
  have "\<forall>b\<in>set p. b \<noteq> LF" using assms by auto
  then have "takeWhile (\<lambda>b. b \<noteq> LF) (p @ LF # rest) = p"
    "dropWhile (\<lambda>b. b \<noteq> LF) (p @ LF # rest) = LF # rest"
    by (simp_all add: takeWhile_append_stop)
  then show ?thesis by (subst parse_lines.simps) simp
qed

lemma parse_lines_batch:
  "\<forall>p\<in>set ps. LF \<notin> set p \<Longrightarrow>
   parse_lines (concat (map (\<lambda>p. p @ [LF]) ps) @ rest) = map_option (\<lambda>ls. ps @ ls) (parse_lines rest)"
proof (induction ps)
  case Nil
  then show ?case by (simp add: option.map_ident)
next
  case (Cons p ps)
  then show ?case by (simp add: parse_lines_line option.map_comp comp_def)
qed

interpretation ndjson_enc: append_encoder ndjson_Encode
  by unfold_locales (simp add: ndjson_Encode_def)

interpretation ndjson: stream_framer ndjson_Frame "\<lambda>p. LF \<notin> set p" parse_lines
  by unfold_locales (auto simp: ndjson_Frame_concat parse_lines_Nil parse_lines_batch)

lemma set_trim_right_lf: "set (trim_right_lf r) \<subseteq> set r"
  using set_dropWhileD by (fastforce simp: trim_right_lf_def)

lemma trim_right_lf_id: "LF \<notin> set r \<Longrightarrow> trim_right_lf r = r"
  by (cases "rev r") (auto simp: trim_right_lf_def dropWhile_eq_self_iff)

lemma trim_right_lf_app: "trim_right_lf (r @ [LF]) = trim_right_lf r"
  by (simp add: trim_right_lf_def)

lemma trim_right_lf_replicate: "LF \<notin> set r \<Longrightarrow> trim_right_lf (r @ replicate k LF) = r"
proof (induction k)
  case (Suc k)
  have "r @ replicate (Suc k) LF = (r @ replicate k LF) @ [LF]" by (simp add: replicate_append_same)
  with Suc show ?case by (metis trim_right_lf_app)
qed (simp add: trim_right_lf_id)

section \<open>Properties\<close>

text \<open>The frame the writer ships for a batch of records: encode each, then frame.\<close>

definition ships :: "bytes list \<Rightarrow> bytes \<Rightarrow> bool" where
  "ships records frame \<longleftrightarrow> (\<exists>payloads. list_all2 (\<lambda>r p. ndjson_Encode [] r = Inr p) records payloads \<and>
     ndjson_Frame [] payloads = Inr frame)"

lemma encode_batch:
  "list_all2 (\<lambda>r p. ndjson_Encode [] r = Inr p) rs ps \<longleftrightarrow> ps = map trim_right_lf rs"
  by (induction rs arbitrary: ps) (auto simp: list_all2_Cons1 ndjson_Encode_def)

lemma ships_iff: "ships rs f \<longleftrightarrow> ndjson_Frame [] (map trim_right_lf rs) = Inr f"
  by (simp add: ships_def encode_batch)

text \<open>every batch of records has a frame, and a line-oriented receiver reading the frames
  of any sequence of batches gets exactly the records with their trailing newlines removed, one
  per line and in order, as long as no record has an inner newline.\<close>

theorem ndjson_stream_roundtrip:
  assumes "\<forall>b\<in>set batches. \<forall>r\<in>set b. LF \<notin> set (trim_right_lf r)"
  shows "(\<exists>frames. list_all2 ships batches frames) \<and>
    (\<forall>frames. list_all2 ships batches frames \<longrightarrow>
       parse_lines (concat frames) = Some (map trim_right_lf (concat batches)))"
proof -
  let ?ps = "map (map trim_right_lf) batches"
  have ok: "\<forall>b\<in>set ?ps. \<forall>p\<in>set b. LF \<notin> set p" using assms by auto
  have ships: "list_all2 ships batches frames \<longleftrightarrow>
      list_all2 (\<lambda>b f. ndjson_Frame [] b = Inr f) ?ps frames" for frames
    by (simp add: list_all2_map1 ships_iff [abs_def])
  show ?thesis
    using ndjson.frames_exist [OF ok] ndjson.stream_roundtrip [of ?ps, OF _ ok]
    by (simp add: ships map_concat)
qed

theorem ndjson_stream_roundtrip_witness:
  "list_all2 ships [[[123, 125, 10]], [[91, 93], [49, 10, 10]]] [[123, 125, 10], [91, 93, 10, 49, 10]] \<and>
   parse_lines (concat [[123, 125, 10], [91, 93, 10, 49, 10]]) = Some [[123, 125], [91, 93], [49]]"
proof -
  let ?b = "[[[123, 125, 10]], [[91, 93], [49, 10, 10]]] :: bytes list list"
  have h: "\<forall>b\<in>set ?b. \<forall>r\<in>set b. LF \<notin> set (trim_right_lf r)" by (simp add: trim_right_lf_def)
  have s: "list_all2 ships ?b [[123, 125, 10], [91, 93, 10, 49, 10]]"
    by (simp add: ships_iff trim_right_lf_def ndjson_Frame_def)
  have "parse_lines (concat [[123, 125, 10], [91, 93, 10, 49, 10]]) =
      Some (map trim_right_lf (concat ?b))"
    using ndjson_stream_roundtrip [OF h] s by blast
  then show ?thesis using s by (simp add: trim_right_lf_def)
qed

end
