(* ===== verification/Zap_Types.thy ===== *)
theory Zap_Types
  imports Go_Runtime
begin

text \<open>
  The data zap hands to zapwire: levels (an int8 with the seven named constants), entries and
  times. A time is its Unix seconds and nanoseconds in UTC, as \<^verbatim>\<open>time.Time\<close> reports them;
  formatting it needs the civil calendar, computed here from the day number.
\<close>

section \<open>Levels\<close>

datatype level = Level (level_num: int)

instantiation level :: linorder
begin

definition less_eq_level :: "level \<Rightarrow> level \<Rightarrow> bool" where
  "less_eq_level a b \<longleftrightarrow> level_num a \<le> level_num b"

definition less_level :: "level \<Rightarrow> level \<Rightarrow> bool" where
  "less_level a b \<longleftrightarrow> level_num a < level_num b"

instance
  by standard (auto simp: less_eq_level_def less_level_def level.expand)

end

definition DebugLevel :: level where "DebugLevel = Level (- 1)"
definition InfoLevel :: level where "InfoLevel = Level 0"
definition WarnLevel :: level where "WarnLevel = Level 1"
definition ErrorLevel :: level where "ErrorLevel = Level 2"
definition DPanicLevel :: level where "DPanicLevel = Level 3"
definition PanicLevel :: level where "PanicLevel = Level 4"
definition FatalLevel :: level where "FatalLevel = Level 5"

lemmas level_defs = DebugLevel_def InfoLevel_def WarnLevel_def ErrorLevel_def DPanicLevel_def
  PanicLevel_def FatalLevel_def less_eq_level_def less_level_def

text \<open>\<^verbatim>\<open>Level.String\<close> of zap.\<close>

definition level_String :: "level \<Rightarrow> bytes" where
  "level_String l =
     (if l = DebugLevel then str ''debug'' else if l = InfoLevel then str ''info''
      else if l = WarnLevel then str ''warn'' else if l = ErrorLevel then str ''error''
      else if l = DPanicLevel then str ''dpanic'' else if l = PanicLevel then str ''panic''
      else if l = FatalLevel then str ''fatal'' else str ''Level('' @ format_int (level_num l) @ str '')'')"

section \<open>Times\<close>

record gotime =
  unixSec :: int
  nsec :: int

definition zeroTime :: gotime where
  "zeroTime = \<lparr>unixSec = - 62135596800, nsec = 0\<rparr>"

definition IsZero :: "gotime \<Rightarrow> bool" where
  "IsZero t \<longleftrightarrow> unixSec t = - 62135596800 \<and> nsec t = 0"

definition UnixNano :: "gotime \<Rightarrow> int" where
  "UnixNano t = wrap64 (unixSec t * 1000000000 + nsec t)"

text \<open>Year, month and day of a day number counted from 1970-01-01 (proleptic Gregorian).\<close>

definition civil :: "int \<Rightarrow> int \<times> int \<times> int" where
  "civil days =
     (let z = days + 719468;
          era = z div 146097;
          doe = z mod 146097;
          yoe = (doe - doe div 1460 + doe div 36524 - doe div 146096) div 365;
          doy = doe - (365 * yoe + yoe div 4 - yoe div 100);
          mp = (5 * doy + 2) div 153;
          d = doy - (153 * mp + 2) div 5 + 1;
          m = (if mp < 10 then mp + 3 else mp - 9);
          y = yoe + era * 400 + (if m \<le> 2 then 1 else 0)
      in (y, m, d))"

definition pad :: "nat \<Rightarrow> int \<Rightarrow> bytes" where
  "pad w n =
     (let ds = decimal (nat \<bar>n\<bar>)
      in (if n < 0 then [45] else []) @ replicate (w - length ds) 48 @ ds)"

text \<open>The layout \<^verbatim>\<open>2006-01-02T15:04:05.000000Z07:00\<close> applied to a UTC time.\<close>

definition format_rfc3339_micros :: "gotime \<Rightarrow> bytes" where
  "format_rfc3339_micros t =
     (let days = unixSec t div 86400; s = unixSec t mod 86400; (y, m, d) = civil days
      in pad 4 y @ [45] @ pad 2 m @ [45] @ pad 2 d @ [84] @
         pad 2 (s div 3600) @ [58] @ pad 2 (s mod 3600 div 60) @ [58] @ pad 2 (s mod 60) @
         [46] @ pad 6 (nsec t div 1000) @ [90])"

lemma format_epoch: "format_rfc3339_micros \<lparr>unixSec = 0, nsec = 0\<rparr> = str ''1970-01-01T00:00:00.000000Z''"
  by code_simp

lemma format_sample:
  "format_rfc3339_micros \<lparr>unixSec = 1709210096, nsec = 12345\<rparr> = str ''2024-02-29T12:34:56.000012Z''"
  by code_simp

lemma pad_printable: "b \<in> set (pad w n) \<Longrightarrow> 33 \<le> b \<and> b \<le> 126"
proof -
  assume "b \<in> set (pad w n)"
  then consider "b = 45" | "b = 48" | "b \<in> set (decimal (nat \<bar>n\<bar>))"
    by (auto simp: pad_def Let_def split: if_splits)
  then show ?thesis
  proof cases
    case 3
    then have "is_digit b" using decimal_digits by blast
    then show ?thesis by (simp add: is_digit_def word_le_nat_alt)
  qed simp_all
qed

lemma format_printable: "b \<in> set (format_rfc3339_micros t) \<Longrightarrow> 33 \<le> b \<and> b \<le> 126"
  by (auto simp: format_rfc3339_micros_def Let_def split: prod.splits dest: pad_printable)

section \<open>Entries\<close>

record caller =
  Defined :: bool
  File :: bytes
  Line :: int
  Function :: bytes

record entry =
  ent_Level :: level
  ent_Time :: gotime
  ent_LoggerName :: bytes
  ent_Message :: bytes
  ent_Caller :: caller
  ent_Stack :: bytes

end
