(* ===== verification/Syslog.thy ===== *)
theory Syslog
  imports Zap_Types Wire_Interface Root_Options
begin

text \<open>
  \<^verbatim>\<open>syslog/\<close>: the RFC5424 encoder (\<^verbatim>\<open>encoder.go\<close>), its options (\<^verbatim>\<open>syslog.go\<close>) and the
  RFC6587 stream framer (\<^verbatim>\<open>framer.go\<close>). The JSON body comes from zap's encoder, a parameter
  of the model. The operating system's host name, program name and process id are the
  parameter \<open>osenv\<close>.
\<close>

section \<open>Facilities, severities, header fields\<close>

type_synonym Facility = int
type_synonym Severity = int

definition KERN :: Facility where "KERN = 0"
definition LOCAL0 :: Facility where "LOCAL0 = 16"
definition LOCAL7 :: Facility where "LOCAL7 = 23"

definition Emergency :: Severity where "Emergency = 0"
definition Critical :: Severity where "Critical = 2"
definition Error :: Severity where "Error = 3"
definition Warning :: Severity where "Warning = 4"
definition Informational :: Severity where "Informational = 6"
definition Debug :: Severity where "Debug = 7"

lemmas syslog_consts = KERN_def LOCAL0_def LOCAL7_def Emergency_def Critical_def Error_def
  Warning_def Informational_def Debug_def

definition nilValue :: bytes where "nilValue = [45]"

definition validateFacility :: "Facility \<Rightarrow> Facility" where
  "validateFacility f = (if f < KERN \<or> f > LOCAL7 then LOCAL0 else f)"

definition clampSeverity :: "Severity \<Rightarrow> Severity" where
  "clampSeverity s = (if s < Emergency then Emergency else if s > Debug then Debug else s)"

definition defaultSeverityMapper :: "level \<Rightarrow> Severity" where
  "defaultSeverityMapper l =
     (if l \<le> DebugLevel then Debug
      else if l = InfoLevel then Informational
      else if l = WarnLevel then Warning
      else if l = ErrorLevel then Error
      else Critical)"

fun sanitize_loop :: "bytes \<Rightarrow> nat \<Rightarrow> bytes \<Rightarrow> bytes" where
  "sanitize_loop [] maxLen out = out"
| "sanitize_loop (c # s) maxLen out =
     (if length out < maxLen
      then sanitize_loop s maxLen (if c \<ge> 33 \<and> c \<le> 126 then out @ [c] else out)
      else out)"

definition sanitizeField :: "bytes \<Rightarrow> nat \<Rightarrow> bytes" where
  "sanitizeField s maxLen =
     (let out = sanitize_loop s maxLen [] in if length out = 0 then nilValue else out)"

definition appendRFC3339Micros :: "bytes \<Rightarrow> gotime \<Rightarrow> bytes" where
  "appendRFC3339Micros b t = (if IsZero t then b @ nilValue else b @ format_rfc3339_micros t)"

section \<open>Options\<close>

text \<open>\<^verbatim>\<open>Framing\<close> is an integer type; its other values frame as \<open>LFTerminated\<close> does.\<close>

datatype Framing = OctetCounting | LFTerminated | UndefinedFraming int

record header =
  h_facility :: Facility
  h_hostname :: bytes
  h_appName :: bytes
  h_procID :: bytes
  h_msgID :: bytes
  h_bom :: bool
  h_severityOf :: "level \<Rightarrow> Severity"

record syslog_options =
  o_facility :: Facility
  o_severityOf :: "level \<Rightarrow> Severity"
  o_hostname :: bytes
  o_appName :: bytes
  o_procID :: bytes
  o_msgID :: bytes
  o_bom :: bool
  o_framing :: Framing
  o_wireOpts :: "Root_Options.Option list"

record osenv =
  env_hostname :: bytes
  env_exe :: bytes
  env_pid :: nat

type_synonym syslog_option = "syslog_options \<Rightarrow> syslog_options"

definition syslog_defaultOptions :: "osenv \<Rightarrow> syslog_options" where
  "syslog_defaultOptions os =
    \<lparr>o_facility = LOCAL0, o_severityOf = defaultSeverityMapper, o_hostname = env_hostname os,
     o_appName = env_exe os, o_procID = decimal (env_pid os), o_msgID = nilValue,
     o_bom = False, o_framing = OctetCounting, o_wireOpts = []\<rparr>"

definition syslog_apply :: "osenv \<Rightarrow> syslog_option list \<Rightarrow> syslog_options" where
  "syslog_apply os opts = foldl (\<lambda>o1 opt. opt o1) (syslog_defaultOptions os) opts"

definition resolveHeader :: "syslog_options \<Rightarrow> header" where
  "resolveHeader o1 =
    \<lparr>h_facility = validateFacility (o_facility o1),
     h_hostname = sanitizeField (o_hostname o1) 255,
     h_appName = sanitizeField (o_appName o1) 48,
     h_procID = sanitizeField (o_procID o1) 128,
     h_msgID = sanitizeField (o_msgID o1) 32,
     h_bom = o_bom o1,
     h_severityOf = o_severityOf o1\<rparr>"

definition WithFacility :: "Facility \<Rightarrow> syslog_option" where
  "WithFacility f o1 = o1\<lparr>o_facility := f\<rparr>"
definition WithSeverityMapper :: "(level \<Rightarrow> Severity) option \<Rightarrow> syslog_option" where
  "WithSeverityMapper fn o1 = (case fn of None \<Rightarrow> o1 | Some m \<Rightarrow> o1\<lparr>o_severityOf := m\<rparr>)"
definition WithHostname :: "bytes \<Rightarrow> syslog_option" where
  "WithHostname h o1 = o1\<lparr>o_hostname := h\<rparr>"
definition WithAppName :: "bytes \<Rightarrow> syslog_option" where
  "WithAppName a o1 = o1\<lparr>o_appName := a\<rparr>"
definition WithProcID :: "bytes \<Rightarrow> syslog_option" where
  "WithProcID p o1 = o1\<lparr>o_procID := p\<rparr>"
definition WithMsgID :: "bytes \<Rightarrow> syslog_option" where
  "WithMsgID m o1 = o1\<lparr>o_msgID := m\<rparr>"
definition WithBOM :: "bool \<Rightarrow> syslog_option" where
  "WithBOM b o1 = o1\<lparr>o_bom := b\<rparr>"
definition WithFraming :: "Framing \<Rightarrow> syslog_option" where
  "WithFraming f o1 = o1\<lparr>o_framing := f\<rparr>"
definition WithZapwireOptions :: "Root_Options.Option list \<Rightarrow> syslog_option" where
  "WithZapwireOptions opts o1 = o1\<lparr>o_wireOpts := o_wireOpts o1 @ opts\<rparr>"

section \<open>The encoder\<close>

text \<open>
  \<open>inner\<close> is zap's JSON encoder for the entry and its fields. Of zap's configuration the code sets one
  field.
\<close>

record 'c syslog_config =
  SkipLineEnding :: bool
  config_rest :: 'c

record 'f syslog_encoder =
  inner :: "entry \<Rightarrow> 'f list \<Rightarrow> (go_error, bytes) result"
  e_cfg :: header

definition appendBody :: "bytes \<Rightarrow> bool \<Rightarrow> bytes \<Rightarrow> bytes" where
  "appendBody dst bom msg =
     (let d1 = dst @ [32, 45, 32]; d2 = (if bom then d1 @ [0xef, 0xbb, 0xbf] else d1) in d2 @ msg)"

definition NewEncoder ::
  "('c syslog_config \<Rightarrow> entry \<Rightarrow> 'f list \<Rightarrow> (go_error, bytes) result) \<Rightarrow> osenv \<Rightarrow> 'c syslog_config \<Rightarrow>
     syslog_option list \<Rightarrow> 'f syslog_encoder" where
  "NewEncoder NewJSONEncoder os encCfg opts =
     \<lparr>inner = NewJSONEncoder (encCfg\<lparr>SkipLineEnding := True\<rparr>), e_cfg = resolveHeader (syslog_apply os opts)\<rparr>"

text \<open>zap's \<^verbatim>\<open>Clone\<close> of the inner encoder answers as the original until fields are added to it.\<close>

definition syslog_Clone :: "'f syslog_encoder \<Rightarrow> 'f syslog_encoder" where
  "syslog_Clone e = \<lparr>inner = inner e, e_cfg = e_cfg e\<rparr>"

definition pri_of :: "header \<Rightarrow> level \<Rightarrow> int" where
  "pri_of h l = h_facility h * 8 + clampSeverity (h_severityOf h l)"

definition EncodeEntry :: "'f syslog_encoder \<Rightarrow> entry \<Rightarrow> 'f list \<Rightarrow> (go_error, bytes) result" where
  "EncodeEntry e ent fs =
     (case inner e ent fs of
        Inl err \<Rightarrow> Inl err
      | Inr body \<Rightarrow>
          (let pri = pri_of (e_cfg e) (ent_Level ent);
               l1 = [60] @ format_int pri @ [62, 49, 32];
               l2 = appendRFC3339Micros l1 (ent_Time ent) @ [32];
               l3 = l2 @ h_hostname (e_cfg e) @ [32];
               l4 = l3 @ h_appName (e_cfg e) @ [32];
               l5 = l4 @ h_procID (e_cfg e) @ [32];
               l6 = l5 @ h_msgID (e_cfg e)
           in Inr (appendBody l6 (h_bom (e_cfg e)) body)))"

section \<open>The framer\<close>

record syslog_framer =
  octetCounting :: bool

definition syslog_NewFramer :: "Framing \<Rightarrow> syslog_framer" where
  "syslog_NewFramer f = \<lparr>octetCounting = (f = OctetCounting)\<rparr>"

definition syslog_Frame :: "syslog_framer \<Rightarrow> frame_fn" where
  "syslog_Frame f dst payloads =
     Inr (foldl (\<lambda>d p. if octetCounting f then ((d @ format_int (int (length p))) @ [32]) @ p
                       else (d @ p) @ [10]) dst payloads)"

section \<open>The receiver\<close>

function parse_octets :: "bytes \<Rightarrow> bytes list option" where
  "parse_octets bs =
     (if bs = [] then Some []
      else case dropWhile is_digit bs of
        [] \<Rightarrow> None
      | c # body \<Rightarrow>
          (let ds = takeWhile is_digit bs; n = undecimal ds in
           if c \<noteq> 32 \<or> ds = [] \<or> length body < n then None
           else map_option (\<lambda>ms. take n body # ms) (parse_octets (drop n body))))"
  by pat_completeness auto
termination
proof (relation "measure length", goal_cases)
  case (2 bs c body ds n)
  then have "length (c # body) \<le> length bs" using length_dropWhile_le by metis
  then show ?case by simp
qed simp

declare parse_octets.simps [simp del]

fun take_fields :: "nat \<Rightarrow> bytes \<Rightarrow> (bytes list \<times> bytes) option" where
  "take_fields 0 bs = Some ([], bs)"
| "take_fields (Suc n) bs =
     (case dropWhile (\<lambda>b. b \<noteq> 32) bs of
        [] \<Rightarrow> None
      | _ # rest \<Rightarrow>
          map_option (\<lambda>(fs, r). (takeWhile (\<lambda>b. b \<noteq> 32) bs # fs, r)) (take_fields n rest))"

section \<open>Framing round trips\<close>

lemma parse_octets_Nil: "parse_octets [] = Some []"
  by (simp add: parse_octets.simps)

lemma parse_octets_msg:
  "parse_octets (format_int (int (length p)) @ 32 # p @ rest) =
     map_option (\<lambda>ms. p # ms) (parse_octets rest)"
proof -
  let ?ds = "decimal (length p)"
  have "\<forall>b\<in>set ?ds. is_digit b" by (rule decimal_digits)
  moreover have "\<not> is_digit 32" by (simp add: is_digit_def word_le_nat_alt)
  ultimately have "takeWhile is_digit (?ds @ 32 # p @ rest) = ?ds"
    "dropWhile is_digit (?ds @ 32 # p @ rest) = 32 # p @ rest"
    by (simp_all add: takeWhile_append_stop)
  then show ?thesis
    by (subst parse_octets.simps) (simp add: format_int_def undecimal_decimal decimal_nonempty)
qed

lemma syslog_Frame_octets:
  "syslog_Frame (syslog_NewFramer OctetCounting) dst ps =
     Inr (dst @ concat (map (\<lambda>p. format_int (int (length p)) @ 32 # p) ps))"
  using foldl_append_concat [of "\<lambda>p. format_int (int (length p)) @ 32 # p"]
  by (simp add: syslog_Frame_def syslog_NewFramer_def)

lemma parse_octets_batch:
  "parse_octets (concat (map (\<lambda>p. format_int (int (length p)) @ 32 # p) ps) @ rest) =
     map_option (\<lambda>ms. ps @ ms) (parse_octets rest)"
  by (induction ps) (simp_all add: parse_octets_msg option.map_comp comp_def option.map_ident)

interpretation syslog_octets: stream_framer
  "syslog_Frame (syslog_NewFramer OctetCounting)" "\<lambda>_. True" parse_octets
  by unfold_locales (auto simp: syslog_Frame_octets parse_octets_Nil parse_octets_batch)

section \<open>Header fields\<close>

definition printable :: "bytes \<Rightarrow> bool" where
  "printable s \<longleftrightarrow> (\<forall>b\<in>set s. 33 \<le> b \<and> b \<le> 126)"

lemma sanitize_loop_eq:
  "length out \<le> maxLen \<Longrightarrow> sanitize_loop s maxLen out =
     out @ take (maxLen - length out) (filter (\<lambda>c. c \<ge> 33 \<and> c \<le> 126) s)"
proof (induction s maxLen out rule: sanitize_loop.induct)
  case (2 c s maxLen out)
  show ?case
  proof (cases "length out < maxLen")
    case True
    then obtain k where "maxLen - length out = Suc k" by (cases "maxLen - length out") auto
    moreover from this have "maxLen - Suc (length out) = k" by simp
    ultimately show ?thesis using 2 True by simp
  qed (use 2 in simp)
qed simp

lemma sanitizeField_eq:
  "sanitizeField s n =
     (let out = take n (filter (\<lambda>c. c \<ge> 33 \<and> c \<le> 126) s) in if out = [] then nilValue else out)"
  by (simp add: sanitizeField_def sanitize_loop_eq Let_def)

lemma sanitizeField_printable: "printable (sanitizeField s n)"
  by (auto simp: sanitizeField_eq printable_def Let_def nilValue_def dest: in_set_takeD)

lemma sanitizeField_nonempty: "sanitizeField s n \<noteq> []"
  by (simp add: sanitizeField_eq Let_def nilValue_def)

lemma sanitizeField_length: "0 < n \<Longrightarrow> length (sanitizeField s n) \<le> n"
  by (auto simp: sanitizeField_eq Let_def nilValue_def)

lemma printable_no_space: "printable s \<Longrightarrow> b \<in> set s \<Longrightarrow> b \<noteq> 32"
  by (auto simp: printable_def word_le_nat_alt)

lemma take_fields_field:
  assumes "printable f"
  shows "take_fields (Suc n) (f @ 32 # rest) = map_option (\<lambda>(fs, r). (f # fs, r)) (take_fields n rest)"
proof -
  have "\<forall>b\<in>set f. b \<noteq> 32" using assms printable_no_space by blast
  then have "takeWhile (\<lambda>b. b \<noteq> 32) (f @ 32 # rest) = f"
    "dropWhile (\<lambda>b. b \<noteq> 32) (f @ 32 # rest) = 32 # rest"
    by (simp_all add: takeWhile_append_stop)
  then show ?thesis by simp
qed

definition header_wf :: "header \<Rightarrow> bool" where
  "header_wf h \<longleftrightarrow> 0 \<le> h_facility h \<and> h_facility h \<le> 23 \<and>
     printable (h_hostname h) \<and> printable (h_appName h) \<and>
     printable (h_procID h) \<and> printable (h_msgID h) \<and>
     h_hostname h \<noteq> [] \<and> h_appName h \<noteq> [] \<and> h_procID h \<noteq> [] \<and> h_msgID h \<noteq> [] \<and>
     length (h_hostname h) \<le> 255 \<and> length (h_appName h) \<le> 48 \<and>
     length (h_procID h) \<le> 128 \<and> length (h_msgID h) \<le> 32"

lemma resolveHeader_wf: "header_wf (resolveHeader o1)"
  by (simp add: header_wf_def resolveHeader_def validateFacility_def syslog_consts
      sanitizeField_printable sanitizeField_nonempty sanitizeField_length)

lemma pri_of_range: "header_wf h \<Longrightarrow> 0 \<le> pri_of h l \<and> pri_of h l \<le> 191"
  by (auto simp: header_wf_def pri_of_def clampSeverity_def syslog_consts)

lemma format_int_printable: "printable (format_int i)"
  using decimal_digits by (fastforce simp: printable_def format_int_def is_digit_def word_le_nat_alt)

definition timestamp_of :: "gotime \<Rightarrow> bytes" where
  "timestamp_of t = (if IsZero t then nilValue else format_rfc3339_micros t)"

lemma timestamp_printable: "printable (timestamp_of t)"
  using format_printable by (auto simp: timestamp_of_def printable_def nilValue_def)

definition bom_of :: "header \<Rightarrow> bytes" where
  "bom_of h = (if h_bom h then [0xef, 0xbb, 0xbf] else [])"

lemma EncodeEntry_layout:
  assumes "inner e ent fs = Inr body"
  shows "EncodeEntry e ent fs = Inr
    (([60] @ format_int (pri_of (e_cfg e) (ent_Level ent)) @ [62, 49]) @ 32 #
     timestamp_of (ent_Time ent) @ 32 # h_hostname (e_cfg e) @ 32 # h_appName (e_cfg e) @ 32 #
     h_procID (e_cfg e) @ 32 # h_msgID (e_cfg e) @ 32 # nilValue @ 32 # bom_of (e_cfg e) @ body)"
  using assms
  by (simp add: EncodeEntry_def Let_def appendRFC3339Micros_def timestamp_of_def appendBody_def
      bom_of_def nilValue_def)

text \<open>Splitting a message at its first seven spaces.\<close>

lemma message_fields:
  assumes wf: "header_wf (e_cfg e)" and "inner e ent fs = Inr body"
  shows "\<exists>msg. EncodeEntry e ent fs = Inr msg \<and>
    take_fields 7 msg = Some
      ([60 # format_int (pri_of (e_cfg e) (ent_Level ent)) @ [62, 49], timestamp_of (ent_Time ent),
        h_hostname (e_cfg e), h_appName (e_cfg e), h_procID (e_cfg e), h_msgID (e_cfg e), nilValue],
       bom_of (e_cfg e) @ body)"
proof -
  let ?h = "e_cfg e"
  have p: "printable (60 # format_int (pri_of ?h (ent_Level ent)) @ [62, 49])"
    using format_int_printable by (auto simp: printable_def)
  have n: "printable nilValue" by (simp add: printable_def nilValue_def)
  have "take_fields 7 ((60 # format_int (pri_of ?h (ent_Level ent)) @ [62, 49]) @ 32 #
      timestamp_of (ent_Time ent) @ 32 # h_hostname ?h @ 32 # h_appName ?h @ 32 #
      h_procID ?h @ 32 # h_msgID ?h @ 32 # nilValue @ 32 # bom_of ?h @ body) = Some
         ([60 # format_int (pri_of ?h (ent_Level ent)) @ [62, 49], timestamp_of (ent_Time ent),
           h_hostname ?h, h_appName ?h, h_procID ?h, h_msgID ?h, nilValue], bom_of ?h @ body)"
    using wf p n timestamp_printable
    by (simp only: eval_nat_numeral take_fields_field header_wf_def take_fields.simps(1)
        option.map case_prod_conv BitM.simps)
  then show ?thesis using EncodeEntry_layout [OF assms(2)] by simp
qed

section \<open>Properties\<close>

text \<open>every message of an encoder built by \<open>NewEncoder\<close> is a well-formed RFC5424 line,
  whatever the options: its priority lies in 0..191 even for out-of-range facilities and custom
  severity mappers, and splitting at the first seven spaces gives back exactly priority and
  version, the timestamp, the four sanitised header fields (each printable, non-empty and
  within its RFC length) and the nil structured data, with the JSON body (after the BOM when
  configured) as the rest. The JSON encoder is built with the caller's configuration, its line ending
  skipped. An error of the inner encoder is passed on unchanged.\<close>

theorem syslog_message_wellformed:
  "let e = NewEncoder json os cfg opts; h = resolveHeader (syslog_apply os opts) in
    header_wf h \<and> 0 \<le> pri_of h (ent_Level ent) \<and> pri_of h (ent_Level ent) \<le> 191 \<and>
    (case json (cfg\<lparr>SkipLineEnding := True\<rparr>) ent fs of
       Inl err \<Rightarrow> EncodeEntry e ent fs = Inl err
     | Inr body \<Rightarrow> (\<exists>msg. EncodeEntry e ent fs = Inr msg \<and>
         take_fields 7 msg = Some
           ([60 # format_int (pri_of h (ent_Level ent)) @ [62, 49], timestamp_of (ent_Time ent),
             h_hostname h, h_appName h, h_procID h, h_msgID h, nilValue],
            bom_of h @ body)))"
proof -
  define e where "e = NewEncoder json os cfg opts"
  define h where "h = resolveHeader (syslog_apply os opts)"
  have wf: "header_wf h" unfolding h_def by (rule resolveHeader_wf)
  let ?json = "json (cfg\<lparr>SkipLineEnding := True\<rparr>)"
  have cfg: "e_cfg e = h" "inner e = ?json" by (simp_all add: e_def h_def NewEncoder_def)
  have "case ?json ent fs of
       Inl err \<Rightarrow> EncodeEntry e ent fs = Inl err
     | Inr body \<Rightarrow> (\<exists>msg. EncodeEntry e ent fs = Inr msg \<and>
         take_fields 7 msg = Some
           ([60 # format_int (pri_of h (ent_Level ent)) @ [62, 49], timestamp_of (ent_Time ent),
             h_hostname h, h_appName h, h_procID h, h_msgID h, nilValue],
            bom_of h @ body))"
  proof (cases "?json ent fs")
    case (Inl err)
    then show ?thesis using cfg by (simp add: EncodeEntry_def)
  next
    case (Inr body)
    then show ?thesis using message_fields [of e ent fs body] wf by (simp add: cfg)
  qed
  then show ?thesis using wf pri_of_range [OF wf] by (simp add: Let_def flip: e_def h_def)
qed

text \<open>with octet counting a receiver reading any sequence of frames gets back the messages of
  all batches in order, whatever bytes they contain, and the framer never fails.\<close>

theorem syslog_stream_roundtrip:
  "(\<exists>frames. list_all2 (\<lambda>b f. syslog_Frame (syslog_NewFramer OctetCounting) [] b = Inr f) batches frames) \<and>
   (\<forall>frames. list_all2 (\<lambda>b f. syslog_Frame (syslog_NewFramer OctetCounting) [] b = Inr f) batches frames \<longrightarrow>
      parse_octets (concat frames) = Some (concat batches))"
  using syslog_octets.frames_exist [of batches] syslog_octets.stream_roundtrip [of batches] by simp

theorem syslog_stream_roundtrip_witness:
  "list_all2 (\<lambda>b f. syslog_Frame (syslog_NewFramer OctetCounting) [] b = Inr f) [[[65, 10], []]] [[50, 32, 65, 10, 48, 32]] \<and>
   parse_octets (concat [[50, 32, 65, 10, 48, 32]]) = Some (concat [[[65, 10], []]])"
proof -
  have s: "list_all2 (\<lambda>b f. syslog_Frame (syslog_NewFramer OctetCounting) [] b = Inr f) [[[65, 10], []]] [[50, 32, 65, 10, 48, 32]]"
    by (simp add: syslog_Frame_octets format_int_def decimal.simps)
  then have "parse_octets (concat [[50, 32, 65, 10, 48, 32]]) = Some (concat [[[65, 10], []]])"
    using syslog_stream_roundtrip [of "[[[65, 10], []]]"] by blast
  with s show ?thesis by simp
qed

end
