(* ===== verification/Zap_Marshal.thy ===== *)
theory Zap_Marshal
  imports Zap_Types Wire_Interface
begin

text \<open>
  What a zap field does to an encoder. A field's value is added by calls of zap's
  \<^verbatim>\<open>ObjectEncoder\<close> and \<^verbatim>\<open>ArrayEncoder\<close> interfaces, made by zap's \<^verbatim>\<open>Field.AddTo\<close>
  and by the user's marshalers: code outside the repository, represented by the calls it makes.
  A marshaler is the tree of its calls: after a call that can fail it goes on as a function of the
  error the encoder returned, and a leaf returns nil or an error. The encoders of the repository
  interpret these trees; the same tree can drive the OTLP and the msgpack encoder.
\<close>

section \<open>Values\<close>

text \<open>
  A float is its IEEE bits, at 64 bits and rounded to 32, with the shortest decimal texts
  \<^verbatim>\<open>strconv\<close> renders for it at those widths. A float32 or complex64 value is given with the bits
  and text of its exact widening to 64 bits.
\<close>

record gofloat =
  f_bits64 :: u64
  f_bits32 :: u32
  f_text64 :: bytes
  f_text32 :: bytes

record spanctx =
  traceID :: bytes
  spanID :: bytes
  traceFlags :: byte

text \<open>
  A context is nil, a typed nil in a non-nil interface, or a live context for which
  \<^verbatim>\<open>trace.SpanContextFromContext\<close> returns the given span context. Values passed by reflection
  are told apart as far as the source does, with what \<^verbatim>\<open>json.Marshal\<close> makes of them and what a
  \<^verbatim>\<open>json.Decoder\<close> with \<^verbatim>\<open>UseNumber\<close> reads back from that.
\<close>

datatype go_context = NilContext | TypedNilContext | LiveContext spanctx

datatype goany = AnyNil | AnySpanContext spanctx | AnyContext go_context | AnyOther

text \<open>
  A decoded Go value as \<^verbatim>\<open>encoding/json\<close> and \<^verbatim>\<open>msgp.AppendIntf\<close> see it: numbers are
  \<^verbatim>\<open>json.Number\<close> texts before normalisation and concrete numbers after it. A map is the list of
  its entries in the order it is iterated.
\<close>

datatype jany =
    JNull
  | JBool bool
  | JNumber bytes
  | JStr bytes
  | JInt int
  | JUint u64
  | JFloat u64
  | JArr "jany list"
  | JObj "(bytes \<times> jany) list"

record reflected =
  rf_value :: goany
  rf_json :: "(go_error, bytes) result"
  rf_decoded :: "(go_error, jany) result"

datatype zval =
    ZString bytes
  | ZByteString bytes
  | ZBinary bytes
  | ZBool bool
  | ZInt int
  | ZInt64 int
  | ZInt32 int
  | ZInt16 int
  | ZInt8 int
  | ZUint u64
  | ZUint64 u64
  | ZUint32 u64
  | ZUint16 u64
  | ZUint8 u64
  | ZUintptr u64
  | ZFloat64 gofloat
  | ZFloat32 gofloat
  | ZComplex128 gofloat gofloat
  | ZComplex64 gofloat gofloat
  | ZDuration int
  | ZTime gotime

section \<open>Marshalers\<close>

datatype omarsh =
    OReturn "go_error option"
  | OAdd bytes zval omarsh
  | ONamespace bytes omarsh
  | OObject bytes omarsh "go_error option \<Rightarrow> omarsh"
  | OArray bytes amarsh "go_error option \<Rightarrow> omarsh"
  | OReflect bytes reflected "go_error option \<Rightarrow> omarsh"
and amarsh =
    AReturn "go_error option"
  | AAppend zval amarsh
  | AObject omarsh "go_error option \<Rightarrow> amarsh"
  | AArray amarsh "go_error option \<Rightarrow> amarsh"
  | AReflect reflected "go_error option \<Rightarrow> amarsh"

text \<open>
  A field: its key, the marshaler when it is of \<^verbatim>\<open>InlineMarshalerType\<close>, the value in its
  \<^verbatim>\<open>Interface\<close>, and the calls \<^verbatim>\<open>AddTo\<close> makes for it.
\<close>

record zfield =
  fd_key :: bytes
  fd_inline :: "omarsh option"
  fd_interface :: goany
  fd_addTo :: omarsh

text \<open>
  zap's own fields: \<^verbatim>\<open>AddTo\<close> turns a marshaling error into a string field whose key ends in
  \<^verbatim>\<open>Error\<close>, and ends without an error of its own.
\<close>

definition with_error_field :: "bytes \<Rightarrow> go_error option \<Rightarrow> omarsh" where
  "with_error_field k err =
     (case err of None \<Rightarrow> OReturn None
      | Some e \<Rightarrow> OAdd (k @ str ''Error'') (ZString e) (OReturn None))"

definition zap_String :: "bytes \<Rightarrow> bytes \<Rightarrow> zfield" where
  "zap_String k v = \<lparr>fd_key = k, fd_inline = None, fd_interface = AnyNil,
     fd_addTo = OAdd k (ZString v) (OReturn None)\<rparr>"

definition zap_Object :: "bytes \<Rightarrow> omarsh \<Rightarrow> zfield" where
  "zap_Object k m = \<lparr>fd_key = k, fd_inline = None, fd_interface = AnyOther,
     fd_addTo = OObject k m (with_error_field k)\<rparr>"

definition zap_Array :: "bytes \<Rightarrow> amarsh \<Rightarrow> zfield" where
  "zap_Array k m = \<lparr>fd_key = k, fd_inline = None, fd_interface = AnyOther,
     fd_addTo = OArray k m (with_error_field k)\<rparr>"

text \<open>An inlined object makes its calls directly; \<^verbatim>\<open>AddTo\<close> reports its error afterwards.\<close>

primrec report_error :: "bytes \<Rightarrow> omarsh \<Rightarrow> omarsh" where
  "report_error key (OReturn err) = with_error_field key err"
| "report_error key (OAdd k v m) = OAdd k v (report_error key m)"
| "report_error key (ONamespace k m) = ONamespace k (report_error key m)"
| "report_error key (OObject k m c) = OObject k m (\<lambda>e. report_error key (c e))"
| "report_error key (OArray k m c) = OArray k m (\<lambda>e. report_error key (c e))"
| "report_error key (OReflect k r c) = OReflect k r (\<lambda>e. report_error key (c e))"

definition zap_Inline :: "omarsh \<Rightarrow> zfield" where
  "zap_Inline m = \<lparr>fd_key = [], fd_inline = Some m, fd_interface = AnyOther, fd_addTo = report_error [] m\<rparr>"

definition zap_Namespace :: "bytes \<Rightarrow> zfield" where
  "zap_Namespace k = \<lparr>fd_key = k, fd_inline = None, fd_interface = AnyNil,
     fd_addTo = ONamespace k (OReturn None)\<rparr>"

definition zap_Reflect :: "bytes \<Rightarrow> reflected \<Rightarrow> zfield" where
  "zap_Reflect k r = \<lparr>fd_key = k, fd_inline = None, fd_interface = rf_value r,
     fd_addTo = OReflect k r (with_error_field k)\<rparr>"

end
