(* ===== verification/Msgpack.thy ===== *)
theory Msgpack
  imports Zap_Marshal
begin

text \<open>
  The msgpack format as a receiver reads it, and the interface to the msgpack library. The reader is
  the format's specification: one token at a time, then whole values. The library
  \<^verbatim>\<open>tinylib/msgp\<close> is outside the repository: its append functions are the fields of a record, and
  the locale states what is documented of them, that each appends to its buffer one value (or one
  container header) that a msgpack reader reads back.
\<close>

section \<open>Big-endian integers\<close>

fun be_bytes :: "nat \<Rightarrow> nat \<Rightarrow> bytes" where
  "be_bytes 0 n = []"
| "be_bytes (Suc k) n = be_bytes k (n div 256) @ [of_nat (n mod 256)]"

lemma be_bytes_numeral:
  "be_bytes 1 n = [of_nat (n mod 256)]"
  "be_bytes 2 n = [of_nat (n div 256 mod 256), of_nat (n mod 256)]"
  "be_bytes 4 n = [of_nat (n div 16777216 mod 256), of_nat (n div 65536 mod 256), of_nat (n div 256 mod 256),
     of_nat (n mod 256)]"
proof -
  show 1: "be_bytes 1 n = [of_nat (n mod 256)]" for n using be_bytes.simps(2) [of 0 n] by simp
  show 2: "be_bytes 2 n = [of_nat (n div 256 mod 256), of_nat (n mod 256)]" for n
    using be_bytes.simps(2) [of 1 n] unfolding 1 by (simp add: numeral_2_eq_2)
  have 3: "be_bytes 3 n = [of_nat (n div 256 div 256 mod 256), of_nat (n div 256 mod 256), of_nat (n mod 256)]" for n
    using be_bytes.simps(2) [of 2 n] unfolding 2 by simp
  show "be_bytes 4 n = [of_nat (n div 16777216 mod 256), of_nat (n div 65536 mod 256), of_nat (n div 256 mod 256),
     of_nat (n mod 256)]"
    using be_bytes.simps(2) [of 3 n] unfolding 3 by (simp add: div_mult2_eq [symmetric])
qed

definition un_be :: "bytes \<Rightarrow> nat" where
  "un_be bs = foldl (\<lambda>a b. a * 256 + unat b) 0 bs"

lemma length_be_bytes [simp]: "length (be_bytes k n) = k"
  by (induction k arbitrary: n) simp_all

lemma un_be_be_bytes: "n < 256 ^ k \<Longrightarrow> un_be (be_bytes k n) = n"
proof (induction k arbitrary: n)
  case (Suc k)
  then have "n div 256 < 256 ^ k" by (simp add: less_mult_imp_div_less mult.commute)
  with Suc.IH show ?case by (simp add: un_be_def unat_of_nat_byte)
qed (simp add: un_be_def)

section \<open>Values and tokens\<close>

datatype mval =
    MNil
  | MBool bool
  | MInt int
  | MFloat32 u32
  | MFloat64 u64
  | MStr bytes
  | MBin bytes
  | MExt nat bytes
  | MArr "mval list"
  | MMap "(mval \<times> mval) list"

datatype mtoken = TLeaf mval | TArr nat | TMap nat

definition take_n :: "nat \<Rightarrow> bytes \<Rightarrow> (bytes \<times> bytes) option" where
  "take_n k r = (if length r < k then None else Some (take k r, drop k r))"

definition take_be :: "nat \<Rightarrow> bytes \<Rightarrow> (nat \<times> bytes) option" where
  "take_be k r = map_option (\<lambda>(bs, r'). (un_be bs, r')) (take_n k r)"

text \<open>A value whose length comes first, in \<open>k\<close> bytes.\<close>

definition take_len :: "nat \<Rightarrow> (bytes \<Rightarrow> mval) \<Rightarrow> bytes \<Rightarrow> (mtoken \<times> bytes) option" where
  "take_len k mk r =
     (case take_be k r of None \<Rightarrow> None
      | Some (n, r') \<Rightarrow> map_option (\<lambda>(p, r''). (TLeaf (mk p), r'')) (take_n n r'))"

definition take_ext :: "nat \<Rightarrow> bytes \<Rightarrow> (mtoken \<times> bytes) option" where
  "take_ext n r =
     (case r of [] \<Rightarrow> None
      | t # r' \<Rightarrow> map_option (\<lambda>(p, r''). (TLeaf (MExt (unat t) p), r'')) (take_n n r'))"

definition signed_be :: "nat \<Rightarrow> nat \<Rightarrow> int" where
  "signed_be k n = (if 2 * n < 256 ^ k then int n else int n - 256 ^ k)"

fun mp_token :: "bytes \<Rightarrow> (mtoken \<times> bytes) option" where
  "mp_token [] = None"
| "mp_token (b # r) =
     (let x = unat b;
          num = (\<lambda>k f. map_option (\<lambda>(n, r'). (TLeaf (f n), r')) (take_be k r));
          hdr = (\<lambda>k f. map_option (\<lambda>(n, r'). (f n, r')) (take_be k r))
      in if x < 0x80 then Some (TLeaf (MInt (int x)), r)
      else if x < 0x90 then Some (TMap (x - 0x80), r)
      else if x < 0xa0 then Some (TArr (x - 0x90), r)
      else if x < 0xc0 then map_option (\<lambda>(p, r'). (TLeaf (MStr p), r')) (take_n (x - 0xa0) r)
      else if x = 0xc0 then Some (TLeaf MNil, r)
      else if x = 0xc2 then Some (TLeaf (MBool False), r)
      else if x = 0xc3 then Some (TLeaf (MBool True), r)
      else if x = 0xc4 then take_len 1 MBin r
      else if x = 0xc5 then take_len 2 MBin r
      else if x = 0xc6 then take_len 4 MBin r
      else if x = 0xc7 then (case take_be 1 r of None \<Rightarrow> None | Some (n, r') \<Rightarrow> take_ext n r')
      else if x = 0xc8 then (case take_be 2 r of None \<Rightarrow> None | Some (n, r') \<Rightarrow> take_ext n r')
      else if x = 0xc9 then (case take_be 4 r of None \<Rightarrow> None | Some (n, r') \<Rightarrow> take_ext n r')
      else if x = 0xca then num 4 (\<lambda>n. MFloat32 (of_nat n))
      else if x = 0xcb then num 8 (\<lambda>n. MFloat64 (of_nat n))
      else if x = 0xcc then num 1 (\<lambda>n. MInt (int n))
      else if x = 0xcd then num 2 (\<lambda>n. MInt (int n))
      else if x = 0xce then num 4 (\<lambda>n. MInt (int n))
      else if x = 0xcf then num 8 (\<lambda>n. MInt (int n))
      else if x = 0xd0 then num 1 (\<lambda>n. MInt (signed_be 1 n))
      else if x = 0xd1 then num 2 (\<lambda>n. MInt (signed_be 2 n))
      else if x = 0xd2 then num 4 (\<lambda>n. MInt (signed_be 4 n))
      else if x = 0xd3 then num 8 (\<lambda>n. MInt (signed_be 8 n))
      else if x = 0xd4 then take_ext 1 r
      else if x = 0xd5 then take_ext 2 r
      else if x = 0xd6 then take_ext 4 r
      else if x = 0xd7 then take_ext 8 r
      else if x = 0xd8 then take_ext 16 r
      else if x = 0xd9 then take_len 1 MStr r
      else if x = 0xda then take_len 2 MStr r
      else if x = 0xdb then take_len 4 MStr r
      else if x = 0xdc then hdr 2 TArr
      else if x = 0xdd then hdr 4 TArr
      else if x = 0xde then hdr 2 TMap
      else if x = 0xdf then hdr 4 TMap
      else if x < 0xe0 then None
      else Some (TLeaf (MInt (int x - 256)), r))"

declare mp_token.simps(2) [simp del]

text \<open>
  Whole values. The reader goes on only when it has consumed something, which every value does.
\<close>

function mp_value :: "bytes \<Rightarrow> (mval \<times> bytes) option"
  and mp_values :: "nat \<Rightarrow> bytes \<Rightarrow> (mval list \<times> bytes) option"
  and mp_pairs :: "nat \<Rightarrow> bytes \<Rightarrow> ((mval \<times> mval) list \<times> bytes) option" where
  "mp_value b =
     (case mp_token b of
        None \<Rightarrow> None
      | Some (t, r) \<Rightarrow>
          if length r < length b then
            (case t of
               TLeaf v \<Rightarrow> Some (v, r)
             | TArr n \<Rightarrow> map_option (\<lambda>(vs, r'). (MArr vs, r')) (mp_values n r)
             | TMap n \<Rightarrow> map_option (\<lambda>(kvs, r'). (MMap kvs, r')) (mp_pairs n r))
          else None)"
| "mp_values n b =
     (if n = 0 then Some ([], b)
      else case mp_value b of
        None \<Rightarrow> None
      | Some (v, r) \<Rightarrow>
          if length r < length b then map_option (\<lambda>(vs, r'). (v # vs, r')) (mp_values (n - 1) r) else None)"
| "mp_pairs n b =
     (if n = 0 then Some ([], b)
      else case mp_value b of
        None \<Rightarrow> None
      | Some (k, r) \<Rightarrow>
          if length r < length b then
            (case mp_value r of
               None \<Rightarrow> None
             | Some (v, r') \<Rightarrow>
                 if length r' < length r then map_option (\<lambda>(kvs, q). ((k, v) # kvs, q)) (mp_pairs (n - 1) r')
                 else None)
          else None)"
  by pat_completeness auto
termination
  by (relation "measure (\<lambda>x. case x of Inl b \<Rightarrow> 2 * length b | Inr (Inl (n, b)) \<Rightarrow> 2 * length b + 1
       | Inr (Inr (n, b)) \<Rightarrow> 2 * length b + 1)") auto

declare mp_value.simps [simp del] mp_values.simps [simp del] mp_pairs.simps [simp del]

text \<open>A byte string that any reader takes as exactly this one value, whatever follows.\<close>

definition reads :: "bytes \<Rightarrow> mval \<Rightarrow> bool" where
  "reads p v \<longleftrightarrow> (\<forall>r. mp_value (p @ r) = Some (v, r))"

definition reads_token :: "bytes \<Rightarrow> mtoken \<Rightarrow> bool" where
  "reads_token p t \<longleftrightarrow> (\<forall>r. mp_token (p @ r) = Some (t, r))"

lemma reads_token_nonempty: "reads_token p t \<Longrightarrow> p \<noteq> []"
  by (auto simp: reads_token_def dest!: spec [of _ "[]"])

lemma reads_nonempty: "reads p v \<Longrightarrow> p \<noteq> []"
proof -
  have "mp_value [] = None" by (simp add: mp_value.simps)
  then show "reads p v \<Longrightarrow> p \<noteq> []" by (auto simp: reads_def dest!: spec [of _ "[]"])
qed

lemma reads_leaf: "reads_token p (TLeaf v) \<Longrightarrow> reads p v"
  using reads_token_nonempty [of p] by (simp add: reads_def reads_token_def mp_value.simps)

lemma mp_values_concat:
  "list_all2 reads ps vs \<Longrightarrow> mp_values (length ps) (concat ps @ r) = Some (vs, r)"
proof (induction ps vs rule: list_all2_induct)
  case Nil
  then show ?case by (simp add: mp_values.simps)
next
  case (Cons p ps v vs)
  have "mp_value (p @ concat ps @ r) = Some (v, concat ps @ r)" using Cons(1) by (simp add: reads_def)
  with Cons reads_nonempty [OF Cons(1)] show ?case by (subst mp_values.simps) simp
qed

lemma mp_pairs_concat:
  "list_all2 (\<lambda>(p, q) (k, v). reads p k \<and> reads q v) ps kvs \<Longrightarrow>
   mp_pairs (length ps) (concat (map (\<lambda>(p, q). p @ q) ps) @ r) = Some (kvs, r)"
proof (induction ps kvs rule: list_all2_induct)
  case Nil
  then show ?case by (simp add: mp_pairs.simps)
next
  case (Cons pq ps kv kvs)
  obtain p q k v where e: "pq = (p, q)" "kv = (k, v)" by (cases pq; cases kv)
  with Cons(1) have rd: "reads p k" "reads q v" by simp_all
  let ?t = "concat (map (\<lambda>(p, q). p @ q) ps) @ r"
  have "mp_value (p @ q @ ?t) = Some (k, q @ ?t)" "mp_value (q @ ?t) = Some (v, ?t)"
    using rd by (simp_all add: reads_def)
  with Cons(3) reads_nonempty [OF rd(1)] reads_nonempty [OF rd(2)] show ?case
    by (subst mp_pairs.simps) (simp add: e)
qed

lemma reads_array:
  assumes "reads_token h (TArr (length ps))" and "list_all2 reads ps vs"
  shows "reads (h @ concat ps) (MArr vs)"
  using assms reads_token_nonempty [OF assms(1)] mp_values_concat [OF assms(2)]
  by (simp add: reads_def reads_token_def mp_value.simps)

lemma reads_map:
  assumes "reads_token h (TMap (length ps))"
    and "list_all2 (\<lambda>(p, q) (k, v). reads p k \<and> reads q v) ps kvs"
  shows "reads (h @ concat (map (\<lambda>(p, q). p @ q) ps)) (MMap kvs)"
  using assms reads_token_nonempty [OF assms(1)] mp_pairs_concat [OF assms(2)]
  by (simp add: reads_def reads_token_def mp_value.simps)

section \<open>The msgpack library\<close>

text \<open>
  \<^verbatim>\<open>msgp.AppendIntf\<close> is called with decoded values and with the user's own values; the two are
  separate fields.
\<close>

record msgp =
  mp_String :: "bytes \<Rightarrow> bytes \<Rightarrow> bytes"
  mp_Bool :: "bytes \<Rightarrow> bool \<Rightarrow> bytes"
  mp_Int64 :: "bytes \<Rightarrow> int \<Rightarrow> bytes"
  mp_Uint64 :: "bytes \<Rightarrow> u64 \<Rightarrow> bytes"
  mp_Float32 :: "bytes \<Rightarrow> u32 \<Rightarrow> bytes"
  mp_Float64 :: "bytes \<Rightarrow> u64 \<Rightarrow> bytes"
  mp_Bytes :: "bytes \<Rightarrow> bytes \<Rightarrow> bytes"
  mp_MapHeader :: "bytes \<Rightarrow> u32 \<Rightarrow> bytes"
  mp_ArrayHeader :: "bytes \<Rightarrow> u32 \<Rightarrow> bytes"
  mp_Intf :: "bytes \<Rightarrow> jany \<Rightarrow> (go_error, bytes) result"
  mp_Reflect :: "bytes \<Rightarrow> reflected \<Rightarrow> (go_error, bytes) result"

locale msgp_laws =
  fixes M :: msgp
  assumes String_append: "mp_String M b s = b @ mp_String M [] s"
    and Bool_append: "mp_Bool M b t = b @ mp_Bool M [] t"
    and Int64_append: "mp_Int64 M b i = b @ mp_Int64 M [] i"
    and Uint64_append: "mp_Uint64 M b u = b @ mp_Uint64 M [] u"
    and Float32_append: "mp_Float32 M b f = b @ mp_Float32 M [] f"
    and Float64_append: "mp_Float64 M b d = b @ mp_Float64 M [] d"
    and Bytes_append: "mp_Bytes M b s = b @ mp_Bytes M [] s"
    and MapHeader_append: "mp_MapHeader M b n = b @ mp_MapHeader M [] n"
    and ArrayHeader_append: "mp_ArrayHeader M b n = b @ mp_ArrayHeader M [] n"
    and Intf_append: "mp_Intf M b j = (case mp_Intf M [] j of Inl e \<Rightarrow> Inl e | Inr x \<Rightarrow> Inr (b @ x))"
    and Reflect_append: "mp_Reflect M b r = (case mp_Reflect M [] r of Inl e \<Rightarrow> Inl e | Inr x \<Rightarrow> Inr (b @ x))"
    and String_reads: "length s < 2 ^ 32 \<Longrightarrow> reads_token (mp_String M [] s) (TLeaf (MStr s))"
    and Bool_reads: "reads_token (mp_Bool M [] t) (TLeaf (MBool t))"
    and Int64_reads: "- (2 ^ 63) \<le> i \<Longrightarrow> i < 2 ^ 63 \<Longrightarrow> reads_token (mp_Int64 M [] i) (TLeaf (MInt i))"
    and Uint64_reads: "reads_token (mp_Uint64 M [] u) (TLeaf (MInt (uint u)))"
    and Float32_reads: "reads_token (mp_Float32 M [] f) (TLeaf (MFloat32 f))"
    and Float64_reads: "reads_token (mp_Float64 M [] d) (TLeaf (MFloat64 d))"
    and Bytes_reads: "length s < 2 ^ 32 \<Longrightarrow> reads_token (mp_Bytes M [] s) (TLeaf (MBin s))"
    and MapHeader_reads: "reads_token (mp_MapHeader M [] n) (TMap (unat n))"
    and ArrayHeader_reads: "reads_token (mp_ArrayHeader M [] n) (TArr (unat n))"
    and Intf_reads: "mp_Intf M [] j = Inr x \<Longrightarrow> \<exists>v. reads x v"
    and Reflect_reads: "mp_Reflect M [] r = Inr x \<Longrightarrow> \<exists>v. reads x v"

text \<open>
  Documented of \<^verbatim>\<open>msgp.AppendIntf\<close> is also which value it writes: nil, booleans, strings,
  integers, floats and, element by element, slices and string-keyed maps. Decoded values that are
  none of a \<^verbatim>\<open>json.Number\<close> and fit the format's length fields are never refused.
\<close>

fun plain_value :: "jany \<Rightarrow> bool" where
  "plain_value JNull \<longleftrightarrow> True"
| "plain_value (JBool _) \<longleftrightarrow> True"
| "plain_value (JNumber _) \<longleftrightarrow> False"
| "plain_value (JStr s) \<longleftrightarrow> int (length s) < 2 ^ 32"
| "plain_value (JInt i) \<longleftrightarrow> - (2 ^ 63) \<le> i \<and> i < 2 ^ 63"
| "plain_value (JUint _) \<longleftrightarrow> True"
| "plain_value (JFloat _) \<longleftrightarrow> True"
| "plain_value (JArr vs) \<longleftrightarrow> int (length vs) < 2 ^ 32 \<and> list_all plain_value vs"
| "plain_value (JObj kvs) \<longleftrightarrow> int (length kvs) < 2 ^ 32 \<and> list_all (\<lambda>(k, v). int (length k) < 2 ^ 32 \<and> plain_value v) kvs"

fun intf_val :: "jany \<Rightarrow> mval" where
  "intf_val JNull = MNil"
| "intf_val (JBool b) = MBool b"
| "intf_val (JNumber s) = MStr s"
| "intf_val (JStr s) = MStr s"
| "intf_val (JInt i) = MInt i"
| "intf_val (JUint u) = MInt (uint u)"
| "intf_val (JFloat d) = MFloat64 d"
| "intf_val (JArr vs) = MArr (map intf_val vs)"
| "intf_val (JObj kvs) = MMap (map (\<lambda>(k, v). (MStr k, intf_val v)) kvs)"

locale msgp_intf = msgp_laws +
  assumes Intf_value: "plain_value j \<Longrightarrow> \<exists>x. mp_Intf M [] j = Inr x \<and> reads x (intf_val j)"

text \<open>
  The format written in its longest forms is one library that keeps these laws; it refuses the
  user's own types.
\<close>

definition long_len :: "nat \<Rightarrow> bytes \<Rightarrow> bytes" where
  "long_len tag s = of_nat tag # be_bytes 4 (length s) @ s"

fun long_intf :: "jany \<Rightarrow> bytes" where
  "long_intf JNull = [0xc0]"
| "long_intf (JBool x) = [if x then 0xc3 else 0xc2]"
| "long_intf (JNumber s) = long_len 0xdb s"
| "long_intf (JStr s) = long_len 0xdb s"
| "long_intf (JInt i) = 0xd3 # be_bytes 8 (nat (i mod 2 ^ 64))"
| "long_intf (JUint u) = 0xcf # be_bytes 8 (unat u)"
| "long_intf (JFloat d) = 0xcb # be_bytes 8 (unat d)"
| "long_intf (JArr vs) = (0xdd # be_bytes 4 (length vs)) @ concat (map long_intf vs)"
| "long_intf (JObj kvs) =
     (0xdf # be_bytes 4 (length kvs)) @ concat (map (\<lambda>(k, v). long_len 0xdb k @ long_intf v) kvs)"

definition long_form :: msgp where
  "long_form =
    \<lparr>mp_String = (\<lambda>b s. b @ long_len 0xdb s),
     mp_Bool = (\<lambda>b x. b @ [if x then 0xc3 else 0xc2]),
     mp_Int64 = (\<lambda>b i. b @ 0xd3 # be_bytes 8 (nat (i mod 2 ^ 64))),
     mp_Uint64 = (\<lambda>b u. b @ 0xcf # be_bytes 8 (unat u)),
     mp_Float32 = (\<lambda>b f. b @ 0xca # be_bytes 4 (unat f)),
     mp_Float64 = (\<lambda>b d. b @ 0xcb # be_bytes 8 (unat d)),
     mp_Bytes = (\<lambda>b s. b @ long_len 0xc6 s),
     mp_MapHeader = (\<lambda>b n. b @ 0xdf # be_bytes 4 (unat n)),
     mp_ArrayHeader = (\<lambda>b n. b @ 0xdd # be_bytes 4 (unat n)),
     mp_Intf = (\<lambda>b j. if plain_value j then Inr (b @ long_intf j) else Inl (str ''unsupported'')),
     mp_Reflect = (\<lambda>b r. Inl (str ''unsupported''))\<rparr>"

lemma take_n_append: "length p = k \<Longrightarrow> take_n k (p @ r) = Some (p, r)"
  by (simp add: take_n_def)

lemma take_be_bytes: "n < 256 ^ k \<Longrightarrow> take_be k (be_bytes k n @ r) = Some (n, r)"
  by (simp add: take_be_def take_n_append un_be_be_bytes)

lemma take_len_append: "length s < 256 ^ k \<Longrightarrow> take_len k mk (be_bytes k (length s) @ s @ r) = Some (TLeaf (mk s), r)"
  by (simp add: take_len_def take_be_bytes take_n_append)

lemma signed_be_mod:
  assumes "- (2 ^ 63) \<le> i" and "i < 2 ^ 63"
  shows "signed_be 8 (nat (i mod 2 ^ 64)) = i"
proof (cases "i < 0")
  case True
  have "i mod 2 ^ 64 = (i + 2 ^ 64) mod 2 ^ 64" by simp
  also have "\<dots> = i + 2 ^ 64" using True assms by (intro mod_pos_pos_trivial) simp_all
  finally have "i mod 2 ^ 64 = i + 2 ^ 64" .
  with True assms show ?thesis by (simp add: signed_be_def)
next
  case False
  with assms show ?thesis by (simp add: signed_be_def)
qed

lemma take_be_word:
  "take_be 8 (be_bytes 8 (unat (u :: u64)) @ r) = Some (unat u, r)"
  "take_be 4 (be_bytes 4 (unat (n :: u32)) @ r) = Some (unat n, r)"
  "take_be 8 (be_bytes 8 (nat (i mod 2 ^ 64)) @ r) = Some (nat (i mod 2 ^ 64), r)"
proof -
  have "unat u < 256 ^ 8" "unat n < 256 ^ 4" using unsigned_less [of u] unsigned_less [of n] by simp_all
  moreover have "nat (i mod 2 ^ 64) < 256 ^ 8"
    using pos_mod_bound [of "2 ^ 64" i] by simp
  ultimately show "take_be 8 (be_bytes 8 (unat u) @ r) = Some (unat u, r)"
    "take_be 4 (be_bytes 4 (unat n) @ r) = Some (unat n, r)"
    "take_be 8 (be_bytes 8 (nat (i mod 2 ^ 64)) @ r) = Some (nat (i mod 2 ^ 64), r)"
    by (simp_all only: take_be_bytes)
qed

lemmas long_form_simps = long_form_def long_len_def mp_token.simps Let_def take_be_word
  take_be_word(3) [simplified] take_len_append

lemma bool_token: "reads_token [if t then 0xc3 else 0xc2] (TLeaf (MBool t))"
  by (cases t) (simp_all add: reads_token_def mp_token.simps)

lemma long_header:
  "n < 2 ^ 32 \<Longrightarrow> reads_token (0xdd # be_bytes 4 n) (TArr n)" "n < 2 ^ 32 \<Longrightarrow> reads_token (0xdf # be_bytes 4 n) (TMap n)"
  using take_be_bytes [of n 4] by (simp_all add: reads_token_def mp_token.simps Let_def)

lemma long_string: "length s < 2 ^ 32 \<Longrightarrow> reads (long_len 0xdb s) (MStr s)"
  by (intro reads_leaf) (simp add: reads_token_def long_form_simps)

lemma long_intf_reads: "plain_value j \<Longrightarrow> reads (long_intf j) (intf_val j)"
proof (induction j rule: plain_value.induct)
  case (2 t)
  then show ?case using reads_leaf [OF bool_token [of t]] by simp
next
  case (8 vs)
  then have "list_all2 reads (map long_intf vs) (map intf_val vs)"
    by (auto simp: list_all_iff list_all2_map1 list_all2_map2 list_all2_same)
  moreover have "reads_token (0xdd # be_bytes 4 (length vs)) (TArr (length (map long_intf vs)))"
    using 8 long_header(1) by simp
  ultimately show ?case using reads_array by (simp only: long_intf.simps intf_val.simps)
next
  case (9 kvs)
  let ?ps = "map (\<lambda>(k, v). (long_len 0xdb k, long_intf v)) kvs"
  have "list_all2 (\<lambda>(p, q) (k, v). reads p k \<and> reads q v) ?ps (map (\<lambda>(k, v). (MStr k, intf_val v)) kvs)"
    using 9 long_string by (auto simp: list_all_iff list_all2_map1 list_all2_map2 list_all2_same)
  moreover have "reads_token (0xdf # be_bytes 4 (length kvs)) (TMap (length ?ps))"
    using 9 long_header(2) by simp
  ultimately have "reads ((0xdf # be_bytes 4 (length kvs)) @ concat (map (\<lambda>(p, q). p @ q) ?ps))
      (MMap (map (\<lambda>(k, v). (MStr k, intf_val v)) kvs))"
    using reads_map by blast
  then show ?case by (simp add: comp_def case_prod_unfold)
qed (auto intro!: reads_leaf simp: long_form_simps reads_token_def signed_be_mod [simplified])

interpretation long_form: msgp_intf long_form
proof unfold_locales
  show "plain_value j \<Longrightarrow> \<exists>x. mp_Intf long_form [] j = Inr x \<and> reads x (intf_val j)" for j
    using long_intf_reads by (simp add: long_form_def)
  show "mp_Intf long_form [] j = Inr x \<Longrightarrow> \<exists>v. reads x v" for j x
    using long_intf_reads by (auto simp: long_form_def split: if_splits)
qed (auto simp: long_form_simps reads_token_def signed_be_mod [simplified])

end
