(* ===== verification/Fluent_Wire.thy ===== *)
theory Fluent_Wire
  imports Msgpack
begin

text \<open>
  \<^verbatim>\<open>fluent/proto.go\<close> and \<^verbatim>\<open>fluent/framer.go\<close>: the EventTime extension and the PackedForward
  framer. The receiver reads a frame as a three-element msgpack array, takes the entries out of
  the bin and splits them at value boundaries.
\<close>

section \<open>EventTime\<close>

definition extensionType :: nat where "extensionType = 0"
definition ext_length :: nat where "ext_length = 8"

definition ExtensionType :: nat where "ExtensionType = extensionType"
definition EventTime_Len :: nat where "EventTime_Len = ext_length"

definition MarshalBinaryTo :: "gotime \<Rightarrow> bytes" where
  "MarshalBinaryTo t =
     (let sec = of_int (unixSec t) :: u32; ns = of_int (nsec t) :: u64 in
      [ucast (drop_bit 24 sec), ucast (drop_bit 16 sec), ucast (drop_bit 8 sec), ucast sec,
       ucast (drop_bit 24 ns), ucast (drop_bit 16 ns), ucast (drop_bit 8 ns), ucast ns])"

definition int_be4 :: "byte \<Rightarrow> byte \<Rightarrow> byte \<Rightarrow> byte \<Rightarrow> int" where
  "int_be4 a b c d = push_bit 24 (uint a) OR push_bit 16 (uint b) OR push_bit 8 (uint c) OR uint d"

text \<open>\<^verbatim>\<open>time.Unix\<close> with a nanosecond count that may exceed a second.\<close>

definition time_Unix :: "int \<Rightarrow> int \<Rightarrow> gotime" where
  "time_Unix sec ns = \<lparr>unixSec = sec + ns div 1000000000, nsec = ns mod 1000000000\<rparr>"

definition UnmarshalBinary :: "bytes \<Rightarrow> (go_error, gotime) result" where
  "UnmarshalBinary b =
     (if length b \<noteq> ext_length then Inl (str ''fluent: invalid EventTime length: '' @ decimal (length b))
      else Inr (time_Unix (int_be4 (b ! 0) (b ! 1) (b ! 2) (b ! 3)) (int_be4 (b ! 4) (b ! 5) (b ! 6) (b ! 7))))"

section \<open>The framer\<close>

record fluent_framer =
  tag :: bytes

definition fluent_NewFramer :: "bytes \<Rightarrow> fluent_framer" where
  "fluent_NewFramer t = \<lparr>tag = t\<rparr>"

definition checkBinSize :: "nat \<Rightarrow> go_error option" where
  "checkBinSize sz =
     (if (of_nat sz :: u64) > 0xFFFFFFFF
      then Some (str ''fluent: batch is '' @ decimal sz @ str '' bytes, exceeds the msgpack bin32 limit (4 GiB)'')
      else None)"

definition appendBinHeader :: "bytes \<Rightarrow> nat \<Rightarrow> bytes" where
  "appendBinHeader b n =
     (let w = of_nat n :: u64 in
      if n < 2 ^ 8 then b @ [0xc4, ucast w]
      else if n < 2 ^ 16 then b @ [0xc5, ucast (drop_bit 8 w), ucast w]
      else b @ [0xc6, ucast (drop_bit 24 w), ucast (drop_bit 16 w), ucast (drop_bit 8 w), ucast w])"

definition fluent_Frame :: "msgp \<Rightarrow> fluent_framer \<Rightarrow> frame_fn" where
  "fluent_Frame M f dst0 payloads =
     (let sz = foldl (\<lambda>t p. t + length p) 0 payloads in
      case checkBinSize sz of
        Some err \<Rightarrow> Inl err
      | None \<Rightarrow>
          (let dst1 = mp_ArrayHeader M dst0 3;
               dst2 = mp_String M dst1 (tag f);
               dst3 = appendBinHeader dst2 sz;
               dst4 = foldl (\<lambda>d p. d @ p) dst3 payloads;
               dst5 = mp_MapHeader M dst4 1;
               dst6 = mp_String M dst5 (str ''size'')
           in Inr (mp_Int64 M dst6 (int (length payloads)))))"

section \<open>The receiver\<close>

text \<open>Split a byte string into the raw bytes of the values it consists of.\<close>

function split_values :: "bytes \<Rightarrow> bytes list option" where
  "split_values b =
     (if b = [] then Some []
      else case mp_value b of
        None \<Rightarrow> None
      | Some (_, r) \<Rightarrow>
          if length r < length b
          then map_option (\<lambda>ps. take (length b - length r) b # ps) (split_values r) else None)"
  by pat_completeness auto
termination
  by (relation "measure length") auto

declare split_values.simps [simp del]

definition read_forward :: "bytes \<Rightarrow> ((bytes \<times> bytes list \<times> int) \<times> bytes) option" where
  "read_forward b =
     (case mp_value b of
        Some (MArr [MStr t, MBin es, MMap [(MStr k, MInt n)]], r) \<Rightarrow>
          (if k = str ''size'' then map_option (\<lambda>ps. ((t, ps, n), r)) (split_values es) else None)
      | _ \<Rightarrow> None)"

section \<open>Lemmas\<close>

lemma split_values_concat:
  "\<forall>p\<in>set ps. \<exists>v. reads p v \<Longrightarrow> split_values (concat ps) = Some ps"
proof (induction ps)
  case Nil
  then show ?case by (simp add: split_values.simps)
next
  case (Cons p ps)
  then obtain v where v: "reads p v" by auto
  then have "mp_value (p @ concat ps) = Some (v, concat ps)" by (simp add: reads_def)
  with Cons reads_nonempty [OF v] show ?case by (subst split_values.simps) simp
qed

lemma foldl_length: "foldl (\<lambda>t p. t + length p) n ps = n + length (concat ps)"
  by (induction ps arbitrary: n) simp_all

lemma foldl_concat: "foldl (\<lambda>d p. d @ p) d ps = d @ concat ps"
  by (induction ps arbitrary: d) simp_all

lemma be_word_bytes:
  fixes n :: nat defines "w \<equiv> of_nat n :: u64"
  assumes "n < 2 ^ 64"
  shows "[ucast w] = be_bytes 1 n" "[ucast (drop_bit 8 w), ucast w] = be_bytes 2 n"
    "[ucast (drop_bit 24 w), ucast (drop_bit 16 w), ucast (drop_bit 8 w), ucast w] = be_bytes 4 n"
proof -
  have u: "(ucast (drop_bit k w) :: byte) = of_nat (n div 2 ^ k mod 256)" for k
  proof -
    have "unat (ucast (drop_bit k w) :: byte) = n div 2 ^ k mod 256"
      using assms(2) by (simp only: unat_ucast_byte unat_drop_bit_div w_def unat_of_nat_u64)
    then show ?thesis by (metis unat_of_nat_byte mod_less_divisor word_unat_eq_iff zero_less_numeral)
  qed
  show "[ucast w] = be_bytes 1 n" "[ucast (drop_bit 8 w), ucast w] = be_bytes 2 n"
    "[ucast (drop_bit 24 w), ucast (drop_bit 16 w), ucast (drop_bit 8 w), ucast w] = be_bytes 4 n"
    unfolding be_bytes_numeral using u [of 0] u [of 8] u [of 16] u [of 24] by simp_all
qed

lemma appendBinHeader_token:
  assumes "length p < 2 ^ 32"
  shows "reads_token (appendBinHeader [] (length p) @ p) (TLeaf (MBin p))"
proof -
  have l: "length p < 2 ^ 64" using assms by simp
  note b = be_word_bytes [OF l]
  have "appendBinHeader [] (length p) =
    (if length p < 2 ^ 8 then 0xc4 # be_bytes 1 (length p)
     else if length p < 2 ^ 16 then 0xc5 # be_bytes 2 (length p) else 0xc6 # be_bytes 4 (length p))"
    unfolding appendBinHeader_def Let_def b [symmetric] by simp
  then show ?thesis using assms
    by (simp add: reads_token_def mp_token.simps Let_def take_len_append del: be_bytes.simps)
qed

lemma appendBinHeader_append: "appendBinHeader b n = b @ appendBinHeader [] n"
  by (simp add: appendBinHeader_def Let_def)

lemma checkBinSize_iff: "sz < 2 ^ 64 \<Longrightarrow> checkBinSize sz = None \<longleftrightarrow> sz < 2 ^ 32"
  by (auto simp: checkBinSize_def word_less_nat_alt unat_of_nat_u64)

text \<open>The three elements of a frame.\<close>

definition frame_parts :: "msgp \<Rightarrow> fluent_framer \<Rightarrow> bytes list \<Rightarrow> bytes list" where
  "frame_parts M f ps =
     [mp_String M [] (tag f), appendBinHeader [] (length (concat ps)) @ concat ps,
      mp_MapHeader M [] 1 @ concat (map (\<lambda>(p, q). p @ q) [(mp_String M [] (str ''size''), mp_Int64 M [] (int (length ps)))])]"

lemma frame_parts_length: "length (frame_parts M f ps) = 3"
  by (simp add: frame_parts_def)

context msgp_laws
begin

lemma mp_appends:
  "NO_MATCH [] b \<Longrightarrow> mp_String M b s = b @ mp_String M [] s"
  "NO_MATCH [] b \<Longrightarrow> mp_Bool M b t = b @ mp_Bool M [] t"
  "NO_MATCH [] b \<Longrightarrow> mp_Int64 M b i = b @ mp_Int64 M [] i"
  "NO_MATCH [] b \<Longrightarrow> mp_Uint64 M b u = b @ mp_Uint64 M [] u"
  "NO_MATCH [] b \<Longrightarrow> mp_Float32 M b f = b @ mp_Float32 M [] f"
  "NO_MATCH [] b \<Longrightarrow> mp_Float64 M b d = b @ mp_Float64 M [] d"
  "NO_MATCH [] b \<Longrightarrow> mp_Bytes M b s = b @ mp_Bytes M [] s"
  "NO_MATCH [] b \<Longrightarrow> mp_MapHeader M b n = b @ mp_MapHeader M [] n"
  "NO_MATCH [] b \<Longrightarrow> mp_ArrayHeader M b n = b @ mp_ArrayHeader M [] n"
  by (rule String_append Bool_append Int64_append Uint64_append Float32_append Float64_append Bytes_append
      MapHeader_append ArrayHeader_append)+

lemma fluent_Frame_enc:
  "fluent_Frame M f dst ps =
     (case checkBinSize (length (concat ps)) of
        Some e \<Rightarrow> Inl e
      | None \<Rightarrow> Inr (dst @ mp_ArrayHeader M [] 3 @ concat (frame_parts M f ps)))"
  by (simp add: fluent_Frame_def frame_parts_def Let_def foldl_length foldl_concat mp_appends
      appendBinHeader_append [of "_ @ _"] ArrayHeader_append [of dst] split: option.split)

lemma frame_parts_read:
  assumes "length (tag f) < 2 ^ 32" and "length (concat ps) < 2 ^ 32" and "length ps < 2 ^ 63"
  shows "reads (mp_ArrayHeader M [] 3 @ concat (frame_parts M f ps))
    (MArr [MStr (tag f), MBin (concat ps), MMap [(MStr (str ''size''), MInt (int (length ps)))]])"
proof (rule reads_array)
  show "reads_token (mp_ArrayHeader M [] 3) (TArr (length (frame_parts M f ps)))"
    using ArrayHeader_reads [of 3] by (simp add: frame_parts_length)
  have "reads_token (mp_MapHeader M [] 1) (TMap 1)" using MapHeader_reads [of 1] by simp
  moreover have "reads (mp_String M [] (str ''size'')) (MStr (str ''size''))"
    by (intro reads_leaf String_reads) (simp add: str_def)
  moreover have "reads (mp_Int64 M [] (int (length ps))) (MInt (int (length ps)))"
    using assms(3) by (intro reads_leaf Int64_reads) simp_all
  ultimately have "reads (mp_MapHeader M [] 1 @ concat (map (\<lambda>(p, q). p @ q)
      [(mp_String M [] (str ''size''), mp_Int64 M [] (int (length ps)))])) (MMap [(MStr (str ''size''), MInt (int (length ps)))])"
    by (intro reads_map) simp_all
  then show "list_all2 reads (frame_parts M f ps)
      [MStr (tag f), MBin (concat ps), MMap [(MStr (str ''size''), MInt (int (length ps)))]]"
    using assms reads_leaf [OF appendBinHeader_token] reads_leaf [OF String_reads] by (simp add: frame_parts_def)
qed

lemma forward_frame:
  assumes "length (tag f) < 2 ^ 32" and "\<forall>p\<in>set ps. \<exists>v. reads p v" and "length (concat ps) < 2 ^ 32"
  shows "\<exists>frame. fluent_Frame M f [] ps = Inr frame \<and> frame \<noteq> [] \<and>
    (\<forall>rest. read_forward (frame @ rest) = Some ((tag f, ps, int (length ps)), rest))"
proof -
  have "length ps \<le> length (concat ps)"
    using assms(2)
  proof (induction ps)
    case (Cons p ps)
    then have "p \<noteq> []" by (auto dest: reads_nonempty)
    with Cons show ?case by (cases p) auto
  qed simp
  then have n: "length ps < 2 ^ 63" using assms(3) by simp
  have chk: "checkBinSize (length (concat ps)) = None" using assms(3) by (subst checkBinSize_iff) simp_all
  have "reads (mp_ArrayHeader M [] 3 @ concat (frame_parts M f ps))
    (MArr [MStr (tag f), MBin (concat ps), MMap [(MStr (str ''size''), MInt (int (length ps)))]])"
    by (rule frame_parts_read [OF assms(1,3) n])
  moreover note reads_nonempty [OF this]
  ultimately show ?thesis using split_values_concat [OF assms(2)] chk
    by (simp add: fluent_Frame_enc reads_def read_forward_def del: append_is_Nil_conv)
qed

end

sublocale msgp_laws < fluent: append_framer "fluent_Frame M f" for f
  by unfold_locales (simp add: fluent_Frame_enc split: option.split)

lemma int_be4_read: "int_be4 a b c d = uint (be32_read [a, b, c, d])"
proof -
  have t: "take_bit k (uint (x :: byte)) = uint x" if "8 \<le> k" for x k
  proof (rule take_bit_int_eq_self)
    have "uint x < 2 ^ 8" using uint_lt2p [of x] by simp
    also have "\<dots> \<le> 2 ^ k" using that by (rule power_increasing) simp
    finally show "uint x < 2 ^ k" .
  qed simp
  then have u: "uint (ucast (x :: byte) :: u32) = uint x" for x
    by (simp add: unsigned_ucast_eq)
  show ?thesis
    by (simp add: int_be4_def unsigned_or_eq unsigned_push_bit_eq u take_bit_push_bit t)
qed

lemma MarshalBinaryTo_be32:
  "MarshalBinaryTo t = be32 (of_int (unixSec t)) @ be32 (ucast (of_int (nsec t) :: u64))"
proof -
  have "(ucast (drop_bit k (w :: u64)) :: byte) = ucast (drop_bit k (ucast w :: u32))" if "k \<le> 24" for k w
    using that by (intro bit_word_eqI) (simp add: bit_simps)
  moreover have "(ucast (w :: u64) :: byte) = ucast (ucast w :: u32)" for w
    by (intro bit_word_eqI) (simp add: bit_simps)
  ultimately show ?thesis by (simp add: MarshalBinaryTo_def be32_def Let_def)
qed

section \<open>Properties\<close>

text \<open>The EventTime extension is eight bytes and round-trips every UTC time exactly up to the
  32-bit second count it carries (the year 2106), nanoseconds included; a payload of another
  length is an error.\<close>

theorem eventtime_roundtrip:
  assumes "0 \<le> nsec t" and "nsec t < 1000000000"
  shows "length (MarshalBinaryTo t) = EventTime_Len \<and>
    UnmarshalBinary (MarshalBinaryTo t) = Inr \<lparr>unixSec = unixSec t mod 2 ^ 32, nsec = nsec t\<rparr> \<and>
    (length b \<noteq> EventTime_Len \<longrightarrow> (\<exists>err. UnmarshalBinary b = Inl err))"
proof -
  let ?s = "of_int (unixSec t) :: u32" and ?n = "ucast (of_int (nsec t) :: u64) :: u32"
  have n: "uint ?n = nsec t" using assms by (simp add: unsigned_ucast_eq unsigned_of_int take_bit_int_eq_self)
  have s: "uint ?s = unixSec t mod 2 ^ 32" by (simp add: unsigned_of_int take_bit_eq_mod)
  obtain a b c d where bs: "be32 ?s = [a, b, c, d]" by (simp add: be32_def)
  obtain e f g h where bn: "be32 ?n = [e, f, g, h]" by (simp add: be32_def)
  have "be32_read [a, b, c, d] = ?s" "be32_read [e, f, g, h] = ?n"
    using be32_read_be32 [of ?s "[]"] be32_read_be32 [of ?n "[]"] bs bn by simp_all
  then show ?thesis using assms n s
    by (simp add: MarshalBinaryTo_be32 bs bn UnmarshalBinary_def EventTime_Len_def ext_length_def int_be4_read time_Unix_def
        del: be32_read.simps)
qed

theorem eventtime_roundtrip_witness:
  "UnmarshalBinary (MarshalBinaryTo \<lparr>unixSec = 1700000000, nsec = 123456789\<rparr>) = Inr \<lparr>unixSec = 1700000000, nsec = 123456789\<rparr>"
  using eventtime_roundtrip [of "\<lparr>unixSec = 1700000000, nsec = 123456789\<rparr>"] by simp


text \<open>a frame of the fluent framer is one PackedForward message: for payloads that are msgpack
  values of less than 4 GiB in total, a receiver reading the frame, whatever follows it, gets the
  tag, exactly the payloads in order, and their number; a larger batch is refused with an error.\<close>

theorem fluent_frame_roundtrip:
  assumes "msgp_laws M" and "length (tag f) < 2 ^ 32" and "\<forall>p\<in>set ps. \<exists>v. reads p v"
    and "length (concat ps) < 2 ^ 63"
  shows "(length (concat ps) < 2 ^ 32 \<longrightarrow>
      (\<exists>frame. fluent_Frame M f [] ps = Inr frame \<and>
         (\<forall>rest. read_forward (frame @ rest) = Some ((tag f, ps, int (length ps)), rest)))) \<and>
    (2 ^ 32 \<le> length (concat ps) \<longrightarrow> (\<exists>err. fluent_Frame M f dst ps = Inl err))"
  using msgp_laws.forward_frame [OF assms(1-3)] checkBinSize_iff [of "length (concat ps)"] assms(4)
  by (auto simp: msgp_laws.fluent_Frame_enc [OF assms(1)])

theorem fluent_frame_roundtrip_witness:
  "\<exists>frame. fluent_Frame long_form (fluent_NewFramer (str ''app'')) [] [[0x92, 1, 0xc3], [5]] = Inr frame \<and>
     read_forward (frame @ [9]) = Some ((str ''app'', [[0x92, 1, 0xc3], [5]], 2), [9])"
proof -
  have v: "reads [0x92, 1, 0xc3] (MArr [MInt 1, MBool True])" "reads [5] (MInt 5)"
    by (simp_all add: reads_def mp_value.simps mp_values.simps mp_token.simps)
  then have p: "\<forall>p\<in>set [[0x92, 1, 0xc3], [5]]. \<exists>v. reads p v" by auto
  have t: "length (tag (fluent_NewFramer (str ''app''))) < 2 ^ 32" by (simp add: fluent_NewFramer_def str_def)
  show ?thesis
    using fluent_frame_roundtrip [OF long_form.msgp_laws_axioms t p] by (simp add: fluent_NewFramer_def) blast
qed

end
