(* ===== verification/Go_Text.thy ===== *)
theory Go_Text
  imports Go_Runtime
begin

text \<open>
  Text formats of Go's standard library that the program uses: UTF-8 sequences, base64, and JSON as
  a receiver reads it. The JSON reader is a specification: it rejects raw control characters in
  strings and returns a string's bytes with the escapes undone.
\<close>

section \<open>Numbers\<close>

definition parse_digits :: "bytes \<Rightarrow> nat option" where
  "parse_digits s = (if s \<noteq> [] \<and> list_all is_digit s then Some (undecimal s) else None)"

text \<open>\<^verbatim>\<open>strconv.ParseInt\<close> and \<^verbatim>\<open>strconv.ParseUint\<close> in base 10 at 64 bits.\<close>

definition ParseInt :: "bytes \<Rightarrow> int option" where
  "ParseInt s =
     (let neg = (s \<noteq> [] \<and> hd s = of_char CHR ''-'');
          body = (if s \<noteq> [] \<and> (hd s = of_char CHR ''-'' \<or> hd s = of_char CHR ''+'') then tl s else s)
      in case parse_digits body of
           None \<Rightarrow> None
         | Some n \<Rightarrow>
             if neg then (if n \<le> 2 ^ 63 then Some (- int n) else None)
             else (if n < 2 ^ 63 then Some (int n) else None))"

definition ParseUint :: "bytes \<Rightarrow> u64 option" where
  "ParseUint s = (case parse_digits s of None \<Rightarrow> None | Some n \<Rightarrow> if n < 2 ^ 64 then Some (of_nat n) else None)"

lemma parse_digits_decimal: "parse_digits (decimal n) = Some n"
  using decimal_digits [of n] decimal_nonempty [of n] by (simp add: parse_digits_def list_all_iff undecimal_decimal)

lemma decimal_hd: "is_digit (hd (decimal n))"
  using decimal_digits decimal_nonempty hd_in_set by blast

lemma ParseInt_decimal: "n < 2 ^ 63 \<Longrightarrow> ParseInt (decimal n) = Some (int n)"
  using decimal_hd [of n] decimal_nonempty [of n]
  by (auto simp: ParseInt_def parse_digits_decimal is_digit_def Let_def)

lemma ParseInt_neg: "n \<le> 2 ^ 63 \<Longrightarrow> ParseInt (45 # decimal n) = Some (- int n)"
  by (simp add: ParseInt_def parse_digits_decimal Let_def)

section \<open>UTF-8\<close>

definition cont :: "byte \<Rightarrow> bool" where
  "cont b \<longleftrightarrow> 0x80 \<le> b \<and> b \<le> 0xbf"

text \<open>The range of the second byte depends on the first (no overlong forms, no surrogates).\<close>

definition second :: "byte \<Rightarrow> byte \<Rightarrow> bool" where
  "second c a \<longleftrightarrow>
     (if c = 0xe0 then 0xa0 else if c = 0xf0 then 0x90 else 0x80) \<le> a \<and>
     a \<le> (if c = 0xed then 0x9f else if c = 0xf4 then 0x8f else 0xbf)"

text \<open>
  The length of the valid sequence at the head, or 0 where \<^verbatim>\<open>utf8.DecodeRuneInString\<close> answers
  the error rune with size 1 (a truncated, overlong, surrogate or too large sequence).
\<close>

fun rune_size :: "bytes \<Rightarrow> nat" where
  "rune_size [] = 0"
| "rune_size (c # r) =
     (if c < 0x80 then 1
      else if 0xc2 \<le> c \<and> c \<le> 0xdf then (case r of a # _ \<Rightarrow> if second c a then 2 else 0 | _ \<Rightarrow> 0)
      else if 0xe0 \<le> c \<and> c \<le> 0xef then (case r of a # b # _ \<Rightarrow> if second c a \<and> cont b then 3 else 0 | _ \<Rightarrow> 0)
      else if 0xf0 \<le> c \<and> c \<le> 0xf4 then
        (case r of a # b # d # _ \<Rightarrow> if second c a \<and> cont b \<and> cont d then 4 else 0 | _ \<Rightarrow> 0)
      else 0)"

lemma rune_size_le: "rune_size s \<le> length s"
  by (cases s) (auto split: list.split)

lemma high_byte: "second c a \<Longrightarrow> \<not> a < 0x80" "cont a \<Longrightarrow> \<not> a < 0x80"
  by (auto simp: second_def cont_def word_less_nat_alt word_le_nat_alt split: if_splits)

text \<open>Every byte of a sequence of more than one byte is at least 0x80.\<close>

lemma rune_bytes_high:
  assumes "s = c # r" and "\<not> c < 0x80"
  shows "\<forall>b\<in>set (take (rune_size s) s). \<not> b < 0x80"
proof -
  have "\<forall>b\<in>set (take (rune_size s - 1) r). \<not> b < 0x80"
    unfolding assms(1) rune_size.simps if_not_P [OF assms(2)]
    by (simp del: not_less add: eval_nat_numeral high_byte split: list.split)
  then show ?thesis using assms by (cases "rune_size s") auto
qed

text \<open>A string with every byte that starts no valid sequence replaced by U+FFFD.\<close>

definition replacement :: bytes where "replacement = [0xef, 0xbf, 0xbd]"

function utf8_fix :: "bytes \<Rightarrow> bytes" where
  "utf8_fix s =
     (if s = [] then []
      else if rune_size s = 0 then replacement @ utf8_fix (tl s)
      else take (rune_size s) s @ utf8_fix (drop (rune_size s) s))"
  by pat_completeness auto
termination
  by (relation "measure length") auto

declare utf8_fix.simps [simp del]

function valid_utf8 :: "bytes \<Rightarrow> bool" where
  "valid_utf8 s =
     (if s = [] then True else if rune_size s = 0 then False else valid_utf8 (drop (rune_size s) s))"
  by pat_completeness auto
termination
  by (relation "measure length") auto

declare valid_utf8.simps [simp del]

lemma utf8_fix_Nil [simp]: "utf8_fix [] = []"
  by (simp add: utf8_fix.simps)

lemma utf8_fix_valid: "valid_utf8 s \<Longrightarrow> utf8_fix s = s"
proof (induction s rule: valid_utf8.induct)
  case (1 s)
  then show ?case
    by (cases "s = []") (auto simp: utf8_fix.simps [of s] valid_utf8.simps [of s] split: if_splits)
qed

section \<open>Hexadecimal and base64\<close>

definition hex_digit :: "nat \<Rightarrow> byte" where
  "hex_digit n = (if n < 10 then of_nat (48 + n) else of_nat (87 + n))"

definition hex_lower :: "bytes \<Rightarrow> bytes" where
  "hex_lower bs = concat (map (\<lambda>b. [hex_digit (unat b div 16), hex_digit (unat b mod 16)]) bs)"

definition b64_char :: "nat \<Rightarrow> byte" where
  "b64_char n =
     (if n < 26 then of_nat (65 + n) else if n < 52 then of_nat (71 + n) else if n < 62 then of_nat (n - 4)
      else if n = 62 then 43 else 47)"

fun base64 :: "bytes \<Rightarrow> bytes" where
  "base64 [] = []"
| "base64 [a] = [b64_char (unat a div 4), b64_char (unat a mod 4 * 16), 61, 61]"
| "base64 [a, b] = [b64_char (unat a div 4), b64_char (unat a mod 4 * 16 + unat b div 16), b64_char (unat b mod 16 * 4), 61]"
| "base64 (a # b # c # r) =
     [b64_char (unat a div 4), b64_char (unat a mod 4 * 16 + unat b div 16),
      b64_char (unat b mod 16 * 4 + unat c div 64), b64_char (unat c mod 64)] @ base64 r"

text \<open>The decoder skips line breaks; the padded form ends in \<^verbatim>\<open>=\<close>, the raw form has none.\<close>

definition b64_val :: "byte \<Rightarrow> nat option" where
  "b64_val c =
     (let n = unat c in
      if 65 \<le> n \<and> n \<le> 90 then Some (n - 65) else if 97 \<le> n \<and> n \<le> 122 then Some (n - 71)
      else if 48 \<le> n \<and> n \<le> 57 then Some (n + 4) else if n = 43 then Some 62 else if n = 47 then Some 63 else None)"

text \<open>The bytes of a group of four six-bit values.\<close>

definition b64_fst :: "nat \<Rightarrow> nat \<Rightarrow> byte" where "b64_fst x y = of_nat (x * 4 + y div 16)"
definition b64_snd :: "nat \<Rightarrow> nat \<Rightarrow> byte" where "b64_snd y z = of_nat (y mod 16 * 16 + z div 4)"
definition b64_trd :: "nat \<Rightarrow> nat \<Rightarrow> byte" where "b64_trd z w = of_nat (z mod 4 * 64 + w)"

fun b64_groups :: "bool \<Rightarrow> bytes \<Rightarrow> bytes option" where
  "b64_groups padded [] = Some []"
| "b64_groups padded [a] = None"
| "b64_groups padded [a, b] =
     (if padded then None
      else case (b64_val a, b64_val b) of
        (Some x, Some y) \<Rightarrow> Some [b64_fst x y] | _ \<Rightarrow> None)"
| "b64_groups padded [a, b, c] =
     (if padded then None
      else case (b64_val a, b64_val b, b64_val c) of
        (Some x, Some y, Some z) \<Rightarrow> Some [b64_fst x y, b64_snd y z] | _ \<Rightarrow> None)"
| "b64_groups padded (a # b # c # d # r) =
     (if padded \<and> r = [] \<and> d = 61 then
        (if c = 61 then
           (case (b64_val a, b64_val b) of (Some x, Some y) \<Rightarrow> Some [b64_fst x y] | _ \<Rightarrow> None)
         else
           (case (b64_val a, b64_val b, b64_val c) of
              (Some x, Some y, Some z) \<Rightarrow> Some [b64_fst x y, b64_snd y z] | _ \<Rightarrow> None))
      else
        (case (b64_val a, b64_val b, b64_val c, b64_val d) of
           (Some x, Some y, Some z, Some w) \<Rightarrow>
             map_option (\<lambda>bs. [b64_fst x y, b64_snd y z, b64_trd z w] @ bs)
               (b64_groups padded r)
         | _ \<Rightarrow> None))"

definition b64_decode :: "bool \<Rightarrow> bytes \<Rightarrow> bytes option" where
  "b64_decode padded s = b64_groups padded (filter (\<lambda>c. c \<noteq> 10 \<and> c \<noteq> 13) s)"

section \<open>Reading JSON\<close>

definition unhex_val :: "byte \<Rightarrow> nat option" where
  "unhex_val c =
     (let n = unat c in
      if 48 \<le> n \<and> n \<le> 57 then Some (n - 48) else if 97 \<le> n \<and> n \<le> 102 then Some (n - 87)
      else if 65 \<le> n \<and> n \<le> 70 then Some (n - 55) else None)"

text \<open>
  The rest of a string after its opening quote: its bytes and what follows the closing quote. Of the
  \<^verbatim>\<open>\u\<close> escapes only those of the ASCII characters are read.
\<close>

fun read_str :: "bytes \<Rightarrow> (bytes \<times> bytes) option" where
  "read_str [] = None"
| "read_str (c # r) =
     (let push = (\<lambda>x. map_option (\<lambda>(s, rest). (x # s, rest))) in
      if c = 34 then Some ([], r)
      else if c = 92 then
        (case r of
           [] \<Rightarrow> None
         | e # r' \<Rightarrow>
             if e = 34 \<or> e = 92 \<or> e = 47 then push e (read_str r')
             else if e = of_char CHR ''n'' then push 10 (read_str r')
             else if e = of_char CHR ''r'' then push 13 (read_str r')
             else if e = of_char CHR ''t'' then push 9 (read_str r')
             else if e = of_char CHR ''b'' then push 8 (read_str r')
             else if e = of_char CHR ''f'' then push 12 (read_str r')
             else if e = of_char CHR ''u'' then
               (case r' of
                  z1 # z2 # h # l # r'' \<Rightarrow>
                    (case (unhex_val h, unhex_val l) of
                       (Some x, Some y) \<Rightarrow>
                         if z1 = 48 \<and> z2 = 48 \<and> x < 8 then push (of_nat (x * 16 + y)) (read_str r'') else None
                     | _ \<Rightarrow> None)
                | _ \<Rightarrow> None)
             else None)
      else if c < 0x20 then None
      else push c (read_str r))"

datatype jtext = JTStr bytes | JTLit bytes | JTArr "jtext list" | JTObj "(bytes \<times> jtext) list"

definition lit_char :: "byte \<Rightarrow> bool" where
  "lit_char c \<longleftrightarrow> is_digit c \<or> c \<in> set (str ''+-.'') \<or> 65 \<le> unat c \<and> unat c \<le> 90 \<or> 97 \<le> unat c \<and> unat c \<le> 122"

function read_val :: "bytes \<Rightarrow> (jtext \<times> bytes) option"
  and read_elems :: "bytes \<Rightarrow> (jtext list \<times> bytes) option"
  and read_members :: "bytes \<Rightarrow> ((bytes \<times> jtext) list \<times> bytes) option" where
  "read_val b =
     (case b of
        [] \<Rightarrow> None
      | c # r \<Rightarrow>
          if c = 34 then map_option (\<lambda>(s, r'). (JTStr s, r')) (read_str r)
          else if c = 91 then
            (if r \<noteq> [] \<and> hd r = 93 then Some (JTArr [], tl r)
             else map_option (\<lambda>(vs, r'). (JTArr vs, r')) (read_elems r))
          else if c = 123 then
            (if r \<noteq> [] \<and> hd r = 125 then Some (JTObj [], tl r)
             else map_option (\<lambda>(kvs, r'). (JTObj kvs, r')) (read_members r))
          else if lit_char c then Some (JTLit (takeWhile lit_char b), dropWhile lit_char b)
          else None)"
| "read_elems b =
     (case read_val b of
        None \<Rightarrow> None
      | Some (v, r) \<Rightarrow>
          (case r of
             [] \<Rightarrow> None
           | c # r' \<Rightarrow>
               if c = 93 then Some ([v], r')
               else if c = 44 \<and> length r < length b then map_option (\<lambda>(vs, q). (v # vs, q)) (read_elems r')
               else None))"
| "read_members b =
     (case b of
        [] \<Rightarrow> None
      | q # b' \<Rightarrow>
          if q \<noteq> 34 then None
          else case read_str b' of
            None \<Rightarrow> None
          | Some (k, r) \<Rightarrow>
              if r = [] \<or> hd r \<noteq> 58 \<or> length b \<le> length r then None
              else case read_val (tl r) of
                None \<Rightarrow> None
              | Some (v, r') \<Rightarrow>
                  (case r' of
                     [] \<Rightarrow> None
                   | c # r'' \<Rightarrow>
                       if c = 125 then Some ([(k, v)], r'')
                       else if c = 44 \<and> length r' < length b
                         then map_option (\<lambda>(kvs, q). ((k, v) # kvs, q)) (read_members r'')
                       else None))"
  by pat_completeness auto
termination
  by (relation "measure (\<lambda>x. case x of Inl b \<Rightarrow> 2 * length b | Inr (Inl b) \<Rightarrow> 2 * length b + 1
       | Inr (Inr b) \<Rightarrow> 2 * length b + 1)") auto

declare read_val.simps [simp del] read_elems.simps [simp del] read_members.simps [simp del]

text \<open>
  A byte string that a reader takes as exactly this value, whatever follows that could not continue
  a number.
\<close>

definition ends_lit :: "bytes \<Rightarrow> bool" where
  "ends_lit r \<longleftrightarrow> r = [] \<or> \<not> lit_char (hd r)"

definition reads_json :: "bytes \<Rightarrow> jtext \<Rightarrow> bool" where
  "reads_json p v \<longleftrightarrow> (\<forall>r. ends_lit r \<longrightarrow> read_val (p @ r) = Some (v, r))"

definition reads_str :: "bytes \<Rightarrow> bytes \<Rightarrow> bool" where
  "reads_str p s \<longleftrightarrow> (\<forall>r. read_str (p @ 34 # r) = Some (s, r))"

definition quoted :: "bytes \<Rightarrow> bytes" where
  "quoted p = 34 # p @ [34]"

fun commas :: "bytes list \<Rightarrow> bytes" where
  "commas [] = []"
| "commas [p] = p"
| "commas (p # ps) = p @ 44 # commas ps"

lemma lit_char_quote: "\<not> lit_char 34" "\<not> lit_char 44" "\<not> lit_char 91" "\<not> lit_char 93" "\<not> lit_char 123" "\<not> lit_char 125"
  "\<not> lit_char 58"
  by (simp_all add: lit_char_def is_digit_def str_def)

lemma ends_lit_simps [simp]: "ends_lit []" "ends_lit (34 # r)" "ends_lit (44 # r)" "ends_lit (93 # r)" "ends_lit (125 # r)"
  by (simp_all add: ends_lit_def lit_char_quote)

lemma reads_json_quoted: "reads_str p s \<Longrightarrow> reads_json (quoted p) (JTStr s)"
  by (simp add: reads_json_def reads_str_def quoted_def read_val.simps)

lemma reads_json_lit:
  assumes "p \<noteq> []" and "\<forall>c\<in>set p. lit_char c"
  shows "reads_json p (JTLit p)"
proof -
  obtain c q where p: "p = c # q" using assms(1) by (cases p) auto
  with assms(2) have c: "lit_char c" "c \<noteq> 34" "c \<noteq> 91" "c \<noteq> 123" using lit_char_quote by auto
  have "takeWhile lit_char (p @ r) = p \<and> dropWhile lit_char (p @ r) = r" if "ends_lit r" for r
    using that assms(2) by (cases r) (simp_all add: ends_lit_def)
  with p c show ?thesis by (simp add: reads_json_def read_val.simps)
qed

lemma reads_json_nonempty:
  assumes "reads_json p v"
  shows "p \<noteq> [] \<and> hd p \<noteq> 93"
proof -
  have "read_val p = Some (v, [])" using assms unfolding reads_json_def by (metis append_Nil2 ends_lit_simps(1))
  then show ?thesis
    by (cases p) (auto simp: read_val.simps lit_char_quote split: if_splits)
qed

lemma read_elems_commas:
  "list_all2 reads_json ps vs \<Longrightarrow> ps \<noteq> [] \<Longrightarrow> read_elems (commas ps @ 93 # r) = Some (vs, r)"
proof (induction ps vs rule: list_all2_induct)
  case (Cons p ps v vs)
  show ?case
  proof (cases ps)
    case Nil
    then show ?thesis using Cons by (simp add: read_elems.simps reads_json_def)
  next
    case (Cons q qs)
    with \<open>list_all2 reads_json ps vs\<close> obtain w ws where vs: "vs = w # ws" by (cases vs) auto
    have "read_val (p @ 44 # commas ps @ 93 # r) = Some (v, 44 # commas ps @ 93 # r)"
      using Cons.hyps(1) by (simp add: reads_json_def)
    then show ?thesis using Cons Cons.IH reads_json_nonempty [OF Cons.hyps(1)]
      by (subst read_elems.simps) simp
  qed
qed simp

lemma reads_json_array:
  assumes "list_all2 reads_json ps vs"
  shows "reads_json (91 # commas ps @ [93]) (JTArr vs)"
proof (cases ps)
  case Nil
  then show ?thesis using assms by (simp add: reads_json_def read_val.simps)
next
  case (Cons p qs)
  with assms obtain v where p: "reads_json p v" by (cases vs) auto
  have "hd (commas ps @ x) \<noteq> 93 \<and> commas ps @ x \<noteq> []" for x
    using reads_json_nonempty [OF p] Cons by (cases qs) auto
  then show ?thesis using read_elems_commas [OF assms] Cons
    by (simp add: reads_json_def read_val.simps)
qed

definition member_text :: "bytes \<Rightarrow> bytes \<Rightarrow> bytes" where
  "member_text k p = quoted k @ 58 # p"

definition reads_member :: "bytes \<Rightarrow> bytes \<times> jtext \<Rightarrow> bool" where
  "reads_member p kv \<longleftrightarrow> (\<exists>k q. p = member_text k q \<and> reads_str k (fst kv) \<and> reads_json q (snd kv))"

lemma read_member:
  assumes "reads_member p (k, v)" and "ends_lit (c # r)"
  shows "read_members (p @ c # r) =
    (if c = 125 then Some ([(k, v)], r)
     else if c = 44 then map_option (\<lambda>(kvs, q). ((k, v) # kvs, q)) (read_members r) else None)"
proof -
  obtain kt q where p: "p = member_text kt q" "reads_str kt k" "reads_json q v"
    using assms(1) by (auto simp: reads_member_def)
  then have s: "read_str (kt @ 34 # 58 # q @ c # r) = Some (k, 58 # q @ c # r)"
    and v: "read_val (q @ c # r) = Some (v, c # r)"
    using assms(2) by (simp_all add: reads_str_def reads_json_def)
  show ?thesis
    by (subst read_members.simps) (simp add: p(1) member_text_def quoted_def s v)
qed

lemma read_members_commas:
  "list_all2 reads_member ps kvs \<Longrightarrow> ps \<noteq> [] \<Longrightarrow> read_members (commas ps @ 125 # r) = Some (kvs, r)"
proof (induction ps kvs rule: list_all2_induct)
  case (Cons p ps kv kvs)
  obtain k v where kv: "kv = (k, v)" by (cases kv)
  show ?case
  proof (cases ps)
    case Nil
    then show ?thesis using Cons kv read_member [of p k v 125 r] by simp
  next
    case (Cons q qs)
    then show ?thesis using Cons.hyps Cons.IH kv read_member [of p k v 44 "commas ps @ 125 # r"] by simp
  qed
qed simp

lemma reads_json_object:
  assumes "list_all2 reads_member ps kvs"
  shows "reads_json (123 # commas ps @ [125]) (JTObj kvs)"
proof (cases ps)
  case Nil
  then show ?thesis using assms by (simp add: reads_json_def read_val.simps)
next
  case (Cons p qs)
  with assms obtain kv where "reads_member p kv" by (cases kvs) auto
  then have "hd (commas ps @ x) = 34" for x
    using Cons by (cases qs) (auto simp: reads_member_def member_text_def quoted_def)
  then show ?thesis using read_members_commas [OF assms] Cons
    by (simp add: reads_json_def read_val.simps)
qed

text \<open>Strings that need no escaping.\<close>

definition plain :: "byte \<Rightarrow> bool" where
  "plain c \<longleftrightarrow> \<not> c < 0x20 \<and> c \<noteq> 34 \<and> c \<noteq> 92"

lemma read_str_plain: "\<forall>c\<in>set p. plain c \<Longrightarrow> read_str (p @ q) = map_option (\<lambda>(s, r). (p @ s, r)) (read_str q)"
  by (induction p) (auto simp: plain_def option.map_comp comp_def case_prod_unfold option.map_ident)

lemma reads_str_plain: "\<forall>c\<in>set p. plain c \<Longrightarrow> reads_str p p"
  by (simp add: reads_str_def read_str_plain)

lemma plain_unat: "plain c \<longleftrightarrow> 32 \<le> unat c \<and> unat c \<noteq> 34 \<and> unat c \<noteq> 92"
proof -
  have "c = 34 \<longleftrightarrow> unat c = 34" "c = 92 \<longleftrightarrow> unat c = 92" by (simp_all add: word_unat_eq_iff)
  then show ?thesis by (auto simp: plain_def word_less_nat_alt)
qed

lemma is_digit_unat: "is_digit c \<longleftrightarrow> 48 \<le> unat c \<and> unat c \<le> 57"
  by (simp add: is_digit_def word_le_nat_alt)

lemma plain_digit: "is_digit c \<Longrightarrow> plain c"
  by (simp add: is_digit_unat plain_unat)

lemma plain_decimal: "\<forall>c\<in>set (decimal n). plain c"
  using decimal_digits plain_digit by blast

lemma plain_format_int: "\<forall>c\<in>set (format_int i). plain c"
  using plain_decimal by (auto simp: format_int_def plain_unat)

lemma lit_decimal: "\<forall>c\<in>set (decimal n). lit_char c"
  using decimal_digits by (auto simp: lit_char_def)

text \<open>The digits, checked one by one.\<close>

lemma hex_digit_all: "list_all (\<lambda>n. plain (hex_digit n) \<and> unhex_val (hex_digit n) = Some n) [0..<16]"
  by code_simp

lemma b64_char_all: "list_all (\<lambda>n. plain (b64_char n) \<and> b64_val (b64_char n) = Some n) [0..<64]"
  by code_simp

lemma hex_digit_plain: "n < 16 \<Longrightarrow> plain (hex_digit n)"
  and unhex_hex_digit: "n < 16 \<Longrightarrow> unhex_val (hex_digit n) = Some n"
  using hex_digit_all by (simp_all add: list_all_iff)

lemma plain_b64_char: "n < 64 \<Longrightarrow> plain (b64_char n)"
  and b64_val_char: "n < 64 \<Longrightarrow> b64_val (b64_char n) = Some n"
  using b64_char_all by (simp_all add: list_all_iff)

lemma plain_hex: "\<forall>c\<in>set (hex_lower bs). plain c"
proof -
  have "unat b div 16 < 16" for b :: byte using byte_unat_less [of b] by simp
  then show ?thesis by (auto simp: hex_lower_def hex_digit_plain)
qed

text \<open>The indices of a group of base64.\<close>

lemma b64_index:
  fixes a b c :: byte
  shows "unat a div 4 < 64" "unat a mod 4 * 16 < 64" "unat a mod 4 * 16 + unat b div 16 < 64"
    "unat b mod 16 * 4 < 64" "unat b mod 16 * 4 + unat c div 64 < 64" "unat c mod 64 < 64"
proof -
  have u: "unat a < 256" "unat b < 256" "unat c < 256" by (rule byte_unat_less)+
  have m: "unat a mod 4 < 4" "unat b mod 16 < 16" by simp_all
  have d: "unat a div 4 < 64" "unat b div 16 < 16" "unat c div 64 < 4" using u by (auto intro: less_mult_imp_div_less)
  show "unat a div 4 < 64" by (rule d)
  show "unat a mod 4 * 16 < 64" "unat a mod 4 * 16 + unat b div 16 < 64" using m d by linarith+
  show "unat b mod 16 * 4 < 64" "unat b mod 16 * 4 + unat c div 64 < 64" using m d by linarith+
  show "unat c mod 64 < 64" by simp
qed

lemma plain_base64: "\<forall>c\<in>set (base64 bs). plain c"
proof (induction bs rule: base64.induct)
  case 1
  then show ?case by simp
next
  case (2 a)
  then show ?case by (simp add: plain_b64_char b64_index) (simp add: plain_def)
next
  case (3 a b)
  then show ?case by (simp add: plain_b64_char b64_index) (simp add: plain_def)
next
  case (4 a b c r)
  then show ?case by (simp add: plain_b64_char b64_index)
qed

section \<open>Base64 round trip\<close>

text \<open>The raw form drops the padding.\<close>

definition raw_base64 :: "bytes \<Rightarrow> bytes" where
  "raw_base64 bs = filter (\<lambda>c. c \<noteq> 61) (base64 bs)"

lemma b64_char_safe: "n < 64 \<Longrightarrow> b64_char n \<noteq> 61 \<and> b64_char n \<noteq> 10 \<and> b64_char n \<noteq> 13"
proof -
  have "list_all (\<lambda>n. b64_char n \<noteq> 61 \<and> b64_char n \<noteq> 10 \<and> b64_char n \<noteq> 13) [0..<64]" by code_simp
  then show "n < 64 \<Longrightarrow> b64_char n \<noteq> 61 \<and> b64_char n \<noteq> 10 \<and> b64_char n \<noteq> 13" by (simp add: list_all_iff)
qed

lemma b64_val_pad [simp]: "b64_val 61 = None"
  by (simp add: b64_val_def)

lemma byte_parts:
  "b64_fst (unat a div 4) (unat a mod 4 * 16 + unat b div 16) = a"
  "b64_snd (unat a mod 4 * 16 + unat b div 16) (unat b mod 16 * 4 + unat c div 64) = b"
  "b64_trd (unat b mod 16 * 4 + unat c div 64) (unat c mod 64) = c"
  "b64_fst (unat a div 4) (unat a mod 4 * 16) = a"
  "b64_snd (unat a mod 4 * 16 + unat b div 16) (unat b mod 16 * 4) = b"
proof -
  have d: "unat b div 16 < 16" "unat c div 64 < 4"
    using byte_unat_less [of b] byte_unat_less [of c] by (auto intro: less_mult_imp_div_less)
  have "unat a div 4 * 4 + (unat a mod 4 * 16 + unat b div 16) div 16 = unat a"
    "(unat a mod 4 * 16 + unat b div 16) mod 16 * 16 + (unat b mod 16 * 4 + unat c div 64) div 4 = unat b"
    "(unat b mod 16 * 4 + unat c div 64) mod 4 * 64 + unat c mod 64 = unat c"
    "unat a div 4 * 4 + unat a mod 4 * 16 div 16 = unat a"
    "(unat a mod 4 * 16 + unat b div 16) mod 16 * 16 + unat b mod 16 * 4 div 4 = unat b"
    using d by simp_all
  then show "b64_fst (unat a div 4) (unat a mod 4 * 16 + unat b div 16) = a"
    "b64_snd (unat a mod 4 * 16 + unat b div 16) (unat b mod 16 * 4 + unat c div 64) = b"
    "b64_trd (unat b mod 16 * 4 + unat c div 64) (unat c mod 64) = c"
    "b64_fst (unat a div 4) (unat a mod 4 * 16) = a"
    "b64_snd (unat a mod 4 * 16 + unat b div 16) (unat b mod 16 * 4) = b"
    unfolding b64_fst_def b64_snd_def b64_trd_def by (simp_all only: of_nat_unat ucast_id)
qed

lemmas b64_roundtrip_simps = b64_index b64_val_char b64_char_safe byte_parts

lemma base64_chars: "\<forall>c\<in>set (base64 bs). c \<noteq> 10 \<and> c \<noteq> 13"
  by (induction bs rule: base64.induct) (simp_all add: b64_roundtrip_simps)

lemma b64_groups_padded: "b64_groups True (base64 bs) = Some bs"
  by (induction bs rule: base64.induct) (simp_all add: b64_roundtrip_simps)

lemma b64_groups_raw: "b64_groups False (raw_base64 bs) = Some bs"
  unfolding raw_base64_def
  by (induction bs rule: base64.induct) (simp_all add: b64_roundtrip_simps)

lemma b64_decode_encode: "b64_decode True (base64 bs) = Some bs" "b64_decode False (raw_base64 bs) = Some bs"
proof -
  have f: "filter (\<lambda>c. c \<noteq> 10 \<and> c \<noteq> 13) (base64 bs) = base64 bs" "filter (\<lambda>c. c \<noteq> 10 \<and> c \<noteq> 13) (raw_base64 bs) = raw_base64 bs"
    using base64_chars [of bs] by (auto simp: raw_base64_def filter_id_conv intro: filter_cong)
  show "b64_decode True (base64 bs) = Some bs" "b64_decode False (raw_base64 bs) = Some bs"
    unfolding b64_decode_def f by (rule b64_groups_padded, rule b64_groups_raw)
qed

text \<open>The raw decoder takes a padded text only where there was nothing to pad.\<close>

lemma b64_groups_mixed: "b64_groups False (base64 bs) = None \<or> b64_groups False (base64 bs) = Some bs"
  by (induction bs rule: base64.induct) (auto simp: b64_roundtrip_simps)

lemma b64_decode_mixed: "b64_decode False (base64 bs) = None \<or> b64_decode False (base64 bs) = Some bs"
proof -
  have "filter (\<lambda>c. c \<noteq> 10 \<and> c \<noteq> 13) (base64 bs) = base64 bs" using base64_chars [of bs] by (auto simp: filter_id_conv)
  then show ?thesis using b64_groups_mixed [of bs] by (simp add: b64_decode_def)
qed

end
