(* ===== verification/Fluent_Encoder.thy ===== *)
theory Fluent_Encoder
  imports Fluent_Wire Go_Text
begin

text \<open>
  \<^verbatim>\<open>fluent/msgpack_encoder.go\<close> and \<^verbatim>\<open>fluent/msgpack_array.go\<close>: the native encoder that writes
  msgpack straight from zap's fields, with the number normalisation of \<^verbatim>\<open>fluent/encoder.go\<close> that
  its reflected values use. The state is the stack of open containers, the root map first, each with
  its contents and the number of its entries; headers are written when a container is sealed. The
  specification reads a marshaler's calls as a tree; the refinement lemma says the bytes are the
  msgpack encoding of that tree, with every header counting exactly the entries that follow it.
\<close>

section \<open>Numbers\<close>

text \<open>Parsing a float is the standard library's; it is an argument here.\<close>

fun normalizeNumber :: "(bytes \<Rightarrow> u64) \<Rightarrow> jany \<Rightarrow> jany" where
  "normalizeNumber pf (JNumber t) =
     (case ParseInt t of
        Some i \<Rightarrow> JInt i
      | None \<Rightarrow> (case ParseUint t of Some u \<Rightarrow> JUint u | None \<Rightarrow> JFloat (pf t)))"
| "normalizeNumber pf (JObj kvs) = JObj (map (\<lambda>(k, v). (k, normalizeNumber pf v)) kvs)"
| "normalizeNumber pf (JArr vs) = JArr (map (normalizeNumber pf) vs)"
| "normalizeNumber pf v = v"

definition normalizeNumbers :: "(bytes \<Rightarrow> u64) \<Rightarrow> jany \<Rightarrow> jany" where
  "normalizeNumbers pf v =
     (case v of
        JObj kvs \<Rightarrow> JObj (map (\<lambda>(k, v). (k, normalizeNumber pf v)) kvs)
      | JArr vs \<Rightarrow> JArr (map (normalizeNumber pf) vs)
      | _ \<Rightarrow> v)"

section \<open>The encoder state\<close>

definition f_maxEncodeDepth :: nat where "f_maxEncodeDepth = 1000"

definition f_errMaxEncodeDepth :: go_error where
  "f_errMaxEncodeDepth = str ''fluent: max container nesting depth exceeded''"

datatype f_frameKind = kindMap | kindArray

record f_frame =
  f_kind :: f_frameKind
  f_buf :: bytes
  f_count :: nat

text \<open>
  The encoder configuration of zap as far as the encoder reads it. A hook is given by the values
  it appends through the primitive array encoder.
\<close>

record f_config =
  LevelKey :: bytes
  NameKey :: bytes
  CallerKey :: bytes
  FunctionKey :: bytes
  MessageKey :: bytes
  StacktraceKey :: bytes
  EncodeLevel :: "(level \<Rightarrow> zval list) option"
  EncodeName :: "(bytes \<Rightarrow> zval list) option"
  EncodeCaller :: "(caller \<Rightarrow> zval list) option"
  EncodeDuration :: "(int \<Rightarrow> zval list) option"
  EncodeTime :: "(gotime \<Rightarrow> zval list) option"

record msgpackEncoder =
  f_cfg :: f_config
  f_stack :: "f_frame list"

definition empty_map :: f_frame where
  "empty_map = \<lparr>f_kind = kindMap, f_buf = [], f_count = 0\<rparr>"

definition newMsgpackEncoder :: "f_config \<Rightarrow> msgpackEncoder" where
  "newMsgpackEncoder g = \<lparr>f_cfg = g, f_stack = [] @ [empty_map]\<rparr>"

definition f_top :: "msgpackEncoder \<Rightarrow> f_frame" where
  "f_top e = last (f_stack e)"

definition set_top :: "f_frame \<Rightarrow> msgpackEncoder \<Rightarrow> msgpackEncoder" where
  "set_top f e = e\<lparr>f_stack := butlast (f_stack e) @ [f]\<rparr>"

definition f_push :: "f_frameKind \<Rightarrow> msgpackEncoder \<Rightarrow> msgpackEncoder" where
  "f_push k e = e\<lparr>f_stack := f_stack e @ [\<lparr>f_kind = k, f_buf = [], f_count = 0\<rparr>]\<rparr>"

definition addKey :: "msgp \<Rightarrow> bytes \<Rightarrow> msgpackEncoder \<Rightarrow> msgpackEncoder" where
  "addKey M key e =
     (let t = f_top e in set_top (t\<lparr>f_count := f_count t + 1, f_buf := mp_String M (f_buf t) key\<rparr>) e)"

definition appendMapHeader :: "msgp \<Rightarrow> bytes \<Rightarrow> nat \<Rightarrow> bytes" where
  "appendMapHeader M b n = mp_MapHeader M b (of_nat n)"

definition appendArrayHeader :: "msgp \<Rightarrow> bytes \<Rightarrow> nat \<Rightarrow> bytes" where
  "appendArrayHeader M b n = mp_ArrayHeader M b (of_nat n)"

definition f_sealTop :: "msgp \<Rightarrow> msgpackEncoder \<Rightarrow> msgpackEncoder" where
  "f_sealTop M e0 =
     (let t = last (f_stack e0);
          e = e0\<lparr>f_stack := butlast (f_stack e0)\<rparr>;
          parent = f_top e;
          b = (if f_kind t = kindMap then appendMapHeader M (f_buf parent) (f_count t)
               else appendArrayHeader M (f_buf parent) (f_count t))
      in set_top (parent\<lparr>f_buf := b @ f_buf t\<rparr>) e)"

text \<open>As in the OTLP encoder, the root is never sealed: the depth is at least one.\<close>

function f_sealDownTo :: "msgp \<Rightarrow> nat \<Rightarrow> msgpackEncoder \<Rightarrow> msgpackEncoder" where
  "f_sealDownTo M d e =
     (if length (f_stack e) > d \<and> 1 < length (f_stack e) then f_sealDownTo M d (f_sealTop M e) else e)"
  by pat_completeness auto
termination
  by (relation "measure (\<lambda>(M, d, e). length (f_stack e))") (auto simp: f_sealTop_def set_top_def Let_def)

declare f_sealDownTo.simps [simp del]

definition f_OpenNamespace :: "msgp \<Rightarrow> bytes \<Rightarrow> msgpackEncoder \<Rightarrow> msgpackEncoder" where
  "f_OpenNamespace M key e = f_push kindMap (addKey M key e)"

definition cloneStack :: "f_frame list \<Rightarrow> f_frame list \<Rightarrow> f_frame list" where
  "cloneStack dst src = foldl (\<lambda>d f. d @ [\<lparr>f_kind = f_kind f, f_buf = [] @ f_buf f, f_count = f_count f\<rparr>]) dst src"

definition f_Clone :: "msgpackEncoder \<Rightarrow> msgpackEncoder" where
  "f_Clone e = \<lparr>f_cfg = f_cfg e, f_stack = cloneStack [] (f_stack e)\<rparr>"

section \<open>Values\<close>

text \<open>Classification of a float by its bits, as \<^verbatim>\<open>math.IsNaN\<close>, \<^verbatim>\<open>math.IsInf\<close> and \<^verbatim>\<open>>= 0\<close> do.\<close>

definition exp_ones :: "u64 \<Rightarrow> bool" where
  "exp_ones b \<longleftrightarrow> drop_bit 52 b AND 0x7ff = 0x7ff"

definition IsNaN :: "u64 \<Rightarrow> bool" where
  "IsNaN b \<longleftrightarrow> exp_ones b \<and> take_bit 52 b \<noteq> 0"

definition IsInf :: "u64 \<Rightarrow> bool \<Rightarrow> bool" where
  "IsInf b neg \<longleftrightarrow> exp_ones b \<and> take_bit 52 b = 0 \<and> bit b 63 = neg"

definition float_ge0 :: "u64 \<Rightarrow> bool" where
  "float_ge0 b \<longleftrightarrow> \<not> IsNaN b \<and> (\<not> bit b 63 \<or> take_bit 63 b = 0)"

definition appendFloat :: "msgp \<Rightarrow> bytes \<Rightarrow> gofloat \<Rightarrow> nat \<Rightarrow> bytes" where
  "appendFloat M b v bits =
     (if IsNaN (f_bits64 v) then mp_String M b (str ''NaN'')
      else if IsInf (f_bits64 v) False then mp_String M b (str ''+Inf'')
      else if IsInf (f_bits64 v) True then mp_String M b (str ''-Inf'')
      else if bits = 32 then mp_Float32 M b (f_bits32 v)
      else mp_Float64 M b (f_bits64 v))"

definition complex_text :: "gofloat \<Rightarrow> gofloat \<Rightarrow> nat \<Rightarrow> bytes" where
  "complex_text re im bits =
     (let text = (\<lambda>f. if bits = 32 then f_text32 f else f_text64 f)
      in text re @ (if float_ge0 (f_bits64 im) then str ''+'' else []) @ text im @ str ''i'')"

text \<open>The buffer after one of the primitive \<^verbatim>\<open>AppendX\<close> methods; the integer methods widen.\<close>

fun append_bytes :: "msgp \<Rightarrow> bytes \<Rightarrow> zval \<Rightarrow> bytes" where
  "append_bytes M b (ZString v) = mp_String M b v"
| "append_bytes M b (ZByteString v) = mp_String M b v"
| "append_bytes M b (ZBinary v) = mp_Bytes M b v"
| "append_bytes M b (ZBool v) = mp_Bool M b v"
| "append_bytes M b (ZInt v) = mp_Int64 M b v"
| "append_bytes M b (ZInt64 v) = mp_Int64 M b v"
| "append_bytes M b (ZInt32 v) = mp_Int64 M b v"
| "append_bytes M b (ZInt16 v) = mp_Int64 M b v"
| "append_bytes M b (ZInt8 v) = mp_Int64 M b v"
| "append_bytes M b (ZUint v) = mp_Uint64 M b v"
| "append_bytes M b (ZUint64 v) = mp_Uint64 M b v"
| "append_bytes M b (ZUint32 v) = mp_Uint64 M b v"
| "append_bytes M b (ZUint16 v) = mp_Uint64 M b v"
| "append_bytes M b (ZUint8 v) = mp_Uint64 M b v"
| "append_bytes M b (ZUintptr v) = mp_Uint64 M b v"
| "append_bytes M b (ZFloat64 v) = appendFloat M b v 64"
| "append_bytes M b (ZFloat32 v) = appendFloat M b v 32"
| "append_bytes M b (ZComplex128 re im) = mp_String M b (complex_text re im 64)"
| "append_bytes M b (ZComplex64 re im) = mp_String M b (complex_text re im 32)"
| "append_bytes M b (ZDuration v) = mp_Int64 M b v"
| "append_bytes M b (ZTime v) = mp_Int64 M b (UnixNano v)"

definition append_prim :: "msgp \<Rightarrow> zval \<Rightarrow> msgpackEncoder \<Rightarrow> msgpackEncoder" where
  "append_prim M v e =
     (let t = f_top e in
      set_top (t\<lparr>f_buf := append_bytes M (f_buf t) v,
                 f_count := (if f_kind t = kindArray then f_count t + 1 else f_count t)\<rparr>) e)"

text \<open>A hook, and the fallback when it is nil or wrote nothing.\<close>

definition run_hook :: "msgp \<Rightarrow> ('a \<Rightarrow> zval list) option \<Rightarrow> 'a \<Rightarrow> zval \<Rightarrow> msgpackEncoder \<Rightarrow> msgpackEncoder" where
  "run_hook M h a fallback e =
     (let before = length (f_buf (f_top e));
          e1 = (case h of Some hook \<Rightarrow> foldl (\<lambda>e v. append_prim M v e) e (hook a) | None \<Rightarrow> e)
      in if length (f_buf (f_top e1)) = before then append_prim M fallback e1 else e1)"

definition AppendDuration :: "msgp \<Rightarrow> int \<Rightarrow> msgpackEncoder \<Rightarrow> msgpackEncoder" where
  "AppendDuration M v e = run_hook M (EncodeDuration (f_cfg e)) v (ZInt64 v) e"

definition AppendTime :: "msgp \<Rightarrow> gotime \<Rightarrow> msgpackEncoder \<Rightarrow> msgpackEncoder" where
  "AppendTime M v e = run_hook M (EncodeTime (f_cfg e)) v (ZInt64 (UnixNano v)) e"

definition f_Append :: "msgp \<Rightarrow> zval \<Rightarrow> msgpackEncoder \<Rightarrow> msgpackEncoder" where
  "f_Append M v e =
     (case v of
        ZDuration d \<Rightarrow> AppendDuration M d e
      | ZTime t \<Rightarrow> AppendTime M t e
      | _ \<Rightarrow> append_prim M v e)"

text \<open>
  \<^verbatim>\<open>AddBinary\<close> writes the bytes without counting them; every other \<^verbatim>\<open>AddX\<close> is the key
  followed by the \<^verbatim>\<open>AppendX\<close>.
\<close>

definition f_Add :: "msgp \<Rightarrow> bytes \<Rightarrow> zval \<Rightarrow> msgpackEncoder \<Rightarrow> msgpackEncoder" where
  "f_Add M k v e0 =
     (let e = addKey M k e0 in
      case v of
        ZBinary b \<Rightarrow> (let t = f_top e in set_top (t\<lparr>f_buf := mp_Bytes M (f_buf t) b\<rparr>) e)
      | _ \<Rightarrow> f_Append M v e)"

definition encodeReflected :: "msgp \<Rightarrow> (bytes \<Rightarrow> u64) \<Rightarrow> reflected \<Rightarrow> (go_error, bytes) result" where
  "encodeReflected M pf value =
     (case mp_Reflect M [] value of
        Inr b \<Rightarrow> Inr b
      | Inl _ \<Rightarrow>
          (case rf_json value of
             Inl jerr \<Rightarrow> Inl jerr
           | Inr _ \<Rightarrow>
               (case rf_decoded value of
                  Inl derr \<Rightarrow> Inl derr
                | Inr v \<Rightarrow> mp_Intf M [] (normalizeNumber pf v))))"

definition f_AddReflected :: "msgp \<Rightarrow> (bytes \<Rightarrow> u64) \<Rightarrow> bytes \<Rightarrow> reflected \<Rightarrow> msgpackEncoder \<Rightarrow>
    go_error option \<times> msgpackEncoder" where
  "f_AddReflected M pf key value e0 =
     (case encodeReflected M pf value of
        Inl err \<Rightarrow> (Some err, e0)
      | Inr b \<Rightarrow> (let e = addKey M key e0; t = f_top e in (None, set_top (t\<lparr>f_buf := f_buf t @ b\<rparr>) e)))"

definition f_AppendReflected :: "msgp \<Rightarrow> (bytes \<Rightarrow> u64) \<Rightarrow> reflected \<Rightarrow> msgpackEncoder \<Rightarrow>
    go_error option \<times> msgpackEncoder" where
  "f_AppendReflected M pf value e =
     (case encodeReflected M pf value of
        Inl err \<Rightarrow> (Some err, e)
      | Inr b \<Rightarrow>
          (let t = f_top e in
           (None, set_top (t\<lparr>f_buf := f_buf t @ b,
              f_count := (if f_kind t = kindArray then f_count t + 1 else f_count t)\<rparr>) e)))"

text \<open>
  \<^verbatim>\<open>AppendObject\<close> and \<^verbatim>\<open>AppendArray\<close>: the new frame is sealed whether or not the marshaler
  failed. \<^verbatim>\<open>AddObject\<close> and \<^verbatim>\<open>AddArray\<close> check the depth before they write the key.
\<close>

definition count_parent :: "msgpackEncoder \<Rightarrow> msgpackEncoder" where
  "count_parent e =
     (let t = f_top e in
      if f_kind t = kindArray then set_top (t\<lparr>f_count := f_count t + 1\<rparr>) e else e)"

definition f_AppendContainer :: "msgp \<Rightarrow> f_frameKind \<Rightarrow> (msgpackEncoder \<Rightarrow> go_error option \<times> msgpackEncoder) \<Rightarrow>
    msgpackEncoder \<Rightarrow> go_error option \<times> msgpackEncoder" where
  "f_AppendContainer M k m e =
     (let d = length (f_stack e) in
      if d \<ge> f_maxEncodeDepth then (Some f_errMaxEncodeDepth, e)
      else case m (f_push k (count_parent e)) of
        (err, e1) \<Rightarrow> (err, f_sealDownTo M d (f_sealDownTo M (d + 1) e1)))"

definition f_AddContainer :: "msgp \<Rightarrow> f_frameKind \<Rightarrow> bytes \<Rightarrow> (msgpackEncoder \<Rightarrow> go_error option \<times> msgpackEncoder) \<Rightarrow>
    msgpackEncoder \<Rightarrow> go_error option \<times> msgpackEncoder" where
  "f_AddContainer M k key m e =
     (if length (f_stack e) \<ge> f_maxEncodeDepth then (Some f_errMaxEncodeDepth, e)
      else f_AppendContainer M k m (addKey M key e))"

primrec f_MarshalObject :: "omarsh \<Rightarrow> msgp \<Rightarrow> (bytes \<Rightarrow> u64) \<Rightarrow> msgpackEncoder \<Rightarrow> go_error option \<times> msgpackEncoder"
  and f_MarshalArray :: "amarsh \<Rightarrow> msgp \<Rightarrow> (bytes \<Rightarrow> u64) \<Rightarrow> msgpackEncoder \<Rightarrow> go_error option \<times> msgpackEncoder" where
  "f_MarshalObject (OReturn err) M pf e = (err, e)"
| "f_MarshalObject (OAdd k v m) M pf e = f_MarshalObject m M pf (f_Add M k v e)"
| "f_MarshalObject (ONamespace k m) M pf e = f_MarshalObject m M pf (f_OpenNamespace M k e)"
| "f_MarshalObject (OObject k m c) M pf e =
     (case f_AddContainer M kindMap k (f_MarshalObject m M pf) e of (err, e1) \<Rightarrow> f_MarshalObject (c err) M pf e1)"
| "f_MarshalObject (OArray k m c) M pf e =
     (case f_AddContainer M kindArray k (f_MarshalArray m M pf) e of (err, e1) \<Rightarrow> f_MarshalObject (c err) M pf e1)"
| "f_MarshalObject (OReflect k r c) M pf e =
     (case f_AddReflected M pf k r e of (err, e1) \<Rightarrow> f_MarshalObject (c err) M pf e1)"
| "f_MarshalArray (AReturn err) M pf e = (err, e)"
| "f_MarshalArray (AAppend v m) M pf e = f_MarshalArray m M pf (f_Append M v e)"
| "f_MarshalArray (AObject m c) M pf e =
     (case f_AppendContainer M kindMap (f_MarshalObject m M pf) e of (err, e1) \<Rightarrow> f_MarshalArray (c err) M pf e1)"
| "f_MarshalArray (AArray m c) M pf e =
     (case f_AppendContainer M kindArray (f_MarshalArray m M pf) e of (err, e1) \<Rightarrow> f_MarshalArray (c err) M pf e1)"
| "f_MarshalArray (AReflect r c) M pf e =
     (case f_AppendReflected M pf r e of (err, e1) \<Rightarrow> f_MarshalArray (c err) M pf e1)"

section \<open>Entries\<close>

text \<open>\<^verbatim>\<open>EntryCaller.String\<close> and \<^verbatim>\<open>FullNameEncoder\<close> of zap.\<close>

definition caller_String :: "caller \<Rightarrow> bytes" where
  "caller_String c = (if Defined c then File c @ str '':'' @ format_int (Line c) else str ''undefined'')"

definition FullNameEncoder :: "bytes \<Rightarrow> zval list" where
  "FullNameEncoder n = [ZString n]"

definition writeEnvelope :: "msgp \<Rightarrow> entry \<Rightarrow> msgpackEncoder \<Rightarrow> msgpackEncoder" where
  "writeEnvelope M ent e0 =
     (let g = f_cfg e0; c = ent_Caller ent;
          e1 = (if LevelKey g \<noteq> [] \<and> EncodeLevel g \<noteq> None
                then run_hook M (EncodeLevel g) (ent_Level ent) (ZString (level_String (ent_Level ent))) (addKey M (LevelKey g) e0)
                else e0);
          e2 = (if NameKey g \<noteq> [] \<and> ent_LoggerName ent \<noteq> []
                then run_hook M (Some (case EncodeName g of None \<Rightarrow> FullNameEncoder | Some h \<Rightarrow> h)) (ent_LoggerName ent)
                       (ZString (ent_LoggerName ent)) (addKey M (NameKey g) e1)
                else e1);
          e3 = (if Defined c then
                  let v1 = (if CallerKey g \<noteq> []
                            then run_hook M (EncodeCaller g) c (ZString (caller_String c)) (addKey M (CallerKey g) e2) else e2)
                  in if FunctionKey g \<noteq> [] then append_prim M (ZString (Function c)) (addKey M (FunctionKey g) v1) else v1
                else e2);
          e4 = (if MessageKey g \<noteq> [] then append_prim M (ZString (ent_Message ent)) (addKey M (MessageKey g) e3) else e3)
      in if StacktraceKey g \<noteq> [] \<and> ent_Stack ent \<noteq> []
         then append_prim M (ZString (ent_Stack ent)) (addKey M (StacktraceKey g) e4) else e4)"

definition appendMapHeaderTo :: "bytes \<Rightarrow> nat \<Rightarrow> bytes" where
  "appendMapHeaderTo b n =
     (let c = of_nat n :: u32 in
      if c < 16 then b @ [0x80 OR ucast c]
      else if c \<le> 0xffff then b @ [0xde, ucast (drop_bit 8 c), ucast c]
      else b @ [0xdf, ucast (drop_bit 24 c), ucast (drop_bit 16 c), ucast (drop_bit 8 c), ucast c])"

definition f_AddTo :: "msgp \<Rightarrow> (bytes \<Rightarrow> u64) \<Rightarrow> msgpackEncoder \<Rightarrow> zfield \<Rightarrow> msgpackEncoder" where
  "f_AddTo M pf e f = snd (f_MarshalObject (fd_addTo f) M pf e)"

definition f_EncodeEntry :: "msgp \<Rightarrow> (bytes \<Rightarrow> u64) \<Rightarrow> msgpackEncoder \<Rightarrow> entry \<Rightarrow> zfield list \<Rightarrow> bytes" where
  "f_EncodeEntry M pf e ent fs =
     (let env = writeEnvelope M ent \<lparr>f_cfg = f_cfg e, f_stack = [] @ [empty_map]\<rparr>;
          final1 = foldl (f_AddTo M pf) \<lparr>f_cfg = f_cfg e, f_stack = cloneStack [] (f_stack e)\<rparr> fs;
          final = f_sealDownTo M 1 final1;
          b1 = ((([] @ [0x92]) @ [0xd7]) @ [of_nat extensionType]) @ MarshalBinaryTo (ent_Time ent);
          b2 = appendMapHeaderTo b1 (f_count (f_stack env ! 0) + f_count (f_stack final ! 0))
      in b2 @ f_buf (f_stack env ! 0) @ f_buf (f_stack final ! 0))"

section \<open>Specification: msgpack trees\<close>

text \<open>
  A value the encoder writes: a primitive, the bytes of a reflected value, or a container. Keys are
  byte strings.
\<close>

datatype fv = FPrim zval | FRaw bytes | FMap "(bytes \<times> fv) list" | FArr "fv list"

fun enc_fv :: "msgp \<Rightarrow> fv \<Rightarrow> bytes" where
  "enc_fv M (FPrim v) = append_bytes M [] v"
| "enc_fv M (FRaw b) = b"
| "enc_fv M (FMap kvs) =
     mp_MapHeader M [] (of_nat (length kvs)) @ concat (map (\<lambda>(k, v). mp_String M [] k @ enc_fv M v) kvs)"
| "enc_fv M (FArr vs) = mp_ArrayHeader M [] (of_nat (length vs)) @ concat (map (enc_fv M) vs)"

definition enc_pairs :: "msgp \<Rightarrow> (bytes \<times> fv) list \<Rightarrow> bytes" where
  "enc_pairs M kvs = concat (map (\<lambda>(k, v). mp_String M [] k @ enc_fv M v) kvs)"

definition enc_fvs :: "msgp \<Rightarrow> fv list \<Rightarrow> bytes" where
  "enc_fvs M vs = concat (map (enc_fv M) vs)"

type_synonym f_entries = "(bytes \<times> fv) list"
type_synonym f_namespaces = "(bytes \<times> f_entries) list"

fun f_closed :: "f_namespaces \<Rightarrow> f_entries" where
  "f_closed [] = []"
| "f_closed ((k, es) # ns) = [(k, FMap (es @ f_closed ns))]"

text \<open>The primitive a duration or a time is written as.\<close>

definition hooked :: "('a \<Rightarrow> zval list) option \<Rightarrow> 'a \<Rightarrow> zval \<Rightarrow> zval" where
  "hooked h a fallback =
     (case h of None \<Rightarrow> fallback | Some hook \<Rightarrow> (case hook a of [] \<Rightarrow> fallback | v # _ \<Rightarrow> v))"

definition prim_of :: "f_config \<Rightarrow> zval \<Rightarrow> zval" where
  "prim_of g v =
     (case v of
        ZDuration d \<Rightarrow> hooked (EncodeDuration g) d (ZInt64 d)
      | ZTime t \<Rightarrow> hooked (EncodeTime g) t (ZInt64 (UnixNano t))
      | _ \<Rightarrow> v)"

text \<open>
  The meaning of a marshaler at nesting depth \<open>n\<close>: unlike the OTLP encoder, a container whose
  marshaler fails keeps what it wrote.
\<close>

primrec f_den :: "omarsh \<Rightarrow> msgp \<Rightarrow> (bytes \<Rightarrow> u64) \<Rightarrow> f_config \<Rightarrow> nat \<Rightarrow> go_error option \<times> f_entries \<times> f_namespaces"
  and f_den_a :: "amarsh \<Rightarrow> msgp \<Rightarrow> (bytes \<Rightarrow> u64) \<Rightarrow> f_config \<Rightarrow> nat \<Rightarrow> go_error option \<times> fv list" where
  "f_den (OReturn err) M pf g n = (err, [], [])"
| "f_den (OAdd k v m) M pf g n =
     (case f_den m M pf g n of (e, es, ns) \<Rightarrow> (e, (k, FPrim (prim_of g v)) # es, ns))"
| "f_den (ONamespace k m) M pf g n = (case f_den m M pf g (Suc n) of (e, es, ns) \<Rightarrow> (e, [], (k, es) # ns))"
| "f_den (OObject k m c) M pf g n =
     (if n \<ge> f_maxEncodeDepth then f_den (c (Some f_errMaxEncodeDepth)) M pf g n
      else case f_den m M pf g (Suc n) of
        (err, es, ns) \<Rightarrow>
          (case f_den (c err) M pf g n of (e, es', ns') \<Rightarrow> (e, (k, FMap (es @ f_closed ns)) # es', ns')))"
| "f_den (OArray k m c) M pf g n =
     (if n \<ge> f_maxEncodeDepth then f_den (c (Some f_errMaxEncodeDepth)) M pf g n
      else case f_den_a m M pf g (Suc n) of
        (err, vs) \<Rightarrow> (case f_den (c err) M pf g n of (e, es', ns') \<Rightarrow> (e, (k, FArr vs) # es', ns')))"
| "f_den (OReflect k r c) M pf g n =
     (case encodeReflected M pf r of
        Inl err \<Rightarrow> f_den (c (Some err)) M pf g n
      | Inr b \<Rightarrow> (case f_den (c None) M pf g n of (e, es', ns') \<Rightarrow> (e, (k, FRaw b) # es', ns')))"
| "f_den_a (AReturn err) M pf g n = (err, [])"
| "f_den_a (AAppend v m) M pf g n =
     (case f_den_a m M pf g n of (e, vs) \<Rightarrow> (e, FPrim (prim_of g v) # vs))"
| "f_den_a (AObject m c) M pf g n =
     (if n \<ge> f_maxEncodeDepth then f_den_a (c (Some f_errMaxEncodeDepth)) M pf g n
      else case f_den m M pf g (Suc n) of
        (err, es, ns) \<Rightarrow> (case f_den_a (c err) M pf g n of (e, vs') \<Rightarrow> (e, FMap (es @ f_closed ns) # vs')))"
| "f_den_a (AArray m c) M pf g n =
     (if n \<ge> f_maxEncodeDepth then f_den_a (c (Some f_errMaxEncodeDepth)) M pf g n
      else case f_den_a m M pf g (Suc n) of
        (err, vs) \<Rightarrow> (case f_den_a (c err) M pf g n of (e, vs') \<Rightarrow> (e, FArr vs # vs')))"
| "f_den_a (AReflect r c) M pf g n =
     (case encodeReflected M pf r of
        Inl err \<Rightarrow> f_den_a (c (Some err)) M pf g n
      | Inr b \<Rightarrow> (case f_den_a (c None) M pf g n of (e, vs') \<Rightarrow> (e, FRaw b # vs')))"

text \<open>The msgpack value a receiver reads for a primitive; not a number and infinities are strings.\<close>

definition float_val :: "gofloat \<Rightarrow> nat \<Rightarrow> mval" where
  "float_val v bits =
     (if IsNaN (f_bits64 v) then MStr (str ''NaN'')
      else if IsInf (f_bits64 v) False then MStr (str ''+Inf'')
      else if IsInf (f_bits64 v) True then MStr (str ''-Inf'')
      else if bits = 32 then MFloat32 (f_bits32 v) else MFloat64 (f_bits64 v))"

fun prim_val :: "zval \<Rightarrow> mval" where
  "prim_val (ZString s) = MStr s"
| "prim_val (ZByteString s) = MStr s"
| "prim_val (ZBinary s) = MBin s"
| "prim_val (ZBool b) = MBool b"
| "prim_val (ZInt i) = MInt i"
| "prim_val (ZInt64 i) = MInt i"
| "prim_val (ZInt32 i) = MInt i"
| "prim_val (ZInt16 i) = MInt i"
| "prim_val (ZInt8 i) = MInt i"
| "prim_val (ZUint u) = MInt (uint u)"
| "prim_val (ZUint64 u) = MInt (uint u)"
| "prim_val (ZUint32 u) = MInt (uint u)"
| "prim_val (ZUint16 u) = MInt (uint u)"
| "prim_val (ZUint8 u) = MInt (uint u)"
| "prim_val (ZUintptr u) = MInt (uint u)"
| "prim_val (ZFloat64 v) = float_val v 64"
| "prim_val (ZFloat32 v) = float_val v 32"
| "prim_val (ZComplex128 re im) = MStr (complex_text re im 64)"
| "prim_val (ZComplex64 re im) = MStr (complex_text re im 32)"
| "prim_val (ZDuration d) = MInt d"
| "prim_val (ZTime t) = MInt (UnixNano t)"

text \<open>
  zap asks of every encoder hook that it append exactly one value. A primitive is in range when its
  strings are below 4 GiB and its integers fit 64 bits.
\<close>

fun prim_ok :: "zval \<Rightarrow> bool" where
  "prim_ok (ZString s) \<longleftrightarrow> length s < 2 ^ 32"
| "prim_ok (ZByteString s) \<longleftrightarrow> length s < 2 ^ 32"
| "prim_ok (ZBinary s) \<longleftrightarrow> length s < 2 ^ 32"
| "prim_ok (ZInt i) \<longleftrightarrow> - (2 ^ 63) \<le> i \<and> i < 2 ^ 63"
| "prim_ok (ZInt64 i) \<longleftrightarrow> - (2 ^ 63) \<le> i \<and> i < 2 ^ 63"
| "prim_ok (ZInt32 i) \<longleftrightarrow> - (2 ^ 63) \<le> i \<and> i < 2 ^ 63"
| "prim_ok (ZInt16 i) \<longleftrightarrow> - (2 ^ 63) \<le> i \<and> i < 2 ^ 63"
| "prim_ok (ZInt8 i) \<longleftrightarrow> - (2 ^ 63) \<le> i \<and> i < 2 ^ 63"
| "prim_ok (ZComplex128 re im) \<longleftrightarrow> length (complex_text re im 64) < 2 ^ 32"
| "prim_ok (ZComplex64 re im) \<longleftrightarrow> length (complex_text re im 32) < 2 ^ 32"
| "prim_ok (ZDuration i) \<longleftrightarrow> False"
| "prim_ok (ZTime t) \<longleftrightarrow> False"
| "prim_ok _ \<longleftrightarrow> True"

definition one_value_at :: "('a \<Rightarrow> zval list) option \<Rightarrow> 'a \<Rightarrow> bool" where
  "one_value_at h a \<longleftrightarrow> (case h of None \<Rightarrow> True | Some hook \<Rightarrow> length (hook a) \<le> 1 \<and> list_all prim_ok (hook a))"

definition one_value :: "('a \<Rightarrow> zval list) option \<Rightarrow> bool" where
  "one_value h \<longleftrightarrow> (\<forall>a. one_value_at h a)"

definition hooks_ok :: "f_config \<Rightarrow> bool" where
  "hooks_ok g \<longleftrightarrow> one_value (EncodeLevel g) \<and> one_value (EncodeName g) \<and> one_value (EncodeCaller g) \<and>
     one_value (EncodeDuration g) \<and> one_value (EncodeTime g)"

section \<open>Refinement\<close>

definition fill :: "msgp \<Rightarrow> f_frame \<Rightarrow> fv \<Rightarrow> f_frame" where
  "fill M h v = h\<lparr>f_buf := f_buf h @ enc_fv M v\<rparr>"

definition key_frame :: "msgp \<Rightarrow> bytes \<Rightarrow> f_frame \<Rightarrow> f_frame" where
  "key_frame M k f = f\<lparr>f_count := f_count f + 1, f_buf := f_buf f @ mp_String M [] k\<rparr>"

definition counted :: "f_frame \<Rightarrow> f_frame" where
  "counted f = (if f_kind f = kindArray then f\<lparr>f_count := f_count f + 1\<rparr> else f)"

definition ext_pairs :: "msgp \<Rightarrow> f_frame \<Rightarrow> f_entries \<Rightarrow> f_frame" where
  "ext_pairs M f kvs = f\<lparr>f_buf := f_buf f @ enc_pairs M kvs, f_count := f_count f + length kvs\<rparr>"

definition ext_vals :: "msgp \<Rightarrow> f_frame \<Rightarrow> fv list \<Rightarrow> f_frame" where
  "ext_vals M f vs = f\<lparr>f_buf := f_buf f @ enc_fvs M vs, f_count := f_count f + length vs\<rparr>"

text \<open>The frames of a container and of the namespaces open in it: each holds the key of the next.\<close>

fun frames_of :: "msgp \<Rightarrow> f_frame \<Rightarrow> f_entries \<Rightarrow> f_namespaces \<Rightarrow> f_frame list" where
  "frames_of M f es [] = [ext_pairs M f es]"
| "frames_of M f es ((k, es') # ns) = key_frame M k (ext_pairs M f es) # frames_of M empty_map es' ns"

lemma enc_pairs_simps [simp]:
  "enc_pairs M [] = []" "enc_pairs M (es @ es') = enc_pairs M es @ enc_pairs M es'"
  "enc_fvs M [] = []" "enc_fvs M (vs @ vs') = enc_fvs M vs @ enc_fvs M vs'"
  by (simp_all add: enc_pairs_def enc_fvs_def)

lemma f_kind_simps [simp]:
  "f_kind (fill M h v) = f_kind h" "f_kind (key_frame M k f) = f_kind f" "f_kind (counted f) = f_kind f"
  "f_kind (ext_pairs M f es) = f_kind f" "f_kind (ext_vals M f vs) = f_kind f" "f_kind empty_map = kindMap"
  by (simp_all add: fill_def key_frame_def counted_def ext_pairs_def ext_vals_def empty_map_def)

lemma ext_simps [simp]:
  "ext_pairs M f [] = f" "ext_vals M f [] = f"
  "ext_pairs M (ext_pairs M f es) es' = ext_pairs M f (es @ es')"
  "ext_vals M (ext_vals M f vs) vs' = ext_vals M f (vs @ vs')"
  by (simp_all add: ext_pairs_def ext_vals_def)

lemma fill_key: "fill M (key_frame M k f) v = ext_pairs M f [(k, v)]"
  by (simp add: fill_def key_frame_def ext_pairs_def enc_pairs_def)

lemma fill_counted: "f_kind f = kindArray \<Longrightarrow> fill M (counted f) v = ext_vals M f [v]"
  by (simp add: fill_def counted_def ext_vals_def enc_fvs_def)

lemma counted_map: "f_kind f = kindMap \<Longrightarrow> counted f = f"
  by (simp add: counted_def)

lemma frames_of_ext [simp]: "frames_of M (ext_pairs M f es) es' ns = frames_of M f (es @ es') ns"
  by (cases ns) auto

lemma f_snoc [simp]:
  "f_top \<lparr>f_cfg = g, f_stack = base @ [f]\<rparr> = f"
  "set_top f' \<lparr>f_cfg = g, f_stack = base @ [f]\<rparr> = \<lparr>f_cfg = g, f_stack = base @ [f']\<rparr>"
  by (simp_all add: f_top_def set_top_def)

lemma count_parent_snoc:
  "count_parent \<lparr>f_cfg = g, f_stack = base @ [f]\<rparr> = \<lparr>f_cfg = g, f_stack = base @ [counted f]\<rparr>"
  by (simp add: count_parent_def counted_def Let_def)

lemma f_sealDownTo_mono: "d \<le> d' \<Longrightarrow> f_sealDownTo M d (f_sealDownTo M d' e) = f_sealDownTo M d e"
proof (induction M d' e rule: f_sealDownTo.induct)
  case (1 M d' e)
  show ?case
  proof (cases "length (f_stack e) > d' \<and> 1 < length (f_stack e)")
    case True
    then have "f_sealDownTo M d' e = f_sealDownTo M d' (f_sealTop M e)"
      "f_sealDownTo M d e = f_sealDownTo M d (f_sealTop M e)"
      using 1(2) by (subst f_sealDownTo.simps, simp)+
    with 1 True show ?thesis by simp
  next
    case False
    then have "f_sealDownTo M d' e = e" by (subst f_sealDownTo.simps) auto
    then show ?thesis by simp
  qed
qed

lemma f_sealDownTo_done: "length (f_stack e) \<le> d \<Longrightarrow> f_sealDownTo M d e = e"
  by (subst f_sealDownTo.simps) simp

lemma f_sealDownTo_step:
  "f_sealDownTo M (Suc (length base)) \<lparr>f_cfg = g, f_stack = base @ [h, f]\<rparr> =
     f_sealDownTo M (Suc (length base)) (f_sealTop M \<lparr>f_cfg = g, f_stack = base @ [h, f]\<rparr>)"
  by (subst f_sealDownTo.simps) simp

context msgp_laws
begin

lemma append_bytes_append: "append_bytes M b v = b @ append_bytes M [] v"
  by (cases v)
    (auto simp: appendFloat_def intro: String_append Bool_append Int64_append Uint64_append Float32_append
      Float64_append Bytes_append)

lemma addKey_snoc:
  "addKey M k \<lparr>f_cfg = g, f_stack = base @ [f]\<rparr> = \<lparr>f_cfg = g, f_stack = base @ [key_frame M k f]\<rparr>"
  using String_append [of "f_buf f" k] by (simp add: addKey_def key_frame_def Let_def)

lemma append_prim_snoc:
  "append_prim M v \<lparr>f_cfg = g, f_stack = base @ [f]\<rparr> =
     \<lparr>f_cfg = g, f_stack = base @ [fill M (counted f) (FPrim v)]\<rparr>"
  using append_bytes_append [of "f_buf f" v] by (simp add: append_prim_def fill_def counted_def Let_def)

lemma prim_token: "prim_ok v \<Longrightarrow> reads_token (append_bytes M [] v) (TLeaf (prim_val v))"
  using String_reads [of "str ''NaN''"] String_reads [of "str ''+Inf''"] String_reads [of "str ''-Inf''"]
  by (cases v) (simp_all add: appendFloat_def float_val_def String_reads Bool_reads Int64_reads Uint64_reads
      Float32_reads Float64_reads Bytes_reads str_def)

lemma prim_nonempty: "prim_ok v \<Longrightarrow> append_bytes M [] v \<noteq> []"
  using prim_token reads_token_nonempty by blast

lemma run_hook_snoc:
  assumes "one_value_at h a"
  shows "run_hook M h a fb \<lparr>f_cfg = g, f_stack = base @ [f]\<rparr> =
    \<lparr>f_cfg = g, f_stack = base @ [fill M (counted f) (FPrim (hooked h a fb))]\<rparr>"
proof (cases h)
  case None
  then show ?thesis by (simp add: run_hook_def hooked_def append_prim_snoc)
next
  case (Some hook)
  consider "hook a = []" | v where "hook a = [v]" "prim_ok v"
    using assms Some by (cases "hook a") (auto simp: one_value_at_def)
  then show ?thesis
  proof cases
    case 1
    then show ?thesis using Some by (simp add: run_hook_def hooked_def append_prim_snoc)
  next
    case 2
    then have "length (f_buf (fill M (counted f) (FPrim v))) \<noteq> length (f_buf f)"
      using prim_nonempty by (simp add: fill_def counted_def)
    with 2 Some show ?thesis by (simp add: run_hook_def hooked_def append_prim_snoc)
  qed
qed

lemma f_Append_snoc:
  assumes "hooks_ok g"
  shows "f_Append M v \<lparr>f_cfg = g, f_stack = base @ [f]\<rparr> =
    \<lparr>f_cfg = g, f_stack = base @ [fill M (counted f) (FPrim (prim_of g v))]\<rparr>"
  using assms
  by (cases v) (simp_all add: f_Append_def AppendDuration_def AppendTime_def prim_of_def append_prim_snoc
      run_hook_snoc hooks_ok_def one_value_def)

lemma f_Add_snoc:
  assumes "hooks_ok g" and "f_kind f = kindMap"
  shows "f_Add M k v \<lparr>f_cfg = g, f_stack = base @ [f]\<rparr> =
    \<lparr>f_cfg = g, f_stack = base @ [ext_pairs M f [(k, FPrim (prim_of g v))]]\<rparr>"
proof -
  have "f_Add M k v \<lparr>f_cfg = g, f_stack = base @ [f]\<rparr> =
      \<lparr>f_cfg = g, f_stack = base @ [fill M (key_frame M k f) (FPrim (prim_of g v))]\<rparr>"
  proof (cases "\<exists>b. v = ZBinary b")
    case True
    then obtain b where "v = ZBinary b" by blast
    then show ?thesis using Bytes_append [of "f_buf (key_frame M k f)" b]
      by (simp add: f_Add_def addKey_snoc fill_def prim_of_def Let_def)
  next
    case False
    then have "f_Add M k v \<lparr>f_cfg = g, f_stack = base @ [f]\<rparr> =
        f_Append M v (addKey M k \<lparr>f_cfg = g, f_stack = base @ [f]\<rparr>)"
      by (simp add: f_Add_def Let_def split: zval.split)
    then show ?thesis using assms by (simp add: addKey_snoc f_Append_snoc counted_map)
  qed
  then show ?thesis by (simp add: fill_key)
qed

lemma f_sealTop_map:
  "f_sealTop M \<lparr>f_cfg = g, f_stack = base @ [h, ext_pairs M empty_map es]\<rparr> =
     \<lparr>f_cfg = g, f_stack = base @ [fill M h (FMap es)]\<rparr>"
  using MapHeader_append [of "f_buf h" "of_nat (length es)"]
  by (simp add: f_sealTop_def Let_def butlast_append appendMapHeader_def fill_def ext_pairs_def empty_map_def enc_pairs_def)

lemma f_sealTop_array:
  "f_sealTop M \<lparr>f_cfg = g, f_stack = base @ [h, ext_vals M \<lparr>f_kind = kindArray, f_buf = [], f_count = 0\<rparr> vs]\<rparr> =
     \<lparr>f_cfg = g, f_stack = base @ [fill M h (FArr vs)]\<rparr>"
  using ArrayHeader_append [of "f_buf h" "of_nat (length vs)"]
  by (simp add: f_sealTop_def Let_def butlast_append appendArrayHeader_def fill_def ext_vals_def enc_fvs_def)

lemma f_seal_namespaces:
  "f_sealDownTo M (Suc (length base)) \<lparr>f_cfg = g, f_stack = base @ frames_of M f es ns\<rparr> =
     \<lparr>f_cfg = g, f_stack = base @ [ext_pairs M f (es @ f_closed ns)]\<rparr>"
proof (induction ns arbitrary: base f es)
  case Nil
  then show ?case by (simp add: f_sealDownTo_done)
next
  case (Cons kes ns)
  obtain k es' where kes: "kes = (k, es')" by (cases kes)
  let ?h = "key_frame M k (ext_pairs M f es)"
  have "f_sealDownTo M (Suc (length base)) \<lparr>f_cfg = g, f_stack = base @ frames_of M f es (kes # ns)\<rparr> =
      f_sealDownTo M (Suc (length base))
        (f_sealDownTo M (Suc (length (base @ [?h]))) \<lparr>f_cfg = g, f_stack = (base @ [?h]) @ frames_of M empty_map es' ns\<rparr>)"
    by (simp add: f_sealDownTo_mono kes)
  also have "\<dots> = f_sealDownTo M (Suc (length base)) \<lparr>f_cfg = g, f_stack = base @ [?h, ext_pairs M empty_map (es' @ f_closed ns)]\<rparr>"
    unfolding Cons.IH by simp
  also have "\<dots> = \<lparr>f_cfg = g, f_stack = base @ [fill M ?h (FMap (es' @ f_closed ns))]\<rparr>"
    unfolding f_sealDownTo_step f_sealTop_map by (simp add: f_sealDownTo_done)
  finally show ?case by (simp add: kes fill_key)
qed

lemma f_seal_map:
  "f_sealDownTo M (Suc (length base)) (f_sealDownTo M (Suc (Suc (length base)))
     \<lparr>f_cfg = g, f_stack = base @ h # frames_of M empty_map es ns\<rparr>) =
     \<lparr>f_cfg = g, f_stack = base @ [fill M h (FMap (es @ f_closed ns))]\<rparr>"
  using f_seal_namespaces [of "base @ [h]" g empty_map es ns]
    f_sealDownTo_step [of M base g h "ext_pairs M empty_map (es @ f_closed ns)"]
  by (simp add: f_sealTop_map f_sealDownTo_done)

lemma f_seal_array:
  "f_sealDownTo M (Suc (length base)) (f_sealDownTo M (Suc (Suc (length base)))
     \<lparr>f_cfg = g, f_stack = base @ [h, ext_vals M \<lparr>f_kind = kindArray, f_buf = [], f_count = 0\<rparr> vs]\<rparr>) =
     \<lparr>f_cfg = g, f_stack = base @ [fill M h (FArr vs)]\<rparr>"
  by (simp add: f_sealDownTo_mono f_sealDownTo_step f_sealTop_array f_sealDownTo_done)

end

definition fo_refines :: "msgp \<Rightarrow> (bytes \<Rightarrow> u64) \<Rightarrow> f_config \<Rightarrow> omarsh \<Rightarrow> bool" where
  "fo_refines M pf g m \<longleftrightarrow> (\<forall>base f. f_kind f = kindMap \<longrightarrow>
     f_MarshalObject m M pf \<lparr>f_cfg = g, f_stack = base @ [f]\<rparr> =
       (case f_den m M pf g (Suc (length base)) of (e, es, ns) \<Rightarrow>
          (e, \<lparr>f_cfg = g, f_stack = base @ frames_of M f es ns\<rparr>)))"

definition fa_refines :: "msgp \<Rightarrow> (bytes \<Rightarrow> u64) \<Rightarrow> f_config \<Rightarrow> amarsh \<Rightarrow> bool" where
  "fa_refines M pf g a \<longleftrightarrow> (\<forall>base f. f_kind f = kindArray \<longrightarrow>
     f_MarshalArray a M pf \<lparr>f_cfg = g, f_stack = base @ [f]\<rparr> =
       (case f_den_a a M pf g (Suc (length base)) of (e, vs) \<Rightarrow>
          (e, \<lparr>f_cfg = g, f_stack = base @ [ext_vals M f vs]\<rparr>)))"

lemma fo_refinesD: "fo_refines M pf g m \<Longrightarrow> f_kind f = kindMap \<Longrightarrow>
    f_MarshalObject m M pf \<lparr>f_cfg = g, f_stack = base @ [f]\<rparr> =
       (case f_den m M pf g (Suc (length base)) of (e, es, ns) \<Rightarrow>
          (e, \<lparr>f_cfg = g, f_stack = base @ frames_of M f es ns\<rparr>))"
  by (simp add: fo_refines_def)

lemma fa_refinesD: "fa_refines M pf g a \<Longrightarrow> f_kind f = kindArray \<Longrightarrow>
    f_MarshalArray a M pf \<lparr>f_cfg = g, f_stack = base @ [f]\<rparr> =
       (case f_den_a a M pf g (Suc (length base)) of (e, vs) \<Rightarrow>
          (e, \<lparr>f_cfg = g, f_stack = base @ [ext_vals M f vs]\<rparr>))"
  by (simp add: fa_refines_def)

lemma f_push_snoc:
  "f_push kindMap \<lparr>f_cfg = g, f_stack = base @ [f]\<rparr> = \<lparr>f_cfg = g, f_stack = (base @ [f]) @ [empty_map]\<rparr>"
  "f_push kindArray \<lparr>f_cfg = g, f_stack = base @ [f]\<rparr> =
     \<lparr>f_cfg = g, f_stack = (base @ [f]) @ [\<lparr>f_kind = kindArray, f_buf = [], f_count = 0\<rparr>]\<rparr>"
  by (simp_all add: f_push_def empty_map_def)

lemma f_container_deep:
  "f_maxEncodeDepth \<le> Suc (length base) \<Longrightarrow>
   f_AppendContainer M kd m \<lparr>f_cfg = g, f_stack = base @ [f]\<rparr> = (Some f_errMaxEncodeDepth, \<lparr>f_cfg = g, f_stack = base @ [f]\<rparr>)"
  "f_maxEncodeDepth \<le> Suc (length base) \<Longrightarrow>
   f_AddContainer M kd key m \<lparr>f_cfg = g, f_stack = base @ [f]\<rparr> = (Some f_errMaxEncodeDepth, \<lparr>f_cfg = g, f_stack = base @ [f]\<rparr>)"
  by (simp_all add: f_AppendContainer_def f_AddContainer_def)

context msgp_laws
begin

lemma append_map_den:
  assumes "fo_refines M pf g m" and "\<not> f_maxEncodeDepth \<le> Suc (length base)"
  shows "f_AppendContainer M kindMap (f_MarshalObject m M pf) \<lparr>f_cfg = g, f_stack = base @ [f]\<rparr> =
    (case f_den m M pf g (Suc (Suc (length base))) of (e, es, ns) \<Rightarrow>
       (e, \<lparr>f_cfg = g, f_stack = base @ [fill M (counted f) (FMap (es @ f_closed ns))]\<rparr>))"
  using assms(2) fo_refinesD [OF assms(1), of empty_map "base @ [counted f]"]
  by (simp add: f_AppendContainer_def count_parent_snoc f_push_snoc [simplified] f_seal_map Let_def split: prod.split)

lemma append_array_den:
  assumes "fa_refines M pf g m" and "\<not> f_maxEncodeDepth \<le> Suc (length base)"
  shows "f_AppendContainer M kindArray (f_MarshalArray m M pf) \<lparr>f_cfg = g, f_stack = base @ [f]\<rparr> =
    (case f_den_a m M pf g (Suc (Suc (length base))) of (e, vs) \<Rightarrow>
       (e, \<lparr>f_cfg = g, f_stack = base @ [fill M (counted f) (FArr vs)]\<rparr>))"
  using assms(2) fa_refinesD [OF assms(1), of "\<lparr>f_kind = kindArray, f_buf = [], f_count = 0\<rparr>" "base @ [counted f]"]
  by (simp add: f_AppendContainer_def count_parent_snoc f_push_snoc [simplified] f_seal_array Let_def split: prod.split)

lemma add_map_den:
  assumes "fo_refines M pf g m" and "\<not> f_maxEncodeDepth \<le> Suc (length base)" and "f_kind f = kindMap"
  shows "f_AddContainer M kindMap key (f_MarshalObject m M pf) \<lparr>f_cfg = g, f_stack = base @ [f]\<rparr> =
    (case f_den m M pf g (Suc (Suc (length base))) of (e, es, ns) \<Rightarrow>
       (e, \<lparr>f_cfg = g, f_stack = base @ [ext_pairs M f [(key, FMap (es @ f_closed ns))]]\<rparr>))"
  using assms(2,3) append_map_den [OF assms(1,2), of "key_frame M key f"]
  by (simp add: f_AddContainer_def addKey_snoc counted_map fill_key split: prod.split)

lemma add_array_den:
  assumes "fa_refines M pf g m" and "\<not> f_maxEncodeDepth \<le> Suc (length base)" and "f_kind f = kindMap"
  shows "f_AddContainer M kindArray key (f_MarshalArray m M pf) \<lparr>f_cfg = g, f_stack = base @ [f]\<rparr> =
    (case f_den_a m M pf g (Suc (Suc (length base))) of (e, vs) \<Rightarrow>
       (e, \<lparr>f_cfg = g, f_stack = base @ [ext_pairs M f [(key, FArr vs)]]\<rparr>))"
  using assms(2,3) append_array_den [OF assms(1,2), of "key_frame M key f"]
  by (simp add: f_AddContainer_def addKey_snoc counted_map fill_key split: prod.split)

lemma f_AddReflected_snoc:
  "f_AddReflected M pf key r \<lparr>f_cfg = g, f_stack = base @ [f]\<rparr> =
    (case encodeReflected M pf r of
       Inl err \<Rightarrow> (Some err, \<lparr>f_cfg = g, f_stack = base @ [f]\<rparr>)
     | Inr b \<Rightarrow> (None, \<lparr>f_cfg = g, f_stack = base @ [ext_pairs M f [(key, FRaw b)]]\<rparr>))"
  by (simp add: f_AddReflected_def addKey_snoc fill_key [symmetric] fill_def Let_def split: sum.split)

lemma f_AppendReflected_snoc:
  "f_kind f = kindArray \<Longrightarrow> f_AppendReflected M pf r \<lparr>f_cfg = g, f_stack = base @ [f]\<rparr> =
    (case encodeReflected M pf r of
       Inl err \<Rightarrow> (Some err, \<lparr>f_cfg = g, f_stack = base @ [f]\<rparr>)
     | Inr b \<Rightarrow> (None, \<lparr>f_cfg = g, f_stack = base @ [ext_vals M f [FRaw b]]\<rparr>))"
  by (simp add: f_AppendReflected_def ext_vals_def enc_fvs_def Let_def split: sum.split)

lemma f_marshal_refines:
  assumes g: "hooks_ok g"
  shows "fo_refines M pf g m" "fa_refines M pf g a"
proof (induction m and a)
  case (OReturn err)
  then show ?case by (simp add: fo_refines_def)
next
  case (OAdd key v m)
  then show ?case
    by (auto simp: fo_refines_def [of _ _ _ "OAdd _ _ _"] fo_refinesD f_Add_snoc [OF g] split: prod.split)
next
  case (ONamespace key m)
  have "f_MarshalObject m M pf \<lparr>f_cfg = g, f_stack = base @ [key_frame M key f, empty_map]\<rparr> =
      (case f_den m M pf g (Suc (Suc (length base))) of (e, es, ns) \<Rightarrow>
         (e, \<lparr>f_cfg = g, f_stack = base @ key_frame M key f # frames_of M empty_map es ns\<rparr>))" for base f
    using fo_refinesD [OF ONamespace.IH, of empty_map "base @ [key_frame M key f]"] by simp
  then show ?case
    by (simp add: fo_refines_def f_OpenNamespace_def addKey_snoc f_push_snoc [simplified] split: prod.split)
next
  case (OObject key m c)
  have c: "fo_refines M pf g (c e)" for e using OObject.IH(2) by simp
  show ?case unfolding fo_refines_def
    by (clarsimp simp: add_map_den [OF OObject.IH(1)] f_container_deep fo_refinesD [OF c] split: prod.split)
next
  case (OArray key m c)
  have c: "fo_refines M pf g (c e)" for e using OArray.IH(2) by simp
  show ?case unfolding fo_refines_def
    by (clarsimp simp: add_array_den [OF OArray.IH(1)] f_container_deep fo_refinesD [OF c] split: prod.split)
next
  case (OReflect key r c)
  have c: "fo_refines M pf g (c e)" for e using OReflect.IH by simp
  show ?case unfolding fo_refines_def
    by (auto simp: f_AddReflected_snoc fo_refinesD [OF c] split: prod.split sum.split)
next
  case (AReturn err)
  then show ?case by (simp add: fa_refines_def)
next
  case (AAppend v m)
  then show ?case
    by (auto simp: fa_refines_def [of _ _ _ "AAppend _ _"] fa_refinesD f_Append_snoc [OF g] fill_counted split: prod.split)
next
  case (AObject m c)
  have c: "fa_refines M pf g (c e)" for e using AObject.IH(2) by simp
  show ?case unfolding fa_refines_def
    by (clarsimp simp: append_map_den [OF AObject.IH(1)] f_container_deep fill_counted fa_refinesD [OF c] split: prod.split)
next
  case (AArray m c)
  have c: "fa_refines M pf g (c e)" for e using AArray.IH(2) by simp
  show ?case unfolding fa_refines_def
    by (clarsimp simp: append_array_den [OF AArray.IH(1)] f_container_deep fill_counted fa_refinesD [OF c] split: prod.split)
next
  case (AReflect r c)
  have c: "fa_refines M pf g (c e)" for e using AReflect.IH by simp
  show ?case unfolding fa_refines_def
    by (auto simp: f_AppendReflected_snoc fa_refinesD [OF c] split: prod.split sum.split)
qed

end

section \<open>Reading trees\<close>

fun tree_ok :: "fv \<Rightarrow> bool" where
  "tree_ok (FPrim v) \<longleftrightarrow> prim_ok v"
| "tree_ok (FRaw b) \<longleftrightarrow> True"
| "tree_ok (FMap kvs) \<longleftrightarrow> length kvs < 2 ^ 32 \<and> list_all (\<lambda>(k, v). length k < 2 ^ 32 \<and> tree_ok v) kvs"
| "tree_ok (FArr vs) \<longleftrightarrow> length vs < 2 ^ 32 \<and> list_all tree_ok vs"

fun tree_val :: "fv \<Rightarrow> mval" where
  "tree_val (FPrim v) = prim_val v"
| "tree_val (FRaw b) = (case mp_value b of Some (v, _) \<Rightarrow> v | None \<Rightarrow> MNil)"
| "tree_val (FMap kvs) = MMap (map (\<lambda>(k, v). (MStr k, tree_val v)) kvs)"
| "tree_val (FArr vs) = MArr (map tree_val vs)"

fun raws :: "fv \<Rightarrow> bytes list" where
  "raws (FPrim v) = []"
| "raws (FRaw b) = [b]"
| "raws (FMap kvs) = concat (map (\<lambda>(k, v). raws v) kvs)"
| "raws (FArr vs) = concat (map raws vs)"

definition raws_ok :: "fv \<Rightarrow> bool" where
  "raws_ok v \<longleftrightarrow> (\<forall>b\<in>set (raws v). \<exists>x. reads b x)"

definition pairs_ok :: "f_entries \<Rightarrow> bool" where
  "pairs_ok kvs \<longleftrightarrow> (\<forall>(k, v)\<in>set kvs. raws_ok v)"

lemma raws_ok_simps [simp]:
  "raws_ok (FPrim v)" "raws_ok (FRaw b) \<longleftrightarrow> (\<exists>x. reads b x)" "raws_ok (FMap kvs) \<longleftrightarrow> pairs_ok kvs"
  "raws_ok (FArr vs) \<longleftrightarrow> (\<forall>v\<in>set vs. raws_ok v)"
  by (auto simp: raws_ok_def pairs_ok_def)

lemma pairs_ok_simps [simp]:
  "pairs_ok []" "pairs_ok (kv # kvs) \<longleftrightarrow> raws_ok (snd kv) \<and> pairs_ok kvs"
  "pairs_ok (kvs @ kvs') \<longleftrightarrow> pairs_ok kvs \<and> pairs_ok kvs'"
  by (auto simp: pairs_ok_def)

lemma closed_ok: "(\<forall>(k, es)\<in>set ns. pairs_ok es) \<Longrightarrow> pairs_ok (f_closed ns)"
  by (induction ns rule: f_closed.induct) auto

context msgp_laws
begin

lemma encodeReflected_reads: "encodeReflected M pf r = Inr b \<Longrightarrow> \<exists>x. reads b x"
  by (auto simp: encodeReflected_def intro: Reflect_reads Intf_reads split: sum.splits)

lemma f_den_raws:
  "\<And>n e es ns. f_den m M pf g n = (e, es, ns) \<Longrightarrow> pairs_ok es \<and> (\<forall>(k, es)\<in>set ns. pairs_ok es)"
  "\<And>n e vs. f_den_a a M pf g n = (e, vs) \<Longrightarrow> \<forall>v\<in>set vs. raws_ok v"
proof (induction m and a)
  case (OObject key m c)
  then show ?case
    by (fastforce intro: closed_ok split: if_splits prod.splits)
next
  case (OArray key m c)
  then show ?case by (fastforce split: if_splits prod.splits)
next
  case (OReflect key r c)
  then show ?case by (fastforce dest: encodeReflected_reads split: sum.splits prod.splits)
next
  case (AObject m c)
  then show ?case by (fastforce intro: closed_ok split: if_splits prod.splits)
next
  case (AArray m c)
  then show ?case by (fastforce split: if_splits prod.splits)
next
  case (AReflect r c)
  then show ?case by (fastforce dest: encodeReflected_reads split: sum.splits prod.splits)
qed (fastforce split: prod.splits)+

lemma pairs_read:
  assumes "\<And>k v. (k, v) \<in> set kvs \<Longrightarrow> reads (enc_fv M v) (tree_val v) \<and> length k < 2 ^ 32"
    and "reads_token h (TMap (length kvs))"
  shows "reads (h @ enc_pairs M kvs) (MMap (map (\<lambda>(k, v). (MStr k, tree_val v)) kvs))"
proof -
  let ?ps = "map (\<lambda>(k, v). (mp_String M [] k, enc_fv M v)) kvs"
  have "list_all2 (\<lambda>(p, q) (k, v). reads p k \<and> reads q v) ?ps (map (\<lambda>(k, v). (MStr k, tree_val v)) kvs)"
    using assms(1) reads_leaf [OF String_reads] by (auto simp: list_all2_map1 list_all2_map2 intro!: list.rel_refl_strong)
  moreover have "enc_pairs M kvs = concat (map (\<lambda>(p, q). p @ q) ?ps)"
    by (simp add: enc_pairs_def comp_def case_prod_unfold)
  ultimately show ?thesis using reads_map [of h ?ps] assms(2) by simp
qed

lemma tree_reads: "tree_ok v \<Longrightarrow> raws_ok v \<Longrightarrow> reads (enc_fv M v) (tree_val v)"
proof (induction v)
  case (FPrim v)
  then show ?case using reads_leaf [OF prim_token] by simp
next
  case (FRaw b)
  then show ?case by (auto simp: reads_def) (metis append_Nil2 fst_conv option.case(2) prod.case)
next
  case (FMap kvs)
  have n: "unat (of_nat (length kvs) :: u32) = length kvs"
    using FMap.prems(1) by (simp add: unsigned_of_nat take_bit_nat_eq_self)
  have "reads (enc_fv M v) (tree_val v) \<and> length k < 2 ^ 32" if "(k, v) \<in> set kvs" for k v
  proof -
    have "length k < 2 ^ 32 \<and> tree_ok v" using FMap.prems(1) that by (auto simp: list_all_iff)
    moreover have "raws_ok v" using FMap.prems(2) that by (auto simp: pairs_ok_def)
    ultimately show ?thesis using FMap.IH [OF that, of v] by simp
  qed
  from pairs_read [OF this] MapHeader_reads [of "of_nat (length kvs)"] n show ?case
    by (simp add: enc_pairs_def)
next
  case (FArr vs)
  have n: "unat (of_nat (length vs) :: u32) = length vs"
    using FArr.prems(1) by (simp add: unsigned_of_nat take_bit_nat_eq_self)
  have "list_all2 reads (map (enc_fv M) vs) (map tree_val vs)"
    using FArr by (auto simp: list_all2_map1 list_all2_map2 list_all_iff intro!: list.rel_refl_strong)
  from reads_array [OF _ this] ArrayHeader_reads [of "of_nat (length vs)"] n show ?case by simp
qed

end

section \<open>The entry\<close>

text \<open>What a logger has collected, and how further fields extend it.\<close>

fun f_collect :: "f_entries \<times> f_namespaces \<Rightarrow> f_entries \<times> f_namespaces \<Rightarrow> f_entries \<times> f_namespaces" where
  "f_collect (es, []) (es', ns') = (es @ es', ns')"
| "f_collect (es, (k, e1) # ns) d = (case f_collect (e1, ns) d of (a, b) \<Rightarrow> (es, (k, a) # b))"

definition f_log_field :: "msgp \<Rightarrow> (bytes \<Rightarrow> u64) \<Rightarrow> f_config \<Rightarrow> f_entries \<times> f_namespaces \<Rightarrow> zfield \<Rightarrow>
    f_entries \<times> f_namespaces" where
  "f_log_field M pf g c f = f_collect c (snd (f_den (fd_addTo f) M pf g (Suc (length (snd c)))))"

definition envelope_entries :: "f_config \<Rightarrow> entry \<Rightarrow> f_entries" where
  "envelope_entries g ent =
     (let c = ent_Caller ent in
      (if LevelKey g \<noteq> [] \<and> EncodeLevel g \<noteq> None
       then [(LevelKey g, FPrim (hooked (EncodeLevel g) (ent_Level ent) (ZString (level_String (ent_Level ent)))))] else []) @
      (if NameKey g \<noteq> [] \<and> ent_LoggerName ent \<noteq> []
       then [(NameKey g, FPrim (hooked (EncodeName g) (ent_LoggerName ent) (ZString (ent_LoggerName ent))))] else []) @
      (if Defined c \<and> CallerKey g \<noteq> []
       then [(CallerKey g, FPrim (hooked (EncodeCaller g) c (ZString (caller_String c))))] else []) @
      (if Defined c \<and> FunctionKey g \<noteq> [] then [(FunctionKey g, FPrim (ZString (Function c)))] else []) @
      (if MessageKey g \<noteq> [] then [(MessageKey g, FPrim (ZString (ent_Message ent)))] else []) @
      (if StacktraceKey g \<noteq> [] \<and> ent_Stack ent \<noteq> [] then [(StacktraceKey g, FPrim (ZString (ent_Stack ent)))] else []))"

text \<open>Deriving a logger with further fields, as zap's core does: clone the encoder, then add.\<close>

definition f_With :: "msgp \<Rightarrow> (bytes \<Rightarrow> u64) \<Rightarrow> msgpackEncoder \<Rightarrow> zfield list \<Rightarrow> msgpackEncoder" where
  "f_With M pf e fs = foldl (f_AddTo M pf) (f_Clone e) fs"

definition f_stands_for :: "msgp \<Rightarrow> msgpackEncoder \<Rightarrow> f_config \<Rightarrow> f_entries \<times> f_namespaces \<Rightarrow> bool" where
  "f_stands_for M e g c \<longleftrightarrow> e = \<lparr>f_cfg = g, f_stack = frames_of M empty_map (fst c) (snd c)\<rparr>"

lemma frames_split:
  "f_kind f0 = kindMap \<Longrightarrow>
   \<exists>base f. frames_of M f0 es ns = base @ [f] \<and> f_kind f = kindMap \<and> length base = length ns \<and>
     (\<forall>es' ns'. base @ frames_of M f es' ns' =
        frames_of M f0 (fst (f_collect (es, ns) (es', ns'))) (snd (f_collect (es, ns) (es', ns'))))"
proof (induction ns arbitrary: f0 es)
  case Nil
  then show ?case by (intro exI [of _ "[]"]) simp
next
  case (Cons ke ns)
  obtain k e1 where ke: "ke = (k, e1)" by (cases ke)
  from Cons.IH [of empty_map e1] obtain base f where b: "frames_of M empty_map e1 ns = base @ [f]" "f_kind f = kindMap"
    "length base = length ns" "\<And>es' ns'. base @ frames_of M f es' ns' =
        frames_of M empty_map (fst (f_collect (e1, ns) (es', ns'))) (snd (f_collect (e1, ns) (es', ns')))" by auto
  then show ?case
    by (intro exI [of _ "key_frame M k (ext_pairs M f0 es) # base"] exI [of _ f])
      (simp add: ke case_prod_unfold)
qed

lemma cloneStack_id: "cloneStack [] st = st"
proof -
  have "cloneStack d st = d @ st" for d
    by (induction st arbitrary: d) (simp_all add: cloneStack_def)
  then show ?thesis by simp
qed

lemma appendMapHeaderTo_token:
  assumes "n < 2 ^ 32"
  shows "reads_token (appendMapHeaderTo [] n) (TMap n)"
proof -
  let ?w = "of_nat n :: u32"
  have u: "unat ?w = n" using assms by (simp add: unsigned_of_nat take_bit_nat_eq_self)
  have b: "(ucast (drop_bit k ?w) :: byte) = of_nat (n div 2 ^ k mod 256)" for k
  proof -
    have "unat (ucast (drop_bit k ?w) :: byte) = n div 2 ^ k mod 256"
      by (simp only: unat_ucast_byte unat_drop_bit_div u)
    then show ?thesis by (metis unat_of_nat_byte mod_less_divisor word_unat_eq_iff zero_less_numeral)
  qed
  have fx: "unat (0x80 OR (ucast ?w :: byte)) = 0x80 + n" if "n < 16"
  proof -
    have c: "(ucast ?w :: byte) = of_nat n" using b [of 0] that by simp
    have "\<forall>m\<in>set [0..<16]. unat (0x80 OR of_nat m :: byte) = 0x80 + m" by code_simp
    with that show ?thesis unfolding c by simp
  qed
  have eq: "appendMapHeaderTo [] n =
    (if n < 16 then [0x80 OR ucast ?w] else if n \<le> 0xffff then 0xde # be_bytes 2 n else 0xdf # be_bytes 4 n)"
    using b [of 0] b [of 8] b [of 16] b [of 24] u
    by (simp add: appendMapHeaderTo_def Let_def be_bytes_numeral word_less_nat_alt word_le_nat_alt)
  show ?thesis
  proof (cases "n < 16")
    case True
    with fx eq show ?thesis by (simp add: reads_token_def mp_token.simps Let_def)
  next
    case False
    with assms eq show ?thesis
      by (simp add: reads_token_def mp_token.simps Let_def take_be_bytes del: be_bytes.simps)
  qed
qed

text \<open>What \<^verbatim>\<open>EncodeEntry\<close> writes, in the terms of the specification.\<close>

context msgp_laws
begin

lemma keyed_hook:
  assumes "one_value_at h a" and "f_kind f = kindMap"
  shows "run_hook M h a fb (addKey M k \<lparr>f_cfg = g, f_stack = base @ [f]\<rparr>) =
    \<lparr>f_cfg = g, f_stack = base @ [ext_pairs M f [(k, FPrim (hooked h a fb))]]\<rparr>"
  using assms by (simp add: addKey_snoc run_hook_snoc counted_map fill_key)

lemma keyed_prim:
  assumes "f_kind f = kindMap"
  shows "append_prim M v (addKey M k \<lparr>f_cfg = g, f_stack = base @ [f]\<rparr>) =
    \<lparr>f_cfg = g, f_stack = base @ [ext_pairs M f [(k, FPrim v)]]\<rparr>"
  using assms by (simp add: addKey_snoc append_prim_snoc counted_map fill_key)

lemma keyed_name:
  assumes "hooks_ok g" and "length n < 2 ^ 32" and "f_kind f = kindMap"
  shows "run_hook M (Some (case EncodeName g of None \<Rightarrow> FullNameEncoder | Some h \<Rightarrow> h)) n (ZString n)
      (addKey M k \<lparr>f_cfg = g, f_stack = base @ [f]\<rparr>) =
    \<lparr>f_cfg = g, f_stack = base @ [ext_pairs M f [(k, FPrim (hooked (EncodeName g) n (ZString n)))]]\<rparr>"
proof (cases "EncodeName g")
  case None
  have "one_value_at (Some FullNameEncoder) n" using assms(2) by (simp add: one_value_at_def FullNameEncoder_def)
  from keyed_hook [OF this assms(3)] None show ?thesis by (simp add: hooked_def FullNameEncoder_def)
next
  case (Some h)
  with assms(1) have "one_value_at (Some h) n" by (simp add: hooks_ok_def one_value_def)
  from keyed_hook [OF this assms(3)] Some show ?thesis by simp
qed

lemma writeEnvelope_den:
  assumes "hooks_ok g" and "length (ent_LoggerName ent) < 2 ^ 32"
  shows "writeEnvelope M ent \<lparr>f_cfg = g, f_stack = [] @ [empty_map]\<rparr> =
    \<lparr>f_cfg = g, f_stack = [] @ [ext_pairs M empty_map (envelope_entries g ent)]\<rparr>"
proof -
  have h: "one_value_at (EncodeLevel g) a" "one_value_at (EncodeCaller g) c" for a c
    using assms(1) by (simp_all add: hooks_ok_def one_value_def)
  note k = keyed_hook [of _ _ _ _ _ _ "[]", simplified] keyed_prim [of _ _ _ _ "[]", simplified]
    keyed_name [OF assms, of _ _ "[]", simplified]
  show ?thesis
    by (simp add: writeEnvelope_def envelope_entries_def Let_def k h)
qed

lemma f_AddTo_den:
  assumes "hooks_ok g" and "f_stands_for M e g c"
  shows "f_stands_for M (f_AddTo M pf e f) g (f_log_field M pf g c f)"
proof -
  obtain es ns where c: "c = (es, ns)" by (cases c)
  obtain base fr where b: "frames_of M empty_map es ns = base @ [fr]" "f_kind fr = kindMap" "length base = length ns"
    "\<And>es' ns'. base @ frames_of M fr es' ns' = frames_of M empty_map
       (fst (f_collect (es, ns) (es', ns'))) (snd (f_collect (es, ns) (es', ns')))"
    using frames_split [of empty_map M es ns] by auto
  have "f_AddTo M pf e f = (case f_den (fd_addTo f) M pf g (Suc (length ns)) of (err, es', ns') \<Rightarrow>
      \<lparr>f_cfg = g, f_stack = base @ frames_of M fr es' ns'\<rparr>)"
    using assms(2) fo_refinesD [OF f_marshal_refines(1) [OF assms(1)] b(2), where m = "fd_addTo f" and base = base] b(1,3)
    by (simp add: f_AddTo_def f_stands_for_def c split: prod.split)
  then show ?thesis
    by (simp add: f_stands_for_def f_log_field_def c b(4) split: prod.split)
qed

lemma f_AddTo_all:
  "hooks_ok g \<Longrightarrow> f_stands_for M e g c \<Longrightarrow>
   f_stands_for M (foldl (f_AddTo M pf) e fs) g (foldl (f_log_field M pf g) c fs)"
  by (induction fs arbitrary: e c) (simp_all add: f_AddTo_den)

lemma f_Clone_stands: "f_stands_for M e g c \<Longrightarrow> f_stands_for M (f_Clone e) g c"
  by (simp add: f_stands_for_def f_Clone_def cloneStack_id)

lemma f_With_den:
  "hooks_ok g \<Longrightarrow> f_stands_for M e g c \<Longrightarrow> f_stands_for M (f_With M pf e fs) g (foldl (f_log_field M pf g) c fs)"
  unfolding f_With_def by (intro f_AddTo_all f_Clone_stands)

lemma new_stands: "f_stands_for M (newMsgpackEncoder g) g ([], [])"
  by (simp add: f_stands_for_def newMsgpackEncoder_def)

lemma f_EncodeEntry_den:
  assumes "hooks_ok g" and "f_stands_for M e g c" and "length (ent_LoggerName ent) < 2 ^ 32"
  shows "f_EncodeEntry M pf e ent fs =
    (case foldl (f_log_field M pf g) c fs of (es, ns) \<Rightarrow>
      (let kvs = envelope_entries g ent @ es @ f_closed ns in
       [0x92, 0xd7, of_nat extensionType] @ MarshalBinaryTo (ent_Time ent) @
       appendMapHeaderTo [] (length kvs) @ enc_pairs M kvs))"
proof -
  obtain es ns where d: "foldl (f_log_field M pf g) c fs = (es, ns)" by fastforce
  have e: "\<lparr>f_cfg = g, f_stack = cloneStack [] (f_stack e)\<rparr> = f_Clone e" "f_cfg e = g"
    using assms(2) by (simp_all add: f_Clone_def f_stands_for_def)
  from f_AddTo_all [OF assms(1) f_Clone_stands [OF assms(2)], of pf fs]
  have st: "foldl (f_AddTo M pf) (f_Clone e) fs = \<lparr>f_cfg = g, f_stack = [] @ frames_of M empty_map es ns\<rparr>"
    by (simp add: f_stands_for_def d)
  have sl: "f_sealDownTo M 1 \<lparr>f_cfg = g, f_stack = [] @ frames_of M empty_map es ns\<rparr> =
      \<lparr>f_cfg = g, f_stack = [ext_pairs M empty_map (es @ f_closed ns)]\<rparr>"
    using f_seal_namespaces [of "[]" g empty_map es ns] by simp
  have hd: "appendMapHeaderTo b n = b @ appendMapHeaderTo [] n" for b n
    by (simp add: appendMapHeaderTo_def Let_def)
  show ?thesis
    unfolding f_EncodeEntry_def Let_def e(2) e(1) st sl writeEnvelope_den [OF assms(1,3)] d
    by (simp add: ext_pairs_def empty_map_def hd [of "_ # _"] add.assoc)
qed

end

text \<open>
  The entries of the record of a logger derived with the lists \<open>withs\<close> of fields and called with
  \<open>fs\<close>.
\<close>

definition native_entries :: "msgp \<Rightarrow> (bytes \<Rightarrow> u64) \<Rightarrow> f_config \<Rightarrow> zfield list list \<Rightarrow> entry \<Rightarrow> zfield list \<Rightarrow> f_entries" where
  "native_entries M pf g withs ent fs =
     (case foldl (f_log_field M pf g) ([], []) (concat withs @ fs) of
        (es, ns) \<Rightarrow> envelope_entries g ent @ es @ f_closed ns)"

definition native_derived :: "msgp \<Rightarrow> (bytes \<Rightarrow> u64) \<Rightarrow> f_config \<Rightarrow> zfield list list \<Rightarrow> msgpackEncoder" where
  "native_derived M pf g withs = foldl (f_With M pf) (newMsgpackEncoder g) withs"

lemma pairs_ok_collect:
  "pairs_ok (fst c) \<Longrightarrow> \<forall>(k, es)\<in>set (snd c). pairs_ok es \<Longrightarrow> pairs_ok (fst d) \<Longrightarrow> \<forall>(k, es)\<in>set (snd d). pairs_ok es \<Longrightarrow>
   pairs_ok (fst (f_collect c d)) \<and> (\<forall>(k, es)\<in>set (snd (f_collect c d)). pairs_ok es)"
  by (induction c d rule: f_collect.induct) (auto split: prod.splits)

lemma envelope_pairs_ok: "pairs_ok (envelope_entries g ent)"
  by (simp add: envelope_entries_def Let_def)

lemma MExt_reads: "length p = 8 \<Longrightarrow> reads ([0xd7, of_nat extensionType] @ p) (MExt extensionType p)"
  by (rule reads_leaf) (simp add: reads_token_def mp_token.simps Let_def take_ext_def take_n_def extensionType_def)

lemma reads_pair:
  assumes "reads p v" and "reads q w"
  shows "reads ([0x92] @ p @ q) (MArr [v, w])"
proof -
  have "reads_token [0x92] (TArr (length [p, q]))"
    by (simp add: reads_token_def mp_token.simps Let_def)
  from reads_array [OF this, of "[v, w]"] assms show ?thesis by simp
qed

context msgp_laws
begin

lemma logged_pairs_ok:
  "pairs_ok (fst c) \<Longrightarrow> \<forall>(k, es)\<in>set (snd c). pairs_ok es \<Longrightarrow>
   pairs_ok (fst (foldl (f_log_field M pf g) c fs)) \<and> (\<forall>(k, es)\<in>set (snd (foldl (f_log_field M pf g) c fs)). pairs_ok es)"
proof (induction fs arbitrary: c)
  case (Cons f fs)
  obtain e es ns where d: "f_den (fd_addTo f) M pf g (Suc (length (snd c))) = (e, es, ns)" by (metis prod_cases3)
  from f_den_raws(1) [OF d] pairs_ok_collect [OF Cons.prems, of "(es, ns)"]
  have "pairs_ok (fst (f_log_field M pf g c f)) \<and> (\<forall>(k, es)\<in>set (snd (f_log_field M pf g c f)). pairs_ok es)"
    by (simp add: f_log_field_def d)
  with Cons.IH [of "f_log_field M pf g c f"] show ?case unfolding foldl_Cons by blast
qed simp

lemma native_pairs_ok: "pairs_ok (native_entries M pf g withs ent fs)"
  using logged_pairs_ok [of "([], [])" pf g "concat withs @ fs"]
  by (auto simp: native_entries_def envelope_pairs_ok intro: closed_ok split: prod.split)

lemma native_derived_stands:
  assumes "hooks_ok g"
  shows "f_stands_for M (native_derived M pf g withs) g (foldl (f_log_field M pf g) ([], []) (concat withs))"
proof -
  have "f_stands_for M e g c \<Longrightarrow>
      f_stands_for M (foldl (f_With M pf) e withs) g (foldl (f_log_field M pf g) c (concat withs))" for e c
    by (induction withs arbitrary: e c) (simp_all add: f_With_den [OF assms])
  then show ?thesis unfolding native_derived_def using new_stands by blast
qed

lemma native_encoded:
  assumes "hooks_ok g" and "length (ent_LoggerName ent) < 2 ^ 32"
  shows "f_EncodeEntry M pf (native_derived M pf g withs) ent fs =
    [0x92] @ ([0xd7, of_nat extensionType] @ MarshalBinaryTo (ent_Time ent)) @
      appendMapHeaderTo [] (length (native_entries M pf g withs ent fs)) @ enc_pairs M (native_entries M pf g withs ent fs)"
  using f_EncodeEntry_den [OF assms(1) native_derived_stands [OF assms(1)] assms(2)]
  by (simp add: native_entries_def Let_def split: prod.split)

lemma native_entry_reads:
  assumes "hooks_ok g" and "length (ent_LoggerName ent) < 2 ^ 32" and ok: "tree_ok (FMap (native_entries M pf g withs ent fs))"
  shows "reads (f_EncodeEntry M pf (native_derived M pf g withs) ent fs)
    (MArr [MExt extensionType (MarshalBinaryTo (ent_Time ent)), tree_val (FMap (native_entries M pf g withs ent fs))])"
proof -
  let ?es = "native_entries M pf g withs ent fs"
  have "reads (enc_fv M v) (tree_val v) \<and> length k < 2 ^ 32" if "(k, v) \<in> set ?es" for k v
    using ok native_pairs_ok [of pf g withs ent fs] that
    by (auto simp: list_all_iff pairs_ok_def intro!: tree_reads)
  moreover have "reads_token (appendMapHeaderTo [] (length ?es)) (TMap (length ?es))"
    using ok by (intro appendMapHeaderTo_token) simp
  ultimately have "reads (appendMapHeaderTo [] (length ?es) @ enc_pairs M ?es) (tree_val (FMap ?es))"
    using pairs_read by simp
  moreover have "length (MarshalBinaryTo (ent_Time ent)) = 8" by (simp add: MarshalBinaryTo_def Let_def)
  ultimately show ?thesis
    unfolding native_encoded [OF assms(1,2)] by (intro reads_pair MExt_reads)
qed

end

section \<open>Properties\<close>

text \<open>what the native fluent encoder ships is exactly one msgpack value, the pair of the
  EventTime and the record, whatever fields and marshalers the logger was given and whichever of
  them failed: a receiver reads the entry's envelope, then the attribute tree of the fields, with
  every container holding exactly the entries its header announces. The limits are those of the
  format: fewer than 2 to the 32 entries per container and bytes per string.\<close>

theorem native_entry_wellformed:
  assumes "msgp_laws M" and "hooks_ok g" and "length (ent_LoggerName ent) < 2 ^ 32"
    and "tree_ok (FMap (native_entries M pf g withs ent fs))"
  shows "reads (f_EncodeEntry M pf (native_derived M pf g withs) ent fs)
    (MArr [MExt extensionType (MarshalBinaryTo (ent_Time ent)),
       MMap (map (\<lambda>(k, v). (MStr k, tree_val v)) (native_entries M pf g withs ent fs))])"
  using msgp_laws.native_entry_reads [OF assms] by simp

definition plain_config :: f_config where
  "plain_config = \<lparr>LevelKey = str ''level'', NameKey = str ''logger'', CallerKey = str ''caller'', FunctionKey = [],
     MessageKey = str ''msg'', StacktraceKey = [], EncodeLevel = Some (\<lambda>l. []), EncodeName = None,
     EncodeCaller = None, EncodeDuration = Some (\<lambda>d. [ZBool (0 \<le> d)]), EncodeTime = None\<rparr>"

theorem native_entry_wellformed_witness:
  "reads (f_EncodeEntry long_form (\<lambda>_. 0) (native_derived long_form (\<lambda>_. 0) plain_config [[zap_Namespace (str ''ctx'')]])
      \<lparr>ent_Level = InfoLevel, ent_Time = \<lparr>unixSec = 1, nsec = 2\<rparr>, ent_LoggerName = [], ent_Message = str ''hi'',
         ent_Caller = \<lparr>Defined = False, File = [], Line = 0, Function = []\<rparr>, ent_Stack = []\<rparr>
      [zap_String (str ''k'') (str ''v'')])
    (MArr [MExt 0 [0, 0, 0, 1, 0, 0, 0, 2], MMap
       [(MStr (str ''level''), MStr (str ''info'')), (MStr (str ''msg''), MStr (str ''hi'')),
        (MStr (str ''ctx''), MMap [(MStr (str ''k''), MStr (str ''v''))])]])"
proof -
  let ?ent = "\<lparr>ent_Level = InfoLevel, ent_Time = \<lparr>unixSec = 1, nsec = 2\<rparr>, ent_LoggerName = [], ent_Message = str ''hi'',
         ent_Caller = \<lparr>Defined = False, File = [], Line = 0, Function = []\<rparr>, ent_Stack = []\<rparr>"
  have h: "hooks_ok plain_config"
    by (simp add: hooks_ok_def one_value_def one_value_at_def plain_config_def)
  have es: "native_entries long_form (\<lambda>_. 0) plain_config [[zap_Namespace (str ''ctx'')]] ?ent [zap_String (str ''k'') (str ''v'')] =
      [(str ''level'', FPrim (ZString (str ''info''))), (str ''msg'', FPrim (ZString (str ''hi''))),
       (str ''ctx'', FMap [(str ''k'', FPrim (ZString (str ''v'')))])]"
    by (simp add: native_entries_def f_log_field_def zap_Namespace_def zap_String_def prim_of_def envelope_entries_def
        plain_config_def hooked_def level_String_def level_defs str_def)
  show ?thesis
    using native_entry_wellformed [OF long_form.msgp_laws_axioms h, of ?ent "\<lambda>_. 0" "[[zap_Namespace (str ''ctx'')]]"
      "[zap_String (str ''k'') (str ''v'')]"]
    unfolding es by (simp add: str_def MarshalBinaryTo_def extensionType_def)
qed

end
