(* ===== verification/Go_Float.thy ===== *)
theory Go_Float
  imports Go_Text "HOL-Library.Log_Nat"
begin

text \<open>
  Go's \<^verbatim>\<open>float64\<close> as far as the time codecs use it: a finite value is the rational it stands for,
  an operation rounds the exact result to the nearest value with 53 significant bits, ties to the
  even one, as IEEE 754 asks. Results beyond the largest finite value are left unrounded in range:
  the program only compares them or converts them to an integer that cannot hold them anyway.
\<close>

section \<open>Rounding\<close>

text \<open>The exponent of the leading bit of a positive value.\<close>

definition ilog2 :: "rat \<Rightarrow> int" where
  "ilog2 x =
     (let (a, b) = quotient_of x; k = int (floorlog 2 (nat a)) - int (floorlog 2 (nat b))
      in if 2 powi k \<le> x then k else k - 1)"

definition round_even :: "rat \<Rightarrow> int" where
  "round_even x =
     (let n = \<lfloor>x\<rfloor>; f = x - of_int n
      in if f < 1/2 then n else if f > 1/2 then n + 1 else if even n then n else n + 1)"

definition quantum :: "rat \<Rightarrow> int" where
  "quantum x = max (ilog2 \<bar>x\<bar> - 52) (- 1074)"

definition fround :: "rat \<Rightarrow> rat" where
  "fround x = (if x = 0 then 0 else of_int (round_even (x / 2 powi quantum x)) * 2 powi quantum x)"

text \<open>
  Conversion to \<^verbatim>\<open>int64\<close> truncates. What it gives for a value outside the range is left to the
  implementation by the language: the argument \<open>oor\<close>.
\<close>

definition ftrunc :: "rat \<Rightarrow> int" where
  "ftrunc x = (if 0 \<le> x then \<lfloor>x\<rfloor> else \<lceil>x\<rceil>)"

definition int64_of :: "(rat \<Rightarrow> int) \<Rightarrow> rat \<Rightarrow> int" where
  "int64_of oor x = (if - (2 ^ 63) \<le> ftrunc x \<and> ftrunc x < 2 ^ 63 then ftrunc x else oor x)"

section \<open>Decimal text\<close>

definition is_exp :: "byte \<Rightarrow> bool" where
  "is_exp b \<longleftrightarrow> b = of_char CHR ''e'' \<or> b = of_char CHR ''E''"

definition exponent_of :: "bytes \<Rightarrow> int option" where
  "exponent_of s =
     (case s of
        [] \<Rightarrow> Some 0
      | b # t \<Rightarrow>
          if \<not> is_exp b then None
          else
            (let neg = (t \<noteq> [] \<and> hd t = of_char CHR ''-'');
                 ds = (if t \<noteq> [] \<and> (hd t = of_char CHR ''-'' \<or> hd t = of_char CHR ''+'') then tl t else t)
             in map_option (\<lambda>n. if neg then - int n else int n) (parse_digits ds)))"

text \<open>The exact value of a number in JSON's grammar.\<close>

definition number_value :: "bytes \<Rightarrow> rat option" where
  "number_value s =
     (let neg = (s \<noteq> [] \<and> hd s = of_char CHR ''-'');
          r = (if neg then tl s else s);
          ip = takeWhile is_digit r;
          r1 = dropWhile is_digit r;
          dot = (r1 \<noteq> [] \<and> hd r1 = of_char CHR ''.'');
          fp = (if dot then takeWhile is_digit (tl r1) else []);
          r2 = (if dot then dropWhile is_digit (tl r1) else r1)
      in if ip = [] \<or> (dot \<and> fp = []) then None
         else map_option (\<lambda>e. (if neg then - 1 else 1) * of_nat (undecimal (ip @ fp)) * 10 powi (e - int (length fp)))
                (exponent_of r2))"

text \<open>\<^verbatim>\<open>strconv.ParseFloat\<close> at 64 bits on such a number; out of range is an error.\<close>

definition ParseFloat :: "bytes \<Rightarrow> rat option" where
  "ParseFloat s =
     (case number_value s of None \<Rightarrow> None
      | Some x \<Rightarrow> if \<bar>fround x\<bar> < 2 ^ 1024 then Some (fround x) else None)"

section \<open>Lemmas\<close>

lemma floorlog_of_int:
  assumes "0 < c"
  shows "2 powi (int (floorlog 2 (nat c)) - 1) \<le> (of_int c :: rat) \<and> (of_int c :: rat) < 2 powi int (floorlog 2 (nat c))"
proof -
  have n: "2 ^ (floorlog 2 (nat c) - 1) \<le> nat c \<and> nat c < 2 ^ floorlog 2 (nat c)"
    using assms by (intro floorlog_bounds) simp_all
  have "floorlog 2 (nat c) \<noteq> 0"
  proof
    assume "floorlog 2 (nat c) = 0"
    with n have "nat c < 1" by (metis power_0)
    with assms show False by simp
  qed
  then obtain k where k: "floorlog 2 (nat c) = Suc k" using not0_implies_Suc by blast
  have "(of_nat (2 ^ k) :: rat) \<le> of_nat (nat c)" "(of_nat (nat c) :: rat) < of_nat (2 ^ Suc k)"
    using n unfolding k of_nat_le_iff of_nat_less_iff by simp_all
  then show ?thesis using assms unfolding k by (simp add: of_nat_nat power_int_add)
qed

lemma ilog2_bounds:
  assumes "0 < x"
  shows "2 powi ilog2 x \<le> x" and "x < 2 powi (ilog2 x + 1)"
proof -
  obtain a b where q: "quotient_of x = (a, b)" by (cases "quotient_of x")
  have b: "0 < b" using quotient_of_denom_pos [OF q] .
  have x: "x = of_int a / of_int b" using quotient_of_div [OF q] .
  have a: "0 < a" using assms b by (simp add: x zero_less_divide_iff)
  let ?p = "floorlog 2 (nat a)" and ?q = "floorlog 2 (nat b)"
  note bd = floorlog_of_int
  let ?k = "int ?p - int ?q"
  have lo: "2 powi (?k - 1) < x" and hi: "x < 2 powi (?k + 1)"
  proof -
    have "2 powi (int ?p - 1) / 2 powi int ?q < (of_int a / of_int b :: rat)"
      using bd [OF a] bd [OF b] a b by (intro frac_less2) simp_all
    moreover have "(2 :: rat) powi (int ?p - 1) / 2 powi int ?q = 2 powi (?k - 1)"
      using power_int_diff [of "2 :: rat" "int ?p - 1" "int ?q"] by (simp add: algebra_simps del: power_int_of_nat)
    ultimately show "2 powi (?k - 1) < x" unfolding x by simp
    have "(of_int a / of_int b :: rat) < 2 powi int ?p / 2 powi (int ?q - 1)"
      using bd [OF a] bd [OF b] a b by (intro frac_less) simp_all
    moreover have "(2 :: rat) powi int ?p / 2 powi (int ?q - 1) = 2 powi (?k + 1)"
      using power_int_diff [of "2 :: rat" "int ?p" "int ?q - 1"] by (simp add: algebra_simps del: power_int_of_nat)
    ultimately show "x < 2 powi (?k + 1)" unfolding x by simp
  qed
  show "2 powi ilog2 x \<le> x" using lo by (simp add: ilog2_def q Let_def)
  show "x < 2 powi (ilog2 x + 1)" using hi by (simp add: ilog2_def q Let_def)
qed

lemma ilog2_less: "0 < x \<Longrightarrow> x < 2 powi m \<Longrightarrow> ilog2 x < m"
  using ilog2_bounds(1) [of x] power_int_increasing [of m "ilog2 x" "2 :: rat"] by force

lemma round_even_near: "\<bar>of_int (round_even x) - x\<bar> \<le> 1/2"
  using floor_correct [of x] by (auto simp: round_even_def Let_def abs_le_iff)

lemma round_even_ge: "of_int k \<le> x \<Longrightarrow> k \<le> round_even x"
  by (simp add: round_even_def Let_def le_floor_iff [symmetric])

lemma round_even_int: "round_even (of_int k) = k"
  by (simp add: round_even_def)

text \<open>Rounding is off by at most half a unit in the last place.\<close>

lemma fround_error: "\<bar>fround x - x\<bar> \<le> 2 powi quantum x / 2"
proof (cases "x = 0")
  case False
  let ?u = "2 powi quantum x :: rat"
  have u: "0 < ?u" by simp
  have "fround x - x = (of_int (round_even (x / ?u)) - x / ?u) * ?u" using False by (simp add: fround_def field_simps)
  then have "\<bar>fround x - x\<bar> = \<bar>of_int (round_even (x / ?u)) - x / ?u\<bar> * ?u" by (simp add: abs_mult)
  also have "\<dots> \<le> 1/2 * ?u" using round_even_near u by (intro mult_right_mono) simp_all
  finally show ?thesis by simp
qed (simp add: fround_def)

lemma quantum_le: "\<bar>x\<bar> < 2 powi m \<Longrightarrow> x \<noteq> 0 \<Longrightarrow> - 1021 \<le> m \<Longrightarrow> quantum x \<le> m - 53"
  using ilog2_less [of "\<bar>x\<bar>" m] by (simp add: quantum_def)

lemma fround_close:
  assumes "\<bar>x\<bar> < 2 powi m" and "- 1021 \<le> m"
  shows "\<bar>fround x - x\<bar> \<le> 2 powi (m - 54)"
proof (cases "x = 0")
  case False
  have "2 powi quantum x \<le> (2 powi (m - 53) :: rat)"
    using quantum_le [OF assms(1) False assms(2)] by (intro power_int_increasing) simp_all
  moreover have "2 powi (m - 53) / 2 = (2 powi (m - 54) :: rat)"
    using power_int_diff [of "2 :: rat" "m - 53" 1] by simp
  ultimately show ?thesis using fround_error [of x] by simp
qed (simp add: fround_def)

lemma powi_split: "(e :: int) \<le> f \<Longrightarrow> (2 powi f :: rat) = of_int (2 ^ nat (f - e)) * 2 powi e"
  by (simp add: power_int_add [symmetric] flip: power_int_of_nat)

text \<open>A multiple of the quantum is represented exactly.\<close>

lemma fround_exact:
  assumes "x = of_int c * 2 powi e" and "quantum x \<le> e"
  shows "fround x = x"
proof (cases "x = 0")
  case False
  have "x / 2 powi quantum x = of_int (c * 2 ^ nat (e - quantum x))"
    using assms powi_split [OF assms(2)] by (simp add: field_simps)
  then show ?thesis using False by (simp add: fround_def round_even_int del: of_int_mult) (simp add: field_simps)
qed (simp add: fround_def)

lemma fround_of_int: "\<bar>c\<bar> < 2 ^ 53 \<Longrightarrow> fround (of_int c) = of_int c"
proof (cases "c = 0")
  case False
  assume "\<bar>c\<bar> < 2 ^ 53"
  then have "(of_int \<bar>c\<bar> :: rat) < of_int (2 ^ 53)" by (simp only: of_int_less_iff)
  then have "quantum (of_int c) \<le> 53 - 53" using False by (intro quantum_le) simp_all
  then show ?thesis by (intro fround_exact [where e = 0 and c = c]) simp_all
qed (simp add: fround_def)

lemma fround_ge: "of_int k * 2 powi quantum x \<le> x \<Longrightarrow> x \<noteq> 0 \<Longrightarrow> of_int k * 2 powi quantum x \<le> fround x"
  using round_even_ge [of k "x / 2 powi quantum x"] by (simp add: fround_def field_simps)

lemma fround_multiple: "\<exists>c. fround x = of_int c * 2 powi quantum x"
  by (cases "x = 0") (auto simp: fround_def intro: exI [of _ 0])

lemma fround_0 [simp]: "fround 0 = 0"
  by (simp add: fround_def)

lemma ftrunc_of_int [simp]: "ftrunc (of_int n) = n"
  by (simp add: ftrunc_def)

lemma ftrunc_near: "\<bar>of_int (ftrunc x) - x\<bar> < 1"
  proof -
  have "of_int \<lfloor>x\<rfloor> \<le> x" "x < of_int \<lfloor>x\<rfloor> + 1" "of_int \<lceil>x\<rceil> - 1 < x" "x \<le> of_int \<lceil>x\<rceil>"
    using floor_correct [of x] ceiling_correct [of x] by simp_all
  then have "of_int \<lfloor>x\<rfloor> - x < 1 \<and> x - of_int \<lfloor>x\<rfloor> < 1" "of_int \<lceil>x\<rceil> - x < 1 \<and> x - of_int \<lceil>x\<rceil> < 1"
    by linarith+
  then show ?thesis unfolding ftrunc_def abs_less_iff by (cases "0 \<le> x") (simp_all only: if_True if_False minus_diff_eq simp_thms)
qed

lemma is_digit_dot: "\<not> is_digit (of_char CHR ''-'')" "\<not> is_digit (of_char CHR ''.'')"
  by (simp_all add: is_digit_def)

lemma number_value_decimal: "number_value (decimal n) = Some (of_nat n)"
proof -
  have d: "\<forall>b\<in>set (decimal n). is_digit b" using decimal_digits by blast
  then have "takeWhile is_digit (decimal n) = decimal n" "dropWhile is_digit (decimal n) = []"
    by (simp_all add: takeWhile_eq_all_conv dropWhile_eq_Nil_conv)
  note span = this
  moreover have "hd (decimal n) \<noteq> of_char CHR ''-''" using decimal_hd [of n] is_digit_dot by metis
  ultimately have "\<not> (decimal n \<noteq> [] \<and> hd (decimal n) = of_char CHR ''-'')" by blast
  then show ?thesis using decimal_nonempty [of n] unfolding number_value_def Let_def
    by (simp only: if_False span) (simp add: exponent_of_def undecimal_decimal)
qed

lemma number_value_sample: "number_value (str ''-12.5e-1'') = Some (- 5 / 4)"
  by code_simp

lemma fround_sample: "fround (1 / 10) = 3602879701896397 / 36028797018963968"
  by code_simp

end
