(* ===== verification/Fluent_Time.thy ===== *)
theory Fluent_Time
  imports Fluent_Encoder Go_Float
begin

text \<open>
  \<^verbatim>\<open>fluent/timecodec.go\<close>: the codecs that read a timestamp back out of a JSON log line. A codec's
  encode end is one of zap's time encoders, its decode end sees the decoded JSON value, numbers
  already converted to \<^verbatim>\<open>float64\<close>. What Go's float arithmetic does to a timestamp, the
  conversions to \<^verbatim>\<open>int64\<close> included, is computed exactly.
\<close>

section \<open>Codecs\<close>

text \<open>The decoded value a codec sees, and the hooks of the zap encoders.\<close>

datatype tval = TFloat rat | TOther jany

type_synonym time_encoder = "gotime \<Rightarrow> zval list"

record zap_times =
  EpochNanosTimeEncoder :: time_encoder
  EpochMillisTimeEncoder :: time_encoder
  EpochTimeEncoder :: time_encoder
  RFC3339NanoTimeEncoder :: time_encoder
  RFC3339TimeEncoder :: time_encoder
  ISO8601TimeEncoder :: time_encoder

text \<open>
  The standard library as the codecs use it: \<^verbatim>\<open>time.Parse\<close> of a layout, and the result of an
  out-of-range conversion to \<^verbatim>\<open>int64\<close>, which the language leaves open.
\<close>

record time_env =
  Parse :: "bytes \<Rightarrow> bytes \<Rightarrow> gotime option"
  out_of_range :: "rat \<Rightarrow> int"
  zap :: zap_times

text \<open>A nil function is \<open>None\<close>.\<close>

record TimeCodec =
  Key :: bytes
  ZapEncoder :: "time_encoder option"
  Decode :: "(tval \<Rightarrow> gotime option) option"

text \<open>The two fields of zap's encoder configuration a codec sets.\<close>

record 'c EncoderConfig =
  TimeKey :: bytes
  cfg_EncodeTime :: "time_encoder option"
  other_fields :: 'c

definition ApplyTo :: "TimeCodec \<Rightarrow> 'c EncoderConfig \<Rightarrow> 'c EncoderConfig" where
  "ApplyTo c cfg = cfg\<lparr>TimeKey := Key c, cfg_EncodeTime := ZapEncoder c\<rparr>"

definition valid :: "TimeCodec \<Rightarrow> bool" where
  "valid c \<longleftrightarrow> Key c \<noteq> [] \<and> ZapEncoder c \<noteq> None \<and> Decode c \<noteq> None"

definition on_float :: "(rat \<Rightarrow> gotime) \<Rightarrow> tval \<Rightarrow> gotime option" where
  "on_float f v = (case v of TFloat x \<Rightarrow> Some (f x) | TOther _ \<Rightarrow> None)"

definition epochMillisThreshold :: rat where "epochMillisThreshold = 10 ^ 12"
definition epochMicrosThreshold :: rat where "epochMicrosThreshold = 10 ^ 15"
definition epochNanosThreshold :: rat where "epochNanosThreshold = 10 ^ 18"

definition seconds_to_time :: "(rat \<Rightarrow> int) \<Rightarrow> rat \<Rightarrow> gotime" where
  "seconds_to_time oor v =
     (let sec = int64_of oor v;
          ns = int64_of oor (fround (fround (v - fround (of_int sec)) * 10 ^ 9))
      in time_Unix sec ns)"

definition epochToTime :: "(rat \<Rightarrow> int) \<Rightarrow> rat \<Rightarrow> gotime" where
  "epochToTime oor v =
     (if v \<ge> epochNanosThreshold then time_Unix 0 (int64_of oor v)
      else if v \<ge> epochMicrosThreshold then time_Unix 0 (int64_of oor (fround (v * 10 ^ 3)))
      else if v \<ge> epochMillisThreshold then time_Unix 0 (int64_of oor (fround (v * 10 ^ 6)))
      else seconds_to_time oor v)"

definition time_UnixMilli :: "int \<Rightarrow> gotime" where
  "time_UnixMilli ms = time_Unix (ms div 1000) (ms mod 1000 * 1000000)"

definition AutoEpochCodec :: "time_env \<Rightarrow> bytes \<Rightarrow> TimeCodec" where
  "AutoEpochCodec te key =
     \<lparr>Key = key, ZapEncoder = Some (EpochNanosTimeEncoder (zap te)),
      Decode = Some (on_float (epochToTime (out_of_range te)))\<rparr>"

definition defaultTimeCodec :: "time_env \<Rightarrow> TimeCodec" where
  "defaultTimeCodec te = AutoEpochCodec te (str ''ts'')"

definition EpochNanosCodec :: "time_env \<Rightarrow> bytes \<Rightarrow> TimeCodec" where
  "EpochNanosCodec te key =
     \<lparr>Key = key, ZapEncoder = Some (EpochNanosTimeEncoder (zap te)),
      Decode = Some (on_float (\<lambda>f. time_Unix 0 (int64_of (out_of_range te) f)))\<rparr>"

definition EpochMillisCodec :: "time_env \<Rightarrow> bytes \<Rightarrow> TimeCodec" where
  "EpochMillisCodec te key =
     \<lparr>Key = key, ZapEncoder = Some (EpochMillisTimeEncoder (zap te)),
      Decode = Some (on_float (\<lambda>f. time_UnixMilli (int64_of (out_of_range te) f)))\<rparr>"

definition EpochSecondsCodec :: "time_env \<Rightarrow> bytes \<Rightarrow> TimeCodec" where
  "EpochSecondsCodec te key =
     \<lparr>Key = key, ZapEncoder = Some (EpochTimeEncoder (zap te)),
      Decode = Some (on_float (seconds_to_time (out_of_range te)))\<rparr>"

definition RFC3339Nano :: bytes where "RFC3339Nano = str ''2006-01-02T15:04:05.999999999Z07:00''"
definition RFC3339 :: bytes where "RFC3339 = str ''2006-01-02T15:04:05Z07:00''"

fun first_layout :: "(bytes \<Rightarrow> bytes \<Rightarrow> gotime option) \<Rightarrow> bytes list \<Rightarrow> bytes \<Rightarrow> gotime option" where
  "first_layout p [] s = None"
| "first_layout p (l # ls) s = (case p l s of Some t \<Rightarrow> Some t | None \<Rightarrow> first_layout p ls s)"

definition stringCodec :: "time_env \<Rightarrow> bytes \<Rightarrow> time_encoder \<Rightarrow> bytes \<Rightarrow> TimeCodec" where
  "stringCodec te key enc layout =
     \<lparr>Key = key, ZapEncoder = Some enc,
      Decode = Some (\<lambda>v. case v of
         TOther (JStr s) \<Rightarrow> first_layout (Parse te) [layout, RFC3339Nano, RFC3339] s
       | _ \<Rightarrow> None)\<rparr>"

definition RFC3339NanoCodec :: "time_env \<Rightarrow> bytes \<Rightarrow> TimeCodec" where
  "RFC3339NanoCodec te key = stringCodec te key (RFC3339NanoTimeEncoder (zap te)) RFC3339Nano"

definition RFC3339Codec :: "time_env \<Rightarrow> bytes \<Rightarrow> TimeCodec" where
  "RFC3339Codec te key = stringCodec te key (RFC3339TimeEncoder (zap te)) RFC3339"

definition ISO8601Codec :: "time_env \<Rightarrow> bytes \<Rightarrow> TimeCodec" where
  "ISO8601Codec te key = stringCodec te key (ISO8601TimeEncoder (zap te)) (str ''2006-01-02T15:04:05.000Z0700'')"

section \<open>Instants and units\<close>

definition instant :: "gotime \<Rightarrow> int" where
  "instant t = unixSec t * 1000000000 + nsec t"

text \<open>The four units the default codec tells apart, and the timestamps of the years 2001 to 2199.\<close>

datatype epoch_unit = Seconds | Millis | Micros | Nanos

definition unit_ns :: "epoch_unit \<Rightarrow> rat" where
  "unit_ns u = (case u of Seconds \<Rightarrow> 10 ^ 9 | Millis \<Rightarrow> 10 ^ 6 | Micros \<Rightarrow> 10 ^ 3 | Nanos \<Rightarrow> 1)"

definition log_time :: "epoch_unit \<Rightarrow> rat \<Rightarrow> bool" where
  "log_time u x \<longleftrightarrow> 10 ^ 18 \<le> x * unit_ns u \<and> x * unit_ns u < 7258118400 * 10 ^ 9"

lemma instant_time_Unix: "instant (time_Unix s n) = s * 1000000000 + n"
  by (simp add: instant_def time_Unix_def distrib_right)

lemma time_Unix_nsec: "0 \<le> nsec (time_Unix s n) \<and> nsec (time_Unix s n) < 1000000000"
  by (simp add: time_Unix_def)

lemma seconds_to_time_nsec: "0 \<le> nsec (seconds_to_time oor v) \<and> nsec (seconds_to_time oor v) < 1000000000"
  by (simp add: seconds_to_time_def Let_def time_Unix_nsec)

lemma epochToTime_nsec: "0 \<le> nsec (epochToTime oor v) \<and> nsec (epochToTime oor v) < 1000000000"
  by (simp add: epochToTime_def time_Unix_nsec seconds_to_time_nsec)

text \<open>A conversion in range is off by less than one.\<close>

lemma int64_of_near: "\<bar>x\<bar> < 2 ^ 63 \<Longrightarrow> \<bar>of_int (int64_of oor x) - x\<bar> < 1"
proof -
  assume x: "\<bar>x\<bar> < 2 ^ 63"
  have "- (2 ^ 63) \<le> ftrunc x \<and> ftrunc x < 2 ^ 63"
  proof (cases "0 \<le> x")
    case True
    then show ?thesis using x by (simp add: ftrunc_def floor_less_iff)
  next
    case False
    then show ?thesis using x by (simp add: ftrunc_def le_ceiling_iff ceiling_less_iff)
  qed
  then show ?thesis using ftrunc_near [of x] by (simp add: int64_of_def)
qed

lemma int64_of_int: "\<bar>n\<bar> < 2 ^ 63 \<Longrightarrow> int64_of oor (of_int n) = n"
  by (simp add: int64_of_def abs_less_iff)

text \<open>Scaling a rounded value: the errors of the value, of the product and of the conversion.\<close>

lemma scaled_near:
  assumes "\<bar>v - x\<bar> \<le> d" and "\<bar>v * k\<bar> < 2 powi m" and "- 1021 \<le> m" and "m \<le> 63"
    and "\<bar>v * k\<bar> < 2 ^ 63 - 1024" and "0 < k"
  shows "\<bar>of_int (int64_of oor (fround (v * k))) - x * k\<bar> < d * k + 2 powi (m - 54) + 1"
proof -
  let ?w = "fround (v * k)"
  have e: "\<bar>?w - v * k\<bar> \<le> 2 powi (m - 54)" using assms(2,3) by (rule fround_close)
  have "2 powi (m - 54) \<le> (2 powi 9 :: rat)" using assms(4) by (intro power_int_increasing; simp)
  then have "\<bar>?w\<bar> < 2 ^ 63" using e assms(5) by simp
  then have i: "\<bar>of_int (int64_of oor ?w) - ?w\<bar> < 1" by (rule int64_of_near)
  have "\<bar>v * k - x * k\<bar> \<le> d * k"
    using mult_right_mono [OF assms(1), of k] assms(6) by (simp add: abs_mult left_diff_distrib [symmetric])
  with e i show ?thesis by linarith
qed

text \<open>A timestamp at a unit's threshold is not rounded below it.\<close>

lemma fround_ge_int:
  assumes "of_int c \<le> x" and "0 < x" and "quantum x \<le> int j" and "2 ^ j dvd c"
  shows "of_int c \<le> fround x"
proof -
  obtain d where d: "c = 2 ^ j * d" using assms(4) by (auto simp: dvd_def)
  have "(of_int c :: rat) = of_int d * 2 powi int j" by (simp add: d)
  also have "\<dots> = of_int (d * 2 ^ nat (int j - quantum x)) * 2 powi quantum x"
    using powi_split [OF assms(3)] by simp
  finally have c: "(of_int c :: rat) = \<dots>" .
  show ?thesis using fround_ge [of "d * 2 ^ nat (int j - quantum x)" x] assms(1,2) unfolding c by simp
qed

lemma threshold:
  assumes "10 ^ n \<le> x" and "x < 2 powi (53 + int n)" 
  shows "10 ^ n \<le> fround x"
proof -
  have x: "0 < x" using assms(1) by (meson less_le_trans zero_less_numeral zero_less_power)
  then have "quantum x \<le> 53 + int n - 53" using assms(2) by (intro quantum_le) simp_all
  moreover have "(2 :: int) ^ n dvd 10 ^ n" by (rule dvd_power_same) simp
  ultimately show ?thesis using fround_ge_int [of "10 ^ n" x n] assms(1) x by simp
qed

text \<open>The seconds branch: the whole part is exact, and so is its subtraction.\<close>

lemma seconds_near:
  assumes "0 \<le> x" and "x < 2 ^ 33"
  shows "\<bar>of_int (instant (seconds_to_time oor (fround x))) - x * 10 ^ 9\<bar> < 479"
proof -
  let ?v = "fround x"
  let ?sec = "int64_of oor ?v"
  have "\<bar>?v - x\<bar> \<le> 2 powi (33 - 54)" using assms by (intro fround_close) simp_all
  then have d: "\<bar>?v - x\<bar> \<le> 1 / 2097152" by (simp add: power_int_def power_divide)
  then have v: "\<bar>?v\<bar> < 2 ^ 33 + 1" using assms unfolding abs_le_iff abs_less_iff by simp
  have s: "\<bar>of_int ?sec - ?v\<bar> < 1" using v by (intro int64_of_near) simp
  then have "\<bar>(of_int ?sec :: rat)\<bar> < of_int (2 ^ 53)" using v by (simp; linarith)
  then have sec: "fround (of_int ?sec) = of_int ?sec"
    by (intro fround_of_int) (metis of_int_abs of_int_less_iff)
  let ?f = "?v - of_int ?sec"
  have "\<bar>fround ?f - ?f\<bar> \<le> 2 powi (0 - 54)" using s by (intro fround_close) (simp_all add: abs_minus_commute)
  then have f: "\<bar>fround ?f - ?f\<bar> \<le> 1 / 18014398509481984" by (simp add: power_int_def power_divide)
  then have k: "\<bar>fround ?f * 10 ^ 9\<bar> < 2 powi 30" using s by (simp add: abs_mult; linarith)
  have "\<bar>of_int (int64_of oor (fround (fround ?f * 10 ^ 9))) - ?f * 10 ^ 9\<bar>
      < 1 / 18014398509481984 * 10 ^ 9 + 2 powi (30 - 54) + 1"
    using k by (intro scaled_near [OF f k]) simp_all
  then have n: "\<bar>of_int (int64_of oor (fround (fround ?f * 10 ^ 9))) - ?f * 10 ^ 9\<bar> < 1 + 1 / 1024"
    by (simp add: power_int_def power_divide)
  have "\<bar>?v * 10 ^ 9 - x * 10 ^ 9\<bar> \<le> 477"
    using d unfolding left_diff_distrib [symmetric] abs_mult by simp
  moreover have "of_int (instant (seconds_to_time oor ?v)) - x * 10 ^ 9 =
      (of_int (int64_of oor (fround (fround ?f * 10 ^ 9))) - ?f * 10 ^ 9) + (?v * 10 ^ 9 - x * 10 ^ 9)"
    unfolding seconds_to_time_def Let_def instant_time_Unix sec by (simp add: left_diff_distrib)
  ultimately show ?thesis using n by linarith
qed

lemma scaled_log_time:
  assumes "\<bar>v - x\<bar> * k \<le> e" and "e < 512" and "0 < k" and "10 ^ 18 \<le> x * k" and "x * k < 7258118400 * 10 ^ 9"
  shows "\<bar>of_int (int64_of oor (fround (v * k))) - x * k\<bar> < e + 513"
proof -
  have d: "\<bar>v - x\<bar> \<le> e / k" using assms(1,3) by (simp add: pos_le_divide_eq)
  have "\<bar>v * k - x * k\<bar> \<le> e" using assms(1,3) unfolding left_diff_distrib [symmetric] by (simp add: abs_mult)
  then have "\<bar>v * k\<bar> < 7258118400 * 10 ^ 9 + 512"
    using assms(2,4,5) unfolding abs_le_iff abs_less_iff by (simp; linarith)
  then have "\<bar>of_int (int64_of oor (fround (v * k))) - x * k\<bar> < e / k * k + 2 powi (63 - 54) + 1"
    using assms(3) by (intro scaled_near [OF d]) simp_all
  then show ?thesis using assms(3) by simp
qed

lemma epoch_branch:
  assumes "10 ^ n \<le> x" and "x < 10 ^ (n + 3) - 10 ^ (n + 2)" and "n \<in> {12, 15}"
  shows "10 ^ n \<le> fround x \<and> fround x < 10 ^ (n + 3)"
proof -
  have x: "\<bar>x\<bar> < 2 powi (53 + int n)" "0 \<le> x"
    using assms by (auto simp: power_int_def abs_if)
  have "\<bar>fround x - x\<bar> \<le> 2 powi (60 - 54)"
    using assms by (intro fround_close) (auto simp: abs_if)
  then have "\<bar>fround x - x\<bar> \<le> 64" by simp
  then show ?thesis using threshold [of n x] assms x by (auto simp: abs_if split: if_splits)
qed

text \<open>The branch of \<^verbatim>\<open>epochToTime\<close> a timestamp takes is the one of its unit.\<close>

lemma epoch_near:
  assumes "log_time u x"
  shows "\<bar>of_int (instant (epochToTime oor (fround x))) - x * unit_ns u\<bar> < 1024"
proof (cases u)
  case Seconds
  then have x: "0 \<le> x" "x < 2 ^ 33" using assms by (simp_all add: log_time_def unit_ns_def)
  then have "\<bar>fround x - x\<bar> \<le> 2 powi (33 - 54)" by (intro fround_close) simp_all
  then have "\<bar>fround x - x\<bar> \<le> 1" by (simp add: power_int_def power_divide)
  then have "fround x < 10 ^ 12" using x by (simp add: abs_le_iff)
  then show ?thesis using Seconds seconds_near [OF x, of oor]
    by (simp add: epochToTime_def epochMillisThreshold_def epochMicrosThreshold_def epochNanosThreshold_def unit_ns_def)
next
  case Millis
  then have x: "10 ^ 12 \<le> x" "x < 7258118400 * 10 ^ 3" "10 ^ 18 \<le> x * 10 ^ 6" "x * 10 ^ 6 < 7258118400 * 10 ^ 9"
    using assms by (simp_all add: log_time_def unit_ns_def)
  have "\<bar>fround x - x\<bar> \<le> 2 powi (43 - 54)" using x by (intro fround_close) simp_all
  then have "\<bar>fround x - x\<bar> * 10 ^ 6 \<le> 489" by (simp add: power_int_def power_divide)
  from scaled_log_time [OF this _ _ x(3,4), of oor] epoch_branch [of 12 x] x(1,2) Millis show ?thesis
    by (simp add: epochToTime_def epochMillisThreshold_def epochMicrosThreshold_def epochNanosThreshold_def unit_ns_def
        instant_time_Unix)
next
  case Micros
  then have x: "10 ^ 15 \<le> x" "x < 7258118400 * 10 ^ 6" "10 ^ 18 \<le> x * 10 ^ 3" "x * 10 ^ 3 < 7258118400 * 10 ^ 9"
    using assms by (simp_all add: log_time_def unit_ns_def)
  have "\<bar>fround x - x\<bar> \<le> 2 powi (53 - 54)" using x by (intro fround_close) simp_all
  then have "\<bar>fround x - x\<bar> * 10 ^ 3 \<le> 500" by (simp add: power_int_def power_divide)
  from scaled_log_time [OF this _ _ x(3,4), of oor] epoch_branch [of 15 x] x(1,2) Micros show ?thesis
    by (simp add: epochToTime_def epochMillisThreshold_def epochMicrosThreshold_def epochNanosThreshold_def unit_ns_def
        instant_time_Unix)
next
  case Nanos
  then have x: "10 ^ 18 \<le> x" "x < 7258118400 * 10 ^ 9"
    using assms by (simp_all add: log_time_def unit_ns_def)
  have "\<bar>fround x - x\<bar> \<le> 2 powi (63 - 54)" using x by (intro fround_close) simp_all
  then have e: "\<bar>fround x - x\<bar> \<le> 512" by simp
  then have "\<bar>of_int (int64_of oor (fround x)) - fround x\<bar> < 1" using x by (intro int64_of_near) (simp add: abs_le_iff abs_less_iff)
  with e threshold [of 18 x] x Nanos show ?thesis
    by (simp add: epochToTime_def epochNanosThreshold_def unit_ns_def instant_time_Unix; linarith)
qed

text \<open>Whole numbers below \<open>2 ^ 53\<close> are not rounded, so that only the scaling is inexact.\<close>

lemma epoch_near_int:
  assumes "log_time u (of_int i)"
  shows "\<bar>of_int (instant (epochToTime oor (fround (of_int i)))) - of_int i * unit_ns u\<bar> < 514"
proof (cases u)
  case Nanos
  then have x: "(10 :: rat) ^ 18 \<le> of_int i" "of_int i < (7258118400 * 10 ^ 9 :: rat)"
    using assms by (simp_all add: log_time_def unit_ns_def)
  have "\<bar>fround (of_int i) - of_int i\<bar> \<le> 2 powi (63 - 54)" using x by (intro fround_close) simp_all
  then have e: "\<bar>fround (of_int i) - of_int i\<bar> \<le> 512" by simp
  then have "\<bar>of_int (int64_of oor (fround (of_int i))) - fround (of_int i)\<bar> < 1"
    using x by (intro int64_of_near) (simp add: abs_le_iff abs_less_iff)
  with e threshold [of 18 "of_int i"] x Nanos show ?thesis
    by (simp add: epochToTime_def epochNanosThreshold_def unit_ns_def instant_time_Unix; linarith)
next
  case Seconds
  then have x: "(0 :: rat) \<le> of_int i" "(of_int i :: rat) < 2 ^ 33"
    using assms by (simp_all add: log_time_def unit_ns_def)
  then have i: "\<bar>i\<bar> < 2 ^ 53" "\<bar>i\<bar> < 2 ^ 63" "i < 10 ^ 12" by simp_all
  have "(of_int i :: rat) < of_int (10 ^ 12)" using i(3) by (simp only: of_int_less_iff)
  then show ?thesis using Seconds i
    by (simp add: epochToTime_def epochMillisThreshold_def epochMicrosThreshold_def epochNanosThreshold_def unit_ns_def
        fround_of_int seconds_to_time_def int64_of_int int64_of_int [of 0, simplified] instant_time_Unix)
next
  case Millis
  then have x: "(10 :: rat) ^ 12 \<le> of_int i" "of_int i < (7258118400 * 10 ^ 3 :: rat)"
    "(10 :: rat) ^ 18 \<le> of_int i * 10 ^ 6" "of_int i * 10 ^ 6 < (7258118400 * 10 ^ 9 :: rat)"
    using assms by (simp_all add: log_time_def unit_ns_def)
  then have "\<bar>i\<bar> < 2 ^ 53" by simp
  then have f: "fround (of_int i) = of_int i" by (rule fround_of_int)
  then have "\<bar>fround (of_int i) - of_int i\<bar> * 10 ^ 6 \<le> (0 :: rat)" by simp
  from scaled_log_time [OF this _ _ x(3,4), of oor] epoch_branch [of 12 "of_int i"] x(1,2) Millis show ?thesis
    by (simp add: epochToTime_def epochMillisThreshold_def epochMicrosThreshold_def epochNanosThreshold_def unit_ns_def
        instant_time_Unix)
next
  case Micros
  then have x: "(10 :: rat) ^ 15 \<le> of_int i" "of_int i < (7258118400 * 10 ^ 6 :: rat)"
    "(10 :: rat) ^ 18 \<le> of_int i * 10 ^ 3" "of_int i * 10 ^ 3 < (7258118400 * 10 ^ 9 :: rat)"
    using assms by (simp_all add: log_time_def unit_ns_def)
  then have "\<bar>i\<bar> < 2 ^ 53" by simp
  then have f: "fround (of_int i) = of_int i" by (rule fround_of_int)
  then have "\<bar>fround (of_int i) - of_int i\<bar> * 10 ^ 3 \<le> (0 :: rat)" by simp
  from scaled_log_time [OF this _ _ x(3,4), of oor] epoch_branch [of 15 "of_int i"] x(1,2) Micros show ?thesis
    by (simp add: epochToTime_def epochMillisThreshold_def epochMicrosThreshold_def epochNanosThreshold_def unit_ns_def
        instant_time_Unix)
qed

lemma log_time_float:
  assumes "number_value s = Some x" and "log_time u x"
  shows "ParseFloat s = Some (fround x)"
proof -
  have u: "1 \<le> unit_ns u" by (cases u) (simp_all add: unit_ns_def)
  have "0 < x"
  proof (rule ccontr)
    assume "\<not> 0 < x"
    then have "x * unit_ns u \<le> 0" using u by (simp add: mult_nonpos_nonneg)
    then show False using assms(2) by (simp add: log_time_def)
  qed
  then have "x \<le> x * unit_ns u" using u by simp
  also have "\<dots> < 7258118400 * 10 ^ 9" using assms(2) by (simp add: log_time_def)
  finally have x: "\<bar>x\<bar> < 2 powi 63" using \<open>0 < x\<close> by simp
  then have "\<bar>fround x - x\<bar> \<le> 2 powi (63 - 54)" by (rule fround_close) simp
  then have "\<bar>fround x\<bar> < 2 ^ 64" using x by (simp add: abs_le_iff abs_less_iff)
  also have "\<dots> \<le> (2 ^ 1024 :: rat)" by (rule power_increasing) simp_all
  finally show ?thesis using assms(1) by (simp add: ParseFloat_def)
qed

text \<open>A library for examples: nothing parses, and out of range is what an amd64 machine gives.\<close>

definition no_zap :: zap_times where
  "no_zap = \<lparr>EpochNanosTimeEncoder = \<lambda>_. [], EpochMillisTimeEncoder = \<lambda>_. [], EpochTimeEncoder = \<lambda>_. [],
     RFC3339NanoTimeEncoder = \<lambda>_. [], RFC3339TimeEncoder = \<lambda>_. [], ISO8601TimeEncoder = \<lambda>_. []\<rparr>"

definition sample_times :: time_env where
  "sample_times = \<lparr>Parse = \<lambda>_ _. None, out_of_range = \<lambda>_. - (2 ^ 63), zap = no_zap\<rparr>"

section \<open>Properties\<close>

text \<open>C33: the default codec tells the unit of a numeric timestamp and keeps its instant. For every
  JSON number, whole or fractional, that stands for an instant of the years 2001 to 2199 in seconds,
  milliseconds, microseconds or nanoseconds, the decoded time differs from that instant by less than
  1024 nanoseconds, and by less than 514 for a whole number.\<close>

theorem auto_epoch_accuracy:
  assumes "number_value s = Some x" and "log_time u x"
  shows "\<exists>f d t. ParseFloat s = Some f \<and> Decode (AutoEpochCodec te key) = Some d \<and> d (TFloat f) = Some t \<and>
    \<bar>of_int (instant t) - x * unit_ns u\<bar> < 1024 \<and> (x \<in> \<int> \<longrightarrow> \<bar>of_int (instant t) - x * unit_ns u\<bar> < 514) \<and>
    0 \<le> nsec t \<and> nsec t < 1000000000"
proof -
  let ?t = "epochToTime (out_of_range te) (fround x)"
  have "x \<in> \<int> \<Longrightarrow> \<bar>of_int (instant ?t) - x * unit_ns u\<bar> < 514"
    using epoch_near_int assms(2) by (auto elim!: Ints_cases)
  then show ?thesis
    using log_time_float [OF assms] epoch_near [OF assms(2)] epochToTime_nsec
    by (auto simp: AutoEpochCodec_def on_float_def)
qed

theorem auto_epoch_accuracy_witness:
  "\<exists>f d t. ParseFloat (str ''1700000000123.4'') = Some f \<and> Decode (AutoEpochCodec sample_times (str ''ts'')) = Some d \<and>
    d (TFloat f) = Some t \<and> \<bar>of_int (instant t) - (1700000000123400000 :: rat)\<bar> < 1024"
proof -
  have "number_value (str ''1700000000123.4'') = Some (17000000001234 / 10)"
    by (simp add: number_value_def str_def is_digit_def undecimal_def exponent_of_def Let_def)
  moreover have "log_time Millis (17000000001234 / 10)" by (simp add: log_time_def unit_ns_def)
  ultimately obtain f d t where "ParseFloat (str ''1700000000123.4'') = Some f" "Decode (AutoEpochCodec sample_times (str ''ts'')) = Some d"
    "d (TFloat f) = Some t" "\<bar>of_int (instant t) - 17000000001234 / 10 * unit_ns Millis\<bar> < 1024"
    using auto_epoch_accuracy [of "str ''1700000000123.4''" "17000000001234 / 10" Millis sample_times "str ''ts''"] by blast
  then show ?thesis by (auto simp: unit_ns_def)
qed

text \<open>The round trip of the default codec, as \<^verbatim>\<open>NewCore\<close> wires it. zap's encoder writes the
  nanoseconds as a whole number; between the years 2006 and 2043 what is read back is within 128
  nanoseconds of them, and is exact only for the multiples of 256.\<close>

theorem epoch_nanos_roundtrip:
  assumes "2 ^ 60 \<le> n" and "n < 2 ^ 61"
  shows "\<exists>f d t. ParseFloat (decimal n) = Some f \<and> Decode (defaultTimeCodec te) = Some d \<and> d (TFloat f) = Some t \<and>
    \<bar>instant t - int n\<bar> \<le> 128 \<and> (instant t = int n \<longleftrightarrow> 256 dvd n)"
proof -
  let ?x = "of_nat n :: rat"
  let ?v = "fround ?x"
  have "(of_nat (2 ^ 60) :: rat) \<le> ?x" "?x < of_nat (2 ^ 61)" using assms by (simp_all only: of_nat_le_iff of_nat_less_iff)
  then have x: "2 ^ 60 \<le> ?x" "?x < 2 ^ 61" by simp_all
  have "quantum ?x \<le> 61 - 53" using x by (intro quantum_le) simp_all
  moreover have "60 < ilog2 ?x + 1"
    using ilog2_bounds(2) [of ?x] x power_int_increasing [of "ilog2 ?x + 1" 60 "2 :: rat"] by force
  ultimately have q: "quantum ?x = 8" using x by (simp add: quantum_def)
  obtain c where c: "?v = of_int c * 2 powi 8" using fround_multiple [of ?x] unfolding q by blast
  have e: "\<bar>?v - ?x\<bar> \<le> 128" using fround_error [of ?x] by (simp add: q)
  have "(of_int \<bar>c * 256 - int n\<bar> :: rat) \<le> of_int 128" using e by (simp add: c)
  then have near: "\<bar>c * 256 - int n\<bar> \<le> 128" by (simp only: of_int_le_iff)
  then have "\<bar>c * 256\<bar> < 2 ^ 63" using assms by simp
  then have i: "int64_of oor ?v = c * 256" for oor using int64_of_int [of "c * 256" oor] by (simp add: c)
  have v: "10 ^ 18 \<le> ?v" using x e by (simp add: abs_le_iff)
  have "c * 256 = int n \<longleftrightarrow> 256 dvd n"
  proof
    assume "c * 256 = int n"
    then show "256 dvd n" by (metis dvd_triv_right int_dvd_int_iff of_nat_numeral)
  next
    assume "256 dvd n"
    then obtain k where k: "n = 256 * k" by blast
    have "?v = ?x" by (rule fround_exact [of _ "int k" 8]) (simp_all add: q, simp add: k)
    then have "(of_int (c * 256) :: rat) = of_int (int n)" by (simp add: c)
    then show "c * 256 = int n" by (simp only: of_int_eq_iff)
  qed
  moreover have "\<bar>?v\<bar> < 2 ^ 1024"
  proof -
    have "\<bar>?v\<bar> < 2 ^ 62" using x e by (simp add: abs_le_iff abs_less_iff)
    also have "\<dots> \<le> (2 ^ 1024 :: rat)" by (rule power_increasing) simp_all
    finally show ?thesis .
  qed
  ultimately show ?thesis using near v
    by (simp add: ParseFloat_def number_value_decimal defaultTimeCodec_def AutoEpochCodec_def on_float_def
        epochToTime_def epochNanosThreshold_def instant_time_Unix i)
qed

theorem epoch_nanos_roundtrip_witness:
  "\<exists>f d t. ParseFloat (decimal 1700000000000000001) = Some f \<and> Decode (defaultTimeCodec sample_times) = Some d \<and>
    d (TFloat f) = Some t \<and> \<bar>instant t - 1700000000000000001\<bar> \<le> 128 \<and> instant t \<noteq> 1700000000000000001"
proof -
  have "\<not> (256 :: nat) dvd 1700000000000000001" by (simp add: dvd_eq_mod_eq_0)
  with epoch_nanos_roundtrip [of 1700000000000000001 sample_times] show ?thesis by auto
qed

end
