(* ===== verification/Fluent_Transcode.thy ===== *)
theory Fluent_Transcode
  imports Fluent_Time
begin

text \<open>
  \<^verbatim>\<open>fluent/encoder.go\<close> and the generated \<^verbatim>\<open>Entry.MarshalMsg\<close>: the encoder that transcodes zap's JSON
  line into a Forward entry. The timestamp is lifted out of the record by the codec, the numbers are
  narrowed, and the pair is written as msgpack. The specification is the value a receiver reads.
\<close>

section \<open>The encoder\<close>

text \<open>
  The standard library and the msgpack library as the encoder uses them: a \<^verbatim>\<open>json.Decoder\<close> with
  \<^verbatim>\<open>UseNumber\<close> reading an object, the clock, a float's bits, \<^verbatim>\<open>msgp.AppendExtension\<close> and
  \<^verbatim>\<open>msgp.WrapError\<close>.
\<close>

record transcode_env =
  e_time :: time_env
  e_unmarshal :: "bytes \<Rightarrow> (go_error, (bytes \<times> jany) list) result"
  e_now :: gotime
  e_float :: "bytes \<Rightarrow> u64"
  e_extension :: "bytes \<Rightarrow> nat \<Rightarrow> bytes \<Rightarrow> (go_error, bytes) result"
  e_wrap :: "go_error \<Rightarrow> bytes \<Rightarrow> go_error"

record fluent_encoder =
  codec :: TimeCodec

definition fluent_NewEncoder :: "time_env \<Rightarrow> fluent_encoder" where
  "fluent_NewEncoder te = \<lparr>codec = defaultTimeCodec te\<rparr>"

definition NewEncoderWithCodec :: "time_env \<Rightarrow> TimeCodec \<Rightarrow> fluent_encoder" where
  "NewEncoderWithCodec te c0 = (let c = (if \<not> valid c0 then defaultTimeCodec te else c0) in \<lparr>codec = c\<rparr>)"

text \<open>
  The time and the record without its time field; \<open>None\<close> is the panic of calling a nil \<^verbatim>\<open>Decode\<close>,
  which only an encoder made without a constructor has.
\<close>

definition number_float :: "jany \<Rightarrow> tval" where
  "number_float v =
     (case v of
        JNumber n \<Rightarrow> (case ParseFloat n of Some f \<Rightarrow> TFloat f | None \<Rightarrow> TOther v)
      | _ \<Rightarrow> TOther v)"

definition extractTime :: "gotime \<Rightarrow> TimeCodec \<Rightarrow> (bytes \<times> jany) list \<Rightarrow> (gotime \<times> (bytes \<times> jany) list) option" where
  "extractTime now c rec =
     (case map_of rec (Key c) of
        None \<Rightarrow> Some (now, rec)
      | Some v \<Rightarrow>
          (let rec' = filter (\<lambda>(k, _). k \<noteq> Key c) rec in
           case Decode c of
             None \<Rightarrow> None
           | Some d \<Rightarrow>
               Some (case d (number_float v) of
                 Some t \<Rightarrow> if \<not> IsZero t then (t, rec') else (now, rec')
               | None \<Rightarrow> (now, rec'))))"

record Entry =
  Time :: gotime
  Record :: jany

definition MarshalMsg :: "msgp \<Rightarrow> transcode_env \<Rightarrow> Entry \<Rightarrow> bytes \<Rightarrow> (go_error, bytes) result" where
  "MarshalMsg M E z b =
     (let o1 = b @ [0x92] in
      case e_extension E o1 ExtensionType (MarshalBinaryTo (Time z)) of
        Inl err \<Rightarrow> Inl (e_wrap E err (str ''Time''))
      | Inr o2 \<Rightarrow>
          (case mp_Intf M o2 (Record z) of
             Inl err \<Rightarrow> Inl (e_wrap E err (str ''Record''))
           | Inr o3 \<Rightarrow> Inr o3))"

definition fluent_Encode :: "msgp \<Rightarrow> transcode_env \<Rightarrow> fluent_encoder \<Rightarrow> bytes \<Rightarrow> bytes \<Rightarrow> (go_error, bytes) result option" where
  "fluent_Encode M E e dst record =
     (case e_unmarshal E record of
        Inl err \<Rightarrow> Some (Inl (str ''fluent: unmarshal log record: '' @ err))
      | Inr rec \<Rightarrow>
          (case extractTime (e_now E) (codec e) rec of
             None \<Rightarrow> None
           | Some (t, rec') \<Rightarrow>
               Some (case MarshalMsg M E \<lparr>Time = t, Record = normalizeNumbers (e_float E) (JObj rec')\<rparr> dst of
                 Inl err \<Rightarrow> Inl (str ''fluent: marshal entry: '' @ err)
               | Inr out \<Rightarrow> Inr out)))"

section \<open>What a receiver reads\<close>

text \<open>Decoded values that fit the msgpack format: the numbers are still texts.\<close>

fun fits_msgpack :: "jany \<Rightarrow> bool" where
  "fits_msgpack (JNumber _) \<longleftrightarrow> True"
| "fits_msgpack (JArr vs) \<longleftrightarrow> int (length vs) < 2 ^ 32 \<and> list_all fits_msgpack vs"
| "fits_msgpack (JObj kvs) \<longleftrightarrow> int (length kvs) < 2 ^ 32 \<and> list_all (\<lambda>(k, v). int (length k) < 2 ^ 32 \<and> fits_msgpack v) kvs"
| "fits_msgpack v \<longleftrightarrow> plain_value v"

text \<open>
  The meaning of a decoded JSON value, written without the encoder's functions. The text of a whole number
  stands for that integer when 64 bits hold it, signed or unsigned; any other number is a float. (A
  plus sign, which no JSON number has, is read below 2^63 only.)
\<close>

definition whole_number :: "bytes \<Rightarrow> int option" where
  "whole_number t =
     (if t \<noteq> [] \<and> hd t = 45 then map_option (\<lambda>n. - int n) (parse_digits (tl t))
      else if t \<noteq> [] \<and> hd t = 43 then Option.bind (parse_digits (tl t)) (\<lambda>n. if n < 2 ^ 63 then Some (int n) else None)
      else map_option int (parse_digits t))"

definition number_val :: "(bytes \<Rightarrow> u64) \<Rightarrow> bytes \<Rightarrow> mval" where
  "number_val pf t =
     (case whole_number t of
        Some i \<Rightarrow> if - (2 ^ 63) \<le> i \<and> i < 2 ^ 64 then MInt i else MFloat64 (pf t)
      | None \<Rightarrow> MFloat64 (pf t))"

fun json_val :: "(bytes \<Rightarrow> u64) \<Rightarrow> jany \<Rightarrow> mval" where
  "json_val pf JNull = MNil"
| "json_val pf (JBool b) = MBool b"
| "json_val pf (JNumber t) = number_val pf t"
| "json_val pf (JStr s) = MStr s"
| "json_val pf (JInt i) = MInt i"
| "json_val pf (JUint u) = MInt (uint u)"
| "json_val pf (JFloat d) = MFloat64 d"
| "json_val pf (JArr vs) = MArr (map (json_val pf) vs)"
| "json_val pf (JObj kvs) = MMap (map (\<lambda>(k, v). (MStr k, json_val pf v)) kvs)"

definition record_val :: "(bytes \<Rightarrow> u64) \<Rightarrow> (bytes \<times> jany) list \<Rightarrow> mval" where
  "record_val pf rec = json_val pf (JObj rec)"

definition without :: "bytes \<Rightarrow> (bytes \<times> jany) list \<Rightarrow> (bytes \<times> jany) list" where
  "without key rec = filter (\<lambda>(k, _). k \<noteq> key) rec"

locale fluent_lib = msgp_intf M for M :: msgp +
  fixes E :: transcode_env
  assumes Extension: "length p = 8 \<Longrightarrow> t < 128 \<Longrightarrow> \<exists>x. (\<forall>b. e_extension E b t p = Inr (b @ x)) \<and> reads x (MExt t p)"

section \<open>Lemmas\<close>

lemma ParseInt_range: "ParseInt s = Some i \<Longrightarrow> - (2 ^ 63) \<le> i \<and> i < 2 ^ 63"
  by (auto simp: ParseInt_def Let_def split: option.splits if_splits)

lemma normalizeNumber_plain: "fits_msgpack v \<Longrightarrow> plain_value (normalizeNumber pf v)"
proof (induction pf v rule: normalizeNumber.induct)
  case (1 pf t)
  then show ?case using ParseInt_range by (auto split: option.split)
qed (auto simp: list_all_iff)

lemma normalizeNumbers_plain: "fits_msgpack (JObj rec) \<Longrightarrow> plain_value (normalizeNumbers pf (JObj rec))"
  using normalizeNumber_plain by (auto simp: normalizeNumbers_def list_all_iff)

text \<open>The tightest type of a number, as \<^verbatim>\<open>normalizeNumber\<close> picks it, loses nothing of a whole number.\<close>

lemma number_normalized: "intf_val (normalizeNumber pf (JNumber t)) = number_val pf t"
proof -
  consider "t = []" | "t \<noteq> []" "hd t = 45" | "t \<noteq> []" "hd t = 43" | "t \<noteq> []" "hd t \<noteq> 45" "hd t \<noteq> 43" by blast
  then show ?thesis
  proof cases
    case 2
    then have "ParseUint t = None" by (cases t) (simp_all add: ParseUint_def parse_digits_def is_digit_def)
    with 2 show ?thesis
      by (auto simp: ParseInt_def number_val_def whole_number_def Let_def split: option.split)
  next
    case 3
    then have "ParseUint t = None" by (cases t) (simp_all add: ParseUint_def parse_digits_def is_digit_def)
    with 3 show ?thesis
      by (auto simp: ParseInt_def number_val_def whole_number_def Let_def split: option.split)
  next
    case 4
    then show ?thesis
      by (auto simp: ParseInt_def ParseUint_def number_val_def whole_number_def Let_def unsigned_of_nat
          take_bit_nat_eq_self split: option.split)
  qed (simp add: ParseInt_def ParseUint_def number_val_def whole_number_def parse_digits_def Let_def)
qed

lemma normalized_val: "intf_val (normalizeNumber pf v) = json_val pf v"
proof (induction pf v rule: normalizeNumber.induct)
  case (1 pf t)
  show ?case using number_normalized by simp
qed (auto simp: case_prod_unfold)

lemma normalizeNumbers_val: "intf_val (normalizeNumbers pf (JObj rec)) = record_val pf rec"
  by (simp add: normalizeNumbers_def record_val_def normalized_val comp_def case_prod_unfold)

text \<open>Every integer of 64 bits, signed or not, is written as that integer.\<close>

lemma integer_exact:
  "n < 2 ^ 64 \<Longrightarrow> json_val pf (JNumber (decimal n)) = MInt (int n)"
  "n \<le> 2 ^ 63 \<Longrightarrow> json_val pf (JNumber (45 # decimal n)) = MInt (- int n)"
  unfolding normalized_val [symmetric]
proof -
  assume n: "n < 2 ^ 64"
  show "intf_val (normalizeNumber pf (JNumber (decimal n))) = MInt (int n)"
  proof (cases "n < 2 ^ 63")
    case True
    then show ?thesis by (simp add: ParseInt_decimal)
  next
    case False
    then have "ParseInt (decimal n) = None" using decimal_hd [of n] decimal_nonempty [of n]
      by (auto simp: ParseInt_def parse_digits_decimal is_digit_def Let_def)
    with n show ?thesis by (simp add: ParseUint_def parse_digits_decimal unsigned_of_nat take_bit_nat_eq_self)
  qed
qed (simp add: ParseInt_neg)

lemma fits_without: "fits_msgpack (JObj rec) \<Longrightarrow> fits_msgpack (JObj (without key rec))"
  using le_less_trans [OF length_filter_le [of "\<lambda>(k, _). k \<noteq> key" rec]] by (auto simp: without_def list_all_iff)

lemma without_absent: "map_of rec key = None \<Longrightarrow> without key rec = rec"
  by (force simp: without_def map_of_eq_None_iff intro: filter_True)

lemma extractTime_some:
  assumes "Decode c \<noteq> None"
  shows "\<exists>t. extractTime now c rec = Some (t, without (Key c) rec)"
  using assms without_absent [of rec "Key c"]
  by (auto simp: extractTime_def without_def Let_def split: option.split)

text \<open>The time of a line, by what the codec makes of its field.\<close>

lemma extractTime_time:
  assumes "Decode c = Some d" and "extractTime now c rec = Some (t, r)"
  shows "(\<forall>v t'. map_of rec (Key c) = Some v \<and> d (number_float v) = Some t' \<and> \<not> IsZero t' \<longrightarrow> t = t') \<and>
    ((\<forall>v t'. map_of rec (Key c) = Some v \<and> d (number_float v) = Some t' \<longrightarrow> IsZero t') \<longrightarrow> t = now)"
  using assms by (auto simp: extractTime_def Let_def split: option.splits if_splits)

lemma constructed_codec: "valid (codec (NewEncoderWithCodec te c))"
  by (simp add: NewEncoderWithCodec_def Let_def valid_def defaultTimeCodec_def AutoEpochCodec_def str_def)

context fluent_lib
begin

lemma MarshalMsg_reads:
  assumes "plain_value r"
  shows "\<exists>x. (\<forall>b. MarshalMsg M E \<lparr>Time = t, Record = r\<rparr> b = Inr (b @ x)) \<and>
    reads x (MArr [MExt extensionType (MarshalBinaryTo t), intf_val r])"
proof -
  obtain p where p: "\<And>b. e_extension E b extensionType (MarshalBinaryTo t) = Inr (b @ p)"
      "reads p (MExt extensionType (MarshalBinaryTo t))"
    using Extension [of "MarshalBinaryTo t" extensionType] by (auto simp: MarshalBinaryTo_def Let_def extensionType_def)
  obtain q where q: "mp_Intf M [] r = Inr q" "reads q (intf_val r)" using Intf_value [OF assms] by blast
  have "MarshalMsg M E \<lparr>Time = t, Record = r\<rparr> b = Inr (b @ ([0x92] @ concat [p, q]))" for b
    using Intf_append [of "(b @ [0x92]) @ p" r] by (simp add: MarshalMsg_def ExtensionType_def p q)
  moreover have "reads_token [0x92] (TArr (length [p, q]))" by (simp add: reads_token_def mp_token.simps)
  then have "reads ([0x92] @ concat [p, q]) (MArr [MExt extensionType (MarshalBinaryTo t), intf_val r])"
    using p(2) q(2) by (intro reads_array) simp_all
  ultimately show ?thesis by blast
qed

lemma fluent_Encode_reads:
  assumes "e_unmarshal E record = Inr rec" and "fits_msgpack (JObj rec)"
    and "extractTime (e_now E) (codec e) rec = Some (t, without key rec)"
  shows "\<exists>x. (\<forall>dst. fluent_Encode M E e dst record = Some (Inr (dst @ x))) \<and>
    reads x (MArr [MExt extensionType (MarshalBinaryTo t), record_val (e_float E) (without key rec)])"
proof -
  let ?r = "normalizeNumbers (e_float E) (JObj (without key rec))"
  obtain x where x: "\<And>b. MarshalMsg M E \<lparr>Time = t, Record = ?r\<rparr> b = Inr (b @ x)"
      "reads x (MArr [MExt extensionType (MarshalBinaryTo t), intf_val ?r])"
    using MarshalMsg_reads [OF normalizeNumbers_plain [OF fits_without [OF assms(2)]]] by blast
  then show ?thesis using assms(1,3) by (auto simp: fluent_Encode_def normalizeNumbers_val)
qed

end

text \<open>An example: a library in long form, a decoder of one fixed line.\<close>

definition sample_line :: "(bytes \<times> jany) list" where
  "sample_line =
     [(str ''msg'', JStr (str ''hi'')), (str ''ts'', JNumber (str ''1700000000.5'')), (str ''n'', JNumber (decimal 18446744073709551615))]"

definition sample_env :: transcode_env where
  "sample_env =
     \<lparr>e_time = sample_times,
      e_unmarshal = \<lambda>r. if r = [] then Inl (str ''EOF'') else Inr sample_line,
      e_now = zeroTime, e_float = \<lambda>_. 0,
      e_extension = \<lambda>b t p. Inr (b @ 0xd7 # of_nat t # p), e_wrap = \<lambda>e _. e\<rparr>"

lemma fixext8_reads: "length p = 8 \<Longrightarrow> t < 128 \<Longrightarrow> reads (0xd7 # of_nat t # p) (MExt t p)"
  by (intro reads_leaf) (simp add: reads_token_def mp_token.simps take_ext_def take_n_append unsigned_of_nat take_bit_nat_eq_self)

interpretation sample: fluent_lib long_form sample_env
  by unfold_locales (auto simp: sample_env_def intro!: fixext8_reads)

lemmas sample_lib = sample.fluent_lib_axioms

section \<open>Properties\<close>

text \<open>C31: a log line becomes one Forward entry. For every codec, of the constructors or the user's, the
  encoder appends to its buffer exactly one msgpack value: an array of an EventTime and a map of all
  fields but the time field, in order, with the meaning of their JSON values, in which a whole number
  that 64 bits hold, signed or unsigned and at any depth, is that integer. The time is the
  instant the codec decodes from its field when it decodes one that is not zero, and the current time
  otherwise. A line that is not a JSON object is an error, and no call panics.\<close>

theorem transcode_meaning:
  assumes "fluent_lib M E"
  shows "(\<forall>rec. e_unmarshal E record = Inr rec \<and> fits_msgpack (JObj rec) \<longrightarrow>
      (let e = NewEncoderWithCodec te c; key = Key (codec e) in
       \<exists>x t d. (\<forall>dst. fluent_Encode M E e dst record = Some (Inr (dst @ x))) \<and>
         reads x (MArr [MExt extensionType (MarshalBinaryTo t), json_val (e_float E) (JObj (without key rec))]) \<and>
         Decode (codec e) = Some d \<and>
         (\<forall>v t'. map_of rec key = Some v \<and> d (number_float v) = Some t' \<and> \<not> IsZero t' \<longrightarrow> t = t') \<and>
         ((\<forall>v t'. map_of rec key = Some v \<and> d (number_float v) = Some t' \<longrightarrow> IsZero t') \<longrightarrow> t = e_now E))) \<and>
    (\<forall>err. e_unmarshal E record = Inl err \<longrightarrow>
      fluent_Encode M E e' dst' record = Some (Inl (str ''fluent: unmarshal log record: '' @ err)))"
proof (intro conjI allI impI)
  fix rec assume r: "e_unmarshal E record = Inr rec \<and> fits_msgpack (JObj rec)"
  let ?e = "NewEncoderWithCodec te c"
  obtain d where d: "Decode (codec ?e) = Some d" using constructed_codec [of te c] by (auto simp: valid_def)
  then obtain t where t: "extractTime (e_now E) (codec ?e) rec = Some (t, without (Key (codec ?e)) rec)"
    using extractTime_some [of "codec ?e"] by auto
  from fluent_lib.fluent_Encode_reads [OF assms conjunct1 [OF r] conjunct2 [OF r] t] extractTime_time [OF d t] d
  show "let e = ?e; key = Key (codec e) in
       \<exists>x t d. (\<forall>dst. fluent_Encode M E e dst record = Some (Inr (dst @ x))) \<and>
         reads x (MArr [MExt extensionType (MarshalBinaryTo t), json_val (e_float E) (JObj (without key rec))]) \<and>
         Decode (codec e) = Some d \<and>
         (\<forall>v t'. map_of rec key = Some v \<and> d (number_float v) = Some t' \<and> \<not> IsZero t' \<longrightarrow> t = t') \<and>
         ((\<forall>v t'. map_of rec key = Some v \<and> d (number_float v) = Some t' \<longrightarrow> IsZero t') \<longrightarrow> t = e_now E)"
    unfolding Let_def record_val_def by blast
qed (simp add: fluent_Encode_def)

text \<open>A line whose time is decoded, with a negative number inside an array.\<close>

definition nested_line :: "(bytes \<times> jany) list" where
  "nested_line =
     [(str ''xs'', JArr [JNumber (45 # decimal 9223372036854775808), JNumber (decimal 18446744073709551615)]),
      (str ''at'', JStr (str ''noon''))]"

definition noon_codec :: TimeCodec where
  "noon_codec = \<lparr>Key = str ''at'', ZapEncoder = Some (\<lambda>_. [ZString (str ''noon'')]), Decode = Some (\<lambda>v.
     if v = TOther (JStr (str ''noon'')) then Some \<lparr>unixSec = 43200, nsec = 0\<rparr> else None)\<rparr>"

definition noon_env :: transcode_env where
  "noon_env = sample_env\<lparr>e_unmarshal := \<lambda>r. Inr nested_line\<rparr>"

theorem transcode_meaning_witness:
  "\<exists>x. fluent_Encode long_form noon_env (NewEncoderWithCodec sample_times noon_codec) [7] [1] = Some (Inr (7 # x)) \<and>
     reads x (MArr [MExt 0 (MarshalBinaryTo \<lparr>unixSec = 43200, nsec = 0\<rparr>),
       MMap [(MStr (str ''xs''), MArr [MInt (- 9223372036854775808), MInt 18446744073709551615])]])"
proof -
  have lib: "fluent_lib long_form noon_env"
    by unfold_locales (auto simp: noon_env_def sample_env_def intro!: fixext8_reads)
  have u: "e_unmarshal noon_env [1] = Inr nested_line \<and> fits_msgpack (JObj nested_line)"
    by (simp add: noon_env_def nested_line_def str_def)
  let ?e = "NewEncoderWithCodec sample_times noon_codec"
  have c: "codec ?e = noon_codec" by (simp add: NewEncoderWithCodec_def valid_def noon_codec_def str_def)
  have k: "Key noon_codec = str ''at''" by (simp add: noon_codec_def)
  have m: "map_of nested_line (str ''at'') = Some (JStr (str ''noon''))" by (simp add: nested_line_def str_def)
  have v: "json_val (e_float noon_env) (JObj (without (str ''at'') nested_line)) =
      MMap [(MStr (str ''xs''), MArr [MInt (- 9223372036854775808), MInt 18446744073709551615])]"
    using integer_exact(1) [of 18446744073709551615 "e_float noon_env"] integer_exact(2) [of 9223372036854775808 "e_float noon_env"]
    by (simp add: without_def nested_line_def str_def)
  note p = transcode_meaning [OF lib, THEN conjunct1, THEN spec, THEN mp, OF u, of sample_times noon_codec, unfolded Let_def c k]
  from p m obtain x t d where x: "\<And>dst. fluent_Encode long_form noon_env ?e dst [1] = Some (Inr (dst @ x))"
    "reads x (MArr [MExt extensionType (MarshalBinaryTo t), json_val (e_float noon_env) (JObj (without (str ''at'') nested_line))])"
    "Decode noon_codec = Some d"
    "\<And>t'. d (number_float (JStr (str ''noon''))) = Some t' \<Longrightarrow> \<not> IsZero t' \<Longrightarrow> t = t'"
    by blast
  have "t = \<lparr>unixSec = 43200, nsec = 0\<rparr>"
    using x(3) by (intro x(4)) (auto simp: noon_codec_def number_float_def IsZero_def zeroTime_def)
  with x(1,2) v show ?thesis by (auto simp: extensionType_def)
qed

text \<open>C32: the time of a log line reaches the receiver. With the default codec, a line whose time field is
  any JSON number that stands for an instant of the years 2001 to 2105, in seconds, milliseconds,
  microseconds or nanoseconds, becomes an entry whose EventTime, decoded by the receiver, is within
  1024 nanoseconds of it; the other fields follow unchanged.\<close>

theorem transcode_time_end_to_end:
  assumes "fluent_lib M E" and "e_unmarshal E record = Inr rec" and "fits_msgpack (JObj rec)"
    and "map_of rec (str ''ts'') = Some (JNumber s)" and "number_value s = Some x" and "log_time u x"
    and "x * unit_ns u < 4291747200 * 10 ^ 9"
  shows "\<exists>out p t. fluent_Encode M E (fluent_NewEncoder te) dst record = Some (Inr (dst @ out)) \<and>
    reads out (MArr [MExt extensionType p, record_val (e_float E) (without (str ''ts'') rec)]) \<and>
    UnmarshalBinary p = Inr t \<and> \<bar>of_int (instant t) - x * unit_ns u\<bar> < 1024"
proof -
  let ?c = "codec (fluent_NewEncoder te)" and ?t = "epochToTime (out_of_range te) (fround x)"
  have c: "Key ?c = str ''ts''" "Decode ?c = Some (on_float (epochToTime (out_of_range te)))"
    by (simp_all add: fluent_NewEncoder_def defaultTimeCodec_def AutoEpochCodec_def)
  have near: "\<bar>of_int (instant ?t) - x * unit_ns u\<bar> < 1024" by (rule epoch_near [OF assms(6)])
  have n: "0 \<le> nsec ?t" "nsec ?t < 1000000000" using epochToTime_nsec by blast+
  have "(of_int 0 :: rat) < of_int (instant ?t)" "(of_int (instant ?t) :: rat) < of_int (4294967296 * 1000000000)"
    using near assms(6,7) unfolding abs_less_iff log_time_def by simp_all
  then have i: "0 < instant ?t" "instant ?t < 4294967296 * 1000000000" by (simp_all only: of_int_less_iff)
  then have sec: "0 \<le> unixSec ?t" "unixSec ?t < 2 ^ 32" using n by (simp_all add: instant_def)
  have "extractTime (e_now E) ?c rec = Some (?t, without (str ''ts'') rec)"
    using assms(4) sec log_time_float [OF assms(5,6)]
    by (simp add: extractTime_def c number_float_def on_float_def IsZero_def without_def)
  then obtain out where out: "fluent_Encode M E (fluent_NewEncoder te) dst record = Some (Inr (dst @ out))"
    "reads out (MArr [MExt extensionType (MarshalBinaryTo ?t), record_val (e_float E) (without (str ''ts'') rec)])"
    using fluent_lib.fluent_Encode_reads [OF assms(1-3)] by blast
  have "UnmarshalBinary (MarshalBinaryTo ?t) = Inr ?t"
    using eventtime_roundtrip [OF n] sec by simp
  with out near show ?thesis by blast
qed

theorem transcode_time_end_to_end_witness:
  "\<exists>out p t. fluent_Encode long_form sample_env (fluent_NewEncoder (e_time sample_env)) [] [1] = Some (Inr out) \<and>
    reads out (MArr [MExt 0 p, record_val (\<lambda>_. 0) (without (str ''ts'') sample_line)]) \<and>
    UnmarshalBinary p = Inr t \<and> \<bar>of_int (instant t) - (1700000000500000000 :: rat)\<bar> < 1024"
proof -
  have u: "e_unmarshal sample_env [1] = Inr sample_line" "fits_msgpack (JObj sample_line)"
    by (simp_all add: sample_env_def sample_line_def str_def)
  have m: "map_of sample_line (str ''ts'') = Some (JNumber (str ''1700000000.5''))" by (simp add: sample_line_def str_def)
  have v: "number_value (str ''1700000000.5'') = Some (17000000005 / 10)"
    by (simp add: number_value_def str_def is_digit_def undecimal_def exponent_of_def Let_def)
  have l: "log_time Seconds (17000000005 / 10)" "17000000005 / 10 * unit_ns Seconds < 4291747200 * 10 ^ 9"
    by (simp_all add: log_time_def unit_ns_def)
  from transcode_time_end_to_end [OF sample_lib u m v l, of "e_time sample_env" "[]"] show ?thesis
    by (simp add: unit_ns_def extensionType_def) (simp add: sample_env_def)
qed

end
