(* ===== verification/Presets.thy ===== *)
theory Presets
  imports Root_Writer Ndjson Syslog Fluent_Transcode
begin

text \<open>
  The constructors that put the parts together: \<^verbatim>\<open>core.go\<close>, and \<^verbatim>\<open>NewWriter\<close>, \<^verbatim>\<open>NewCore\<close> and
  their kin of \<^verbatim>\<open>ndjson/ndjson.go\<close>, \<^verbatim>\<open>syslog/syslog.go\<close>, \<^verbatim>\<open>fluent/fluent.go\<close> and
  \<^verbatim>\<open>fluent/native.go\<close>, with the fluent options. A constructed writer is then run: what a receiver of
  the format reads from the connection after some records were written and the writer was closed.
\<close>

section \<open>The zap core\<close>

text \<open>\<^verbatim>\<open>zapcore.NewCore\<close> keeps its three arguments; the write syncer is the constructed writer.\<close>

record ('e, 'w) zap_core =
  zc_enc :: 'e
  zc_out :: 'w
  zc_level :: "level \<Rightarrow> bool"

definition root_NewCore :: "'e \<Rightarrow> 'w \<Rightarrow> (level \<Rightarrow> bool) \<Rightarrow> ('e, 'w) zap_core" where
  "root_NewCore enc ws level = \<lparr>zc_enc = enc, zc_out = ws, zc_level = level\<rparr>"

section \<open>ndjson\<close>

definition ndjson_NewWriter :: "transport option \<Rightarrow> Root_Options.Option list \<Rightarrow> (go_error, conn) result \<Rightarrow>
    (new_error, writer) result" where
  "ndjson_NewWriter t opts dialed = New t (Some ndjson_Encode) (Some ndjson_Frame) opts dialed"

definition ndjson_NewCore :: "('c \<Rightarrow> 'e) \<Rightarrow> transport option \<Rightarrow> (level \<Rightarrow> bool) \<Rightarrow> 'c \<Rightarrow> Root_Options.Option list \<Rightarrow>
    (go_error, conn) result \<Rightarrow> (new_error, ('e, writer) zap_core \<times> writer) result" where
  "ndjson_NewCore NewJSONEncoder t level encCfg opts dialed =
     (case ndjson_NewWriter t opts dialed of
        Inl err \<Rightarrow> Inl err
      | Inr w \<Rightarrow> Inr (root_NewCore (NewJSONEncoder encCfg) w level, w))"

section \<open>syslog\<close>

definition syslog_buildWriter :: "transport option \<Rightarrow> syslog_options \<Rightarrow> (go_error, conn) result \<Rightarrow>
    (new_error, writer) result" where
  "syslog_buildWriter t o1 dialed =
     New t (Some passthrough_Encode) (Some (syslog_Frame (syslog_NewFramer (o_framing o1)))) (o_wireOpts o1) dialed"

definition syslog_NewWriter :: "osenv \<Rightarrow> transport option \<Rightarrow> syslog_option list \<Rightarrow> (go_error, conn) result \<Rightarrow>
    (new_error, writer) result" where
  "syslog_NewWriter os t opts dialed = syslog_buildWriter t (syslog_apply os opts) dialed"

definition syslog_NewCore :: "('c syslog_config \<Rightarrow> entry \<Rightarrow> 'f list \<Rightarrow> (go_error, bytes) result) \<Rightarrow> osenv \<Rightarrow> transport option \<Rightarrow>
    (level \<Rightarrow> bool) \<Rightarrow> 'c syslog_config \<Rightarrow> syslog_option list \<Rightarrow> (go_error, conn) result \<Rightarrow>
    (new_error, ('f syslog_encoder, writer) zap_core \<times> writer) result" where
  "syslog_NewCore NewJSONEncoder os t level encCfg opts dialed =
     (case syslog_buildWriter t (syslog_apply os opts) dialed of
        Inl err \<Rightarrow> Inl err
      | Inr w \<Rightarrow> Inr (root_NewCore (NewEncoder NewJSONEncoder os encCfg opts) w level, w))"

section \<open>fluent\<close>

definition defaultTag :: bytes where "defaultTag = str ''app.logs''"

record fluent_options =
  fo_tag :: bytes
  fo_codec :: TimeCodec
  fo_codecSet :: bool
  fo_keyOverride :: bytes
  fo_wireOpts :: "Root_Options.Option list"

definition fluent_zero_options :: fluent_options where
  "fluent_zero_options =
     \<lparr>fo_tag = defaultTag, fo_codec = \<lparr>Key = [], ZapEncoder = None, Decode = None\<rparr>, fo_codecSet = False,
      fo_keyOverride = [], fo_wireOpts = []\<rparr>"

definition resolveCodec :: "time_env \<Rightarrow> fluent_options \<Rightarrow> TimeCodec" where
  "resolveCodec te o1 =
     (let c = fo_codec o1;
          c1 = (if \<not> fo_codecSet o1 \<or> \<not> valid c then defaultTimeCodec te else c)
      in if fo_keyOverride o1 \<noteq> [] then c1\<lparr>Key := fo_keyOverride o1\<rparr> else c1)"

type_synonym fluent_option = "fluent_options \<Rightarrow> fluent_options"

definition WithTag :: "bytes \<Rightarrow> fluent_option" where
  "WithTag t o1 = o1\<lparr>fo_tag := t\<rparr>"
definition WithTimeCodec :: "TimeCodec \<Rightarrow> fluent_option" where
  "WithTimeCodec c o1 = o1\<lparr>fo_codec := c, fo_codecSet := True\<rparr>"
definition WithTimeKey :: "bytes \<Rightarrow> fluent_option" where
  "WithTimeKey key o1 = o1\<lparr>fo_keyOverride := key\<rparr>"
definition fluent_WithZapwireOptions :: "Root_Options.Option list \<Rightarrow> fluent_option" where
  "fluent_WithZapwireOptions opts o1 = o1\<lparr>fo_wireOpts := fo_wireOpts o1 @ opts\<rparr>"

text \<open>
  The transcode encoder as an \<^verbatim>\<open>Encoder\<close> of the writer; that the encoders given to it never panic
  is a lemma below.
\<close>

definition transcoder :: "msgp \<Rightarrow> transcode_env \<Rightarrow> fluent_encoder \<Rightarrow> encode_fn" where
  "transcoder M E e dst record = the (fluent_Encode M E e dst record)"

definition fluent_buildWriter :: "msgp \<Rightarrow> transport option \<Rightarrow> fluent_options \<Rightarrow> encode_fn \<Rightarrow> (go_error, conn) result \<Rightarrow>
    (new_error, writer) result" where
  "fluent_buildWriter M t o1 enc dialed =
     (let o2 = (if fo_tag o1 = [] then o1\<lparr>fo_tag := defaultTag\<rparr> else o1)
      in New t (Some enc) (Some (fluent_Frame M (fluent_NewFramer (fo_tag o2)))) (fo_wireOpts o2) dialed)"

definition fluent_apply :: "fluent_option list \<Rightarrow> fluent_options" where
  "fluent_apply opts = foldl (\<lambda>o1 opt. opt o1) fluent_zero_options opts"

definition fluent_NewWriter :: "msgp \<Rightarrow> transcode_env \<Rightarrow> transport option \<Rightarrow> fluent_option list \<Rightarrow> (go_error, conn) result \<Rightarrow>
    (new_error, writer) result" where
  "fluent_NewWriter M E t opts dialed =
     (let o1 = fluent_apply opts in
      fluent_buildWriter M t o1 (transcoder M E (NewEncoderWithCodec (e_time E) (resolveCodec (e_time E) o1))) dialed)"

definition fluent_NewCore :: "('c EncoderConfig \<Rightarrow> 'e) \<Rightarrow> msgp \<Rightarrow> transcode_env \<Rightarrow> transport option \<Rightarrow> (level \<Rightarrow> bool) \<Rightarrow>
    'c EncoderConfig \<Rightarrow> fluent_option list \<Rightarrow> (go_error, conn) result \<Rightarrow>
    (new_error, ('e, writer) zap_core \<times> writer) result" where
  "fluent_NewCore NewJSONEncoder M E t level encCfg0 opts dialed =
     (let o1 = fluent_apply opts;
          encCfg = ApplyTo (resolveCodec (e_time E) o1) encCfg0
      in case fluent_buildWriter M t o1
             (transcoder M E (NewEncoderWithCodec (e_time E) (resolveCodec (e_time E) o1))) dialed of
           Inl err \<Rightarrow> Inl err
         | Inr w \<Rightarrow> Inr (root_NewCore (NewJSONEncoder encCfg) w level, w))"

definition NewMsgpackEncoder :: "f_config \<Rightarrow> msgpackEncoder" where
  "NewMsgpackEncoder g = newMsgpackEncoder g"

definition NewNativeWriter :: "msgp \<Rightarrow> transport option \<Rightarrow> fluent_option list \<Rightarrow> (go_error, conn) result \<Rightarrow>
    (new_error, writer) result" where
  "NewNativeWriter M t opts dialed = (let o1 = fluent_apply opts in fluent_buildWriter M t o1 passthrough_Encode dialed)"

definition NewNativeCore :: "msgp \<Rightarrow> transport option \<Rightarrow> (level \<Rightarrow> bool) \<Rightarrow> f_config \<Rightarrow> fluent_option list \<Rightarrow>
    (go_error, conn) result \<Rightarrow> (new_error, (msgpackEncoder, writer) zap_core \<times> writer) result" where
  "NewNativeCore M t level encCfg opts dialed =
     (let o1 = fluent_apply opts in
      case fluent_buildWriter M t o1 passthrough_Encode dialed of
        Inl err \<Rightarrow> Inl err
      | Inr w \<Rightarrow> Inr (root_NewCore (NewMsgpackEncoder encCfg) w level, w))"

section \<open>Writing and closing\<close>

definition write_all :: "bytes list \<Rightarrow> writer \<Rightarrow> writer" where
  "write_all rs w = foldl (\<lambda>w r. snd (Write WriteOk r w)) w rs"

definition closed_after :: "bytes list \<Rightarrow> writer \<Rightarrow> writer" where
  "closed_after rs w = snd (Close (\<lambda>_. WriteOk) None [] (write_all rs w))"

definition chunk_bytes :: "chunk \<Rightarrow> bytes" where
  "chunk_bytes ch = (case ch of Whole f _ \<Rightarrow> f | Partial f \<Rightarrow> f)"

text \<open>What the peer of a connection has received.\<close>

definition received :: "conn \<Rightarrow> writer \<Rightarrow> bytes" where
  "received c w = concat (map (\<lambda>(c', ch). if c' = c then chunk_bytes ch else []) (w_wire w))"

definition room_for :: "nat \<Rightarrow> writer \<Rightarrow> bool" where
  "room_for n w \<longleftrightarrow> (case mode (w_cfg w) of ModeSync \<Rightarrow> True | ModeAsync \<Rightarrow> length (buf (w_queue w)) + n \<le> cap (w_queue w))"

lemma write_all_sync:
  assumes "mode (w_cfg w) = ModeSync" and "\<not> w_closed w" and "w_conn w = Some c"
    and "w_enc w = enc" and "w_framer w = framer"
    and "list_all2 (\<lambda>r p. enc [] r = Inr p) rs ps" and "list_all2 (\<lambda>p f. framer [] [p] = Inr f) ps fs"
  shows "write_all rs w = w\<lparr>w_wire := w_wire w @ map (\<lambda>f. (c, Whole f 1)) fs\<rparr>"
  using assms(6,7,1-5)
proof (induction rs ps arbitrary: w fs rule: list_all2_induct)
  case Nil
  then show ?case by (simp add: write_all_def)
next
  case (Cons r rs p ps)
  from Cons.prems(1) obtain f fs' where fs: "fs = f # fs'" "framer [] [p] = Inr f"
    "list_all2 (\<lambda>p f. framer [] [p] = Inr f) ps fs'" by (auto simp: list_all2_Cons1)
  let ?w = "w\<lparr>w_wire := w_wire w @ [(c, Whole f 1)]\<rparr>"
  have "snd (Write WriteOk r w) = ?w"
    using Cons.prems Cons.hyps(1) fs by (simp add: Write_def writeSync_def writeFrame_ok)
  moreover have "write_all rs ?w = ?w\<lparr>w_wire := w_wire ?w @ map (\<lambda>f. (c, Whole f 1)) fs'\<rparr>"
    by (rule Cons.IH) (use Cons.prems fs in simp_all)
  ultimately show ?case by (simp add: write_all_def fs)
qed

lemma write_all_async:
  assumes "mode (w_cfg w) = ModeAsync" and "\<not> w_closed w"
    and "w_enc w = enc" and "list_all2 (\<lambda>r p. enc [] r = Inr p) rs ps" and "length (buf (w_queue w)) + length rs \<le> cap (w_queue w)"
  shows "write_all rs w = w\<lparr>w_queue := (w_queue w)\<lparr>buf := buf (w_queue w) @ ps\<rparr>\<rparr>"
  using assms(4,1-3,5)
proof (induction rs ps arbitrary: w rule: list_all2_induct)
  case Nil
  then show ?case by (simp add: write_all_def)
next
  case (Cons r rs p ps)
  let ?w = "w\<lparr>w_queue := (w_queue w)\<lparr>buf := buf (w_queue w) @ [p]\<rparr>\<rparr>"
  have "snd (Write WriteOk r w) = ?w"
    using Cons.prems Cons.hyps(1) by (simp add: Write_def writeAsync_def enqueue_def try_send_def)
  moreover have "write_all rs ?w = ?w\<lparr>w_queue := (w_queue ?w)\<lparr>buf := buf (w_queue ?w) @ ps\<rparr>\<rparr>"
    by (rule Cons.IH) (use Cons.prems in simp_all)
  ultimately show ?case by (simp add: write_all_def)
qed

text \<open>
  Written and closed, the writer has sent the payloads in order, cut into non-empty batches, one
  whole frame per batch, and counted nothing as dropped.
\<close>

definition sent_as :: "frame_fn \<Rightarrow> bytes list \<Rightarrow> bytes list list \<Rightarrow> bytes list \<Rightarrow> bool" where
  "sent_as framer ps bs fs \<longleftrightarrow>
     concat bs = ps \<and> (\<forall>b\<in>set bs. b \<noteq> []) \<and> list_all2 (\<lambda>b f. framer [] b = Inr f) bs fs"

lemma received_frames:
  assumes "length bs = length fs" and "w_wire w = map2 (\<lambda>b f. (c, Whole f (length b))) bs fs"
  shows "received c w = concat fs"
proof -
  have "concat (map (\<lambda>(c', ch). if c' = c then chunk_bytes ch else []) (map2 (\<lambda>b f. (c, Whole f (length b))) bs fs)) = concat fs"
    using assms(1) by (induction bs fs rule: list_induct2) (simp_all add: chunk_bytes_def)
  then show ?thesis by (simp only: received_def assms(2))
qed

lemma single_batches:
  "length ps = length fs \<Longrightarrow>
   map2 (\<lambda>b f. (c, Whole f (length b))) (map (\<lambda>p. [p]) ps) fs = map (\<lambda>f. (c, Whole f 1)) fs"
  by (induction ps fs rule: list_induct2) simp_all

lemma Close_sync:
  assumes "mode (w_cfg w) = ModeSync" and "\<not> w_closed w"
  shows "w_wire (snd (Close ios e [] w)) = w_wire w \<and> w_dropped (snd (Close ios e [] w)) = w_dropped w"
  using assms by (simp add: Close_def Let_def close_conn_def split: option.split)

lemma Close_async:
  assumes "mode (w_cfg w) = ModeAsync" and "\<not> w_closed w"
  shows "w_wire (snd (Close ios e [] w)) = w_wire (flushAll ios 0 [] (w\<lparr>w_closed := True, w_cancelled := True, w_done := True\<rparr>)) \<and>
    w_dropped (snd (Close ios e [] w)) = w_dropped (flushAll ios 0 [] (w\<lparr>w_closed := True, w_cancelled := True, w_done := True\<rparr>))"
  using assms by (auto simp: Close_def flushLoop_turn_def Let_def close_conn_def split: option.split)

lemma closed_after_sends:
  assumes wf: "writer_wf w" and c: "w_conn w = Some c" and op: "\<not> w_closed w" and q: "buf (w_queue w) = []"
    and wire: "w_wire w = []" and enc: "list_all2 (\<lambda>r p. w_enc w [] r = Inr p) rs ps" and room: "room_for (length rs) w"
    and framer: "\<And>bs b. concat bs = ps \<Longrightarrow> b \<in> set bs \<Longrightarrow> \<exists>f. w_framer w [] b = Inr f"
  shows "\<exists>bs fs. sent_as (w_framer w) ps bs fs \<and> received c (closed_after rs w) = concat fs \<and>
    w_dropped (closed_after rs w) = w_dropped w"
proof (cases "mode (w_cfg w)")
  case ModeSync
  have "\<forall>p\<in>set ps. \<exists>f. w_framer w [] [p] = Inr f" using framer [of "map (\<lambda>p. [p]) ps"] by auto
  then obtain g where "\<forall>p\<in>set ps. w_framer w [] [p] = Inr (g p)" using bchoice by meson
  then obtain fs where fs: "list_all2 (\<lambda>p f. w_framer w [] [p] = Inr f) ps fs"
    using that [of "map g ps"] by (simp add: list_all2_map2 list_all2_same)
  let ?w = "write_all rs w"
  have w: "?w = w\<lparr>w_wire := map (\<lambda>f. (c, Whole f 1)) fs\<rparr>"
    using write_all_sync [OF ModeSync op c refl refl enc fs] wire by simp
  have "w_wire (closed_after rs w) = map2 (\<lambda>b f. (c, Whole f (length b))) (map (\<lambda>p. [p]) ps) fs"
    using Close_sync [of ?w] ModeSync op single_batches [OF list_all2_lengthD [OF fs], of c]
    by (simp add: closed_after_def w del: map_map)
  moreover have "length (map (\<lambda>p. [p]) ps) = length fs" using list_all2_lengthD [OF fs] by simp
  moreover have "sent_as (w_framer w) ps (map (\<lambda>p. [p]) ps) fs"
    using fs by (simp add: sent_as_def list_all2_map1)
  moreover have "w_dropped (closed_after rs w) = w_dropped w"
    using Close_sync [of ?w] ModeSync op by (simp add: closed_after_def w)
  ultimately show ?thesis using received_frames by blast
next
  case ModeAsync
  let ?w = "w\<lparr>w_queue := (w_queue w)\<lparr>buf := ps\<rparr>\<rparr>"
  let ?v = "?w\<lparr>w_closed := True, w_cancelled := True, w_done := True\<rparr>"
  have w: "write_all rs w = ?w"
    using write_all_async [OF ModeAsync op refl enc] room q ModeAsync by (simp add: room_for_def)
  have pos: "0 < batchSize (w_cfg ?v)" using writer_wf_async(3) [OF wf ModeAsync] by simp
  let ?bs = "cut (batch_limit ?v) ps"
  have b: "concat ?bs = ps" "\<And>b. b \<in> set ?bs \<Longrightarrow> b \<noteq> []"
    using pos by (auto simp: concat_cut dest: cut_sizes)
  obtain fs where fs: "list_all2 (\<lambda>b f. w_framer ?v [] b = Inr f) ?bs fs"
    "w_wire (flush_batches (\<lambda>_. WriteOk) 0 ?bs ?v) = w_wire ?v @ map2 (\<lambda>b f. (c, Whole f (length b))) ?bs fs"
    "w_dropped (flush_batches (\<lambda>_. WriteOk) 0 ?bs ?v) = w_dropped ?v"
    using flush_batches_ok [of ?v c ?bs "\<lambda>_. WriteOk" 0] c b framer by auto
  have a: "flushAll (\<lambda>_. WriteOk) 0 [] ?v = (flush_batches (\<lambda>_. WriteOk) 0 ?bs ?v)\<lparr>w_queue := (w_queue ?v)\<lparr>buf := []\<rparr>\<rparr>"
    using flushAll_eq [of ?v "[]" "\<lambda>_. WriteOk" 0] pos by simp
  have "w_wire (closed_after rs w) = map2 (\<lambda>b f. (c, Whole f (length b))) ?bs fs" "w_dropped (closed_after rs w) = w_dropped w"
    using Close_async [of ?w "\<lambda>_. WriteOk" None] ModeAsync op a fs(2,3) wire by (simp_all add: closed_after_def w)
  moreover have "sent_as (w_framer w) ps ?bs fs" using fs(1) b by (auto simp: sent_as_def)
  ultimately show ?thesis using received_frames list_all2_lengthD [OF fs(1)] by blast
qed

text \<open>A writer a constructor has just returned, connected.\<close>

lemma New_fresh:
  assumes "New (Some t) (Some enc) (Some framer) opts (Inr c) = Inr w"
  shows "writer_wf w" "w_conn w = Some c" "\<not> w_closed w" "buf (w_queue w) = []" "w_wire w = []" "w_dropped w = 0"
    "w_enc w = enc" "w_framer w = framer" "w_cfg w = applyOptions opts"
  using New_wf [OF assms] assms by (auto simp: New_def Let_def)

lemma fresh_sends:
  assumes "New (Some t) (Some enc) (Some framer) opts (Inr c) = Inr w"
    and "list_all2 (\<lambda>r p. enc [] r = Inr p) rs ps" and "room_for (length rs) w"
    and "\<And>bs b. concat bs = ps \<Longrightarrow> b \<in> set bs \<Longrightarrow> \<exists>f. framer [] b = Inr f"
  shows "\<exists>bs fs. sent_as framer ps bs fs \<and> received c (closed_after rs w) = concat fs \<and> w_dropped (closed_after rs w) = 0"
proof -
  note n = New_fresh [OF assms(1)]
  show ?thesis using closed_after_sends [OF n(1-5) _ assms(3), of ps] assms(2,4) n(6-8) by simp
qed

lemma room_fresh:
  assumes "New (Some t) (Some enc) (Some framer) opts (Inr c) = Inr w" and "int n \<le> bufferSize (applyOptions opts)"
  shows "room_for n w"
  using New_fresh [OF assms(1)] assms(2) by (auto simp: room_for_def writer_wf_def split: Mode.split)

text \<open>For a stream framer the receiver gets the payloads back.\<close>

context stream_framer
begin

lemma received_stream:
  assumes "sent_as Frame ps bs fs" and "\<forall>p\<in>set ps. ok p"
  shows "parse (concat fs) = Some ps"
  using assms stream_roundtrip [of bs fs] by (auto simp: sent_as_def)

end

text \<open>The receiver of a stream of Forward messages.\<close>

function read_stream :: "bytes \<Rightarrow> (bytes \<times> bytes list \<times> int) list option" where
  "read_stream b =
     (if b = [] then Some []
      else case read_forward b of
        None \<Rightarrow> None
      | Some (m, r) \<Rightarrow> if length r < length b then map_option (\<lambda>ms. m # ms) (read_stream r) else None)"
  by pat_completeness auto
termination
  by (relation "measure length") auto

declare read_stream.simps [simp del]

context msgp_laws
begin

lemma forward_stream:
  assumes "length (tag f) < 2 ^ 32" and "list_all2 (\<lambda>b fr. fluent_Frame M f [] b = Inr fr) bs fs"
    and "\<forall>b\<in>set bs. (\<forall>p\<in>set b. \<exists>v. reads p v) \<and> length (concat b) < 2 ^ 32"
  shows "read_stream (concat fs) = Some (map (\<lambda>b. (tag f, b, int (length b))) bs)"
  using assms(2,3)
proof (induction bs fs rule: list_all2_induct)
  case Nil
  then show ?case by (simp add: read_stream.simps)
next
  case (Cons b bs fr fs)
  then have "fr \<noteq> []" "read_forward (fr @ concat fs) = Some ((tag f, b, int (length b)), concat fs)"
    using forward_frame [OF assms(1), of b] by auto
  with Cons show ?case by (subst read_stream.simps) simp
qed

end

text \<open>An encoder made by a constructor never panics.\<close>

lemma transcoder_no_panic: "fluent_Encode M E (NewEncoderWithCodec te c) dst r = Some (transcoder M E (NewEncoderWithCodec te c) dst r)"
proof -
  have "Decode (codec (NewEncoderWithCodec te c)) \<noteq> None" using constructed_codec [of te c] by (simp add: valid_def)
  then have x: "\<exists>t rec'. extractTime (e_now E) (codec (NewEncoderWithCodec te c)) rec = Some (t, rec')" for rec
    using extractTime_some by blast
  have "fluent_Encode M E (NewEncoderWithCodec te c) dst r \<noteq> None"
  proof (cases "e_unmarshal E r")
    case (Inr rec)
    then show ?thesis using x [of rec] by (auto simp: fluent_Encode_def)
  qed (simp add: fluent_Encode_def)
  then show ?thesis by (auto simp: transcoder_def)
qed

lemma resolveCodec_valid: "valid (resolveCodec te o1)"
  by (auto simp: resolveCodec_def valid_def defaultTimeCodec_def AutoEpochCodec_def Let_def str_def)

section \<open>Properties\<close>

text \<open>Newline-delimited JSON, end to end. After any records have been written to a connected writer
  of the preset, in either mode and within the queue's capacity, and the writer has been closed, the
  peer of the connection reads exactly these records, one per line and in order, without their
  trailing newlines, and nothing was counted as dropped.\<close>

theorem ndjson_end_to_end:
  assumes "ndjson_NewWriter (Some t) opts (Inr c) = Inr w" and "int (length rs) \<le> bufferSize (applyOptions opts)"
    and "\<forall>r\<in>set rs. LF \<notin> set (trim_right_lf r)"
  shows "parse_lines (received c (closed_after rs w)) = Some (map trim_right_lf rs) \<and>
    DroppedLogs (closed_after rs w) = 0"
proof -
  note n = assms(1) [unfolded ndjson_NewWriter_def]
  have "\<exists>f. ndjson_Frame [] b = Inr f" for b by (simp add: ndjson_Frame_def)
  then obtain bs fs where "sent_as ndjson_Frame (map trim_right_lf rs) bs fs" "received c (closed_after rs w) = concat fs"
    "w_dropped (closed_after rs w) = 0"
    using fresh_sends [OF n, of rs "map trim_right_lf rs"] room_fresh [OF n assms(2)]
    by (auto simp: list_all2_map2 list_all2_same ndjson_Encode_def)
  then show ?thesis using ndjson.received_stream assms(3) by (simp add: DroppedLogs_def)
qed

theorem ndjson_end_to_end_witness:
  "\<exists>w. ndjson_NewWriter (Some (TCP [])) [WithAsyncMode] (Inr 0) = Inr w \<and>
     parse_lines (received 0 (closed_after [[123, 125, 10], [91, 93]] w)) = Some [[123, 125], [91, 93]]"
proof -
  obtain w where w: "ndjson_NewWriter (Some (TCP [])) [WithAsyncMode] (Inr 0) = Inr w"
    by (simp add: ndjson_NewWriter_def New_def Let_def)
  have "int (length [[123, 125, 10], [91, 93 :: byte]]) \<le> bufferSize (applyOptions [WithAsyncMode])"
    by (simp add: applyOptions_def normalizeConfig_fields WithAsyncMode_def defaultConfig_def defaultBufferSize_def maxBufferSize_def)
  from ndjson_end_to_end [OF w this] w show ?thesis by (simp add: trim_right_lf_def)
qed


text \<open>A JSON encoder that ends a line unless told not to, and a configuration that does not tell it.\<close>

definition echo_json :: "unit syslog_config \<Rightarrow> entry \<Rightarrow> unit list \<Rightarrow> (go_error, bytes) result" where
  "echo_json cfg ent fs = Inr (ent_Message ent @ (if SkipLineEnding cfg then [] else [10]))"

definition line_config :: "unit syslog_config" where
  "line_config = \<lparr>SkipLineEnding = False, config_rest = ()\<rparr>"

definition hello :: entry where
  "hello = \<lparr>ent_Level = InfoLevel, ent_Time = \<lparr>unixSec = 1, nsec = 2\<rparr>, ent_LoggerName = [], ent_Message = str ''hi'',
     ent_Caller = \<lparr>Defined = False, File = [], Line = 0, Function = []\<rparr>, ent_Stack = []\<rparr>"


text \<open>C30: both ends of the time contract. Whatever the options, the core of the transcoding preset writes
  the time field with the key and the encoder of the very codec, valid and independent of the order
  of the options, with which its writer reads it back, and an empty tag becomes the default.\<close>

theorem fluent_core_time_contract:
  assumes "fluent_NewCore json M E t level cfg opts d = Inr (core, w)"
  shows "\<exists>c tg. c = resolveCodec (e_time E) (fluent_apply opts) \<and> valid c \<and>
    zc_enc core = json (cfg\<lparr>TimeKey := Key c, cfg_EncodeTime := ZapEncoder c\<rparr>) \<and>
    (\<forall>dst r. fluent_Encode M E \<lparr>codec = c\<rparr> dst r = Some (w_enc w dst r)) \<and>
    w_framer w = fluent_Frame M (fluent_NewFramer tg) \<and> tg \<noteq> [] \<and>
    (fo_tag (fluent_apply opts) \<noteq> [] \<longrightarrow> tg = fo_tag (fluent_apply opts)) \<and>
    (\<forall>te k c' o1. resolveCodec te (WithTimeKey k (WithTimeCodec c' o1)) = resolveCodec te (WithTimeCodec c' (WithTimeKey k o1)))"
proof -
  let ?c = "resolveCodec (e_time E) (fluent_apply opts)"
  have v: "valid ?c" by (rule resolveCodec_valid)
  then have e: "NewEncoderWithCodec (e_time E) ?c = \<lparr>codec = ?c\<rparr>" by (simp add: NewEncoderWithCodec_def)
  from assms have "w_enc w = transcoder M E \<lparr>codec = ?c\<rparr>"
    "zc_enc core = json (cfg\<lparr>TimeKey := Key ?c, cfg_EncodeTime := ZapEncoder ?c\<rparr>)"
    "w_framer w = fluent_Frame M (fluent_NewFramer (if fo_tag (fluent_apply opts) = [] then defaultTag else fo_tag (fluent_apply opts)))"
    by (auto simp: fluent_NewCore_def fluent_buildWriter_def New_def root_NewCore_def ApplyTo_def e Let_def reportErr_def
        triggerReconnect_def split: option.splits sum.splits)
  moreover have "resolveCodec te (WithTimeKey k (WithTimeCodec c' o1)) = resolveCodec te (WithTimeCodec c' (WithTimeKey k o1))"
    for te k c' o1 by (simp add: resolveCodec_def WithTimeKey_def WithTimeCodec_def)
  ultimately show ?thesis using v transcoder_no_panic [of M E "e_time E" ?c]
    by (intro exI [of _ ?c] exI [of _ "if fo_tag (fluent_apply opts) = [] then defaultTag else fo_tag (fluent_apply opts)"])
      (auto simp: e defaultTag_def str_def)
qed

theorem fluent_core_time_contract_witness:
  "\<exists>w core. fluent_NewCore id long_form sample_env (Some (TCP [])) (\<lambda>_. True) \<lparr>TimeKey = str ''time'', cfg_EncodeTime = None, other_fields = ()\<rparr>
       [WithTimeKey (str ''t''), WithTag []] (Inr 1) = Inr (core, w) \<and> TimeKey (zc_enc core) = str ''t'' \<and> cfg_EncodeTime (zc_enc core) \<noteq> None"
proof -
  let ?cfg = "\<lparr>TimeKey = str ''time'', cfg_EncodeTime = None, other_fields = ()\<rparr>" and ?o = "[WithTimeKey (str ''t''), WithTag []]"
  obtain w core where w: "fluent_NewCore id long_form sample_env (Some (TCP [])) (\<lambda>_. True) ?cfg ?o (Inr 1) = Inr (core, w)"
    by (simp add: fluent_NewCore_def fluent_buildWriter_def New_def Let_def)
  have "Key (resolveCodec (e_time sample_env) (fluent_apply ?o)) = str ''t''"
    by (simp add: resolveCodec_def fluent_apply_def WithTimeKey_def WithTag_def str_def fluent_zero_options_def)
  with fluent_core_time_contract [OF w] w show ?thesis by (auto simp: valid_def)
qed



end
