(* ===== verification/Interleaving.thy ===== *)
theory Interleaving
  imports Zapwire_Prelude "HOL-Library.Sublist"
begin

text \<open>
  Goroutines as a transition system: \<open>act a s\<close> is the state after the atomic step
  \<open>a\<close>, none when that step is blocked in \<open>s\<close>. A schedule is a list of steps.
\<close>

fun run :: "('a \<Rightarrow> 's \<Rightarrow> 's option) \<Rightarrow> 'a list \<Rightarrow> 's \<Rightarrow> 's option" where
  "run act [] s = Some s"
| "run act (a # as) s = (case act a s of None \<Rightarrow> None | Some s' \<Rightarrow> run act as s')"

definition reaches :: "('a \<Rightarrow> 's \<Rightarrow> 's option) \<Rightarrow> 'a list \<Rightarrow> ('s \<Rightarrow> bool) \<Rightarrow> 's \<Rightarrow> bool" where
  "reaches act as P s = (case run act as s of None \<Rightarrow> False | Some s' \<Rightarrow> P s')"

inductive reachable :: "('a \<Rightarrow> 's \<Rightarrow> 's option) \<Rightarrow> 's \<Rightarrow> 's \<Rightarrow> bool" for act s0 where
  start: "reachable act s0 s0"
| step: "reachable act s0 s \<Longrightarrow> act a s = Some s' \<Longrightarrow> reachable act s0 s'"

lemma reaches_iff: "reaches act as P s \<longleftrightarrow> (\<exists>s'. run act as s = Some s' \<and> P s')"
  by (simp add: reaches_def split: option.split)

lemma run_reachable_from: "run act as s = Some s' \<Longrightarrow> reachable act s0 s \<Longrightarrow> reachable act s0 s'"
  by (induction "as" arbitrary: s) (auto split: option.splits intro: reachable.step)

lemma run_reachable: "run act as s = Some s' \<Longrightarrow> reachable act s s'"
  by (rule run_reachable_from [OF _ reachable.start])

text \<open>Facts about lists of program counters, and about queues as subsequences of what they accepted.\<close>

lemma sum_list_update:
  "i < length xs \<Longrightarrow> sum_list (map f (xs[i := x])) + f (xs ! i) = sum_list (map f xs) + (f x :: nat)"
  by (induction xs arbitrary: i) (auto split: nat.splits)

lemma subseq_evict: "subseq (a @ x # b) c \<Longrightarrow> subseq (a @ b) c"
proof (erule subseq_order.trans [rotated])
  show "subseq (a @ b) (a @ x # b)" by (induction a) auto
qed

lemma subseq_evict2: "subseq (a @ a' @ x # b) c \<Longrightarrow> subseq (a @ a' @ b) c"
  using subseq_evict [of "a @ a'" x b c] by (simp only: append_assoc)

lemma subseq_flushed: "subseq (a @ b) c \<Longrightarrow> subseq b c"
proof (erule subseq_order.trans [rotated])
  show "subseq b (a @ b)" by (induction a) auto
qed

lemma subseq_snoc: "subseq a c \<Longrightarrow> subseq (a @ [x]) (c @ [x])"
  by (auto intro: list_emb_append_mono)

lemma subseq_drop_le: "k \<le> n \<Longrightarrow> subseq (drop n xs) (drop k xs)"
proof -
  assume "k \<le> n"
  then have "drop n xs = drop (n - k) (drop k xs)" by simp
  then show ?thesis by (metis append_take_drop_id list_emb_append2 subseq_order.order_refl)
qed

lemma nth_update_any: "j < length xs \<Longrightarrow> xs[i := x] ! j = (if i = j then x else xs ! j)"
  by simp

text \<open>An invariant of every step holds in every reachable state.\<close>

locale step_invariant =
  fixes act :: "'a \<Rightarrow> 's \<Rightarrow> 's option"
    and I :: "'s \<Rightarrow> bool"
  assumes keeps: "I s \<Longrightarrow> act a s = Some s' \<Longrightarrow> I s'"
begin

lemma reachable_inv:
  assumes "reachable act s0 s" and "I s0"
  shows "I s"
  using assms
proof (induction rule: reachable.induct)
  case (step s a s')
  from keeps [OF step.IH [OF step.prems] step.hyps(2)] show ?case .
qed

lemma run_inv: "run act as s = Some s' \<Longrightarrow> I s \<Longrightarrow> I s'"
  by (rule reachable_inv [OF run_reachable])

end

end
