(* ===== verification/Root_Async.thy ===== *)
theory Root_Async
  imports Root_Writer Interleaving "HOL-Library.Sublist"
begin

text \<open>
  \<^verbatim>\<open>writer.go\<close>, asynchronous mode, with its goroutines interleaved: any number of callers of
  \<^verbatim>\<open>Write\<close> and of \<^verbatim>\<open>Sync\<close>, the caller of \<^verbatim>\<open>Close\<close> that wins the compare-and-swap
  (the others return at once), and the flush goroutine. Every atomic access (a mutex, an atomic
  variable, one channel operation) is a step of its own, and the steps of different goroutines
  interleave freely. The steps of each goroutine are a function of the state and of what its
  environment supplies, so that a schedule can be run; reachability is an inductive predicate.
\<close>

section \<open>Program counters and state\<close>

text \<open>The points of \<^verbatim>\<open>Write\<close>, \<^verbatim>\<open>writeAsync\<close> and \<^verbatim>\<open>enqueue\<close> between two accesses.\<close>

datatype wpc =
    WIdle
  | WEncode bytes
  | WGate bytes
  | WLocked bytes
  | WSend bytes
  | WEvict bytes
  | WEvicted bytes
  | WRetry bytes
  | WDrop
  | WUnlock

datatype cpc = CIdle | CWant | CLocked | CCancel | CCloseDone | CWait | CTeardown | CFinished

text \<open>A caller of \<^verbatim>\<open>Sync\<close> carries the number of payloads accepted when it was called.\<close>

datatype spc = SIdle | SReq nat | SWait nat | SReturned nat

text \<open>What the flush goroutine goes on with after a drain or a flush.\<close>

datatype fcont = KTick | KPayload | KReq nat | KDone

datatype fpc = FSelect "bytes list" | FDrain "bytes list" fcont | FFlush "bytes list" fcont | FExit

text \<open>
  The last five fields are history: logs offered to the gate, payloads accepted by the queue in
  order, batches handed to \<^verbatim>\<open>flush\<close> in order, logs in frames written completely, and the
  number of payloads accepted when the queue was last found empty by a full flush.
\<close>

record astate =
  a_cfg :: config
  a_enc :: encode_fn
  a_framer :: frame_fn
  a_closed :: bool
  a_done :: bool
  a_cancelled :: bool
  a_flushDone :: bool
  a_queue :: "bytes chan"
  a_dropped :: u64
  a_pcs :: "wpc list"
  a_syncs :: "spc list"
  a_close :: cpc
  a_flush :: fpc
  a_offered :: nat
  a_in :: "bytes list"
  a_flushed :: "bytes list list"
  a_delivered :: nat
  a_clean :: nat

section \<open>Writers\<close>

definition goto_w :: "nat \<Rightarrow> wpc \<Rightarrow> astate \<Rightarrow> astate" where
  "goto_w i pc s = s\<lparr>a_pcs := (a_pcs s)[i := pc]\<rparr>"

definition a_count :: "nat \<Rightarrow> astate \<Rightarrow> astate" where
  "a_count n s = s\<lparr>a_dropped := a_dropped s + of_nat n\<rparr>"

definition a_accept :: "bytes chan \<Rightarrow> bytes \<Rightarrow> astate \<Rightarrow> astate" where
  "a_accept q x s = s\<lparr>a_queue := q, a_in := a_in s @ [x]\<rparr>"

text \<open>The step of writer \<open>i\<close>, which starts a call of \<^verbatim>\<open>Write\<close> with \<open>p\<close> when idle.\<close>

definition writer_act :: "nat \<Rightarrow> bytes \<Rightarrow> astate \<Rightarrow> astate option" where
  "writer_act i p s =
     (if i < length (a_pcs s) then
        (case a_pcs s ! i of
           WIdle \<Rightarrow> if a_closed s then Some s else Some (goto_w i (WEncode p) s)
         | WEncode r \<Rightarrow>
             (case a_enc s [] r of
                Inl _ \<Rightarrow> Some (goto_w i WIdle s)
              | Inr x \<Rightarrow> Some (goto_w i (WGate x) (s\<lparr>a_offered := a_offered s + 1\<rparr>)))
         | WGate x \<Rightarrow> if a_close s = CLocked then None else Some (goto_w i (WLocked x) s)
         | WLocked x \<Rightarrow> Some (goto_w i (if a_closed s then WDrop else WSend x) s)
         | WSend x \<Rightarrow>
             (case try_send (a_queue s) x of
                Some q \<Rightarrow> Some (goto_w i WUnlock (a_accept q x s))
              | None \<Rightarrow>
                  Some (goto_w i (if dropPolicy (a_cfg s) = DropOldest then WEvict x else WDrop) s))
         | WEvict x \<Rightarrow>
             (case try_recv (a_queue s) of
                Some (_, q) \<Rightarrow> Some (goto_w i (WEvicted x) (s\<lparr>a_queue := q\<rparr>))
              | None \<Rightarrow> Some (goto_w i (WRetry x) s))
         | WEvicted x \<Rightarrow> Some (goto_w i (WRetry x) (a_count 1 s))
         | WRetry x \<Rightarrow>
             (case try_send (a_queue s) x of
                Some q \<Rightarrow> Some (goto_w i WUnlock (a_accept q x s))
              | None \<Rightarrow> Some (goto_w i WDrop s))
         | WDrop \<Rightarrow> Some (goto_w i WUnlock (a_count 1 s))
         | WUnlock \<Rightarrow> Some (goto_w i WIdle s))
      else None)"

definition holds_lock :: "wpc \<Rightarrow> bool" where
  "holds_lock pc = (case pc of WIdle \<Rightarrow> False | WEncode _ \<Rightarrow> False | WGate _ \<Rightarrow> False | _ \<Rightarrow> True)"

section \<open>Close\<close>

definition close_act :: "astate \<Rightarrow> astate option" where
  "close_act s =
     (case a_close s of
        CIdle \<Rightarrow> Some (s\<lparr>a_closed := True, a_close := CWant\<rparr>)
      | CWant \<Rightarrow> if list_ex holds_lock (a_pcs s) then None else Some (s\<lparr>a_close := CLocked\<rparr>)
      | CLocked \<Rightarrow> Some (s\<lparr>a_close := CCancel\<rparr>)
      | CCancel \<Rightarrow> Some (s\<lparr>a_cancelled := True, a_close := CCloseDone\<rparr>)
      | CCloseDone \<Rightarrow> Some (s\<lparr>a_done := True, a_close := CWait\<rparr>)
      | CWait \<Rightarrow> if a_flushDone s then Some (s\<lparr>a_close := CTeardown\<rparr>) else None
      | CTeardown \<Rightarrow> Some (s\<lparr>a_close := CFinished\<rparr>)
      | CFinished \<Rightarrow> None)"

section \<open>Sync\<close>

text \<open>
  A caller waiting to hand its request over gives up when \<^verbatim>\<open>done\<close> is closed; the hand-over
  itself is a step of the flush goroutine.
\<close>

definition sync_act :: "nat \<Rightarrow> astate \<Rightarrow> astate option" where
  "sync_act j s =
     (if j < length (a_syncs s) then
        (case a_syncs s ! j of
           SIdle \<Rightarrow>
             if mode (a_cfg s) \<noteq> ModeAsync \<or> a_closed s then Some s
             else Some (s\<lparr>a_syncs := (a_syncs s)[j := SReq (length (a_in s))]\<rparr>)
         | SReq _ \<Rightarrow> if a_done s then Some (s\<lparr>a_syncs := (a_syncs s)[j := SIdle]\<rparr>) else None
         | SWait _ \<Rightarrow> None
         | SReturned _ \<Rightarrow> Some (s\<lparr>a_syncs := (a_syncs s)[j := SIdle]\<rparr>))
      else None)"

section \<open>The flush goroutine\<close>

datatype fchoice = ChDone | ChReq nat | ChTick | ChPayload

text \<open>The end of \<^verbatim>\<open>flushAll\<close>: the queue was found empty with an empty batch.\<close>

definition finish_all :: "fcont \<Rightarrow> astate \<Rightarrow> astate" where
  "finish_all k s =
     (case k of
        KReq j \<Rightarrow> s\<lparr>a_flush := FSelect [], a_clean := length (a_in s),
          a_syncs := (a_syncs s)[j := (case a_syncs s ! j of SWait n \<Rightarrow> SReturned n | pc \<Rightarrow> pc)]\<rparr>
      | _ \<Rightarrow> s\<lparr>a_flush := FExit, a_flushDone := True, a_clean := length (a_in s)\<rparr>)"

definition after_drain :: "bytes list \<Rightarrow> fcont \<Rightarrow> astate \<Rightarrow> astate" where
  "after_drain b k s =
     (case k of
        KTick \<Rightarrow> s\<lparr>a_flush := FFlush b KTick\<rparr>
      | KPayload \<Rightarrow>
          if int (length b) \<ge> batchSize (a_cfg s) then s\<lparr>a_flush := FFlush b KPayload\<rparr>
          else s\<lparr>a_flush := FSelect b\<rparr>
      | _ \<Rightarrow> if length b = 0 then finish_all k s else s\<lparr>a_flush := FFlush b k\<rparr>)"

definition after_flush :: "fcont \<Rightarrow> fpc" where
  "after_flush k = (case k of KTick \<Rightarrow> FSelect [] | KPayload \<Rightarrow> FSelect [] | _ \<Rightarrow> FDrain [] k)"

text \<open>\<open>ok\<close> says whether \<^verbatim>\<open>writeFrame\<close> wrote the whole frame.\<close>

definition flush_out :: "bool \<Rightarrow> bytes list \<Rightarrow> astate \<Rightarrow> astate" where
  "flush_out ok b s =
     (if length b = 0 then s
      else case a_framer s [] b of
        Inl _ \<Rightarrow> a_count (length b) s
      | Inr _ \<Rightarrow> if ok then s\<lparr>a_delivered := a_delivered s + length b\<rparr> else a_count (length b) s)"

definition flush_act :: "fchoice \<Rightarrow> bool \<Rightarrow> astate \<Rightarrow> astate option" where
  "flush_act ch ok s =
     (case a_flush s of
        FSelect b \<Rightarrow>
          (case ch of
             ChDone \<Rightarrow> if a_done s then Some (s\<lparr>a_flush := FDrain b KDone\<rparr>) else None
           | ChReq j \<Rightarrow>
               if j < length (a_syncs s) then
                 (case a_syncs s ! j of
                    SReq n \<Rightarrow> Some (s\<lparr>a_flush := FDrain b (KReq j),
                                     a_syncs := (a_syncs s)[j := SWait n]\<rparr>)
                  | _ \<Rightarrow> None)
               else None
           | ChTick \<Rightarrow> Some (s\<lparr>a_flush := FDrain b KTick\<rparr>)
           | ChPayload \<Rightarrow>
               (case try_recv (a_queue s) of
                  Some (p, q) \<Rightarrow> Some (s\<lparr>a_queue := q, a_flush := FDrain (b @ [p]) KPayload\<rparr>)
                | None \<Rightarrow> None))
      | FDrain b k \<Rightarrow>
          if int (length b) < batchSize (a_cfg s) then
            (case try_recv (a_queue s) of
               Some (p, q) \<Rightarrow> Some (s\<lparr>a_queue := q, a_flush := FDrain (b @ [p]) k\<rparr>)
             | None \<Rightarrow> Some (after_drain b k s))
          else Some (after_drain b k s)
      | FFlush b k \<Rightarrow>
          Some ((flush_out ok b s)\<lparr>a_flush := after_flush k, a_flushed := a_flushed s @ [b]\<rparr>)
      | FExit \<Rightarrow> None)"

section \<open>Schedules\<close>

datatype action = AWriter nat bytes | AClose | ASync nat | AFlush fchoice bool

fun act :: "action \<Rightarrow> astate \<Rightarrow> astate option" where
  "act (AWriter i p) s = writer_act i p s"
| "act AClose s = close_act s"
| "act (ASync j) s = sync_act j s"
| "act (AFlush ch ok) s = flush_act ch ok s"

text \<open>What \<^verbatim>\<open>New\<close> starts in asynchronous mode, with \<open>n\<close> writers and \<open>m\<close> callers of Sync.\<close>

definition async_init :: "config \<Rightarrow> encode_fn \<Rightarrow> frame_fn \<Rightarrow> nat \<Rightarrow> nat \<Rightarrow> astate" where
  "async_init cfg enc framer n m =
     \<lparr>a_cfg = cfg, a_enc = enc, a_framer = framer, a_closed = False, a_done = False,
      a_cancelled = False, a_flushDone = False, a_queue = make_chan (nat (bufferSize cfg)),
      a_dropped = 0, a_pcs = replicate n WIdle, a_syncs = replicate m SIdle, a_close = CIdle,
      a_flush = FSelect [], a_offered = 0, a_in = [], a_flushed = [], a_delivered = 0, a_clean = 0\<rparr>"

section \<open>Invariants\<close>

definition sending :: "wpc \<Rightarrow> bool" where
  "sending pc = (case pc of WSend _ \<Rightarrow> True | WEvict _ \<Rightarrow> True | WEvicted _ \<Rightarrow> True
     | WRetry _ \<Rightarrow> True | _ \<Rightarrow> False)"

text \<open>Logs a writer answers for at this point: its own, and an evicted one not yet counted.\<close>

definition weight :: "wpc \<Rightarrow> nat" where
  "weight pc = (case pc of WIdle \<Rightarrow> 0 | WEncode _ \<Rightarrow> 0 | WUnlock \<Rightarrow> 0 | WEvicted _ \<Rightarrow> 2 | _ \<Rightarrow> 1)"

definition carried :: "fpc \<Rightarrow> bytes list" where
  "carried f = (case f of FSelect b \<Rightarrow> b | FDrain b _ \<Rightarrow> b | FFlush b _ \<Rightarrow> b | FExit \<Rightarrow> [])"

definition final :: "fpc \<Rightarrow> bool" where
  "final f = (case f of FDrain _ KDone \<Rightarrow> True | FFlush _ KDone \<Rightarrow> True | FExit \<Rightarrow> True | _ \<Rightarrow> False)"

definition in_hand :: "astate \<Rightarrow> nat" where
  "in_hand s = sum_list (map weight (a_pcs s))"

lemma in_hand_goto:
  "i < length (a_pcs s) \<Longrightarrow> in_hand (goto_w i pc s) + weight (a_pcs s ! i) = in_hand s + weight pc"
  unfolding in_hand_def goto_w_def using sum_list_update [of i "a_pcs s" weight pc] by simp

text \<open>Sizes.\<close>

definition shape :: "astate \<Rightarrow> bool" where
  "shape s \<longleftrightarrow> config_wf (a_cfg s) \<and> cap (a_queue s) = nat (bufferSize (a_cfg s)) \<and>
     length (buf (a_queue s)) \<le> cap (a_queue s) \<and>
     int (length (carried (a_flush s))) \<le> batchSize (a_cfg s) \<and>
     (\<forall>b. a_flush s = FSelect b \<longrightarrow> int (length b) < batchSize (a_cfg s)) \<and>
     (\<forall>k. a_flush s = FFlush [] k \<longrightarrow> k = KTick \<or> k = KPayload) \<and>
     (\<forall>b\<in>set (a_flushed s). int (length b) \<le> batchSize (a_cfg s))"

text \<open>The lifecycle: once Close has passed its barrier no writer is between the closed check
  and the end of its send, and the final flush runs only then.\<close>

definition gate :: "astate \<Rightarrow> bool" where
  "gate s \<longleftrightarrow> (a_closed s \<longleftrightarrow> a_close s \<noteq> CIdle) \<and>
     (a_done s \<longleftrightarrow> a_close s \<in> {CWait, CTeardown, CFinished}) \<and>
     (a_close s \<notin> {CIdle, CWant} \<longrightarrow> (\<forall>i < length (a_pcs s). \<not> sending (a_pcs s ! i))) \<and>
     (a_flushDone s \<longleftrightarrow> a_flush s = FExit) \<and>
     (a_close s \<in> {CTeardown, CFinished} \<longrightarrow> a_flushDone s) \<and>
     (final (a_flush s) \<longrightarrow> a_done s) \<and> (a_flush s = FExit \<longrightarrow> buf (a_queue s) = [])"

text \<open>Every log that reached the gate is in exactly one place.\<close>

definition balance :: "astate \<Rightarrow> bool" where
  "balance s \<longleftrightarrow> (of_nat (a_offered s) :: u64) = a_dropped s + of_nat (a_delivered s) +
     of_nat (in_hand s) + of_nat (length (carried (a_flush s))) + of_nat (length (buf (a_queue s)))"

text \<open>Order, and what a returned Sync means.\<close>

definition sync_ok :: "nat \<Rightarrow> nat \<Rightarrow> spc \<Rightarrow> bool" where
  "sync_ok accepted clean pc =
     (case pc of SIdle \<Rightarrow> True | SReq n \<Rightarrow> n \<le> accepted | SWait n \<Rightarrow> n \<le> accepted
      | SReturned n \<Rightarrow> n \<le> clean)"

definition ordered :: "astate \<Rightarrow> bool" where
  "ordered s \<longleftrightarrow>
     subseq (concat (a_flushed s) @ carried (a_flush s) @ buf (a_queue s)) (a_in s) \<and>
     a_clean s \<le> length (a_in s) \<and>
     subseq (carried (a_flush s) @ buf (a_queue s)) (drop (a_clean s) (a_in s)) \<and>
     (\<forall>j < length (a_syncs s). sync_ok (length (a_in s)) (a_clean s) (a_syncs s ! j))"

lemmas act_defs = goto_w_def a_count_def a_accept_def finish_all_def after_drain_def after_flush_def
  flush_out_def

lemma shape_writer: "shape s \<Longrightarrow> writer_act i p s = Some s' \<Longrightarrow> shape s'"
  by (auto simp: writer_act_def shape_def act_defs try_send_def try_recv_def
      split: if_splits wpc.splits sum.splits option.splits list.splits)

lemma shape_close: "shape s \<Longrightarrow> close_act s = Some s' \<Longrightarrow> shape s'"
  by (cases "a_close s") (auto simp: close_act_def shape_def split: if_splits)

lemma shape_sync: "shape s \<Longrightarrow> sync_act j s = Some s' \<Longrightarrow> shape s'"
  by (cases "a_syncs s ! j") (auto simp: sync_act_def shape_def split: if_splits)

text \<open>The steps of the flush goroutine by its program counter.\<close>

lemma flush_act_select:
  "flush_act ch ok s = Some s' \<Longrightarrow> a_flush s = FSelect b \<Longrightarrow>
     (a_done s \<and> s' = s\<lparr>a_flush := FDrain b KDone\<rparr>) \<or>
     (\<exists>j n. j < length (a_syncs s) \<and> a_syncs s ! j = SReq n \<and>
        s' = s\<lparr>a_flush := FDrain b (KReq j), a_syncs := (a_syncs s)[j := SWait n]\<rparr>) \<or>
     s' = s\<lparr>a_flush := FDrain b KTick\<rparr> \<or>
     (\<exists>p q. try_recv (a_queue s) = Some (p, q) \<and>
        s' = s\<lparr>a_queue := q, a_flush := FDrain (b @ [p]) KPayload\<rparr>)"
  by (cases ch) (auto simp: flush_act_def split: if_splits option.splits spc.splits)

lemma flush_act_drain:
  "flush_act ch ok s = Some s' \<Longrightarrow> a_flush s = FDrain b k \<Longrightarrow>
     (\<exists>p q. int (length b) < batchSize (a_cfg s) \<and> try_recv (a_queue s) = Some (p, q) \<and>
        s' = s\<lparr>a_queue := q, a_flush := FDrain (b @ [p]) k\<rparr>) \<or>
     (batchSize (a_cfg s) \<le> int (length b) \<or> buf (a_queue s) = []) \<and> s' = after_drain b k s"
  using gochan.recv_None [of "a_queue s"]
  by (auto simp: flush_act_def split: if_splits option.splits)

lemma flush_act_flush:
  "flush_act ch ok s = Some s' \<Longrightarrow> a_flush s = FFlush b k \<Longrightarrow>
     s' = (flush_out ok b s)\<lparr>a_flush := after_flush k, a_flushed := a_flushed s @ [b]\<rparr>"
  by (simp add: flush_act_def)

lemma after_drain_cases:
  "((b = [] \<longrightarrow> k = KTick \<or> k = KPayload) \<and> after_drain b k s = s\<lparr>a_flush := FFlush b k\<rparr>) \<or>
   (k = KPayload \<and> int (length b) < batchSize (a_cfg s) \<and> after_drain b k s = s\<lparr>a_flush := FSelect b\<rparr>) \<or>
   (b = [] \<and> (k = KDone \<or> (\<exists>j. k = KReq j)) \<and> after_drain b k s = finish_all k s)"
  by (cases k) (auto simp: after_drain_def)

text \<open>One case rule for a step of the flush goroutine.\<close>

lemma flush_act_cases [consumes 1, case_names ondone onreq ontick onpayload take toflush toselect finish emit]:
  assumes act: "flush_act ch ok s = Some s'"
  obtains b where "a_flush s = FSelect b" "a_done s" "s' = s\<lparr>a_flush := FDrain b KDone\<rparr>"
  | b j n where "a_flush s = FSelect b" "j < length (a_syncs s)" "a_syncs s ! j = SReq n"
      "s' = s\<lparr>a_flush := FDrain b (KReq j), a_syncs := (a_syncs s)[j := SWait n]\<rparr>"
  | b where "a_flush s = FSelect b" "s' = s\<lparr>a_flush := FDrain b KTick\<rparr>"
  | b p q where "a_flush s = FSelect b" "try_recv (a_queue s) = Some (p, q)"
      "s' = s\<lparr>a_queue := q, a_flush := FDrain (b @ [p]) KPayload\<rparr>"
  | b k p q where "a_flush s = FDrain b k" "int (length b) < batchSize (a_cfg s)"
      "try_recv (a_queue s) = Some (p, q)" "s' = s\<lparr>a_queue := q, a_flush := FDrain (b @ [p]) k\<rparr>"
  | b k where "a_flush s = FDrain b k" "s' = s\<lparr>a_flush := FFlush b k\<rparr>"
      "b = [] \<longrightarrow> k = KTick \<or> k = KPayload"
      "batchSize (a_cfg s) \<le> int (length b) \<or> buf (a_queue s) = []"
  | b where "a_flush s = FDrain b KPayload" "int (length b) < batchSize (a_cfg s)"
      "s' = s\<lparr>a_flush := FSelect b\<rparr>"
  | k where "a_flush s = FDrain [] k" "k = KDone \<or> (\<exists>j. k = KReq j)" "s' = finish_all k s"
      "batchSize (a_cfg s) \<le> 0 \<or> buf (a_queue s) = []"
  | b k where "a_flush s = FFlush b k"
      "s' = (flush_out ok b s)\<lparr>a_flush := after_flush k, a_flushed := a_flushed s @ [b]\<rparr>"
proof (cases "a_flush s")
  case (FSelect b)
  with flush_act_select [OF act this] that(1-4) show ?thesis by blast
next
  case (FDrain b k)
  from flush_act_drain [OF act this] show ?thesis
  proof (elim disjE exE conjE)
    assume s': "s' = after_drain b k s" and "batchSize (a_cfg s) \<le> int (length b)"
    then show ?thesis using after_drain_cases [of b k s] FDrain that(6-8) by auto
  next
    assume s': "s' = after_drain b k s" and "buf (a_queue s) = []"
    then show ?thesis using after_drain_cases [of b k s] FDrain that(6-8) by auto
  qed (use that(5) FDrain in blast)
next
  case (FFlush b k)
  with flush_act_flush [OF act this] that(9) show ?thesis by blast
next
  case FExit
  with act show ?thesis by (simp add: flush_act_def)
qed

lemma flush_out_fields [simp]:
  "a_cfg (flush_out ok b s) = a_cfg s" "a_queue (flush_out ok b s) = a_queue s"
  "a_pcs (flush_out ok b s) = a_pcs s" "a_syncs (flush_out ok b s) = a_syncs s"
  "a_close (flush_out ok b s) = a_close s" "a_closed (flush_out ok b s) = a_closed s"
  "a_done (flush_out ok b s) = a_done s" "a_flushDone (flush_out ok b s) = a_flushDone s"
  "a_in (flush_out ok b s) = a_in s" "a_clean (flush_out ok b s) = a_clean s"
  "a_offered (flush_out ok b s) = a_offered s"
  by (auto simp: flush_out_def a_count_def split: sum.splits)

lemma carried_simps [simp]:
  "carried (FSelect b) = b" "carried (FDrain b k) = b" "carried (FFlush b k) = b" "carried FExit = []"
  "carried (after_flush k) = []"
  by (simp_all add: carried_def after_flush_def split: fcont.splits)

lemma shape_flush: "flush_act ch ok s = Some s' \<Longrightarrow> shape s \<Longrightarrow> shape s'"
  by (erule flush_act_cases)
    (auto simp: shape_def try_recv_buf finish_all_def after_flush_def config_wf_def split: fcont.splits)

lemma nth_goto: "j < length (a_pcs s) \<Longrightarrow> a_pcs (goto_w i pc s) ! j = (if j = i then pc else a_pcs s ! j)"
  by (simp add: goto_w_def nth_list_update)

lemma goto_w_fields [simp]:
  "length (a_pcs (goto_w i pc s)) = length (a_pcs s)" "a_close (goto_w i pc s) = a_close s"
  "a_closed (goto_w i pc s) = a_closed s" "a_done (goto_w i pc s) = a_done s"
  "a_flushDone (goto_w i pc s) = a_flushDone s" "a_flush (goto_w i pc s) = a_flush s"
  "a_queue (goto_w i pc s) = a_queue s" "a_dropped (goto_w i pc s) = a_dropped s"
  "a_delivered (goto_w i pc s) = a_delivered s" "a_offered (goto_w i pc s) = a_offered s"
  "a_in (goto_w i pc s) = a_in s" "a_flushed (goto_w i pc s) = a_flushed s"
  "a_clean (goto_w i pc s) = a_clean s" "a_syncs (goto_w i pc s) = a_syncs s"
  by (simp_all add: goto_w_def)

text \<open>One case rule for a step of a writer: what it does to the shared state.\<close>

lemma writer_act_cases [consumes 1, case_names stay move offer accept evict count]:
  assumes act: "writer_act i p s = Some s'"
  obtains "s' = s"
  | pc where "i < length (a_pcs s)" "s' = goto_w i pc s" "weight pc = weight (a_pcs s ! i)"
      "sending pc \<Longrightarrow> sending (a_pcs s ! i) \<or> \<not> a_closed s"
  | x where "i < length (a_pcs s)" "weight (a_pcs s ! i) = 0"
      "s' = goto_w i (WGate x) (s\<lparr>a_offered := a_offered s + 1\<rparr>)"
  | x q where "i < length (a_pcs s)" "sending (a_pcs s ! i)" "weight (a_pcs s ! i) = 1"
      "try_send (a_queue s) x = Some q" "s' = goto_w i WUnlock (a_accept q x s)"
  | x y q where "i < length (a_pcs s)" "a_pcs s ! i = WEvict x" "try_recv (a_queue s) = Some (y, q)"
      "s' = goto_w i (WEvicted x) (s\<lparr>a_queue := q\<rparr>)"
  | pc where "i < length (a_pcs s)" "weight (a_pcs s ! i) = weight pc + 1"
      "sending pc \<Longrightarrow> sending (a_pcs s ! i)" "s' = goto_w i pc (a_count 1 s)"
proof -
  have i: "i < length (a_pcs s)" using act by (simp add: writer_act_def split: if_splits)
  note defs = writer_act_def weight_def sending_def
  show ?thesis
  proof (cases "a_pcs s ! i")
    case WIdle
    with act i that(1) that(2) [of "WEncode p"] show ?thesis by (auto simp: defs split: if_splits)
  next
    case (WEncode r)
    with act i that(2) [of WIdle] that(3) show ?thesis by (auto simp: defs split: sum.splits)
  next
    case (WGate x)
    with act i that(2) [of "WLocked x"] show ?thesis by (auto simp: defs split: if_splits)
  next
    case (WLocked x)
    with act i that(2) [of WDrop] that(2) [of "WSend x"] show ?thesis by (auto simp: defs split: if_splits)
  next
    case (WSend x)
    with act i that(2) [of "WEvict x"] that(2) [of WDrop] that(4) show ?thesis by (auto simp: defs split: option.splits if_splits)
  next
    case (WEvict x)
    with act i that(2) [of "WRetry x"] that(5) show ?thesis by (auto simp: defs split: option.splits)
  next
    case (WEvicted x)
    with act i that(6) [of "WRetry x"] show ?thesis by (auto simp: defs)
  next
    case (WRetry x)
    with act i that(2) [of WDrop] that(4) show ?thesis by (auto simp: defs split: option.splits)
  next
    case WDrop
    with act i that(6) [of WUnlock] show ?thesis by (auto simp: defs)
  next
    case WUnlock
    with act i that(2) [of WIdle] show ?thesis by (auto simp: defs)
  qed
qed

lemma gate_writer:
  assumes "writer_act i p s = Some s'" and g: "gate s"
  shows "gate s'"
  using assms(1)
proof (cases rule: writer_act_cases)
  case (accept x q)
  with g have "a_close s \<in> {CIdle, CWant}" "\<not> a_done s" "a_flush s \<noteq> FExit"
    by (auto simp: gate_def final_def)
  with g accept show ?thesis
    by (auto simp: gate_def a_accept_def)
next
  case (evict x y q)
  with g have "a_close s \<in> {CIdle, CWant}" "\<not> a_done s" "a_flush s \<noteq> FExit"
    by (auto simp: gate_def final_def sending_def)
  with g evict show ?thesis by (auto simp: gate_def)
qed (use g in \<open>auto simp: gate_def nth_goto a_count_def sending_def\<close>)

lemma holds_lock_sending: "sending pc \<Longrightarrow> holds_lock pc"
  by (cases pc) (auto simp: sending_def holds_lock_def)

lemma gate_close: "close_act s = Some s' \<Longrightarrow> gate s \<Longrightarrow> gate s'"
  by (cases "a_close s")
    (auto simp: close_act_def gate_def list_ex_iff dest: holds_lock_sending nth_mem split: if_splits)

lemma sync_act_eq:
  assumes "sync_act j s = Some s'"
  shows "\<exists>pc. s' = s\<lparr>a_syncs := (a_syncs s)[j := pc]\<rparr> \<and>
    (pc = a_syncs s ! j \<or> pc = SIdle \<or> pc = SReq (length (a_in s)))"
proof -
  have "s = s\<lparr>a_syncs := (a_syncs s)[j := a_syncs s ! j]\<rparr>" by simp
  with assms show ?thesis
    by (cases "a_syncs s ! j") (auto simp: sync_act_def split: if_splits)
qed

lemma gate_syncs: "gate (s\<lparr>a_syncs := x\<rparr>) = gate s"
  by (simp add: gate_def)

lemma gate_sync: "sync_act j s = Some s' \<Longrightarrow> gate s \<Longrightarrow> gate s'"
  by (drule sync_act_eq) (elim exE conjE, simp add: gate_syncs)

lemma gate_flush:
  assumes "flush_act ch ok s = Some s'" and "shape s" and "gate s"
  shows "gate s'"
  using assms(1)
proof (cases rule: flush_act_cases)
  case (finish k)
  with assms(2-) show ?thesis
    by (auto simp: gate_def final_def finish_all_def shape_def config_wf_def split: fcont.splits)
next
  case (emit b k)
  with assms(2-) show ?thesis by (cases k) (auto simp: gate_def final_def after_flush_def)
qed (use assms(3) in \<open>auto simp: gate_def final_def split: fcont.splits\<close>)

lemma in_hand_move:
  assumes "i < length (a_pcs s)" and "in_hand s1 = in_hand s" "a_pcs s1 = a_pcs s"
  shows "(of_nat (in_hand (goto_w i pc s1)) :: u64) + of_nat (weight (a_pcs s ! i)) =
    of_nat (in_hand s) + of_nat (weight pc)"
  using in_hand_goto [of i s1 pc] assms by (metis of_nat_add)

lemma balance_writer:
  assumes "writer_act i p s = Some s'" and "balance s"
  shows "balance s'"
  using assms(1)
proof (cases rule: writer_act_cases)
  case (move pc)
  with assms(2-) show ?thesis using in_hand_move [of i s s pc] by (simp add: balance_def)
next
  case (offer x)
  with assms(2-) show ?thesis
    using in_hand_move [of i s "s\<lparr>a_offered := a_offered s + 1\<rparr>" "WGate x"]
    by (simp add: balance_def in_hand_def weight_def)
next
  case (accept x q)
  with assms(2-) show ?thesis
    using in_hand_move [of i s "a_accept q x s" WUnlock] gochan.send_Some [of "a_queue s" x q]
    by (simp add: balance_def in_hand_def weight_def a_accept_def)
next
  case (evict x y q)
  with assms(2-) show ?thesis
    using in_hand_move [of i s "s\<lparr>a_queue := q\<rparr>" "WEvicted x"] gochan.recv_Some [of "a_queue s" y q]
    by (simp add: balance_def in_hand_def weight_def)
next
  case (count pc)
  with assms(2-) show ?thesis
    using in_hand_move [of i s "a_count 1 s" pc]
    by (simp add: balance_def in_hand_def a_count_def add.commute [of 1])
qed (use assms(2) in simp)

lemma in_hand_pcs: "a_pcs s' = a_pcs s \<Longrightarrow> in_hand s' = in_hand s"
  by (simp add: in_hand_def)

lemma balance_same:
  "balance s \<Longrightarrow> a_pcs s' = a_pcs s \<Longrightarrow> a_offered s' = a_offered s \<Longrightarrow> a_dropped s' = a_dropped s \<Longrightarrow>
   a_delivered s' = a_delivered s \<Longrightarrow>
   length (carried (a_flush s')) + length (buf (a_queue s')) =
     length (carried (a_flush s)) + length (buf (a_queue s)) \<Longrightarrow> balance s'"
  using in_hand_pcs [of s' s] by (simp add: balance_def add.assoc) (metis of_nat_add)

lemma flush_out_settles:
  "a_dropped (flush_out ok b s) + of_nat (a_delivered (flush_out ok b s)) =
     a_dropped s + of_nat (a_delivered s) + of_nat (length b)"
  by (auto simp: flush_out_def a_count_def split: sum.splits)

lemma settle_swap:
  assumes "(d' :: u64) + l' = d + l + b" and "x = d + l + h + b + q"
  shows "x = d' + l' + h + q"
proof -
  have "x = (d + l + b) + (h + q)" using assms(2) by (simp add: ac_simps)
  also have "\<dots> = d' + l' + (h + q)" by (simp only: assms(1))
  finally show ?thesis by (simp only: add.assoc)
qed

lemma balance_flush:
  assumes "flush_act ch ok s = Some s'" and "balance s"
  shows "balance s'"
  using assms(1)
proof (cases rule: flush_act_cases)
  case (emit b k)
  then have "in_hand s' = in_hand s" by (intro in_hand_pcs) simp
  moreover have "of_nat (a_offered s) = a_dropped s + of_nat (a_delivered s) + of_nat (in_hand s) +
      of_nat (length b) + of_nat (length (buf (a_queue s)))"
    using assms(2) emit by (simp add: balance_def)
  note settle_swap [OF flush_out_settles [of ok b s] this]
  ultimately show ?thesis using emit by (simp add: balance_def)
next
  case (finish k)
  with assms(2) show ?thesis
    by (intro balance_same [OF assms(2)]) (auto simp: finish_all_def split: fcont.splits)
qed (rule balance_same [OF assms(2)]; simp add: try_recv_buf)+

lemma balance_lifecycle [simp]:
  "balance (s\<lparr>a_closed := c\<rparr>) = balance s" "balance (s\<lparr>a_close := pc\<rparr>) = balance s"
  "balance (s\<lparr>a_cancelled := c\<rparr>) = balance s" "balance (s\<lparr>a_done := c\<rparr>) = balance s"
  "balance (s\<lparr>a_syncs := xs\<rparr>) = balance s"
  by (simp_all add: balance_def in_hand_def)

lemma balance_close: "close_act s = Some s' \<Longrightarrow> balance s \<Longrightarrow> balance s'"
  by (cases "a_close s") (auto simp: close_act_def split: if_splits)

lemma balance_sync: "sync_act j s = Some s' \<Longrightarrow> balance s \<Longrightarrow> balance s'"
  by (drule sync_act_eq) (elim exE conjE, simp)

lemma ordered_writer:
  assumes "writer_act i p s = Some s'" and o: "ordered s"
  shows "ordered s'"
  using assms(1)
proof (cases rule: writer_act_cases)
  case (accept x q)
  then have q: "buf q = buf (a_queue s) @ [x]" using gochan.send_Some by metis
  have "sync_ok (Suc (length (a_in s))) (a_clean s) pc" if "sync_ok (length (a_in s)) (a_clean s) pc" for pc
    using that by (auto simp: sync_ok_def split: spc.splits)
  with o accept q show ?thesis
    using subseq_snoc [of "concat (a_flushed s) @ carried (a_flush s) @ buf (a_queue s)" "a_in s" x]
      subseq_snoc [of "carried (a_flush s) @ buf (a_queue s)" "drop (a_clean s) (a_in s)" x]
    by (simp add: ordered_def a_accept_def)
next
  case (evict x y q)
  then have "buf (a_queue s) = y # buf q" using gochan.recv_Some by metis
  with o evict show ?thesis
    using subseq_evict2 [of "concat (a_flushed s)" "carried (a_flush s)" y "buf q"]
      subseq_evict [of "carried (a_flush s)" y "buf q"]
    by (simp add: ordered_def)
qed (use o in \<open>auto simp: ordered_def a_count_def\<close>)

lemma ordered_sync:
  assumes "sync_act j s = Some s'" and o: "ordered s"
  shows "ordered s'"
proof -
  obtain pc where s': "s' = s\<lparr>a_syncs := (a_syncs s)[j := pc]\<rparr>"
    and pc: "pc = a_syncs s ! j \<or> pc = SIdle \<or> pc = SReq (length (a_in s))"
    using sync_act_eq [OF assms(1)] by blast
  have "j < length (a_syncs s) \<Longrightarrow> sync_ok (length (a_in s)) (a_clean s) pc"
    using pc o by (auto simp: ordered_def sync_ok_def)
  with o show ?thesis by (auto simp: ordered_def s' nth_update_any)
qed

lemma ordered_close: "close_act s = Some s' \<Longrightarrow> ordered s \<Longrightarrow> ordered s'"
  by (cases "a_close s") (auto simp: close_act_def ordered_def split: if_splits)

lemma ordered_flush:
  assumes "flush_act ch ok s = Some s'" and o: "ordered s" and "shape s"
  shows "ordered s'"
  using assms(1)
proof (cases rule: flush_act_cases)
  case (onreq b j n)
  then have "sync_ok (length (a_in s)) (a_clean s) (SReq n)" using o by (auto simp: ordered_def)
  then have "sync_ok (length (a_in s)) (a_clean s) (SWait n)" by (simp add: sync_ok_def)
  with onreq o show ?thesis by (simp add: ordered_def nth_list_update)
next
  case (finish k)
  then have q: "buf (a_queue s) = []" using assms(3) by (auto simp: shape_def config_wf_def)
  have up: "sync_ok (length (a_in s)) (length (a_in s)) pc"
      "sync_ok (length (a_in s)) (length (a_in s)) (case pc of SWait n \<Rightarrow> SReturned n | pc \<Rightarrow> pc)"
    if "sync_ok (length (a_in s)) (a_clean s) pc" for pc
    using that o by (auto simp: sync_ok_def ordered_def split: spc.splits)
  show ?thesis
    using finish q o up by (auto simp: ordered_def finish_all_def nth_update_any split: fcont.splits)
next
  case (emit b k)
  with o show ?thesis
    using subseq_flushed [of b "buf (a_queue s)"] by (simp add: ordered_def)
qed (use o in \<open>auto simp: ordered_def try_recv_buf\<close>)

definition async_inv :: "astate \<Rightarrow> bool" where
  "async_inv s \<longleftrightarrow> shape s \<and> gate s \<and> balance s \<and> ordered s"

lemma async_inv_act: "async_inv s \<Longrightarrow> act a s = Some s' \<Longrightarrow> async_inv s'"
  unfolding async_inv_def
  by (cases a) (auto intro: shape_writer shape_close shape_sync shape_flush gate_writer gate_close
      gate_sync gate_flush balance_writer balance_close balance_sync balance_flush ordered_writer
      ordered_close ordered_sync ordered_flush)

interpretation async: step_invariant act async_inv
  by unfold_locales (rule async_inv_act)

lemma async_inv_init: "config_wf cfg \<Longrightarrow> async_inv (async_init cfg enc framer n m)"
  by (auto simp: async_inv_def async_init_def shape_def gate_def balance_def ordered_def in_hand_def
      final_def sending_def config_wf_def sync_ok_def weight_def sum_list_replicate)

lemma async_inv_reachable:
  "config_wf cfg \<Longrightarrow> reachable act (async_init cfg enc framer n m) s \<Longrightarrow> async_inv s"
  by (rule async.reachable_inv [OF _ async_inv_init])

section \<open>Progress\<close>

lemma writer_act_locked:
  "i < length (a_pcs s) \<Longrightarrow> holds_lock (a_pcs s ! i) \<Longrightarrow> \<exists>s'. writer_act i p s = Some s'"
  by (auto simp: writer_act_def holds_lock_def split: wpc.splits option.splits)

lemma flush_act_enabled:
  "a_flush s \<noteq> FExit \<Longrightarrow> a_done s \<Longrightarrow> \<exists>s'. flush_act ChDone ok s = Some s'"
  by (auto simp: flush_act_def split: fpc.splits option.splits)

lemma close_act_blocked:
  "close_act s = None \<longleftrightarrow> (a_close s = CWant \<and> list_ex holds_lock (a_pcs s)) \<or>
     (a_close s = CWait \<and> \<not> a_flushDone s) \<or> a_close s = CFinished"
  by (auto simp: close_act_def split: cpc.splits)

text \<open>How much of the final flush is left.\<close>

definition flush_left :: "astate \<Rightarrow> nat" where
  "flush_left s = (case a_flush s of
      FSelect b \<Rightarrow> 3 * length b + 4 * length (buf (a_queue s)) + 3
    | FDrain b _ \<Rightarrow> 3 * length b + 4 * length (buf (a_queue s)) + 2
    | FFlush b _ \<Rightarrow> 3 * length b + 4 * length (buf (a_queue s)) + 1
    | FExit \<Rightarrow> 0)"

lemma flush_left_cong:
  "a_flush s' = a_flush s \<Longrightarrow> a_queue s' = a_queue s \<Longrightarrow> flush_left s' = flush_left s"
  by (simp add: flush_left_def split: fpc.splits)

lemma final_flush_decreases:
  assumes "flush_act ch ok s = Some s'" and "final (a_flush s)" and "shape s"
  shows "flush_left s' < flush_left s \<and> final (a_flush s')"
  using assms(1)
proof (cases rule: flush_act_cases)
  case (take b k p q)
  with assms show ?thesis by (auto simp: flush_left_def final_def try_recv_buf split: fcont.splits)
next
  case (finish k)
  with assms show ?thesis by (auto simp: flush_left_def final_def finish_all_def split: fcont.splits)
next
  case (emit b k)
  with assms have k: "k = KDone" and b: "b \<noteq> []" by (auto simp: final_def shape_def split: fcont.splits)
  then obtain x xs where "b = x # xs" by (cases b) auto
  with emit k show ?thesis by (simp add: flush_left_def final_def after_flush_def)
next
  case (toflush b k)
  with assms have k: "k = KDone" by (auto simp: final_def split: fcont.splits)
  with toflush show ?thesis by (simp add: flush_left_def final_def)
qed (use assms in \<open>auto simp: final_def\<close>)

lemma final_others:
  assumes "gate s" and "final (a_flush s)" and "act a s = Some s'" and "\<And>ch ok. a \<noteq> AFlush ch ok"
  shows "flush_left s' = flush_left s \<and> a_flush s' = a_flush s"
proof (cases a)
  case (AWriter i p)
  have ns: "\<not> sending (a_pcs s ! i)" if "i < length (a_pcs s)"
    using assms(1,2) that by (auto simp: gate_def)
  from AWriter assms(3) have "writer_act i p s = Some s'" by simp
  then show ?thesis
    by (cases rule: writer_act_cases)
      (use ns in \<open>auto simp: flush_left_def a_count_def sending_def split: fpc.splits\<close>)
next
  case AClose
  with assms(3) show ?thesis
    by (cases "a_close s") (auto simp: close_act_def intro: flush_left_cong split: if_splits)
next
  case (ASync j)
  then obtain pcs where "s' = s\<lparr>a_syncs := pcs\<rparr>" using assms(3) by (auto dest: sync_act_eq)
  then show ?thesis by (auto intro: flush_left_cong)
qed (use assms(4) in auto)

section \<open>Properties\<close>

definition small_cfg :: config where
  "small_cfg = defaultConfig\<lparr>mode := ModeAsync, bufferSize := 2, batchSize := 2, dropPolicy := DropOldest\<rparr>"

abbreviation small_init :: astate where
  "small_init \<equiv> async_init small_cfg passthrough_Encode concat_framer 2 1"

lemma small_cfg_mode: "mode small_cfg = ModeAsync"
  by (simp add: small_cfg_def)

lemma small_cfg_wf: "config_wf small_cfg"
  by (simp add: small_cfg_def config_wf_def defaultConfig_def default_defs)

text \<open>Writer \<open>i\<close> queues one payload with no other goroutine in between.\<close>

definition put_run :: "nat \<Rightarrow> bytes \<Rightarrow> action list" where
  "put_run i p = replicate 6 (AWriter i p)"

text \<open>In every interleaving of writers, Sync callers, Close and the flush goroutine, the queue
  never holds more than the configured buffer, no batch handed to the framer exceeds the
  configured batch size, and every log that reached the gate is accounted for exactly once: it is
  still in a writer's hand, queued, in the current batch, written in a whole frame, or counted in
  the 64-bit drop counter.\<close>

theorem async_accounting:
  assumes "config_wf cfg" and "reachable act (async_init cfg enc framer n m) s"
  shows "int (length (buf (a_queue s))) \<le> bufferSize (a_cfg s) \<and>
    (\<forall>b\<in>set (a_flushed s). int (length b) \<le> batchSize (a_cfg s)) \<and>
    (of_nat (a_offered s) :: u64) = a_dropped s + of_nat (a_delivered s) + of_nat (in_hand s) +
      of_nat (length (carried (a_flush s))) + of_nat (length (buf (a_queue s)))"
  using async_inv_reachable [OF assms] by (auto simp: async_inv_def shape_def balance_def config_wf_def)

theorem async_accounting_witness:
  "\<exists>s. run act (put_run 0 [1] @ put_run 1 [2] @ put_run 0 [3] @ replicate 3 (AWriter 0 [3])) small_init = Some s \<and>
     buf (a_queue s) = [[2], [3]] \<and> a_dropped s = 1 \<and> a_offered s = 3 \<and>
     (of_nat (a_offered s) :: u64) = a_dropped s + of_nat (a_delivered s) + of_nat (in_hand s) +
      of_nat (length (carried (a_flush s))) + of_nat (length (buf (a_queue s)))"
proof -
  let ?as = "put_run 0 [1] @ put_run 1 [2] @ put_run 0 [3] @ replicate 3 (AWriter 0 [3])"
  have "reaches act ?as (\<lambda>s. buf (a_queue s) = [[2], [3]] \<and> a_dropped s = 1 \<and> a_offered s = 3) small_init"
    by code_simp
  then obtain s where s: "run act ?as small_init = Some s" "buf (a_queue s) = [[2], [3]]"
    "a_dropped s = 1" "a_offered s = 3" by (auto simp: reaches_iff)
  show ?thesis
    using async_accounting [OF small_cfg_wf run_reachable [OF s(1)]] s by blast
qed

text \<open>Nothing is stranded by Close. When Close has returned, in whatever order the goroutines
  ran, the queue is empty, no batch is carried, and every log that reached the gate was written
  in a whole frame, counted as dropped, or is held by a writer that saw the writer closed and is
  about to count it; once those writers have returned the two counts add up to all logs.\<close>

theorem close_strands_nothing:
  assumes "config_wf cfg" and "reachable act (async_init cfg enc framer n m) s" and "a_close s = CFinished"
  shows "buf (a_queue s) = [] \<and> carried (a_flush s) = [] \<and> a_flush s = FExit \<and>
    (\<forall>i < length (a_pcs s). \<not> sending (a_pcs s ! i)) \<and>
    (of_nat (a_offered s) :: u64) = a_dropped s + of_nat (a_delivered s) + of_nat (in_hand s) \<and>
    ((\<forall>pc\<in>set (a_pcs s). pc = WIdle) \<longrightarrow>
       (of_nat (a_offered s) :: u64) = a_dropped s + of_nat (a_delivered s))"
proof -
  have "async_inv s" using async_inv_reachable [OF assms(1,2)] .
  then have g: "gate s" and b: "balance s" by (simp_all add: async_inv_def)
  have f: "a_flush s = FExit" "buf (a_queue s) = []" "\<forall>i < length (a_pcs s). \<not> sending (a_pcs s ! i)"
    using g assms(3) by (auto simp: gate_def)
  moreover have "in_hand s = 0" if "\<forall>pc\<in>set (a_pcs s). pc = WIdle"
    using that by (auto simp: in_hand_def weight_def)
  ultimately show ?thesis using b by (auto simp: balance_def)
qed

text \<open>Two logs, one still held by a writer at the gate when Close passes its barrier.\<close>

definition close_run :: "action list" where
  "close_run = put_run 0 [1] @ put_run 1 [2] @ replicate 2 (AWriter 0 [3]) @
     replicate 5 AClose @ replicate 6 (AFlush ChDone True) @ replicate 2 AClose"

theorem close_strands_nothing_witness:
  "\<exists>s. run act close_run small_init = Some s \<and> a_close s = CFinished \<and> a_delivered s = 2 \<and>
     a_offered s = 3 \<and> buf (a_queue s) = [] \<and>
     (of_nat (a_offered s) :: u64) = a_dropped s + of_nat (a_delivered s) + of_nat (in_hand s)"
proof -
  have "reaches act close_run (\<lambda>s. a_close s = CFinished \<and> a_delivered s = 2 \<and> a_offered s = 3) small_init"
    by code_simp
  then obtain s where s: "run act close_run small_init = Some s" "a_close s = CFinished"
    "a_delivered s = 2" "a_offered s = 3" by (auto simp: reaches_iff)
  show ?thesis
    using close_strands_nothing [OF small_cfg_wf run_reachable [OF s(1)] s(2)] s by blast
qed

text \<open>Order is kept. The payloads handed to the framer, batch after batch, then the ones in
  the current batch, then the ones queued, are in every reachable state a subsequence of the
  payloads in the order the queue accepted them; eviction and failed writes leave gaps and never
  reorder or duplicate.\<close>

theorem async_fifo:
  assumes "config_wf cfg" and "reachable act (async_init cfg enc framer n m) s"
  shows "subseq (concat (a_flushed s) @ carried (a_flush s) @ buf (a_queue s)) (a_in s)"
  using async_inv_reachable [OF assms] by (simp add: async_inv_def ordered_def)

theorem async_fifo_witness:
  "\<exists>s. run act close_run small_init = Some s \<and> a_flushed s = [[[1], [2]]] \<and> a_in s = [[1], [2]] \<and>
     subseq (concat (a_flushed s) @ carried (a_flush s) @ buf (a_queue s)) (a_in s)"
proof -
  have "reaches act close_run (\<lambda>s. a_flushed s = [[[1], [2]]] \<and> a_in s = [[1], [2]]) small_init"
    by code_simp
  then obtain s where s: "run act close_run small_init = Some s" "a_flushed s = [[[1], [2]]]"
    "a_in s = [[1], [2]]" by (auto simp: reaches_iff)
  show ?thesis using async_fifo [OF small_cfg_wf run_reachable [OF s(1)]] s by blast
qed


definition sync_run :: "action list" where
  "sync_run = put_run 0 [1] @ [ASync 0, AFlush (ChReq 0) True] @ replicate 2 (AFlush ChTick True) @
     put_run 1 [2] @ replicate 5 (AFlush ChTick True) @ put_run 1 [3]"


text \<open>Close is never stuck. From the moment it won the compare-and-swap until it returns,
  either it can take its next step, or it waits at the barrier for a writer that holds the
  lifecycle lock and can take a step, or it waits for the flush goroutine, which can.\<close>

theorem close_not_stuck:
  assumes "config_wf cfg" and "reachable act (async_init cfg enc framer n m) s"
    and "a_close s \<noteq> CIdle" and "a_close s \<noteq> CFinished"
  shows "(\<exists>s'. close_act s = Some s') \<or>
    (a_close s = CWant \<and> (\<exists>i < length (a_pcs s). holds_lock (a_pcs s ! i) \<and> (\<exists>s'. writer_act i [] s = Some s'))) \<or>
    (a_close s = CWait \<and> (\<exists>s'. flush_act ChDone True s = Some s'))"
proof -
  have g: "gate s" using async_inv_reachable [OF assms(1,2)] by (simp add: async_inv_def)
  show ?thesis
  proof (cases "close_act s")
    case None
    with assms(4) consider "a_close s = CWant" "list_ex holds_lock (a_pcs s)"
      | "a_close s = CWait" "\<not> a_flushDone s"
      by (auto simp: close_act_blocked)
    then show ?thesis
    proof cases
      case 1
      then obtain i where "i < length (a_pcs s)" "holds_lock (a_pcs s ! i)"
        by (auto simp: list_ex_iff in_set_conv_nth)
      with 1 show ?thesis using writer_act_locked by blast
    next
      case 2
      then have "a_flush s \<noteq> FExit" "a_done s" using g by (auto simp: gate_def)
      with 2 show ?thesis using flush_act_enabled by blast
    qed
  qed blast
qed

theorem close_not_stuck_witness:
  "\<exists>s. run act (put_run 0 [1] @ replicate 4 (AWriter 0 [2]) @ [AClose]) small_init = Some s \<and> a_close s = CWant \<and>
     close_act s = None \<and>
     (\<exists>i < length (a_pcs s). holds_lock (a_pcs s ! i) \<and> (\<exists>s'. writer_act i [] s = Some s'))"
proof -
  let ?as = "put_run 0 [1] @ replicate 4 (AWriter 0 [2]) @ [AClose]"
  have "reaches act ?as (\<lambda>s. a_close s = CWant \<and> list_ex holds_lock (a_pcs s)) small_init"
    by code_simp
  then obtain s where s: "run act ?as small_init = Some s" "a_close s = CWant" "list_ex holds_lock (a_pcs s)"
    by (auto simp: reaches_iff)
  then have "close_act s = None" by (simp add: close_act_blocked)
  with s show ?thesis using close_not_stuck [OF small_cfg_wf run_reachable [OF s(1)]] by auto
qed

text \<open>The final flush ends. Once the flush goroutine has seen done, each of its steps
  decreases a bound of at most four times the buffer plus the batch, plus two, and no step of any
  other goroutine changes it; until it is zero the flush goroutine has a step, and at zero it has
  exited.\<close>

theorem final_flush_terminates:
  assumes "config_wf cfg" and "reachable act (async_init cfg enc framer n m) s"
    and "final (a_flush s)" and "act a s = Some s'"
  shows "final (a_flush s') \<and>
    (case a of AFlush _ _ \<Rightarrow> flush_left s' < flush_left s | _ \<Rightarrow> flush_left s' = flush_left s) \<and>
    int (flush_left s) \<le> 4 * (bufferSize (a_cfg s) + batchSize (a_cfg s)) + 2 \<and>
    (flush_left s = 0 \<longleftrightarrow> a_flush s = FExit) \<and>
    (a_flush s \<noteq> FExit \<longrightarrow> (\<exists>s1. flush_act ChDone True s = Some s1))"
proof -
  have inv: "shape s" "gate s" using async_inv_reachable [OF assms(1,2)] by (simp_all add: async_inv_def)
  have "final (a_flush s') \<and>
    (case a of AFlush _ _ \<Rightarrow> flush_left s' < flush_left s | _ \<Rightarrow> flush_left s' = flush_left s)"
  proof (cases "\<exists>ch ok. a = AFlush ch ok")
    case True
    then show ?thesis using final_flush_decreases [OF _ assms(3) inv(1)] assms(4) by auto
  next
    case False
    then show ?thesis using final_others [OF inv(2) assms(3,4)] assms(3) by (auto split: action.splits)
  qed
  moreover have "int (flush_left s) \<le> 4 * (bufferSize (a_cfg s) + batchSize (a_cfg s)) + 2"
    using inv(1) assms(3)
    by (auto simp: shape_def config_wf_def flush_left_def final_def split: fpc.splits fcont.splits)
  moreover have "flush_left s = 0 \<longleftrightarrow> a_flush s = FExit"
    by (auto simp: flush_left_def split: fpc.splits)
  moreover have "a_done s" using inv(2) assms(3) by (auto simp: gate_def)
  ultimately show ?thesis using flush_act_enabled [of s True] by blast
qed

theorem final_flush_terminates_witness:
  "\<exists>s s'. run act (put_run 0 [1] @ replicate 5 AClose @ [AFlush ChDone True]) small_init = Some s \<and>
     act (AFlush ChDone True) s = Some s' \<and> final (a_flush s') \<and> flush_left s' < flush_left s"
proof -
  let ?as = "put_run 0 [1] @ replicate 5 AClose @ [AFlush ChDone True]"
  have "reaches act ?as (\<lambda>s. final (a_flush s) \<and> act (AFlush ChDone True) s \<noteq> None) small_init"
    by code_simp
  then obtain s s' where s: "run act ?as small_init = Some s" "final (a_flush s)"
    "act (AFlush ChDone True) s = Some s'" by (auto simp: reaches_iff)
  show ?thesis using final_flush_terminates [OF small_cfg_wf run_reachable [OF s(1)] s(2,3)] s by auto
qed

end
