(* ===== verification/Root_Conn.thy ===== *)
theory Root_Conn
  imports Root_Writer Interleaving "HOL-Library.Multiset"
begin

text \<open>
  \<^verbatim>\<open>writer.go\<close>, the connection: any number of goroutines inside \<^verbatim>\<open>writeFrame\<close> (one in
  asynchronous mode, where only the flush goroutine writes frames; as many as there are callers
  of \<^verbatim>\<open>Write\<close> in synchronous mode), the reconnect goroutine, and \<^verbatim>\<open>Close\<close>, interleaved
  at the grain of their lock sections, dials, writes and closes. Connections are numbered in the
  order they are dialled; a write on a closed connection fails without writing.
\<close>

section \<open>State\<close>

datatype ppc =
    PIdle
  | PGet bytes nat
  | PLock conn bytes nat
  | PDeadline conn bytes nat
  | PWrite conn bytes nat
  | PUnlock "(conn \<times> nat) option"
  | PCount conn nat
  | PHandle conn
  | PClose conn
  | PReport
  | PTrigger

datatype rpc =
    RWait
  | RCheck
  | RTry int
  | RSwap conn int
  | RCloseNew conn int
  | RCloseOld "conn option"
  | RCount
  | RSleep int
  | RExit

datatype xpc = XIdle | XClosed | XDone | XTake "conn option" | XFinished

record kstate =
  k_cfg :: config
  k_conn :: "conn option"
  k_next :: conn
  k_closed :: bool
  k_done :: bool
  k_signal :: "unit chan"
  k_writeMu :: "nat option"
  k_dropped :: u64
  k_reconnects :: u64
  k_pcs :: "ppc list"
  k_rec :: rpc
  k_close :: xpc
  k_wire :: "(conn \<times> chunk) list"
  k_closedConns :: "conn list"
  k_sent :: nat

definition goto_p :: "nat \<Rightarrow> ppc \<Rightarrow> kstate \<Rightarrow> kstate" where
  "goto_p i pc s = s\<lparr>k_pcs := (k_pcs s)[i := pc]\<rparr>"

definition signal :: "kstate \<Rightarrow> kstate" where
  "signal s = (case try_send (k_signal s) () of Some ch \<Rightarrow> s\<lparr>k_signal := ch\<rparr> | None \<Rightarrow> s)"

definition k_put :: "conn \<Rightarrow> chunk \<Rightarrow> kstate \<Rightarrow> kstate" where
  "k_put c ch s = s\<lparr>k_wire := k_wire s @ [(c, ch)]\<rparr>"

section \<open>writeFrame and handleWriteError\<close>

text \<open>
  The step of goroutine \<open>i\<close>. An idle one enters \<^verbatim>\<open>writeFrame\<close> with \<open>f\<close>, carrying
  \<open>n\<close> logs; \<open>io\<close> is what the deadline and the write answer.
\<close>

definition frame_act :: "nat \<Rightarrow> bytes \<Rightarrow> nat \<Rightarrow> write_io \<Rightarrow> kstate \<Rightarrow> kstate option" where
  "frame_act i f n io s =
     (if i < length (k_pcs s) then
        (case k_pcs s ! i of
           PIdle \<Rightarrow> Some (goto_p i (PGet f n) (s\<lparr>k_sent := k_sent s + n\<rparr>))
         | PGet f n \<Rightarrow>
             (case k_conn s of
                None \<Rightarrow> Some (goto_p i PTrigger (s\<lparr>k_dropped := k_dropped s + of_nat n\<rparr>))
              | Some c \<Rightarrow> Some (goto_p i (PLock c f n) s))
         | PLock c f n \<Rightarrow>
             (case k_writeMu s of
                None \<Rightarrow> Some (goto_p i (PDeadline c f n) (s\<lparr>k_writeMu := Some i\<rparr>))
              | Some _ \<Rightarrow> None)
         | PDeadline c f n \<Rightarrow>
             (case io of
                DeadlineFails _ \<Rightarrow> Some (goto_p i (PUnlock (Some (c, n))) s)
              | _ \<Rightarrow> Some (goto_p i (PWrite c f n) s))
         | PWrite c f n \<Rightarrow>
             if c \<in> set (k_closedConns s) then Some (goto_p i (PUnlock (Some (c, n))) s)
             else (case io of
                WriteOk \<Rightarrow> Some (goto_p i (PUnlock None) (k_put c (Whole f n) s))
              | WriteFails k _ \<Rightarrow>
                  Some (goto_p i (PUnlock (Some (c, n))) (k_put c (Partial (take k f)) s))
              | DeadlineFails _ \<Rightarrow>
                  Some (goto_p i (PUnlock (Some (c, n))) (k_put c (Partial []) s)))
         | PUnlock r \<Rightarrow>
             Some (goto_p i (case r of None \<Rightarrow> PIdle | Some (c, n) \<Rightarrow> PCount c n) (s\<lparr>k_writeMu := None\<rparr>))
         | PCount c n \<Rightarrow> Some (goto_p i (PHandle c) (s\<lparr>k_dropped := k_dropped s + of_nat n\<rparr>))
         | PHandle c \<Rightarrow>
             if k_conn s \<noteq> Some c then Some (goto_p i PIdle s)
             else Some (goto_p i (PClose c) (s\<lparr>k_conn := None\<rparr>))
         | PClose c \<Rightarrow> Some (goto_p i PReport (s\<lparr>k_closedConns := k_closedConns s @ [c]\<rparr>))
         | PReport \<Rightarrow> Some (goto_p i PTrigger s)
         | PTrigger \<Rightarrow> Some (goto_p i PIdle (signal s)))
      else None)"

section \<open>The reconnect goroutine\<close>

text \<open>\<open>r\<close> is how the attempt goes on after a failure: sleep, or wait for the next signal.\<close>

definition after_failure :: "int \<Rightarrow> kstate \<Rightarrow> rpc" where
  "after_failure attempt s = (if attempt < maxRetries (k_cfg s) then RSleep attempt else RWait)"

text \<open>
  \<open>stop\<close> chooses the \<^verbatim>\<open>done\<close> case of a \<^verbatim>\<open>select\<close> when it is ready; \<open>dials\<close>
  says whether a dial succeeds.
\<close>

definition reconnect_act :: "bool \<Rightarrow> bool \<Rightarrow> kstate \<Rightarrow> kstate option" where
  "reconnect_act stop dials s =
     (case k_rec s of
        RWait \<Rightarrow>
          if stop then (if k_done s then Some (s\<lparr>k_rec := RExit\<rparr>) else None)
          else (case try_recv (k_signal s) of
                  Some (_, ch) \<Rightarrow> Some (s\<lparr>k_signal := drain_signals ch, k_rec := RCheck\<rparr>)
                | None \<Rightarrow> None)
      | RCheck \<Rightarrow> Some (s\<lparr>k_rec := (if k_conn s \<noteq> None then RWait
                                       else if 1 \<le> maxRetries (k_cfg s) then RTry 1 else RWait)\<rparr>)
      | RTry a \<Rightarrow>
          if k_done s then Some (s\<lparr>k_rec := RExit\<rparr>)
          else if dials then Some (s\<lparr>k_next := k_next s + 1, k_rec := RSwap (k_next s) a\<rparr>)
          else Some (s\<lparr>k_rec := after_failure a s\<rparr>)
      | RSwap c a \<Rightarrow>
          if k_closed s then Some (s\<lparr>k_rec := RCloseNew c a\<rparr>)
          else Some (s\<lparr>k_conn := Some c, k_rec := RCloseOld (k_conn s)\<rparr>)
      | RCloseNew c a \<Rightarrow>
          Some (s\<lparr>k_closedConns := k_closedConns s @ [c], k_rec := after_failure a s\<rparr>)
      | RCloseOld old \<Rightarrow>
          Some (case old of
                  None \<Rightarrow> s\<lparr>k_rec := RCount\<rparr>
                | Some c \<Rightarrow> s\<lparr>k_closedConns := k_closedConns s @ [c], k_rec := RCount\<rparr>)
      | RCount \<Rightarrow> Some (s\<lparr>k_reconnects := k_reconnects s + 1, k_rec := RWait\<rparr>)
      | RSleep a \<Rightarrow>
          if stop then (if k_done s then Some (s\<lparr>k_rec := RExit\<rparr>) else None)
          else Some (s\<lparr>k_rec := (if a + 1 \<le> maxRetries (k_cfg s) then RTry (a + 1) else RWait)\<rparr>)
      | RExit \<Rightarrow> None)"

section \<open>Close\<close>

text \<open>
  The teardown part of \<^verbatim>\<open>Close\<close>; \<open>flushed\<close> says that the wait for the flush
  goroutine (in asynchronous mode) is over.
\<close>

definition teardown_act :: "bool \<Rightarrow> kstate \<Rightarrow> kstate option" where
  "teardown_act flushed s =
     (case k_close s of
        XIdle \<Rightarrow> Some (s\<lparr>k_closed := True, k_close := XClosed\<rparr>)
      | XClosed \<Rightarrow> Some (s\<lparr>k_done := True, k_close := XDone\<rparr>)
      | XDone \<Rightarrow>
          if mode (k_cfg s) = ModeAsync \<and> \<not> flushed then None
          else Some (s\<lparr>k_conn := None, k_close := XTake (k_conn s)\<rparr>)
      | XTake oc \<Rightarrow>
          Some (case oc of
                  None \<Rightarrow> s\<lparr>k_close := XFinished\<rparr>
                | Some c \<Rightarrow> s\<lparr>k_closedConns := k_closedConns s @ [c], k_close := XFinished\<rparr>)
      | XFinished \<Rightarrow> None)"

datatype kaction = KFrame nat bytes nat write_io | KReconnect bool bool | KClose bool

fun kact :: "kaction \<Rightarrow> kstate \<Rightarrow> kstate option" where
  "kact (KFrame i f n io) s = frame_act i f n io s"
| "kact (KReconnect stop dials) s = reconnect_act stop dials s"
| "kact (KClose flushed) s = teardown_act flushed s"

text \<open>What \<^verbatim>\<open>New\<close> leaves behind: connection 0 when the first dial succeeded.\<close>

definition conn_init :: "config \<Rightarrow> bool \<Rightarrow> nat \<Rightarrow> kstate" where
  "conn_init cfg dialled m =
     \<lparr>k_cfg = cfg, k_conn = (if dialled then Some 0 else None), k_next = (if dialled then 1 else 0),
      k_closed = False, k_done = False,
      k_signal = \<lparr>buf = (if dialled then [] else [()]), cap = 1\<rparr>, k_writeMu = None,
      k_dropped = 0, k_reconnects = 0, k_pcs = replicate m PIdle, k_rec = RWait, k_close = XIdle,
      k_wire = [], k_closedConns = [], k_sent = 0\<rparr>"

section \<open>Ownership of connections\<close>

text \<open>The connections a goroutine has taken out of the writer or dialled, and must close or install.\<close>

definition p_owns :: "ppc \<Rightarrow> conn list" where
  "p_owns pc = (case pc of PClose c \<Rightarrow> [c] | _ \<Rightarrow> [])"

definition r_owns :: "rpc \<Rightarrow> conn list" where
  "r_owns pc = (case pc of RSwap c _ \<Rightarrow> [c] | RCloseNew c _ \<Rightarrow> [c] | RCloseOld (Some c) \<Rightarrow> [c] | _ \<Rightarrow> [])"

definition x_owns :: "xpc \<Rightarrow> conn list" where
  "x_owns pc = (case pc of XTake (Some c) \<Rightarrow> [c] | _ \<Rightarrow> [])"

lemmas owns_defs = p_owns_def r_owns_def x_owns_def

definition conn_list :: "conn option \<Rightarrow> conn list" where
  "conn_list oc = (case oc of None \<Rightarrow> [] | Some c \<Rightarrow> [c])"

definition holders :: "kstate \<Rightarrow> conn multiset" where
  "holders s = mset (conn_list (k_conn s)) + mset (concat (map p_owns (k_pcs s))) +
     mset (r_owns (k_rec s)) + mset (x_owns (k_close s)) + mset (k_closedConns s)"

definition owned :: "kstate \<Rightarrow> bool" where
  "owned s \<longleftrightarrow> holders s = mset [0..<k_next s]"

definition teardown_inv :: "kstate \<Rightarrow> bool" where
  "teardown_inv s \<longleftrightarrow> (k_closed s \<longleftrightarrow> k_close s \<noteq> XIdle) \<and>
     (k_done s \<longleftrightarrow> k_close s \<noteq> XIdle \<and> k_close s \<noteq> XClosed) \<and>
     ((k_close s = XFinished \<or> (\<exists>oc. k_close s = XTake oc)) \<longrightarrow> k_conn s = None)"

lemma mset_concat_update:
  "i < length xs \<Longrightarrow> mset (concat (map f (xs[i := x]))) + mset (f (xs ! i)) =
     mset (concat (map f xs)) + mset (f x)"
  by (induction xs arbitrary: i) (auto split: nat.splits)

lemma goto_p_fields [simp]:
  "k_conn (goto_p i pc s) = k_conn s" "k_next (goto_p i pc s) = k_next s"
  "k_rec (goto_p i pc s) = k_rec s" "k_close (goto_p i pc s) = k_close s"
  "k_closed (goto_p i pc s) = k_closed s" "k_done (goto_p i pc s) = k_done s"
  "k_closedConns (goto_p i pc s) = k_closedConns s" "k_wire (goto_p i pc s) = k_wire s"
  "k_writeMu (goto_p i pc s) = k_writeMu s" "k_dropped (goto_p i pc s) = k_dropped s"
  "k_sent (goto_p i pc s) = k_sent s" "k_cfg (goto_p i pc s) = k_cfg s"
  "k_pcs (goto_p i pc s) = (k_pcs s)[i := pc]"
  by (simp_all add: goto_p_def)

lemma signal_fields [simp]:
  "k_conn (signal s) = k_conn s" "k_next (signal s) = k_next s" "k_rec (signal s) = k_rec s"
  "k_close (signal s) = k_close s" "k_closed (signal s) = k_closed s" "k_done (signal s) = k_done s"
  "k_closedConns (signal s) = k_closedConns s" "k_wire (signal s) = k_wire s"
  "k_writeMu (signal s) = k_writeMu s" "k_dropped (signal s) = k_dropped s"
  "k_sent (signal s) = k_sent s" "k_pcs (signal s) = k_pcs s" "k_cfg (signal s) = k_cfg s"
  by (auto simp: signal_def split: option.splits)

text \<open>One case rule for a step of a goroutine inside \<^verbatim>\<open>writeFrame\<close>.\<close>

definition logs_of :: "ppc \<Rightarrow> nat" where
  "logs_of pc = (case pc of PGet _ n \<Rightarrow> n | PLock _ _ n \<Rightarrow> n | PDeadline _ _ n \<Rightarrow> n | PWrite _ _ n \<Rightarrow> n
     | PUnlock (Some (_, n)) \<Rightarrow> n | PCount _ n \<Rightarrow> n | _ \<Rightarrow> 0)"

text \<open>The connection a goroutine may still write to, and the one whose write has failed.\<close>

definition uses_conn :: "ppc \<Rightarrow> conn option" where
  "uses_conn pc = (case pc of PLock c _ _ \<Rightarrow> Some c | PDeadline c _ _ \<Rightarrow> Some c | PWrite c _ _ \<Rightarrow> Some c | _ \<Rightarrow> None)"

definition failed :: "ppc \<Rightarrow> conn option" where
  "failed pc = (case pc of PUnlock (Some (c, _)) \<Rightarrow> Some c | PCount c _ \<Rightarrow> Some c | PHandle c \<Rightarrow> Some c | _ \<Rightarrow> None)"

definition in_write :: "ppc \<Rightarrow> bool" where
  "in_write pc = (case pc of PDeadline _ _ _ \<Rightarrow> True | PWrite _ _ _ \<Rightarrow> True | PUnlock _ \<Rightarrow> True | _ \<Rightarrow> False)"

lemmas ppc_defs = logs_of_def uses_conn_def failed_def in_write_def p_owns_def

lemma holders_goto:
  "i < length (k_pcs s) \<Longrightarrow> holders (goto_p i pc s) + mset (p_owns (k_pcs s ! i)) = holders s + mset (p_owns pc)"
  using mset_concat_update [of i "k_pcs s" p_owns pc] by (simp add: holders_def)

lemma holders_same:
  "i < length (k_pcs s) \<Longrightarrow> p_owns pc = [] \<Longrightarrow> p_owns (k_pcs s ! i) = [] \<Longrightarrow> holders (goto_p i pc s) = holders s"
  using holders_goto [of i s pc] by simp

lemma holders_fields [simp]:
  "holders (s\<lparr>k_sent := x\<rparr>) = holders s" "holders (s\<lparr>k_dropped := d\<rparr>) = holders s"
  "holders (s\<lparr>k_writeMu := m\<rparr>) = holders s" "holders (k_put c ch s) = holders s"
  "holders (signal s) = holders s"
  by (simp_all add: holders_def k_put_def)

lemma k_put_fields [simp]:
  "k_pcs (k_put c ch s) = k_pcs s" "k_next (k_put c ch s) = k_next s" "k_conn (k_put c ch s) = k_conn s"
  "k_closed (k_put c ch s) = k_closed s" "k_close (k_put c ch s) = k_close s" "k_done (k_put c ch s) = k_done s"
  "k_writeMu (k_put c ch s) = k_writeMu s" "k_dropped (k_put c ch s) = k_dropped s"
  "k_sent (k_put c ch s) = k_sent s" "k_rec (k_put c ch s) = k_rec s"
  "k_closedConns (k_put c ch s) = k_closedConns s" "k_wire (k_put c ch s) = k_wire s @ [(c, ch)]"
  by (simp_all add: k_put_def)

lemma frame_act_lt: "frame_act i f n io s = Some s' \<Longrightarrow> i < length (k_pcs s)"
  by (simp add: frame_act_def split: if_splits)

lemma holders_frame:
  assumes "frame_act i f n io s = Some s'"
  shows "holders s' = holders s \<and> k_next s' = k_next s"
proof -
  note i = frame_act_lt [OF assms]
  have pure: "holders s' = holders s \<and> k_next s' = k_next s"
    if "s' = goto_p i pc t" "holders t = holders s" "k_pcs t = k_pcs s" "k_next t = k_next s"
      "p_owns pc = []" "p_owns (k_pcs s ! i) = []" for t pc
    using that i holders_same [of i t pc] by simp
  note defs = frame_act_def p_owns_def
  show ?thesis
  proof (cases "k_pcs s ! i")
    case (PHandle c)
    show ?thesis
    proof (cases "k_conn s = Some c")
      case True
      with assms i PHandle have "s' = goto_p i (PClose c) (s\<lparr>k_conn := None\<rparr>)" by (simp add: defs)
      with True PHandle i show ?thesis
        using mset_concat_update [of i "k_pcs s" p_owns "PClose c"]
        by (simp add: holders_def conn_list_def p_owns_def)
    next
      case False
      with assms i PHandle show ?thesis by (intro pure [of PIdle s]) (simp_all add: defs)
    qed
  next
    case (PClose c)
    with assms i have "s' = goto_p i PReport (s\<lparr>k_closedConns := k_closedConns s @ [c]\<rparr>)" by (simp add: defs)
    with PClose i show ?thesis
      using mset_concat_update [of i "k_pcs s" p_owns PReport]
      by (simp add: holders_def p_owns_def)
  next
    case (PUnlock r)
    with assms i show ?thesis
      by (intro pure [of "case r of None \<Rightarrow> PIdle | Some (c, n) \<Rightarrow> PCount c n" "s\<lparr>k_writeMu := None\<rparr>"])
        (auto simp: defs split: option.splits)
  qed (use assms i in \<open>auto simp: defs holders_same split: option.splits if_splits write_io.splits\<close>)
qed

lemma owned_frame: "frame_act i f n io s = Some s' \<Longrightarrow> owned s \<Longrightarrow> owned s'"
  using holders_frame [of i f n io s s'] by (simp add: owned_def)

lemma after_failure_owns [simp]: "r_owns (after_failure a s) = []"
  by (simp add: after_failure_def r_owns_def)

lemma owned_reconnect:
  assumes "reconnect_act stop dials s = Some s'" and "owned s" and "teardown_inv s"
  shows "owned s'"
proof (cases "k_rec s")
  case (RTry a)
  with assms show ?thesis
    by (auto simp: reconnect_act_def owned_def holders_def r_owns_def after_failure_def
        atLeast0_lessThan_Suc split: if_splits)
next
  case (RSwap c a)
  with assms show ?thesis
    by (auto simp: reconnect_act_def owned_def holders_def r_owns_def conn_list_def add_mset_commute
        split: if_splits option.splits)
next
  case (RCloseOld old)
  with assms show ?thesis
    by (cases old) (auto simp: reconnect_act_def owned_def holders_def r_owns_def)
next
  case (RCloseNew c a)
  with assms show ?thesis
    by (auto simp: reconnect_act_def owned_def holders_def r_owns_def after_failure_def)
qed (use assms in \<open>auto simp: reconnect_act_def owned_def holders_def r_owns_def
    split: if_splits option.splits\<close>)

lemma owned_teardown:
  assumes "teardown_act flushed s = Some s'" and "owned s"
  shows "owned s'"
proof (cases "k_close s")
  case (XTake oc)
  with assms show ?thesis by (cases oc) (auto simp: teardown_act_def owned_def holders_def x_owns_def)
next
  case XDone
  with assms show ?thesis
    by (auto simp: teardown_act_def owned_def holders_def x_owns_def conn_list_def
        split: if_splits option.splits)
qed (use assms in \<open>auto simp: teardown_act_def owned_def holders_def x_owns_def\<close>)

lemma frame_act_shared:
  assumes "frame_act i f n io s = Some s'"
  shows "k_closed s' = k_closed s \<and> k_done s' = k_done s \<and> k_close s' = k_close s \<and> k_rec s' = k_rec s \<and>
    k_next s' = k_next s \<and> (k_conn s' = k_conn s \<or> k_conn s' = None)"
  using assms frame_act_lt [OF assms]
  by (cases "k_pcs s ! i") (auto simp: frame_act_def split: if_splits option.splits write_io.splits)

lemma reconnect_act_shared:
  "reconnect_act stop dials s = Some s' \<Longrightarrow>
     k_closed s' = k_closed s \<and> k_done s' = k_done s \<and> k_close s' = k_close s \<and> k_pcs s' = k_pcs s \<and>
     k_writeMu s' = k_writeMu s \<and> k_dropped s' = k_dropped s \<and> k_wire s' = k_wire s \<and> k_sent s' = k_sent s \<and>
     (k_conn s' = k_conn s \<or> \<not> k_closed s)"
  by (cases "k_rec s") (auto simp: reconnect_act_def split: if_splits option.splits)

lemma teardown_shared:
  assumes "teardown_inv s" and "k_closed s' = k_closed s" "k_done s' = k_done s" "k_close s' = k_close s"
    and "k_conn s' = k_conn s \<or> k_conn s' = None \<or> \<not> k_closed s"
  shows "teardown_inv s'"
proof -
  have "k_close s = XFinished \<or> (\<exists>oc. k_close s = XTake oc) \<Longrightarrow> k_closed s"
    using assms(1) unfolding teardown_inv_def by auto
  with assms show ?thesis unfolding teardown_inv_def by metis
qed

lemma teardown_frame: "frame_act i f n io s = Some s' \<Longrightarrow> teardown_inv s \<Longrightarrow> teardown_inv s'"
  using frame_act_shared [of i f n io s s'] teardown_shared [of s s'] by blast

lemma teardown_reconnect:
  "reconnect_act stop dials s = Some s' \<Longrightarrow> teardown_inv s \<Longrightarrow> teardown_inv s'"
  using reconnect_act_shared [of stop dials s s'] teardown_shared [of s s'] by blast

lemma teardown_teardown: "teardown_act flushed s = Some s' \<Longrightarrow> teardown_inv s \<Longrightarrow> teardown_inv s'"
  by (cases "k_close s") (auto simp: teardown_act_def teardown_inv_def split: if_splits option.splits)

section \<open>Accounting and mutual exclusion\<close>

definition wire_logs :: "(conn \<times> chunk) list \<Rightarrow> nat" where
  "wire_logs ws = (\<Sum>(c, ch) \<leftarrow> ws. frame_logs ch)"

definition k_hand :: "kstate \<Rightarrow> nat" where
  "k_hand s = sum_list (map logs_of (k_pcs s))"

definition k_balance :: "kstate \<Rightarrow> bool" where
  "k_balance s \<longleftrightarrow> (of_nat (k_sent s) :: u64) =
     k_dropped s + of_nat (wire_logs (k_wire s)) + of_nat (k_hand s)"

definition mutex :: "kstate \<Rightarrow> bool" where
  "mutex s \<longleftrightarrow> (\<forall>i < length (k_pcs s). in_write (k_pcs s ! i) \<longleftrightarrow> k_writeMu s = Some i) \<and>
     (\<forall>i. k_writeMu s = Some i \<longrightarrow> i < length (k_pcs s))"

text \<open>What a step does to the goroutine's own counter, the write lock and the accounts.\<close>

lemma frame_act_local:
  assumes "frame_act i f n io s = Some s'"
  shows "\<exists>pc. k_pcs s' = (k_pcs s)[i := pc] \<and>
    ((in_write pc = in_write (k_pcs s ! i) \<and> k_writeMu s' = k_writeMu s) \<or>
     (in_write pc \<and> k_writeMu s = None \<and> k_writeMu s' = Some i) \<or>
     (in_write (k_pcs s ! i) \<and> \<not> in_write pc \<and> k_writeMu s' = None)) \<and>
    k_dropped s' + of_nat (wire_logs (k_wire s')) + of_nat (logs_of pc) + of_nat (k_sent s) =
    k_dropped s + of_nat (wire_logs (k_wire s)) + of_nat (logs_of (k_pcs s ! i)) + of_nat (k_sent s')"
  using assms frame_act_lt [OF assms]
  by (cases "k_pcs s ! i")
    (auto simp: frame_act_def in_write_def logs_of_def wire_logs_def frame_logs_def
      split: if_splits option.splits write_io.splits)

lemma mutex_frame:
  assumes "frame_act i f n io s = Some s'" and m: "mutex s"
  shows "mutex s'"
proof -
  obtain pc where pc: "k_pcs s' = (k_pcs s)[i := pc]"
    "(in_write pc = in_write (k_pcs s ! i) \<and> k_writeMu s' = k_writeMu s) \<or>
     (in_write pc \<and> k_writeMu s = None \<and> k_writeMu s' = Some i) \<or>
     (in_write (k_pcs s ! i) \<and> \<not> in_write pc \<and> k_writeMu s' = None)"
    using frame_act_local [OF assms(1)] by blast
  have i: "i < length (k_pcs s)" using frame_act_lt [OF assms(1)] .
  then have "in_write (k_pcs s ! i) \<longleftrightarrow> k_writeMu s = Some i" using m by (simp add: mutex_def)
  with pc i m show ?thesis unfolding mutex_def by (auto simp: nth_list_update)
qed

lemma sum_list_replace:
  "i < length xs \<Longrightarrow> (of_nat (sum_list (map f (xs[i := x]))) :: u64) + of_nat (f (xs ! i)) =
     of_nat (sum_list (map f xs)) + of_nat (f x)"
proof (induction xs arbitrary: i)
  case (Cons y ys)
  then show ?case by (cases i) (auto simp: add.assoc)
qed simp

lemma balance_step:
  assumes "(d' :: u64) + l' + p + x = d + l + q + x'" and "h' + q = h + p" and "x = d + l + h"
  shows "x' = d' + l' + h'"
proof -
  have "x' = d' + l' + p + x - (d + l + q)" using assms(1) by simp
  also have "\<dots> = d' + l' + h'" using assms(2,3) by (simp add: algebra_simps)
  finally show ?thesis .
qed

lemma k_balance_frame:
  assumes "frame_act i f n io s = Some s'" and "k_balance s"
  shows "k_balance s'"
proof -
  obtain pc where pc: "k_pcs s' = (k_pcs s)[i := pc]"
    and eq: "k_dropped s' + of_nat (wire_logs (k_wire s')) + of_nat (logs_of pc) + of_nat (k_sent s) =
      k_dropped s + of_nat (wire_logs (k_wire s)) + of_nat (logs_of (k_pcs s ! i)) + of_nat (k_sent s')"
    using frame_act_local [OF assms(1)] by blast
  have "(of_nat (k_hand s') :: u64) + of_nat (logs_of (k_pcs s ! i)) = of_nat (k_hand s) + of_nat (logs_of pc)"
    using sum_list_replace [OF frame_act_lt [OF assms(1)], of logs_of pc] by (simp add: k_hand_def pc)
  from balance_step [OF eq this] assms(2) show ?thesis by (simp add: k_balance_def)
qed

definition conn_inv :: "kstate \<Rightarrow> bool" where
  "conn_inv s \<longleftrightarrow> owned s \<and> teardown_inv s \<and> mutex s \<and> k_balance s"

lemma teardown_act_shared:
  "teardown_act flushed s = Some s' \<Longrightarrow>
     k_pcs s' = k_pcs s \<and> k_writeMu s' = k_writeMu s \<and> k_dropped s' = k_dropped s \<and>
     k_wire s' = k_wire s \<and> k_sent s' = k_sent s \<and> k_rec s' = k_rec s \<and> k_next s' = k_next s \<and>
     (k_conn s' = k_conn s \<or> k_conn s' = None)"
  by (cases "k_close s") (auto simp: teardown_act_def split: if_splits option.splits)

lemma conn_inv_act: "conn_inv s \<Longrightarrow> kact a s = Some s' \<Longrightarrow> conn_inv s'"
proof (cases a)
  case (KFrame i f n io)
  moreover assume "conn_inv s" "kact a s = Some s'"
  ultimately show ?thesis
    using owned_frame teardown_frame mutex_frame k_balance_frame by (simp add: conn_inv_def)
next
  case (KReconnect stop dials)
  moreover assume "conn_inv s" "kact a s = Some s'"
  ultimately show ?thesis
    using owned_reconnect [of stop dials s s'] teardown_reconnect [of stop dials s s']
      reconnect_act_shared [of stop dials s s']
    by (simp add: conn_inv_def mutex_def k_balance_def k_hand_def)
next
  case (KClose flushed)
  moreover assume "conn_inv s" "kact a s = Some s'"
  ultimately show ?thesis
    using owned_teardown [of flushed s s'] teardown_teardown [of flushed s s']
      teardown_act_shared [of flushed s s']
    by (simp add: conn_inv_def mutex_def k_balance_def k_hand_def)
qed

interpretation conns: step_invariant kact conn_inv
  by unfold_locales (rule conn_inv_act)

lemma conn_inv_init: "conn_inv (conn_init cfg dialled m)"
proof -
  have "concat (map p_owns (replicate m PIdle)) = []" by (simp add: p_owns_def)
  then show ?thesis
    by (auto simp: conn_inv_def conn_init_def owned_def holders_def owns_defs conn_list_def teardown_inv_def
        mutex_def in_write_def k_balance_def k_hand_def wire_logs_def logs_of_def sum_list_replicate)
qed

lemma conn_inv_reachable: "reachable kact (conn_init cfg dialled m) s \<Longrightarrow> conn_inv s"
  by (rule conns.reachable_inv [OF _ conn_inv_init])

section \<open>The byte stream of a single writer\<close>

definition stream :: "(conn \<times> chunk) list \<Rightarrow> conn \<Rightarrow> chunk list" where
  "stream ws c = map snd (filter (\<lambda>(c', _). c' = c) ws)"

definition is_whole :: "chunk \<Rightarrow> bool" where
  "is_whole ch = (case ch of Whole _ _ \<Rightarrow> True | Partial _ \<Rightarrow> False)"

definition torn :: "(conn \<times> chunk) list \<Rightarrow> conn \<Rightarrow> bool" where
  "torn ws c \<longleftrightarrow> \<not> list_all is_whole (stream ws c)"

text \<open>A stream is in sync up to its last write: only the last chunk may be a partial frame.\<close>

definition tidy :: "chunk list \<Rightarrow> bool" where
  "tidy chs \<longleftrightarrow> list_all is_whole (butlast chs)"

lemma stream_snoc: "stream (ws @ [(c', ch)]) c = stream ws c @ (if c' = c then [ch] else [])"
  by (simp add: stream_def)

lemma torn_snoc: "torn (ws @ [(c', ch)]) c \<longleftrightarrow> torn ws c \<or> (c' = c \<and> \<not> is_whole ch)"
  by (auto simp: torn_def stream_snoc)

lemma torn_Nil [simp]: "\<not> torn [] c"
  by (simp add: torn_def stream_def)

lemma tidy_snoc: "\<not> torn ws c \<Longrightarrow> tidy (stream (ws @ [(c, ch)]) c)"
  by (simp add: tidy_def stream_snoc torn_def)

lemma torn_mem: "torn ws c \<Longrightarrow> c \<in> fst ` set ws"
  by (force simp: torn_def stream_def list_all_iff)

definition wire_below :: "(conn \<times> chunk) list \<Rightarrow> conn \<Rightarrow> bool" where
  "wire_below ws n \<longleftrightarrow> list_all (\<lambda>x. fst x < n) ws"

lemma wire_below_simps [simp]:
  "wire_below [] n" "wire_below (ws @ [(c, ch)]) n \<longleftrightarrow> wire_below ws n \<and> c < n"
  "wire_below ws n \<Longrightarrow> wire_below ws (Suc n)" "wire_below ws n \<Longrightarrow> \<not> torn ws n"
  by (auto simp: wire_below_def list_all_iff less_SucI dest!: torn_mem)

definition single :: "kstate \<Rightarrow> ppc \<Rightarrow> bool" where
  "single s pc \<longleftrightarrow> k_pcs s = [pc] \<and>
     (\<forall>c. torn (k_wire s) c \<longrightarrow> k_conn s = Some c \<longrightarrow> failed pc = Some c) \<and>
     (\<forall>c. uses_conn pc = Some c \<longrightarrow> \<not> torn (k_wire s) c \<and> c < k_next s) \<and>
     (\<forall>c. tidy (stream (k_wire s) c)) \<and> wire_below (k_wire s) (k_next s) \<and>
     (\<forall>c. k_conn s = Some c \<longrightarrow> c < k_next s) \<and>
     (\<forall>c a. k_rec s = RSwap c a \<longrightarrow> c < k_next s \<and> \<not> torn (k_wire s) c \<and> uses_conn pc \<noteq> Some c \<and>
        k_conn s \<noteq> Some c)"

text \<open>What a step does to the wire: nothing, take up the current connection, or append a chunk.\<close>

lemma frame_act_stream:
  assumes "frame_act i f n io s = Some s'"
  defines "pc \<equiv> k_pcs s ! i"
  shows "\<exists>pc'. k_pcs s' = (k_pcs s)[i := pc'] \<and>
    ((k_wire s' = k_wire s \<and> (k_conn s' = k_conn s \<or> k_conn s' = None) \<and>
      (failed pc' = failed pc \<or> k_conn s' \<noteq> failed pc \<or> failed pc = None) \<and>
      (uses_conn pc' = uses_conn pc \<or> uses_conn pc' = None)) \<or>
     (\<exists>c. k_wire s' = k_wire s \<and> k_conn s = Some c \<and> k_conn s' = Some c \<and> failed pc = None \<and>
      uses_conn pc' = Some c) \<or>
     (\<exists>c ch. uses_conn pc = Some c \<and> k_wire s' = k_wire s @ [(c, ch)] \<and> k_conn s' = k_conn s \<and>
      uses_conn pc' = None \<and> failed pc = None \<and> (is_whole ch \<or> failed pc' = Some c)))"
  using assms(1) frame_act_lt [OF assms(1)] unfolding pc_def
  by (cases "k_pcs s ! i")
    (auto simp: frame_act_def uses_conn_def failed_def is_whole_def
      split: if_splits option.splits write_io.splits)

lemma single_frame:
  assumes "frame_act i f n io s = Some s'" and inv: "single s pc"
  shows "\<exists>pc'. single s' pc'"
proof -
  have "k_pcs s = [pc]" using inv by (simp add: single_def)
  then have pcs: "k_pcs s = [pc]" "i = 0" "k_pcs s ! i = pc" using frame_act_lt [OF assms(1)] by auto
  have sh: "k_next s' = k_next s" "k_rec s' = k_rec s" using frame_act_shared [OF assms(1)] by auto
  obtain pc' where pc': "k_pcs s' = [pc']"
    and "(k_wire s' = k_wire s \<and> (k_conn s' = k_conn s \<or> k_conn s' = None) \<and>
      (failed pc' = failed pc \<or> k_conn s' \<noteq> failed pc \<or> failed pc = None) \<and>
      (uses_conn pc' = uses_conn pc \<or> uses_conn pc' = None)) \<or>
     (\<exists>c. k_wire s' = k_wire s \<and> k_conn s = Some c \<and> k_conn s' = Some c \<and> failed pc = None \<and>
      uses_conn pc' = Some c) \<or>
     (\<exists>c ch. uses_conn pc = Some c \<and> k_wire s' = k_wire s @ [(c, ch)] \<and> k_conn s' = k_conn s \<and>
      uses_conn pc' = None \<and> failed pc = None \<and> (is_whole ch \<or> failed pc' = Some c))"
    using frame_act_stream [OF assms(1)] unfolding pcs(3) by (auto simp: pcs)
  then consider (move) "k_wire s' = k_wire s" "k_conn s' = k_conn s \<or> k_conn s' = None"
      "failed pc' = failed pc \<or> k_conn s' \<noteq> failed pc \<or> failed pc = None"
      "uses_conn pc' = uses_conn pc \<or> uses_conn pc' = None"
    | (take) c where "k_wire s' = k_wire s" "k_conn s = Some c" "k_conn s' = Some c" "failed pc = None"
      "uses_conn pc' = Some c"
    | (put) c ch where "uses_conn pc = Some c" "k_wire s' = k_wire s @ [(c, ch)]" "k_conn s' = k_conn s"
      "uses_conn pc' = None" "failed pc = None" "is_whole ch \<or> failed pc' = Some c"
    by metis
  then have "single s' pc'"
  proof cases
    case move
    with inv pc' sh show ?thesis unfolding single_def by (metis option.distinct(1))
  next
    case take
    with inv pc' sh show ?thesis by (auto simp: single_def)
  next
    case (put c ch)
    have "tidy (stream (k_wire s @ [(c, ch)]) d)" for d
      using inv put(1) tidy_snoc [of "k_wire s" c ch] by (cases "d = c") (auto simp: single_def stream_snoc)
    with put inv pc' sh show ?thesis by (auto simp: single_def torn_snoc)
  qed
  then show ?thesis ..
qed

lemma single_reconnect: "reconnect_act stop dials s = Some s' \<Longrightarrow> single s pc \<Longrightarrow> single s' pc"
proof (cases "k_rec s")
  case (RTry a)
  have fresh: "\<not> torn (k_wire s) (k_next s)" if "single s pc"
    using that by (simp add: single_def)
  assume "reconnect_act stop dials s = Some s'" and "single s pc"
  with fresh RTry show ?thesis
    by (auto simp: reconnect_act_def single_def less_Suc_eq after_failure_def split: if_splits)
qed (auto simp: reconnect_act_def single_def after_failure_def split: if_splits option.splits)

lemma single_teardown: "teardown_act flushed s = Some s' \<Longrightarrow> single s pc \<Longrightarrow> single s' pc"
  using teardown_act_shared [of flushed s s'] by (auto simp: single_def)

interpretation single_writer: step_invariant kact "\<lambda>s. \<exists>pc. single s pc"
proof
  fix s a s'
  assume "\<exists>pc. single s pc" and "kact a s = Some s'"
  then show "\<exists>pc. single s' pc"
    using single_frame single_reconnect single_teardown by (cases a) (simp_all, blast+)
qed

lemma single_init: "\<exists>pc. single (conn_init cfg dialled 1) pc"
  by (rule exI [of _ PIdle])
    (auto simp: single_def conn_init_def uses_conn_def failed_def tidy_def stream_def)

section \<open>Properties\<close>

lemma owned_disjoint:
  assumes "owned s"
  shows "distinct (k_closedConns s)" and "k_conn s = Some c \<Longrightarrow> c \<notin> set (k_closedConns s)"
proof -
  let ?rest = "mset (conn_list (k_conn s)) + mset (concat (map p_owns (k_pcs s))) +
     mset (r_owns (k_rec s)) + mset (x_owns (k_close s))"
  have one: "count (mset [0..<k_next s]) c \<le> 1" for c
    using distinct_count_atmost_1 [of "[0..<k_next s]"] by (metis distinct_upt le_numeral_extra(4) zero_le)
  have h: "mset [0..<k_next s] = ?rest + mset (k_closedConns s)"
    using assms by (simp add: owned_def holders_def)
  have le: "count ?rest c + count (mset (k_closedConns s)) c \<le> 1" for c
    using one [of c] unfolding h by simp
  show "distinct (k_closedConns s)"
    unfolding distinct_count_atmost_1
    by (metis le add_leD2 count_mset_0_iff le_SucE le_zero_eq One_nat_def)
  show "c \<notin> set (k_closedConns s)" if "k_conn s = Some c"
  proof -
    have "1 \<le> count ?rest c" using that by (simp add: conn_list_def)
    then have "count (mset (k_closedConns s)) c = 0" using le [of c] by linarith
    then show ?thesis by (simp add: count_mset_0_iff)
  qed
qed

lemma owned_below: "owned s \<Longrightarrow> c \<in> set (k_closedConns s) \<Longrightarrow> c < k_next s"
proof -
  assume "owned s" and "c \<in> set (k_closedConns s)"
  moreover from this have "c \<in># holders s" by (simp add: holders_def)
  ultimately have "c \<in># mset [0..<k_next s]" by (simp only: owned_def)
  then show ?thesis by simp
qed

text \<open>Writer 0 fails half-way, then reconnects once and writes a whole frame.\<close>

definition retry_run :: "kaction list" where
  "retry_run = replicate 4 (KFrame 0 [1, 2] 1 (WriteFails 1 [])) @
     replicate 7 (KFrame 0 [1, 2] 1 (WriteFails 1 [])) @
     replicate 6 (KReconnect False True) @ replicate 6 (KFrame 0 [3] 1 WriteOk)"

definition shutdown_run :: "kaction list" where
  "shutdown_run = retry_run @ replicate 4 (KClose True) @ [KReconnect True False]"

text \<open>C4: connections are never mixed up. In every interleaving of frame writers, the reconnect
  goroutine and Close, each connection is closed at most once, only dialled connections are
  closed, and the connection the writer currently holds has not been closed.\<close>

theorem conn_ownership:
  assumes "reachable kact (conn_init cfg dialled m) s"
  shows "distinct (k_closedConns s) \<and> (\<forall>c \<in> set (k_closedConns s). c < k_next s) \<and>
    (\<forall>c. k_conn s = Some c \<longrightarrow> c \<notin> set (k_closedConns s))"
proof -
  have "owned s" using conn_inv_reachable [OF assms] by (simp add: conn_inv_def)
  then show ?thesis using owned_disjoint owned_below by blast
qed

theorem conn_ownership_witness:
  "\<exists>s. run kact retry_run (conn_init defaultConfig True 1) = Some s \<and> k_closedConns s = [0] \<and>
     k_conn s = Some 1 \<and> 1 \<notin> set (k_closedConns s)"
proof -
  have "reaches kact retry_run (\<lambda>s. k_closedConns s = [0] \<and> k_conn s = Some 1) (conn_init defaultConfig True 1)"
    by code_simp
  then obtain s where s: "run kact retry_run (conn_init defaultConfig True 1) = Some s"
    "k_closedConns s = [0]" "k_conn s = Some 1" by (auto simp: reaches_iff)
  show ?thesis using conn_ownership [OF run_reachable [OF s(1)]] s by blast
qed

text \<open>No connection leaks. When Close has returned, the reconnect goroutine has exited and no
  goroutine is inside writeFrame, every connection ever dialled has been closed exactly once.\<close>

theorem conn_no_leak:
  assumes "reachable kact (conn_init cfg dialled m) s" and "k_close s = XFinished" and "k_rec s = RExit"
    and "\<forall>pc \<in> set (k_pcs s). pc = PIdle"
  shows "mset (k_closedConns s) = mset [0..<k_next s] \<and> k_conn s = None"
proof -
  have inv: "owned s" "teardown_inv s" using conn_inv_reachable [OF assms(1)] by (simp_all add: conn_inv_def)
  have none: "k_conn s = None" using inv(2) assms(2) by (simp add: teardown_inv_def)
  moreover have "concat (map p_owns (k_pcs s)) = []" using assms(4) by (auto simp: p_owns_def)
  then have "holders s = mset (k_closedConns s)"
    using none assms(2,3) by (simp add: holders_def conn_list_def r_owns_def x_owns_def)
  ultimately show ?thesis using inv(1) by (simp add: owned_def)
qed

theorem conn_no_leak_witness:
  "\<exists>s. run kact shutdown_run (conn_init defaultConfig True 1) = Some s \<and>
     mset (k_closedConns s) = mset [0..<k_next s] \<and> k_next s = 2"
proof -
  have "reaches kact shutdown_run (\<lambda>s. k_close s = XFinished \<and> k_rec s = RExit \<and> k_pcs s = [PIdle] \<and> k_next s = 2)
      (conn_init defaultConfig True 1)"
    by code_simp
  then obtain s where s: "run kact shutdown_run (conn_init defaultConfig True 1) = Some s"
    "k_close s = XFinished" "k_rec s = RExit" "k_pcs s = [PIdle]" "k_next s = 2" by (auto simp: reaches_iff)
  show ?thesis using conn_no_leak [OF run_reachable [OF s(1)] s(2,3)] s by auto
qed

text \<open>With one goroutine writing frames, which is how asynchronous mode runs, every connection
  carries whole frames only, except that the very last write on it may be a partial frame; a new
  connection never continues a torn one.\<close>

theorem single_writer_stream:
  assumes "reachable kact (conn_init cfg dialled 1) s"
  shows "tidy (stream (k_wire s) c) \<and>
    (k_conn s = Some c \<and> k_pcs s = [PIdle] \<longrightarrow> list_all is_whole (stream (k_wire s) c))"
  using single_writer.reachable_inv [OF assms single_init]
  by (auto simp: single_def torn_def failed_def)

theorem single_writer_stream_witness:
  "\<exists>s. run kact retry_run (conn_init defaultConfig True 1) = Some s \<and>
     stream (k_wire s) 0 = [Partial [1]] \<and> stream (k_wire s) 1 = [Whole [3] 1] \<and> tidy (stream (k_wire s) 0) \<and>
     list_all is_whole (stream (k_wire s) 1)"
proof -
  have "reaches kact retry_run (\<lambda>s. stream (k_wire s) 0 = [Partial [1]] \<and> stream (k_wire s) 1 = [Whole [3] 1] \<and>
      k_pcs s = [PIdle] \<and> k_conn s = Some 1) (conn_init defaultConfig True 1)"
    by code_simp
  then obtain s where s: "run kact retry_run (conn_init defaultConfig True 1) = Some s"
    "stream (k_wire s) 0 = [Partial [1]]" "stream (k_wire s) 1 = [Whole [3] 1]" "k_pcs s = [PIdle]"
    "k_conn s = Some 1" by (auto simp: reaches_iff)
  show ?thesis
    using single_writer_stream [OF run_reachable [OF s(1)], of 0]
      single_writer_stream [OF run_reachable [OF s(1)], of 1] s by blast
qed

text \<open>C13: with two goroutines inside writeFrame, which synchronous mode allows, a connection can
  carry a whole frame after a torn one: a writer that fetched the connection before the first
  write failed gets the write lock before the failed connection is closed.\<close>

theorem concurrent_writers_tear_stream:
  "\<exists>s. reachable kact (conn_init defaultConfig True 2) s \<and>
     stream (k_wire s) 0 = [Partial [1], Whole [3, 4] 1] \<and> \<not> tidy (stream (k_wire s) 0)"
proof -
  let ?as = "replicate 2 (KFrame 1 [3, 4] 1 WriteOk) @ replicate 6 (KFrame 0 [1, 2] 1 (WriteFails 1 [])) @
     replicate 3 (KFrame 1 [3, 4] 1 WriteOk)"
  have "reaches kact ?as (\<lambda>s. stream (k_wire s) 0 = [Partial [1], Whole [3, 4] 1]) (conn_init defaultConfig True 2)"
    by code_simp
  then obtain s where s: "run kact ?as (conn_init defaultConfig True 2) = Some s"
    "stream (k_wire s) 0 = [Partial [1], Whole [3, 4] 1]" by (auto simp: reaches_iff)
  have "\<not> tidy [Partial [1], Whole [3, 4] 1]" by (simp add: tidy_def is_whole_def)
  with s run_reachable [OF s(1)] show ?thesis by metis
qed

text \<open>Frame writers are accounted for under every interleaving: the logs of all frames handed
  to writeFrame are in whole frames on some connection, counted as dropped, or in the hands of a
  goroutine still inside it; and a goroutine waits for the write lock only while another one holds
  it that can take its next step.\<close>

theorem frame_accounting:
  assumes "reachable kact (conn_init cfg dialled m) s"
  shows "(of_nat (k_sent s) :: u64) = k_dropped s + of_nat (wire_logs (k_wire s)) + of_nat (k_hand s) \<and>
    (\<forall>i f n io. i < length (k_pcs s) \<and> frame_act i f n io s = None \<longrightarrow>
       (\<exists>j < length (k_pcs s). j \<noteq> i \<and> in_write (k_pcs s ! j) \<and> (\<exists>s'. frame_act j f n io s = Some s')))"
proof -
  have inv: "mutex s" "k_balance s" using conn_inv_reachable [OF assms] by (simp_all add: conn_inv_def)
  have "\<exists>j < length (k_pcs s). j \<noteq> i \<and> in_write (k_pcs s ! j) \<and> (\<exists>s'. frame_act j f n io s = Some s')"
    if i: "i < length (k_pcs s)" and blocked: "frame_act i f n io s = None" for i f n io
  proof -
    have pc: "\<not> in_write (k_pcs s ! i)" "k_writeMu s \<noteq> None"
      using i blocked
      by (auto simp: frame_act_def in_write_def split: ppc.splits option.splits if_splits write_io.splits)
    then obtain j where j: "k_writeMu s = Some j" by blast
    then have jl: "j < length (k_pcs s)" "in_write (k_pcs s ! j)" using inv(1) by (auto simp: mutex_def)
    moreover have "\<exists>s'. frame_act j f n io s = Some s'"
      using jl by (auto simp: frame_act_def in_write_def split: ppc.splits write_io.splits)
    ultimately show ?thesis using pc by blast
  qed
  then show ?thesis using inv(2) by (simp add: k_balance_def)
qed

theorem frame_accounting_witness:
  "\<exists>s. run kact retry_run (conn_init defaultConfig True 1) = Some s \<and> k_sent s = 2 \<and> k_dropped s = 1 \<and>
     (of_nat (k_sent s) :: u64) = k_dropped s + of_nat (wire_logs (k_wire s)) + of_nat (k_hand s)"
proof -
  have "reaches kact retry_run (\<lambda>s. k_sent s = 2 \<and> k_dropped s = 1) (conn_init defaultConfig True 1)"
    by code_simp
  then obtain s where s: "run kact retry_run (conn_init defaultConfig True 1) = Some s"
    "k_sent s = 2" "k_dropped s = 1" by (auto simp: reaches_iff)
  show ?thesis using frame_accounting [OF run_reachable [OF s(1)]] s by blast
qed

end
