(* ===== verification/Root_System.thy ===== *)
theory Root_System
  imports Root_Async Root_Conn
begin

text \<open>
  \<^verbatim>\<open>writer.go\<close>, asynchronous mode, as a whole: the queue of \<open>Root_Async\<close> and the connection of
  \<open>Root_Conn\<close> composed. The two share the flush goroutine, whose \<^verbatim>\<open>flush\<close> calls \<^verbatim>\<open>writeFrame\<close>, and
  \<^verbatim>\<open>Close\<close>, whose steps set the flags both read and tear the connection down once the final flush is
  over; every other step belongs to one of them. A run of the whole projects to a run of each part, so
  what was shown of the parts holds here, and the coupling gives what neither says alone: the
  bytes on the sockets are the accepted payloads in order, every log is on a socket or counted.
\<close>

section \<open>The composed state\<close>

text \<open>
  \<open>y_dropped\<close> is the one counter \<^verbatim>\<open>droppedLogs\<close>; the counters of the parts hold the share each adds.
  \<open>y_frame\<close> is the frame while the flush goroutine is inside \<^verbatim>\<open>writeFrame\<close>. \<open>y_ok\<close> and \<open>y_sent\<close>
  are history: whether that frame has been written completely, and the batches that were.
\<close>

record system =
  y_a :: astate
  y_k :: kstate
  y_dropped :: u64
  y_frame :: "bytes option"
  y_ok :: bool
  y_sent :: "bytes list list"

definition lift_a :: "astate \<Rightarrow> system \<Rightarrow> system" where
  "lift_a a s = s\<lparr>y_a := a, y_dropped := y_dropped s + (a_dropped a - a_dropped (y_a s))\<rparr>"

definition lift_k :: "kstate \<Rightarrow> system \<Rightarrow> system" where
  "lift_k k s = s\<lparr>y_k := k, y_dropped := y_dropped s + (k_dropped k - k_dropped (y_k s))\<rparr>"

definition writes_whole :: "ppc \<Rightarrow> write_io \<Rightarrow> kstate \<Rightarrow> bool" where
  "writes_whole pc io k = (case pc of PWrite c _ _ \<Rightarrow> c \<notin> set (k_closedConns k) \<and> io = WriteOk | _ \<Rightarrow> False)"

text \<open>The frame \<^verbatim>\<open>flush\<close> is about to hand to \<^verbatim>\<open>writeFrame\<close>: none for an empty batch or a framer error.\<close>

definition entering :: "astate \<Rightarrow> (bytes list \<times> bytes) option" where
  "entering a =
     (case a_flush a of
        FFlush b k \<Rightarrow>
          if length b = 0 then None
          else (case a_framer a [] b of Inl _ \<Rightarrow> None | Inr f \<Rightarrow> Some (b, f))
      | _ \<Rightarrow> None)"

definition batch_of :: "astate \<Rightarrow> bytes list" where
  "batch_of a = (case a_flush a of FFlush b _ \<Rightarrow> b | _ \<Rightarrow> [])"

text \<open>
  A step of the flush goroutine: outside \<^verbatim>\<open>flush\<close>, entering \<^verbatim>\<open>writeFrame\<close>, inside it, or returning
  from it. The drops of the write are counted inside, so returning adds nothing.
\<close>

definition flush_sys :: "fchoice \<Rightarrow> write_io \<Rightarrow> system \<Rightarrow> system option" where
  "flush_sys ch io s =
     (case y_frame s of
        None \<Rightarrow>
          (case entering (y_a s) of
             None \<Rightarrow> map_option (\<lambda>a. lift_a a s) (flush_act ch False (y_a s))
           | Some (b, f) \<Rightarrow>
               map_option (\<lambda>k. (lift_k k s)\<lparr>y_frame := Some f\<rparr>) (frame_act 0 f (length b) io (y_k s)))
      | Some f \<Rightarrow>
          if k_pcs (y_k s) ! 0 = PIdle then
            map_option (\<lambda>a. s\<lparr>y_a := a, y_frame := None, y_ok := False\<rparr>) (flush_act ch (y_ok s) (y_a s))
          else
            map_option (\<lambda>k.
                if writes_whole (k_pcs (y_k s) ! 0) io (y_k s)
                then (lift_k k s)\<lparr>y_ok := True, y_sent := y_sent s @ [batch_of (y_a s)]\<rparr>
                else lift_k k s)
              (frame_act 0 f (length (batch_of (y_a s))) io (y_k s)))"

text \<open>
  \<^verbatim>\<open>Close\<close>: the flag and the channel \<^verbatim>\<open>done\<close> are set for both parts at once; the connection is torn
  down after the wait for the flush goroutine, and \<^verbatim>\<open>Close\<close> returns with it.
\<close>

definition close_sys :: "system \<Rightarrow> system option" where
  "close_sys s =
     (case close_act (y_a s) of
        None \<Rightarrow> None
      | Some a \<Rightarrow>
          (case a_close (y_a s) of
             CIdle \<Rightarrow> map_option (\<lambda>k. lift_a a (lift_k k s)) (teardown_act False (y_k s))
           | CCloseDone \<Rightarrow> map_option (\<lambda>k. lift_a a (lift_k k s)) (teardown_act False (y_k s))
           | CTeardown \<Rightarrow>
               map_option (\<lambda>k. if k_close k = XFinished then lift_a a (lift_k k s) else lift_k k s)
                 (teardown_act True (y_k s))
           | _ \<Rightarrow> Some (lift_a a s)))"

datatype yaction = YWriter nat bytes | YSync nat | YClose | YFlush fchoice write_io | YReconnect bool bool

fun sysact :: "yaction \<Rightarrow> system \<Rightarrow> system option" where
  "sysact (YWriter i p) s = map_option (\<lambda>a. lift_a a s) (writer_act i p (y_a s))"
| "sysact (YSync j) s = map_option (\<lambda>a. lift_a a s) (sync_act j (y_a s))"
| "sysact YClose s = close_sys s"
| "sysact (YFlush ch io) s = flush_sys ch io s"
| "sysact (YReconnect stop dials) s = map_option (\<lambda>k. lift_k k s) (reconnect_act stop dials (y_k s))"

text \<open>
  What \<^verbatim>\<open>New\<close> starts in asynchronous mode: \<open>n\<close> writers, \<open>m\<close> callers of \<^verbatim>\<open>Sync\<close>, one goroutine that
  writes frames.
\<close>

definition system_init :: "config \<Rightarrow> encode_fn \<Rightarrow> frame_fn \<Rightarrow> nat \<Rightarrow> nat \<Rightarrow> bool \<Rightarrow> system" where
  "system_init cfg enc framer n m dialled =
     \<lparr>y_a = async_init cfg enc framer n m, y_k = conn_init cfg dialled 1, y_dropped = 0,
      y_frame = None, y_ok = False, y_sent = []\<rparr>"

section \<open>Projection to the parts\<close>

lemma lift_simps [simp]:
  "y_a (lift_a a s) = a" "y_k (lift_a a s) = y_k s" "y_frame (lift_a a s) = y_frame s"
  "y_ok (lift_a a s) = y_ok s" "y_sent (lift_a a s) = y_sent s"
  "y_k (lift_k k s) = k" "y_a (lift_k k s) = y_a s" "y_frame (lift_k k s) = y_frame s"
  "y_ok (lift_k k s) = y_ok s" "y_sent (lift_k k s) = y_sent s"
  "y_dropped (lift_a a s) = y_dropped s + (a_dropped a - a_dropped (y_a s))"
  "y_dropped (lift_k k s) = y_dropped s + (k_dropped k - k_dropped (y_k s))"
  by (simp_all add: lift_a_def lift_k_def)

definition moves :: "('a \<Rightarrow> 's \<Rightarrow> 's option) \<Rightarrow> 's \<Rightarrow> 's \<Rightarrow> bool" where
  "moves stp s s' \<longleftrightarrow> s' = s \<or> (\<exists>a. stp a s = Some s')"

lemma moves_I [intro]: "moves stp s s" "stp a s = Some s' \<Longrightarrow> moves stp s s'"
  by (auto simp: moves_def)

lemma act_moves:
  "writer_act i p a = Some a' \<Longrightarrow> moves act a a'" "close_act a = Some a' \<Longrightarrow> moves act a a'"
  "sync_act j a = Some a' \<Longrightarrow> moves act a a'" "flush_act ch ok a = Some a' \<Longrightarrow> moves act a a'"
  by (auto intro: moves_I(2) [of act "AWriter i p"] moves_I(2) [of act AClose] moves_I(2) [of act "ASync j"]
      moves_I(2) [of act "AFlush ch ok"])

lemma kact_moves:
  "frame_act i f n io k = Some k' \<Longrightarrow> moves kact k k'" "reconnect_act stop dials k = Some k' \<Longrightarrow> moves kact k k'"
  "teardown_act flushed k = Some k' \<Longrightarrow> moves kact k k'"
  by (auto intro: moves_I(2) [of kact "KFrame i f n io"] moves_I(2) [of kact "KReconnect stop dials"]
      moves_I(2) [of kact "KClose flushed"])

lemma sysact_parts:
  assumes "sysact e s = Some s'"
  shows "moves act (y_a s) (y_a s') \<and> moves kact (y_k s) (y_k s')"
proof (cases e)
  case YClose
  with assms show ?thesis
    by (auto simp: close_sys_def intro: act_moves kact_moves split: option.splits cpc.splits if_splits)
next
  case (YFlush ch io)
  with assms show ?thesis
    by (auto simp: flush_sys_def intro: act_moves kact_moves split: option.splits if_splits)
qed (use assms in \<open>auto intro: act_moves kact_moves\<close>)

lemma moves_reachable: "reachable stp s0 s \<Longrightarrow> moves stp s s' \<Longrightarrow> reachable stp s0 s'"
  by (auto simp: moves_def intro: reachable.step)

theorem system_projects:
  assumes "reachable sysact (system_init cfg enc framer n m dialled) s"
  shows "reachable act (async_init cfg enc framer n m) (y_a s) \<and> reachable kact (conn_init cfg dialled 1) (y_k s)"
  using assms
proof (induction rule: reachable.induct)
  case start
  show ?case by (simp add: system_init_def reachable.start)
next
  case (step s e s')
  with sysact_parts [OF step.hyps(2)] show ?case by (blast intro: moves_reachable)
qed

section \<open>The coupling\<close>

definition chunk_frames :: "chunk \<Rightarrow> (bytes \<times> nat) list" where
  "chunk_frames ch = (case ch of Whole f n \<Rightarrow> [(f, n)] | Partial _ \<Rightarrow> [])"

definition whole_frames :: "(conn \<times> chunk) list \<Rightarrow> (bytes \<times> nat) list" where
  "whole_frames ws = concat (map (\<lambda>x. chunk_frames (snd x)) ws)"

definition close_rel :: "cpc \<Rightarrow> xpc \<Rightarrow> bool" where
  "close_rel c x =
     (case c of
        CIdle \<Rightarrow> x = XIdle
      | CWait \<Rightarrow> x = XDone
      | CTeardown \<Rightarrow> x \<noteq> XIdle \<and> x \<noteq> XClosed \<and> x \<noteq> XFinished
      | CFinished \<Rightarrow> x = XFinished
      | _ \<Rightarrow> x = XClosed)"

text \<open>Where the frame writer stands with the frame \<open>f\<close> of \<open>n\<close> logs, written completely or not.\<close>

definition frame_pos :: "bytes \<Rightarrow> nat \<Rightarrow> bool \<Rightarrow> ppc \<Rightarrow> bool" where
  "frame_pos f n ok pc =
     (case pc of
        PIdle \<Rightarrow> True
      | PGet g m \<Rightarrow> g = f \<and> m = n \<and> \<not> ok
      | PLock _ g m \<Rightarrow> g = f \<and> m = n \<and> \<not> ok
      | PDeadline _ g m \<Rightarrow> g = f \<and> m = n \<and> \<not> ok
      | PWrite _ g m \<Rightarrow> g = f \<and> m = n \<and> \<not> ok
      | PUnlock None \<Rightarrow> ok
      | PUnlock (Some (_, m)) \<Rightarrow> m = n \<and> \<not> ok
      | PCount _ m \<Rightarrow> m = n \<and> \<not> ok
      | _ \<Rightarrow> \<not> ok)"

definition framed :: "frame_fn \<Rightarrow> bytes list \<Rightarrow> bytes \<times> nat \<Rightarrow> bool" where
  "framed fr b x \<longleftrightarrow> b \<noteq> [] \<and> fr [] b = Inr (fst x) \<and> snd x = length b"

text \<open>What the frame in hand has added to the sockets.\<close>

fun put_batch :: "bool \<Rightarrow> bytes list \<Rightarrow> bytes list list" where
  "put_batch True b = [b]"
| "put_batch False b = []"

fun put_logs :: "bool \<Rightarrow> nat \<Rightarrow> nat" where
  "put_logs True n = n"
| "put_logs False n = 0"

text \<open>The drop counter and the sockets against the accounts of the queue.\<close>

definition accounts :: "astate \<Rightarrow> kstate \<Rightarrow> ppc \<Rightarrow> u64 \<Rightarrow> bytes option \<Rightarrow> bool \<Rightarrow> bytes list list \<Rightarrow> bool" where
  "accounts a k pc d fo ok sent \<longleftrightarrow>
     (case fo of
        None \<Rightarrow> pc = PIdle \<and> \<not> ok \<and> d = a_dropped a \<and> wire_logs (k_wire k) = a_delivered a \<and>
          subseq sent (a_flushed a)
      | Some f \<Rightarrow> (\<exists>b j. a_flush a = FFlush b j \<and> framed (a_framer a) b (f, length b) \<and>
          frame_pos f (length b) ok pc \<and>
          d + of_nat (logs_of pc) + of_nat (put_logs ok (length b)) = a_dropped a + of_nat (length b) \<and>
          wire_logs (k_wire k) = a_delivered a + put_logs ok (length b) \<and>
          subseq sent (a_flushed a @ put_batch ok b)))"

definition coupled :: "system \<Rightarrow> bool" where
  "coupled s \<longleftrightarrow> close_rel (a_close (y_a s)) (k_close (y_k s)) \<and>
     list_all2 (framed (a_framer (y_a s))) (y_sent s) (whole_frames (k_wire (y_k s))) \<and>
     (\<exists>pc. k_pcs (y_k s) = [pc] \<and>
        accounts (y_a s) (y_k s) pc (y_dropped s) (y_frame s) (y_ok s) (y_sent s))"

lemma whole_frames_snoc [simp]:
  "whole_frames (ws @ [(c, ch)]) = whole_frames ws @ chunk_frames ch" "whole_frames [] = []"
  by (simp_all add: whole_frames_def)

lemma wire_logs_snoc [simp]: "wire_logs (ws @ [(c, ch)]) = wire_logs ws + frame_logs ch"
  by (simp add: wire_logs_def)

lemma chunk_frames_simps [simp]: "chunk_frames (Whole f n) = [(f, n)]" "chunk_frames (Partial p) = []"
  by (simp_all add: chunk_frames_def)

text \<open>What the steps of the parts leave alone.\<close>

lemma writer_act_rest:
  "writer_act i p a = Some a' \<Longrightarrow> a_flush a' = a_flush a \<and> a_flushed a' = a_flushed a \<and>
     a_delivered a' = a_delivered a \<and> a_framer a' = a_framer a \<and> a_close a' = a_close a"
  by (auto simp: writer_act_def goto_w_def a_count_def a_accept_def
      split: if_splits wpc.splits sum.splits option.splits)

lemma sync_act_rest:
  "sync_act j a = Some a' \<Longrightarrow> a_flush a' = a_flush a \<and> a_flushed a' = a_flushed a \<and>
     a_delivered a' = a_delivered a \<and> a_framer a' = a_framer a \<and> a_close a' = a_close a \<and>
     a_dropped a' = a_dropped a"
  by (drule sync_act_eq) auto

lemma close_act_rest:
  "close_act a = Some a' \<Longrightarrow> a_flush a' = a_flush a \<and> a_flushed a' = a_flushed a \<and>
     a_delivered a' = a_delivered a \<and> a_framer a' = a_framer a \<and> a_dropped a' = a_dropped a"
  by (auto simp: close_act_def split: cpc.splits if_splits)

lemma flush_act_rest:
  "flush_act ch ok a = Some a' \<Longrightarrow> a_framer a' = a_framer a \<and> a_close a' = a_close a"
  by (erule flush_act_cases)
    (auto simp: finish_all_def flush_out_def a_count_def split: fcont.splits sum.splits)

text \<open>Outside \<^verbatim>\<open>writeFrame\<close>: nothing is delivered.\<close>

lemma flush_act_outside:
  "flush_act ch False a = Some a' \<Longrightarrow> entering a = None \<Longrightarrow>
     a_delivered a' = a_delivered a \<and> (a_flushed a' = a_flushed a \<or> (\<exists>b. a_flushed a' = a_flushed a @ [b]))"
  by (erule flush_act_cases)
    (auto simp: finish_all_def flush_out_def a_count_def entering_def split: fcont.splits sum.splits if_splits)

text \<open>A step inside \<^verbatim>\<open>writeFrame\<close>.\<close>

lemma frame_inside:
  assumes "frame_act 0 g m io k = Some k'" and "k_pcs k = [pc]" and "pc \<noteq> PIdle" and "frame_pos f n ok pc"
  defines "ok' \<equiv> ok \<or> writes_whole pc io k"
  shows "\<exists>pc'. k_pcs k' = [pc'] \<and> frame_pos f n ok' pc' \<and> k_close k' = k_close k \<and>
    k_dropped k' + of_nat (logs_of pc') + of_nat (put_logs ok' n) =
      k_dropped k + of_nat (logs_of pc) + of_nat (put_logs ok n) \<and>
    whole_frames (k_wire k') = whole_frames (k_wire k) @ (if writes_whole pc io k then [(f, n)] else []) \<and>
    wire_logs (k_wire k') = wire_logs (k_wire k) + (if writes_whole pc io k then n else 0) \<and>
    (writes_whole pc io k \<longrightarrow> \<not> ok)"
  using assms unfolding ok'_def
  by (cases pc)
    (auto simp: frame_act_def frame_pos_def writes_whole_def logs_of_def frame_logs_def
      split: if_splits option.splits write_io.splits)

lemma accounts_idle: "accounts a k pc d None ok sent \<Longrightarrow> pc = PIdle \<and> \<not> ok \<and> d = a_dropped a"
  by (simp add: accounts_def)

text \<open>A step of the queue outside \<^verbatim>\<open>flush\<close>, or one of the reconnect goroutine or of \<^verbatim>\<open>Close\<close>.\<close>

lemma accounts_a:
  assumes "accounts a k pc d fo ok sent"
    and "a_flush a' = a_flush a" "a_flushed a' = a_flushed a" "a_delivered a' = a_delivered a"
    and "a_framer a' = a_framer a"
  shows "accounts a' k pc (d + (a_dropped a' - a_dropped a)) fo ok sent"
  using assms by (cases fo) (auto simp: accounts_def algebra_simps)

lemma accounts_k:
  "accounts a k pc d fo ok sent \<Longrightarrow> k_wire k' = k_wire k \<Longrightarrow> accounts a k' pc d fo ok sent"
  by (cases fo) (simp_all add: accounts_def)

lemma coupled_writer:
  assumes "writer_act i p (y_a s) = Some a" and "coupled s"
  shows "coupled (lift_a a s)"
  using assms(2) writer_act_rest [OF assms(1)] by (auto simp: coupled_def intro: accounts_a)

lemma coupled_sync:
  assumes "sync_act j (y_a s) = Some a" and "coupled s"
  shows "coupled (lift_a a s)"
  using assms(2) sync_act_rest [OF assms(1)] accounts_a [where a = "y_a s" and a' = a]
  by (fastforce simp: coupled_def)

lemma coupled_reconnect:
  assumes "reconnect_act stop dials (y_k s) = Some k" and "coupled s"
  shows "coupled (lift_k k s)"
  using assms(2) reconnect_act_shared [OF assms(1)] by (auto simp: coupled_def intro: accounts_k)

lemma teardown_close:
  "teardown_act flushed k = Some k' \<Longrightarrow>
     (k_close k = XIdle \<and> k_close k' = XClosed) \<or> (k_close k = XClosed \<and> k_close k' = XDone) \<or>
     (k_close k = XDone \<and> (\<exists>oc. k_close k' = XTake oc)) \<or> ((\<exists>oc. k_close k = XTake oc) \<and> k_close k' = XFinished)"
  by (cases "k_close k") (auto simp: teardown_act_def split: if_splits option.splits)

lemma close_act_next:
  "close_act a = Some a' \<Longrightarrow> (a_close a, a_close a') \<in>
     {(CIdle, CWant), (CWant, CLocked), (CLocked, CCancel), (CCancel, CCloseDone), (CCloseDone, CWait),
      (CWait, CTeardown), (CTeardown, CFinished)}"
  by (auto simp: close_act_def split: cpc.splits if_splits)

lemma close_sys_cases [consumes 1, case_names queue both conn]:
  assumes "close_sys s = Some s'"
  obtains a where "close_act (y_a s) = Some a" "s' = lift_a a s"
      "a_close (y_a s) \<in> {CWant, CLocked, CCancel, CWait}"
  | a k flushed where "close_act (y_a s) = Some a" "teardown_act flushed (y_k s) = Some k"
      "s' = lift_a a (lift_k k s)"
      "a_close (y_a s) \<in> {CIdle, CCloseDone} \<or> (a_close (y_a s) = CTeardown \<and> k_close k = XFinished)"
  | k where "teardown_act True (y_k s) = Some k" "s' = lift_k k s" "a_close (y_a s) = CTeardown"
      "k_close k \<noteq> XFinished"
proof -
  obtain a where a: "close_act (y_a s) = Some a" using assms by (auto simp: close_sys_def split: option.splits)
  show ?thesis
  proof (cases "a_close (y_a s)")
    case CTeardown
    then obtain k where k: "teardown_act True (y_k s) = Some k"
      "s' = (if k_close k = XFinished then lift_a a (lift_k k s) else lift_k k s)"
      using assms a by (auto simp: close_sys_def)
    then show ?thesis
      using CTeardown a that(2) [OF a k(1)] that(3) [OF k(1)] by (cases "k_close k = XFinished") auto
  next
    case CFinished
    with a show ?thesis by (simp add: close_act_def)
  qed (use assms a that(1) [OF a] that(2) [OF a] in \<open>auto simp: close_sys_def\<close>)
qed

lemma coupled_close:
  assumes "close_sys s = Some s'" and c: "coupled s"
  shows "coupled s'"
  using assms(1)
proof (cases rule: close_sys_cases)
  case (queue a)
  have "close_rel (a_close a) (k_close (y_k s))"
    using close_act_next [OF queue(1)] queue(3) c by (auto simp: coupled_def close_rel_def)
  with c queue close_act_rest [OF queue(1)] accounts_a [where a = "y_a s" and a' = a] show ?thesis
    by (fastforce simp: coupled_def)
next
  case (both a k flushed)
  have "close_rel (a_close a) (k_close k)"
    using close_act_next [OF both(1)] teardown_close [OF both(2)] both(4) c
    by (auto simp: coupled_def close_rel_def)
  moreover obtain pc where pc: "k_pcs (y_k s) = [pc]"
    and acc: "accounts (y_a s) (y_k s) pc (y_dropped s) (y_frame s) (y_ok s) (y_sent s)"
    using c by (auto simp: coupled_def)
  have "accounts a k pc (y_dropped s + (a_dropped a - a_dropped (y_a s))) (y_frame s) (y_ok s) (y_sent s)"
    using accounts_k [OF accounts_a [OF acc]] close_act_rest [OF both(1)] teardown_act_shared [OF both(2)] by blast
  ultimately show ?thesis
    using c both(3) pc close_act_rest [OF both(1)] teardown_act_shared [OF both(2)] by (simp add: coupled_def)
next
  case (conn k)
  have "close_rel CTeardown (k_close k)"
    using teardown_close [OF conn(1)] conn(3,4) c by (auto simp: coupled_def close_rel_def)
  with c conn teardown_act_shared [OF conn(1)] show ?thesis
    by (auto simp: coupled_def intro: accounts_k)
qed

lemma coupled_enter:
  assumes "entering (y_a s) = Some (b, f)" and "frame_act 0 f (length b) io (y_k s) = Some k"
    and "coupled s" and "y_frame s = None"
  shows "coupled ((lift_k k s)\<lparr>y_frame := Some f\<rparr>)"
proof -
  obtain pc where pc: "k_pcs (y_k s) = [pc]" "pc = PIdle" "\<not> y_ok s" "y_dropped s = a_dropped (y_a s)"
    and acc: "wire_logs (k_wire (y_k s)) = a_delivered (y_a s)" "subseq (y_sent s) (a_flushed (y_a s))"
    using assms(3,4) by (auto simp: coupled_def accounts_def)
  then have k: "k = goto_p 0 (PGet f (length b)) ((y_k s)\<lparr>k_sent := k_sent (y_k s) + length b\<rparr>)"
    using assms(2) by (simp add: frame_act_def)
  obtain j where b: "a_flush (y_a s) = FFlush b j" "framed (a_framer (y_a s)) b (f, length b)"
    using assms(1) by (auto simp: entering_def framed_def split: fpc.splits if_splits sum.splits)
  have "accounts (y_a s) k (PGet f (length b)) (y_dropped s) (Some f) (y_ok s) (y_sent s)"
    using pc acc b by (simp add: k accounts_def frame_pos_def logs_of_def)
  with assms(3) pc show ?thesis by (simp add: coupled_def k)
qed

lemma shift_counts:
  assumes "(k' :: u64) + l' + p' = k + l + p" and "d + l + p = x"
  shows "d + (k' - k) + l' + p' = x"
proof -
  have "d + (k' - k) + l' + p' = d + (k' + l' + p') - k" by simp
  also have "\<dots> = d + (k + l + p) - k" by (simp only: assms(1))
  also have "\<dots> = x" using assms(2) by (simp add: algebra_simps)
  finally show ?thesis .
qed

lemma coupled_inside:
  assumes "frame_act 0 f m io (y_k s) = Some k" and "coupled s" and "y_frame s = Some f"
    and "k_pcs (y_k s) ! 0 \<noteq> PIdle"
  shows "coupled (if writes_whole (k_pcs (y_k s) ! 0) io (y_k s)
    then (lift_k k s)\<lparr>y_ok := True, y_sent := y_sent s @ [batch_of (y_a s)]\<rparr> else lift_k k s)"
proof -
  obtain pc b j where pc: "k_pcs (y_k s) = [pc]" "pc \<noteq> PIdle" "k_pcs (y_k s) ! 0 = pc"
    and b: "a_flush (y_a s) = FFlush b j" "batch_of (y_a s) = b" "framed (a_framer (y_a s)) b (f, length b)"
    and inf: "frame_pos f (length b) (y_ok s) pc"
    and acc: "accounts (y_a s) (y_k s) pc (y_dropped s) (Some f) (y_ok s) (y_sent s)"
    using assms(2-4) by (auto simp: coupled_def accounts_def batch_of_def)
  obtain pc' where pc': "k_pcs k = [pc']" "frame_pos f (length b) (y_ok s \<or> writes_whole pc io (y_k s)) pc'"
    and close: "k_close k = k_close (y_k s)"
    and drop: "k_dropped k + of_nat (logs_of pc') + of_nat (put_logs (y_ok s \<or> writes_whole pc io (y_k s)) (length b)) =
        k_dropped (y_k s) + of_nat (logs_of pc) + of_nat (put_logs (y_ok s) (length b))"
    and wire: "whole_frames (k_wire k) = whole_frames (k_wire (y_k s)) @
        (if writes_whole pc io (y_k s) then [(f, length b)] else [])"
      "wire_logs (k_wire k) = wire_logs (k_wire (y_k s)) + (if writes_whole pc io (y_k s) then length b else 0)"
    and fresh: "writes_whole pc io (y_k s) \<longrightarrow> \<not> y_ok s"
    using frame_inside [OF assms(1) pc(1,2) inf] by blast
  show ?thesis
  proof (cases "writes_whole pc io (y_k s)")
    case True
    have "k_dropped k + of_nat (logs_of pc') + of_nat (length b) = k_dropped (y_k s) + of_nat (logs_of pc) + 0"
      "y_dropped s + of_nat (logs_of pc) + 0 = a_dropped (y_a s) + of_nat (length b)"
      using drop acc b fresh True by (auto simp: accounts_def)
    from shift_counts [OF this]
    have "y_dropped s + (k_dropped k - k_dropped (y_k s)) + of_nat (logs_of pc') + of_nat (length b) =
        a_dropped (y_a s) + of_nat (length b)" .
    with True acc b pc' wire fresh
    have "accounts (y_a s) k pc' (y_dropped s + (k_dropped k - k_dropped (y_k s))) (Some f) True (y_sent s @ [b])"
      by (auto simp: accounts_def intro: subseq_snoc)
    with True assms(2,3) b pc pc' close wire show ?thesis
      by (simp add: coupled_def list_all2_appendI)
  next
    case False
    have "y_dropped s + (k_dropped k - k_dropped (y_k s)) + of_nat (logs_of pc') + of_nat (put_logs (y_ok s) (length b)) =
        a_dropped (y_a s) + of_nat (length b)"
      using drop acc b False by (intro shift_counts [of _ _ _ "k_dropped (y_k s)"]) (auto simp: accounts_def)
    with False acc b pc' wire
    have "accounts (y_a s) k pc' (y_dropped s + (k_dropped k - k_dropped (y_k s))) (Some f) (y_ok s) (y_sent s)"
      by (auto simp: accounts_def)
    with False assms(2,3) b pc pc' close wire show ?thesis by (simp add: coupled_def)
  qed
qed

lemma coupled_return:
  assumes "flush_act ch (y_ok s) (y_a s) = Some a" and "coupled s" and "y_frame s = Some f"
    and "k_pcs (y_k s) ! 0 = PIdle"
  shows "coupled (s\<lparr>y_a := a, y_frame := None, y_ok := False\<rparr>)"
proof -
  obtain b j where pc: "k_pcs (y_k s) = [PIdle]"
    and b: "a_flush (y_a s) = FFlush b j" "framed (a_framer (y_a s)) b (f, length b)"
    and d: "y_dropped s + of_nat (put_logs (y_ok s) (length b)) = a_dropped (y_a s) + of_nat (length b)"
    and w: "wire_logs (k_wire (y_k s)) = a_delivered (y_a s) + put_logs (y_ok s) (length b)"
    and sent: "subseq (y_sent s) (a_flushed (y_a s) @ put_batch (y_ok s) b)"
    using assms(2-4) by (auto simp: coupled_def accounts_def logs_of_def)
  have a: "a = (flush_out (y_ok s) b (y_a s))\<lparr>a_flush := after_flush j, a_flushed := a_flushed (y_a s) @ [b]\<rparr>"
    using flush_act_flush [OF assms(1) b(1)] .
  have "a_dropped a = y_dropped s \<and> a_delivered a = wire_logs (k_wire (y_k s))"
    using b(2) d w by (cases "y_ok s") (auto simp: a flush_out_def framed_def a_count_def)
  moreover have "subseq (y_sent s) (a_flushed a)"
    using sent by (cases "y_ok s") (auto simp: a)
  ultimately have "accounts a (y_k s) PIdle (y_dropped s) None False (y_sent s)" by (simp add: accounts_def)
  then show ?thesis using assms(2) pc flush_act_rest [OF assms(1)] by (simp add: coupled_def)
qed

lemma coupled_outside:
  assumes "flush_act ch False (y_a s) = Some a" and "entering (y_a s) = None" and "coupled s"
    and "y_frame s = None"
  shows "coupled (lift_a a s)"
proof -
  have "accounts a (y_k s) PIdle (y_dropped s + (a_dropped a - a_dropped (y_a s))) None False (y_sent s)"
    using assms(3,4) flush_act_outside [OF assms(1,2)] by (auto simp: coupled_def accounts_def)
  then show ?thesis
    using assms(3,4) flush_act_rest [OF assms(1)] by (auto simp: coupled_def dest: accounts_idle)
qed

lemma flush_sys_cases [consumes 1, case_names outside enter inside return]:
  assumes "flush_sys ch io s = Some s'"
  obtains a where "y_frame s = None" "entering (y_a s) = None" "flush_act ch False (y_a s) = Some a"
      "s' = lift_a a s"
  | b f k where "y_frame s = None" "entering (y_a s) = Some (b, f)"
      "frame_act 0 f (length b) io (y_k s) = Some k" "s' = (lift_k k s)\<lparr>y_frame := Some f\<rparr>"
  | f m k where "y_frame s = Some f" "k_pcs (y_k s) ! 0 \<noteq> PIdle" "frame_act 0 f m io (y_k s) = Some k"
      "s' = (if writes_whole (k_pcs (y_k s) ! 0) io (y_k s)
        then (lift_k k s)\<lparr>y_ok := True, y_sent := y_sent s @ [batch_of (y_a s)]\<rparr> else lift_k k s)"
  | f a where "y_frame s = Some f" "k_pcs (y_k s) ! 0 = PIdle" "flush_act ch (y_ok s) (y_a s) = Some a"
      "s' = s\<lparr>y_a := a, y_frame := None, y_ok := False\<rparr>"
proof (cases "y_frame s")
  case None
  with assms that(1,2) show ?thesis by (cases "entering (y_a s)") (auto simp: flush_sys_def)
next
  case (Some f)
  show ?thesis
  proof (cases "k_pcs (y_k s) ! 0 = PIdle")
    case True
    with Some assms that(4) show ?thesis by (auto simp: flush_sys_def)
  next
    case False
    with Some assms obtain k where "frame_act 0 f (length (batch_of (y_a s))) io (y_k s) = Some k"
      "s' = (if writes_whole (k_pcs (y_k s) ! 0) io (y_k s)
        then (lift_k k s)\<lparr>y_ok := True, y_sent := y_sent s @ [batch_of (y_a s)]\<rparr> else lift_k k s)"
      by (auto simp: flush_sys_def)
    with that(3) [OF Some False] show ?thesis by blast
  qed
qed

lemma coupled_flush: "flush_sys ch io s = Some s' \<Longrightarrow> coupled s \<Longrightarrow> coupled s'"
proof (erule flush_sys_cases)
  fix f m k
  assume "coupled s" "y_frame s = Some f" "k_pcs (y_k s) ! 0 \<noteq> PIdle" "frame_act 0 f m io (y_k s) = Some k"
    and s': "s' = (if writes_whole (k_pcs (y_k s) ! 0) io (y_k s)
      then (lift_k k s)\<lparr>y_ok := True, y_sent := y_sent s @ [batch_of (y_a s)]\<rparr> else lift_k k s)"
  from coupled_inside [OF this(4,1,2,3)] show "coupled s'" unfolding s' .
qed (simp_all only: coupled_outside coupled_enter coupled_return)

interpretation system: step_invariant sysact coupled
proof
  fix s e s'
  assume "coupled s" and "sysact e s = Some s'"
  then show "coupled s'"
    using coupled_flush coupled_close
    by (cases e) (auto intro: coupled_writer coupled_sync coupled_reconnect)
qed

lemma coupled_init: "coupled (system_init cfg enc framer n m dialled)"
  by (simp add: coupled_def system_init_def async_init_def conn_init_def close_rel_def accounts_def wire_logs_def)

text \<open>What holds of every reachable state of the whole.\<close>

lemma system_reachable:
  assumes "config_wf cfg" and "reachable sysact (system_init cfg enc framer n m dialled) s"
  shows "coupled s" and "async_inv (y_a s)" and "conn_inv (y_k s)" and "\<exists>pc. single (y_k s) pc"
  using system.reachable_inv [OF assms(2) coupled_init] system_projects [OF assms(2)]
    async_inv_reachable [OF assms(1)] conn_inv_reachable single_writer.reachable_inv [OF _ single_init]
  by blast+

section \<open>What a connection carries\<close>

definition frames_on :: "(conn \<times> chunk) list \<Rightarrow> conn \<Rightarrow> (bytes \<times> nat) list" where
  "frames_on ws c = concat (map chunk_frames (stream ws c))"

lemma frames_on_simps [simp]:
  "frames_on [] c = []"
  "frames_on (ws @ [(c', ch)]) c = frames_on ws c @ (if c' = c then chunk_frames ch else [])"
  by (simp_all add: frames_on_def stream_snoc) (simp add: stream_def)

text \<open>The whole frames of one connection are those of some of the batches, in order.\<close>

lemma frames_on_sent:
  "list_all2 R sent (whole_frames ws) \<Longrightarrow> \<exists>bs. list_all2 R bs (frames_on ws c) \<and> subseq bs sent"
proof (induction ws arbitrary: sent rule: rev_induct)
  case (snoc x ws)
  obtain c' ch where x: "x = (c', ch)" by (cases x)
  obtain sent1 sent2 where s: "sent = sent1 @ sent2" "list_all2 R sent1 (whole_frames ws)"
    "list_all2 R sent2 (chunk_frames ch)"
    using snoc.prems by (auto simp: x list_all2_append2)
  from snoc.IH [OF s(2)] obtain bs where bs: "list_all2 R bs (frames_on ws c)" "subseq bs sent1" by blast
  show ?case
  proof (cases "c' = c")
    case True
    with bs s have "list_all2 R (bs @ sent2) (frames_on (ws @ [x]) c)" "subseq (bs @ sent2) sent"
      by (auto simp: x list_all2_appendI intro: list_emb_append_mono)
    then show ?thesis by blast
  next
    case False
    with bs s have "list_all2 R bs (frames_on (ws @ [x]) c)" "subseq bs sent"
      by (auto simp: x intro: list_emb_append2)
    then show ?thesis by blast
  qed
qed simp

lemma subseq_concat: "subseq xs ys \<Longrightarrow> subseq (concat xs) (concat ys)"
  by (induction rule: list_emb.induct) (auto intro: list_emb_append_mono list_emb_append2)

lemma subseq_set: "subseq xs ys \<Longrightarrow> set xs \<subseteq> set ys"
  by (induction rule: list_emb.induct) auto

text \<open>Everything on the sockets was accepted by the queue, in the queue's order.\<close>

lemma sent_flushed:
  "coupled s \<Longrightarrow> subseq (y_sent s) (a_flushed (y_a s) @ put_batch True (carried (a_flush (y_a s))))"
  by (cases "y_ok s"; cases "y_frame s") (auto simp: coupled_def accounts_def intro: list_emb_append2)

lemma sent_accepted:
  assumes "coupled s" and "ordered (y_a s)"
  shows "subseq (concat (y_sent s)) (a_in (y_a s))"
proof -
  from subseq_concat [OF sent_flushed [OF assms(1)]]
  have "subseq (concat (y_sent s)) (concat (a_flushed (y_a s)) @ carried (a_flush (y_a s)))" by simp
  moreover have "subseq (concat (a_flushed (y_a s)) @ carried (a_flush (y_a s))) (a_in (y_a s))"
    using assms(2) by (auto simp: ordered_def intro: subseq_order.trans [OF list_emb_prefix])
  ultimately show ?thesis by (rule subseq_order.trans)
qed

section \<open>Progress of the whole\<close>

lemma flush_sys_enabled:
  assumes "coupled s" and "mutex (y_k s)" and "a_flush (y_a s) \<noteq> FExit" and "a_done (y_a s)"
  shows "\<exists>s'. flush_sys ChDone io s = Some s'"
proof -
  obtain pc where pc: "k_pcs (y_k s) = [pc]" using assms(1) by (auto simp: coupled_def)
  have free: "k_writeMu (y_k s) = None" if "\<not> in_write pc"
    using assms(2) pc that by (cases "k_writeMu (y_k s)") (auto simp: mutex_def)
  have frame: "\<exists>k. frame_act 0 f m io (y_k s) = Some k" for f m
    using pc free by (auto simp: frame_act_def in_write_def split: ppc.splits option.splits write_io.splits)
  show ?thesis
    using flush_act_enabled [OF assms(3,4)] frame by (fastforce simp: flush_sys_def split: option.splits)
qed

text \<open>How much of the final flush is left: the flush goroutine's bound, and its place in \<^verbatim>\<open>writeFrame\<close>.\<close>

definition frame_left :: "ppc \<Rightarrow> nat" where
  "frame_left pc =
     (case pc of
        PGet _ _ \<Rightarrow> 11 | PLock _ _ _ \<Rightarrow> 10 | PDeadline _ _ _ \<Rightarrow> 9 | PWrite _ _ _ \<Rightarrow> 8 | PUnlock _ \<Rightarrow> 7
      | PCount _ _ \<Rightarrow> 6 | PHandle _ \<Rightarrow> 5 | PClose _ \<Rightarrow> 4 | PReport \<Rightarrow> 3 | PTrigger \<Rightarrow> 2 | PIdle \<Rightarrow> 1)"

definition sys_left :: "system \<Rightarrow> nat" where
  "sys_left s = 16 * flush_left (y_a s) +
     (case y_frame s of
        Some _ \<Rightarrow> frame_left (k_pcs (y_k s) ! 0)
      | None \<Rightarrow> if entering (y_a s) = None then 0 else 12)"

lemma frame_left_bounds: "1 \<le> frame_left pc \<and> frame_left pc \<le> 11"
  by (cases pc) (auto simp: frame_left_def)

lemma frame_left_decreases:
  "frame_act 0 f m io k = Some k' \<Longrightarrow> k_pcs k = [pc] \<Longrightarrow> pc \<noteq> PIdle \<Longrightarrow>
     frame_left (k_pcs k' ! 0) < frame_left pc"
  by (cases pc) (auto simp: frame_act_def frame_left_def split: option.splits if_splits write_io.splits)

lemma sys_left_flush:
  assumes "flush_sys ch io s = Some s'" and "coupled s" and "final (a_flush (y_a s))" and "shape (y_a s)"
  shows "sys_left s' < sys_left s \<and> final (a_flush (y_a s'))"
  using assms(1)
proof (cases rule: flush_sys_cases)
  case (outside a)
  with final_flush_decreases [OF outside(3) assms(3,4)] show ?thesis by (auto simp: sys_left_def)
next
  case (enter b f k)
  moreover have "k_pcs (y_k s) = [PIdle]" using assms(2) enter(1) by (auto simp: coupled_def accounts_def)
  ultimately show ?thesis using assms(3) by (auto simp: sys_left_def frame_act_def frame_left_def)
next
  case (inside f m k)
  moreover obtain pc where "k_pcs (y_k s) = [pc]" using assms(2) by (auto simp: coupled_def)
  ultimately show ?thesis
    using assms(3) frame_left_decreases [OF inside(3)] by (auto simp: sys_left_def)
next
  case (return f a)
  with final_flush_decreases [OF return(3) assms(3,4)] show ?thesis by (auto simp: sys_left_def)
qed

lemma sys_left_same:
  assumes "final (a_flush (y_a s))" and "a_flush (y_a s') = a_flush (y_a s)"
    and "flush_left (y_a s') = flush_left (y_a s)" and "a_framer (y_a s') = a_framer (y_a s)"
    and "y_frame s' = y_frame s" and "k_pcs (y_k s') = k_pcs (y_k s)"
  shows "sys_left s' = sys_left s \<and> final (a_flush (y_a s'))"
proof -
  have "entering (y_a s') = entering (y_a s)" by (simp only: entering_def assms)
  with assms show ?thesis by (simp only: sys_left_def)
qed

lemma sys_left_others:
  assumes "sysact e s = Some s'" and "gate (y_a s)" and "final (a_flush (y_a s))"
    and "\<And>ch io. e \<noteq> YFlush ch io"
  shows "sys_left s' = sys_left s \<and> final (a_flush (y_a s'))"
proof (cases e)
  case (YWriter i p)
  with assms(1) obtain a where a: "writer_act i p (y_a s) = Some a" "s' = lift_a a s" by auto
  with final_others [OF assms(2,3), of "AWriter i p" a] writer_act_rest [OF a(1)] show ?thesis
    by (intro sys_left_same [OF assms(3)]) auto
next
  case (YSync j)
  with assms(1) obtain a where a: "sync_act j (y_a s) = Some a" "s' = lift_a a s" by auto
  with final_others [OF assms(2,3), of "ASync j" a] sync_act_rest [OF a(1)] show ?thesis
    by (intro sys_left_same [OF assms(3)]) auto
next
  case YClose
  have cl: "flush_left a = flush_left (y_a s) \<and> a_flush a = a_flush (y_a s) \<and> a_framer a = a_framer (y_a s)"
    if "close_act (y_a s) = Some a" for a
    using final_others [OF assms(2,3), of AClose a] close_act_rest [OF that] that by auto
  from YClose assms(1) have "close_sys s = Some s'" by simp
  then show ?thesis
  proof (cases rule: close_sys_cases)
    case (queue a)
    with cl show ?thesis by (intro sys_left_same [OF assms(3)]) auto
  next
    case (both a k flushed)
    with cl teardown_act_shared [OF both(2)] show ?thesis by (intro sys_left_same [OF assms(3)]) auto
  next
    case (conn k)
    with teardown_act_shared [OF conn(1)] show ?thesis by (intro sys_left_same [OF assms(3)]) auto
  qed
next
  case (YReconnect stop dials)
  with assms(1) obtain k where k: "reconnect_act stop dials (y_k s) = Some k" "s' = lift_k k s" by auto
  with reconnect_act_shared [OF k(1)] show ?thesis by (intro sys_left_same [OF assms(3)]) auto
qed (use assms(4) in auto)

section \<open>Properties\<close>

text \<open>Logs of the flush goroutine that are neither on a socket nor counted yet.\<close>

definition unsettled :: "system \<Rightarrow> nat" where
  "unsettled s = (case y_frame s of None \<Rightarrow> length (carried (a_flush (y_a s))) | Some _ \<Rightarrow> logs_of (k_pcs (y_k s) ! 0))"

lemma settle_system:
  assumes "(x :: u64) = ad + del + h + b + q" and "d + l + p = ad + b"
  shows "x = d + (del + p) + h + l + q"
proof -
  have "d + (del + p) + h + l + q = (d + l + p) + del + h + q" by (simp add: ac_simps)
  also have "\<dots> = x" unfolding assms(2) by (simp add: assms(1) ac_simps)
  finally show ?thesis ..
qed

lemma system_balance:
  assumes "coupled s" and "balance (y_a s)"
  shows "(of_nat (a_offered (y_a s)) :: u64) = y_dropped s + of_nat (wire_logs (k_wire (y_k s))) +
     of_nat (in_hand (y_a s)) + of_nat (unsettled s) + of_nat (length (buf (a_queue (y_a s))))"
proof (cases "y_frame s")
  case None
  with assms show ?thesis by (auto simp: coupled_def accounts_def balance_def unsettled_def)
next
  case (Some f)
  then obtain pc b j where pc: "k_pcs (y_k s) = [pc]" "a_flush (y_a s) = FFlush b j"
    and d: "y_dropped s + of_nat (logs_of pc) + of_nat (put_logs (y_ok s) (length b)) = a_dropped (y_a s) + of_nat (length b)"
    and w: "wire_logs (k_wire (y_k s)) = a_delivered (y_a s) + put_logs (y_ok s) (length b)"
    using assms(1) by (auto simp: coupled_def accounts_def)
  from assms(2) pc have "of_nat (a_offered (y_a s)) = a_dropped (y_a s) + of_nat (a_delivered (y_a s)) +
      of_nat (in_hand (y_a s)) + of_nat (length b) + of_nat (length (buf (a_queue (y_a s))))"
    by (simp add: balance_def)
  from settle_system [OF this d] show ?thesis using Some pc w by (simp add: unsettled_def)
qed

abbreviation small_system :: system where
  "small_system \<equiv> system_init small_cfg passthrough_Encode concat_framer 2 1 True"

text \<open>Two logs are queued; the first flush fails half-way, a new connection is dialled, a third log is
  flushed on it by \<^verbatim>\<open>Close\<close>.\<close>

definition put_sys :: "nat \<Rightarrow> bytes \<Rightarrow> yaction list" where
  "put_sys i p = replicate 6 (YWriter i p)"

definition torn_run :: "yaction list" where
  "torn_run = put_sys 0 [1, 2] @ put_sys 1 [3] @ replicate 4 (YFlush ChTick WriteOk) @
     replicate 5 (YFlush ChTick (WriteFails 1 [])) @ replicate 7 (YFlush ChTick WriteOk)"

definition repair_run :: "yaction list" where
  "repair_run = torn_run @ replicate 6 (YReconnect False True) @ put_sys 0 [4]"

definition shut_run :: "yaction list" where
  "shut_run = repair_run @ replicate 5 YClose @ replicate 11 (YFlush ChDone WriteOk) @ replicate 3 YClose @
     [YReconnect True False]"

text \<open>C2: the accounts of the whole writer. In every interleaving of callers, Sync, Close, the flush and the
  reconnect goroutine, whatever the network does, the queue and the batches keep their bounds and every
  log that reached the gate is in exactly one place: counted by the 64-bit drop counter, in a whole
  frame on some connection, in a caller's hand, in the batch of the flush goroutine, or queued.\<close>

theorem system_accounting:
  assumes "config_wf cfg" and "reachable sysact (system_init cfg enc framer n m dialled) s"
  shows "(of_nat (a_offered (y_a s)) :: u64) = y_dropped s + of_nat (wire_logs (k_wire (y_k s))) +
      of_nat (in_hand (y_a s)) + of_nat (unsettled s) + of_nat (length (buf (a_queue (y_a s)))) \<and>
    int (length (buf (a_queue (y_a s)))) \<le> bufferSize (a_cfg (y_a s)) \<and>
    (\<forall>b \<in> set (y_sent s). int (length b) \<le> batchSize (a_cfg (y_a s)))"
proof -
  note inv = system_reachable [OF assms]
  have a: "shape (y_a s)" "balance (y_a s)" using inv(2) by (simp_all add: async_inv_def)
  have "\<forall>b \<in> set (y_sent s). int (length b) \<le> batchSize (a_cfg (y_a s))"
  proof -
    have "subseq (y_sent s) (a_flushed (y_a s) @ put_batch True (carried (a_flush (y_a s))))"
      by (rule sent_flushed [OF inv(1)])
    then have "set (y_sent s) \<subseteq> insert (carried (a_flush (y_a s))) (set (a_flushed (y_a s)))"
      using subseq_set by (metis Un_insert_right list.simps(15) put_batch.simps(1) set_append sup_bot_right empty_set)
    moreover have "int (length (carried (a_flush (y_a s)))) \<le> batchSize (a_cfg (y_a s))"
      "\<forall>b \<in> set (a_flushed (y_a s)). int (length b) \<le> batchSize (a_cfg (y_a s))"
      using a(1) by (simp_all add: shape_def)
    ultimately show ?thesis by blast
  qed
  moreover have "int (length (buf (a_queue (y_a s)))) \<le> bufferSize (a_cfg (y_a s))"
    using a(1) by (auto simp: shape_def config_wf_def)
  ultimately show ?thesis using system_balance [OF inv(1) a(2)] by blast
qed

theorem system_accounting_witness:
  "\<exists>s. run sysact torn_run small_system = Some s \<and> y_dropped s = 2 \<and> a_offered (y_a s) = 2 \<and>
     (of_nat (a_offered (y_a s)) :: u64) = y_dropped s + of_nat (wire_logs (k_wire (y_k s))) +
      of_nat (in_hand (y_a s)) + of_nat (unsettled s) + of_nat (length (buf (a_queue (y_a s))))"
proof -
  have "reaches sysact torn_run (\<lambda>s. y_dropped s = 2 \<and> a_offered (y_a s) = 2) small_system"
    by code_simp
  then obtain s where s: "run sysact torn_run small_system = Some s" "y_dropped s = 2" "a_offered (y_a s) = 2"
    by (auto simp: reaches_iff)
  show ?thesis using system_accounting [OF small_cfg_wf run_reachable [OF s(1)]] s by blast
qed

text \<open>C3: what the sockets carry in asynchronous mode, where the flush goroutine is the only caller of
  \<^verbatim>\<open>writeFrame\<close>. In every interleaving, whatever the network does, the whole frames on all
  connections are, in the order they were written, the frames of batches whose payloads together
  are a subsequence of what the queue accepted: nothing is duplicated or reordered, not even across
  a reconnection. A connection carries whole frames only, up to a last torn one. (Callers of a synchronous
  writer write their own frames, and two of them can tear a stream:
  \<open>Root_Conn.concurrent_writers_tear_stream\<close>.)\<close>

theorem system_stream:
  assumes "config_wf cfg" and "mode cfg = ModeAsync"
    and "reachable sysact (system_init cfg enc framer n m dialled) s"
  shows "list_all2 (framed (a_framer (y_a s))) (y_sent s) (whole_frames (k_wire (y_k s))) \<and>
    subseq (concat (y_sent s)) (a_in (y_a s)) \<and> (\<forall>c. tidy (stream (k_wire (y_k s)) c))"
proof -
  note inv = system_reachable [OF assms(1,3)]
  have "ordered (y_a s)" using inv(2) by (simp add: async_inv_def)
  with inv(1,4) sent_accepted show ?thesis by (auto simp: coupled_def single_def)
qed

theorem system_stream_witness:
  "\<exists>s. run sysact shut_run small_system = Some s \<and> k_wire (y_k s) = [(0, Partial [1]), (1, Whole [4] 1)] \<and>
     a_in (y_a s) = [[1, 2], [3], [4]] \<and> subseq (concat (y_sent s)) [[1, 2], [3], [4]] \<and>
     list_all2 (framed (a_framer (y_a s))) (y_sent s) [([4], 1)]"
proof -
  have "reaches sysact shut_run (\<lambda>s. k_wire (y_k s) = [(0, Partial [1]), (1, Whole [4] 1)] \<and>
      a_in (y_a s) = [[1, 2], [3], [4]] \<and> whole_frames (k_wire (y_k s)) = [([4], 1)]) small_system"
    by code_simp
  then obtain s where s: "run sysact shut_run small_system = Some s"
    "k_wire (y_k s) = [(0, Partial [1]), (1, Whole [4] 1)]" "a_in (y_a s) = [[1, 2], [3], [4]]"
    "whole_frames (k_wire (y_k s)) = [([4], 1)]"
    by (auto simp: reaches_iff)
  show ?thesis using system_stream [OF small_cfg_wf small_cfg_mode run_reachable [OF s(1)]] s by auto
qed

text \<open>C1: Close settles everything. When Close has returned, in whatever order the goroutines ran and whatever
  the network did, nothing is queued, batched or being written, the writer holds no connection, and
  every log that reached the gate is in a whole frame on some connection, counted, or held by a caller
  that saw the writer closed and is about to count it; once the callers have returned the two add up to
  all logs. When the reconnect goroutine has exited too, every dialled connection was closed once.\<close>

theorem system_close_settles:
  assumes "config_wf cfg" and "reachable sysact (system_init cfg enc framer n m dialled) s"
    and "a_close (y_a s) = CFinished"
  shows "buf (a_queue (y_a s)) = [] \<and> a_flush (y_a s) = FExit \<and> y_frame s = None \<and> k_conn (y_k s) = None \<and>
    (of_nat (a_offered (y_a s)) :: u64) =
      y_dropped s + of_nat (wire_logs (k_wire (y_k s))) + of_nat (in_hand (y_a s)) \<and>
    ((\<forall>pc\<in>set (a_pcs (y_a s)). pc = WIdle) \<longrightarrow>
       (of_nat (a_offered (y_a s)) :: u64) = y_dropped s + of_nat (wire_logs (k_wire (y_k s)))) \<and>
    (k_rec (y_k s) = RExit \<longrightarrow> mset (k_closedConns (y_k s)) = mset [0..<k_next (y_k s)])"
proof -
  note inv = system_reachable [OF assms(1,2)]
  have g: "gate (y_a s)" and b: "balance (y_a s)" using inv(2) by (simp_all add: async_inv_def)
  have o: "owned (y_k s)" and td: "teardown_inv (y_k s)" using inv(3) by (simp_all add: conn_inv_def)
  have f: "a_flush (y_a s) = FExit" "buf (a_queue (y_a s)) = []" using g assms(3) by (auto simp: gate_def)
  with inv(1) have y: "y_frame s = None" by (cases "y_frame s") (auto simp: coupled_def accounts_def)
  have x: "k_close (y_k s) = XFinished" using inv(1) assms(3) by (simp add: coupled_def close_rel_def)
  then have none: "k_conn (y_k s) = None" using td by (simp add: teardown_inv_def)
  have "k_pcs (y_k s) = [PIdle]" using inv(1) y by (auto simp: coupled_def accounts_def)
  then have "mset (k_closedConns (y_k s)) = mset [0..<k_next (y_k s)]" if "k_rec (y_k s) = RExit"
    using o that none x by (simp add: owned_def holders_def conn_list_def owns_defs)
  moreover have "in_hand (y_a s) = 0" if "\<forall>pc\<in>set (a_pcs (y_a s)). pc = WIdle"
    using that by (auto simp: in_hand_def weight_def)
  ultimately show ?thesis using system_balance [OF inv(1) b] f y none by (simp add: unsettled_def)
qed

theorem system_close_settles_witness:
  "\<exists>s. run sysact shut_run small_system = Some s \<and> a_close (y_a s) = CFinished \<and> y_dropped s = 2 \<and>
     (of_nat (a_offered (y_a s)) :: u64) = y_dropped s + of_nat (wire_logs (k_wire (y_k s))) \<and>
     mset (k_closedConns (y_k s)) = mset [0..<2]"
proof -
  have "reaches sysact shut_run (\<lambda>s. a_close (y_a s) = CFinished \<and> y_dropped s = 2 \<and>
      a_pcs (y_a s) = [WIdle, WIdle] \<and> k_rec (y_k s) = RExit \<and> k_next (y_k s) = 2) small_system"
    by code_simp
  then obtain s where s: "run sysact shut_run small_system = Some s" "a_close (y_a s) = CFinished" "y_dropped s = 2"
    "a_pcs (y_a s) = [WIdle, WIdle]" "k_rec (y_k s) = RExit" "k_next (y_k s) = 2"
    by (auto simp: reaches_iff)
  show ?thesis using system_close_settles [OF small_cfg_wf run_reachable [OF s(1)] s(2)] s by auto
qed

text \<open>C6: Close is never stuck. From the moment it won the compare-and-swap until it returns, either it can
  take its next step, or it waits at the barrier for a caller that holds the lifecycle lock and can
  take a step, or it waits for the flush goroutine, which can, in the middle of a frame included.\<close>

theorem system_close_not_stuck:
  assumes "config_wf cfg" and "reachable sysact (system_init cfg enc framer n m dialled) s"
    and "a_close (y_a s) \<noteq> CIdle" and "a_close (y_a s) \<noteq> CFinished"
  shows "(\<exists>s'. sysact YClose s = Some s') \<or>
    (a_close (y_a s) = CWant \<and> (\<exists>i < length (a_pcs (y_a s)). holds_lock (a_pcs (y_a s) ! i) \<and>
       (\<exists>s'. sysact (YWriter i []) s = Some s'))) \<or>
    (a_close (y_a s) = CWait \<and> (\<exists>s'. sysact (YFlush ChDone io) s = Some s'))"
proof -
  note inv = system_reachable [OF assms(1,2)]
  have g: "gate (y_a s)" using inv(2) by (simp add: async_inv_def)
  have m: "mutex (y_k s)" using inv(3) by (simp add: conn_inv_def)
  show ?thesis
  proof (cases "close_act (y_a s)")
    case None
    with assms(4) consider "a_close (y_a s) = CWant" "list_ex holds_lock (a_pcs (y_a s))"
      | "a_close (y_a s) = CWait" "\<not> a_flushDone (y_a s)"
      by (auto simp: close_act_blocked)
    then show ?thesis
    proof cases
      case 1
      then obtain i where "i < length (a_pcs (y_a s))" "holds_lock (a_pcs (y_a s) ! i)"
        by (auto simp: list_ex_iff in_set_conv_nth)
      with 1 writer_act_locked [OF this] show ?thesis by auto
    next
      case 2
      then have "a_flush (y_a s) \<noteq> FExit" "a_done (y_a s)" using g by (auto simp: gate_def)
      with 2 flush_sys_enabled [OF inv(1) m this] show ?thesis by simp
    qed
  next
    case (Some a)
    have "\<exists>k. teardown_act flushed (y_k s) = Some k"
      if "a_close (y_a s) \<in> {CIdle, CCloseDone} \<or> (a_close (y_a s) = CTeardown \<and> flushed)" for flushed
      using that inv(1) by (cases "k_close (y_k s)") (auto simp: coupled_def close_rel_def teardown_act_def)
    from this [of True] this [of False] Some show ?thesis
      by (auto simp: close_sys_def split: cpc.splits)
  qed
qed

theorem system_close_not_stuck_witness:
  "\<exists>s. run sysact (put_sys 0 [1] @ replicate 5 YClose @ replicate 6 (YFlush ChDone WriteOk)) small_system = Some s \<and>
     y_frame s \<noteq> None \<and> sysact YClose s = None \<and> (\<exists>s'. sysact (YFlush ChDone WriteOk) s = Some s')"
proof -
  let ?as = "put_sys 0 [1] @ replicate 5 YClose @ replicate 6 (YFlush ChDone WriteOk)"
  have "reaches sysact ?as (\<lambda>s. a_close (y_a s) = CWait \<and> y_frame s \<noteq> None \<and> sysact YClose s = None) small_system"
    by code_simp
  then obtain s where s: "run sysact ?as small_system = Some s" "a_close (y_a s) = CWait" "y_frame s \<noteq> None"
    "sysact YClose s = None"
    by (auto simp: reaches_iff)
  show ?thesis using system_close_not_stuck [OF small_cfg_wf run_reachable [OF s(1)]] s by auto
qed

text \<open>C7: the final flush ends. Once the flush goroutine has seen done, each of its steps, inside
  \<^verbatim>\<open>writeFrame\<close> too and whatever the network answers, decreases a bound given by the buffer and the
  batch size, and no step of any other goroutine changes it; until it is zero the flush goroutine has
  a step, and at zero it has exited.\<close>

theorem system_final_flush_terminates:
  assumes "config_wf cfg" and "reachable sysact (system_init cfg enc framer n m dialled) s"
    and "final (a_flush (y_a s))" and "sysact e s = Some s'"
  shows "final (a_flush (y_a s')) \<and>
    (case e of YFlush _ _ \<Rightarrow> sys_left s' < sys_left s | _ \<Rightarrow> sys_left s' = sys_left s) \<and>
    int (sys_left s) \<le> 64 * (bufferSize (a_cfg (y_a s)) + batchSize (a_cfg (y_a s))) + 44 \<and>
    (sys_left s = 0 \<longleftrightarrow> a_flush (y_a s) = FExit) \<and>
    (a_flush (y_a s) \<noteq> FExit \<longrightarrow> (\<exists>s1. sysact (YFlush ChDone io) s = Some s1))"
proof -
  note inv = system_reachable [OF assms(1,2)]
  have g: "gate (y_a s)" and sh: "shape (y_a s)" using inv(2) by (simp_all add: async_inv_def)
  have m: "mutex (y_k s)" using inv(3) by (simp add: conn_inv_def)
  have "final (a_flush (y_a s')) \<and>
    (case e of YFlush _ _ \<Rightarrow> sys_left s' < sys_left s | _ \<Rightarrow> sys_left s' = sys_left s)"
  proof (cases "\<exists>ch io. e = YFlush ch io")
    case True
    then show ?thesis using sys_left_flush [OF _ inv(1) assms(3) sh] assms(4) by auto
  next
    case False
    then show ?thesis using sys_left_others [OF assms(4) g assms(3)] by (auto split: yaction.splits)
  qed
  moreover have "int (flush_left (y_a s)) \<le> 4 * (bufferSize (a_cfg (y_a s)) + batchSize (a_cfg (y_a s))) + 2"
    using sh assms(3) by (auto simp: shape_def config_wf_def flush_left_def final_def split: fpc.splits fcont.splits)
  then have "int (sys_left s) \<le> 64 * (bufferSize (a_cfg (y_a s)) + batchSize (a_cfg (y_a s))) + 44"
    using frame_left_bounds [of "k_pcs (y_k s) ! 0"] by (auto simp: sys_left_def split: option.splits)
  moreover have "sys_left s = 0 \<longleftrightarrow> a_flush (y_a s) = FExit"
    using inv(1) frame_left_bounds [of "k_pcs (y_k s) ! 0"]
    by (cases "a_flush (y_a s)"; cases "y_frame s")
      (auto simp: sys_left_def flush_left_def entering_def coupled_def accounts_def)
  moreover have "a_done (y_a s)" using g assms(3) by (auto simp: gate_def)
  ultimately show ?thesis using flush_sys_enabled [OF inv(1) m] by simp
qed

theorem system_final_flush_terminates_witness:
  "\<exists>s s'. run sysact (put_sys 0 [1] @ replicate 5 YClose @ replicate 6 (YFlush ChDone WriteOk)) small_system = Some s \<and>
     sysact (YFlush ChDone (WriteFails 0 [])) s = Some s' \<and> y_frame s' \<noteq> None \<and> sys_left s' < sys_left s"
proof -
  let ?as = "put_sys 0 [1] @ replicate 5 YClose @ replicate 6 (YFlush ChDone WriteOk)"
  have "reaches sysact ?as (\<lambda>s. final (a_flush (y_a s)) \<and>
      reaches sysact [YFlush ChDone (WriteFails 0 [])] (\<lambda>s'. y_frame s' \<noteq> None) s) small_system"
    by code_simp
  then obtain s s' where s: "run sysact ?as small_system = Some s" "final (a_flush (y_a s))"
    "sysact (YFlush ChDone (WriteFails 0 [])) s = Some s'" "y_frame s' \<noteq> None"
    by (auto simp: reaches_iff split: option.splits)
  show ?thesis using system_final_flush_terminates [OF small_cfg_wf run_reachable [OF s(1)] s(2,3)] s by auto
qed

end
