(* ===== verification/Presets_Async.thy ===== *)
theory Presets_Async
  imports Presets Root_System
begin

text \<open>
  The presets over the concurrent writer. A writer built by a constructor is started, its goroutines
  run in any order while the network fails as it likes, and the peer of each connection reads what it
  received: whole messages whose payloads were handed to \<^verbatim>\<open>Write\<close>, in order, then at most the
  beginning of a torn frame.
\<close>

section \<open>A constructed writer, started\<close>

text \<open>
  \<open>n\<close> callers of \<^verbatim>\<open>Write\<close> and \<open>m\<close> of \<^verbatim>\<open>Sync\<close> use the writer. \<^verbatim>\<open>New\<close> makes
  the queue and starts the flush goroutine in asynchronous mode only; there is no such system for a
  synchronous writer, whose callers write their own frames (\<open>Root_Conn\<close>).
\<close>

definition started :: "nat \<Rightarrow> nat \<Rightarrow> writer \<Rightarrow> system option" where
  "started n m w =
     (case mode (w_cfg w) of
        ModeAsync \<Rightarrow> Some (system_init (w_cfg w) (w_enc w) (w_framer w) n m (hasConn w))
      | ModeSync \<Rightarrow> None)"

lemma started_Some:
  "started n m w = Some s \<longleftrightarrow>
     mode (w_cfg w) = ModeAsync \<and> s = system_init (w_cfg w) (w_enc w) (w_framer w) n m (hasConn w)"
  by (auto simp: started_def split: Mode.split)

text \<open>What the peer of a connection received, and the part of it that is a torn frame.\<close>

definition peer_bytes :: "conn \<Rightarrow> system \<Rightarrow> bytes" where
  "peer_bytes c s = concat (map chunk_bytes (stream (k_wire (y_k s)) c))"

definition torn_tail :: "chunk list \<Rightarrow> bytes" where
  "torn_tail chs = (if chs = [] then [] else case last chs of Whole _ _ \<Rightarrow> [] | Partial p \<Rightarrow> p)"

lemma started_New:
  "New t enc framer opts d = Inr w \<Longrightarrow> config_wf (w_cfg w) \<and> enc = Some (w_enc w) \<and> framer = Some (w_framer w)"
  using New_wf [of t enc framer opts d w]
  by (auto simp: New_def Let_def reportErr_def triggerReconnect_def writer_wf_def split: option.splits sum.splits)

lemma whole_bytes:
  "list_all is_whole chs \<Longrightarrow> concat (map chunk_bytes chs) = concat (map fst (concat (map chunk_frames chs)))"
  by (induction chs) (auto simp: is_whole_def chunk_bytes_def chunk_frames_def split: chunk.splits)

lemma tidy_bytes:
  assumes "tidy chs"
  shows "concat (map chunk_bytes chs) = concat (map fst (concat (map chunk_frames chs))) @ torn_tail chs"
proof (cases chs rule: rev_cases)
  case (snoc xs ch)
  with assms whole_bytes [of xs] show ?thesis
    by (cases ch) (simp_all add: tidy_def torn_tail_def chunk_bytes_def chunk_frames_def)
qed (simp add: torn_tail_def)

section \<open>Payloads come from the callers\<close>

definition payload_of :: "encode_fn \<Rightarrow> (bytes \<Rightarrow> bool) \<Rightarrow> bytes \<Rightarrow> bool" where
  "payload_of enc P x \<longleftrightarrow> (\<exists>r. P r \<and> enc [] r = Inr x)"

definition pc_from :: "encode_fn \<Rightarrow> (bytes \<Rightarrow> bool) \<Rightarrow> wpc \<Rightarrow> bool" where
  "pc_from enc P pc =
     (case pc of
        WEncode r \<Rightarrow> P r
      | WGate x \<Rightarrow> payload_of enc P x
      | WLocked x \<Rightarrow> payload_of enc P x
      | WSend x \<Rightarrow> payload_of enc P x
      | WEvict x \<Rightarrow> payload_of enc P x
      | WEvicted x \<Rightarrow> payload_of enc P x
      | WRetry x \<Rightarrow> payload_of enc P x
      | _ \<Rightarrow> True)"

definition payloads_from :: "(bytes \<Rightarrow> bool) \<Rightarrow> astate \<Rightarrow> bool" where
  "payloads_from P a \<longleftrightarrow> (\<forall>x \<in> set (a_in a). payload_of (a_enc a) P x) \<and> list_all (pc_from (a_enc a) P) (a_pcs a)"

lemma payload_ofI: "P r \<Longrightarrow> enc [] r = Inr x \<Longrightarrow> payload_of enc P x"
  by (auto simp: payload_of_def)

lemma list_all_update: "list_all Q xs \<Longrightarrow> Q x \<Longrightarrow> list_all Q (xs[i := x])"
  unfolding list_all_iff using set_update_subset_insert by fastforce

lemma payloads_writer:
  assumes "writer_act i p a = Some a'" and "P p" and inv: "payloads_from P a"
  shows "payloads_from P a'"
proof -
  have i: "i < length (a_pcs a)" using assms(1) by (simp add: writer_act_def split: if_splits)
  with inv have pc: "pc_from (a_enc a) P (a_pcs a ! i)" by (simp add: payloads_from_def list_all_length)
  note defs = writer_act_def goto_w_def a_count_def a_accept_def payloads_from_def pc_from_def
  show ?thesis
  proof (cases "a_pcs a ! i")
    case (WEncode r)
    with pc have "P r" by (simp add: pc_from_def)
    from payload_ofI [of P r, OF this] have "payload_of (a_enc a) P x" if "a_enc a [] r = Inr x" for x using that .
    with assms i WEncode show ?thesis by (auto simp: defs intro!: list_all_update split: sum.splits)
  qed (use assms i pc in \<open>auto simp: defs intro!: list_all_update split: if_splits sum.splits option.splits\<close>)
qed

lemma payloads_rest:
  "payloads_from P a \<Longrightarrow> a_in a' = a_in a \<Longrightarrow> a_enc a' = a_enc a \<Longrightarrow> a_pcs a' = a_pcs a \<Longrightarrow> payloads_from P a'"
  by (simp add: payloads_from_def)

lemma act_rest:
  assumes "act e a = Some a'" and "\<And>i p. e \<noteq> AWriter i p"
  shows "a_in a' = a_in a \<and> a_enc a' = a_enc a \<and> a_pcs a' = a_pcs a"
proof (cases e)
  case (AFlush ch ok)
  with assms have "flush_act ch ok a = Some a'" by simp
  then show ?thesis
    by (cases rule: flush_act_cases)
      (auto simp: finish_all_def flush_out_def a_count_def split: fcont.splits sum.splits)
next
  case (ASync j)
  with assms sync_act_eq [of j a a'] show ?thesis by auto
qed (use assms in \<open>auto simp: close_act_def split: cpc.splits if_splits\<close>)

lemma flush_moves: "flush_act ch ok a = Some a' \<Longrightarrow> payloads_from P a \<Longrightarrow> payloads_from P a'"
  using act_rest [of "AFlush ch ok" a a'] payloads_rest [of P a a'] by simp

lemma close_moves: "close_act a = Some a' \<Longrightarrow> payloads_from P a \<Longrightarrow> payloads_from P a'"
  using act_rest [of AClose a a'] payloads_rest [of P a a'] by simp

lemma sync_moves: "sync_act j a = Some a' \<Longrightarrow> payloads_from P a \<Longrightarrow> payloads_from P a'"
  using act_rest [of "ASync j" a a'] payloads_rest [of P a a'] by simp

lemma payloads_sys:
  assumes "sysact e s = Some s'" and "\<And>i p. e = YWriter i p \<Longrightarrow> P p" and inv: "payloads_from P (y_a s)"
  shows "payloads_from P (y_a s')"
proof (cases e)
  case YClose
  with assms(1) have "close_sys s = Some s'" by simp
  then show ?thesis using inv by (cases rule: close_sys_cases) (auto intro: close_moves)
next
  case (YFlush ch io)
  with assms(1) have "flush_sys ch io s = Some s'" by simp
  then show ?thesis using inv by (cases rule: flush_sys_cases) (auto intro: flush_moves)
qed (use assms in \<open>auto intro: payloads_writer sync_moves\<close>)

lemma payloads_run:
  "run sysact es s = Some s' \<Longrightarrow> (\<And>i p. YWriter i p \<in> set es \<Longrightarrow> P p) \<Longrightarrow> payloads_from P (y_a s) \<Longrightarrow>
     payloads_from P (y_a s')"
proof (induction es arbitrary: s)
  case (Cons e es)
  then obtain s1 where s1: "sysact e s = Some s1" "run sysact es s1 = Some s'" by (auto split: option.splits)
  with Cons.prems have "payloads_from P (y_a s1)" by (intro payloads_sys [OF s1(1)]) auto
  with Cons s1 show ?case by auto
qed simp

section \<open>What the peer of a connection reads\<close>

lemma act_static: "act e a = Some a' \<Longrightarrow> a_framer a' = a_framer a \<and> a_enc a' = a_enc a"
proof (cases e)
  case (AWriter i p)
  moreover assume "act e a = Some a'"
  ultimately show ?thesis
    by (auto simp: writer_act_def goto_w_def a_count_def a_accept_def
        split: if_splits wpc.splits sum.splits option.splits)
next
  case AClose
  moreover assume "act e a = Some a'"
  ultimately show ?thesis by (auto simp: close_act_def split: cpc.splits if_splits)
next
  case (ASync j)
  moreover assume "act e a = Some a'"
  ultimately show ?thesis using sync_act_eq [of j a a'] by auto
next
  case (AFlush ch ok)
  assume "act e a = Some a'"
  with AFlush have "flush_act ch ok a = Some a'" by simp
  then show ?thesis
    by (cases rule: flush_act_cases)
      (auto simp: finish_all_def flush_out_def a_count_def split: fcont.splits sum.splits)
qed

interpretation hooks: step_invariant act "\<lambda>a. a_framer a = fr \<and> a_enc a = en" for fr en
  by unfold_locales (auto dest: act_static)

text \<open>The logs in whole frames on a connection, which the writer counts as delivered.\<close>

definition logs_on :: "conn \<Rightarrow> system \<Rightarrow> nat" where
  "logs_on c s = sum_list (map snd (frames_on (k_wire (y_k s)) c))"

lemma framed_length: "list_all2 (framed F) bs fs \<Longrightarrow> length (concat bs) = sum_list (map snd fs)"
  by (induction rule: list_all2_induct) (auto simp: framed_def)

text \<open>
  One statement for every format: a connection carries whole frames of batches of payloads accepted in
  order, each encoded from a record some caller wrote, then at most a torn frame.
\<close>

definition written :: "yaction list \<Rightarrow> bytes \<Rightarrow> bool" where
  "written es r \<longleftrightarrow> (\<exists>i. YWriter i r \<in> set es)"

lemma system_reads:
  assumes w: "config_wf (w_cfg w)" and st0: "started n m w = Some s0" and r: "run sysact es s0 = Some s"
  shows "\<exists>bs fr. list_all2 (\<lambda>b f. w_framer w [] b = Inr f) bs fr \<and>
    peer_bytes c s = concat fr @ torn_tail (stream (k_wire (y_k s)) c) \<and>
    subseq (concat bs) (a_in (y_a s)) \<and> length (concat bs) = logs_on c s \<and>
    (\<forall>x \<in> set (concat bs). payload_of (w_enc w) (written es) x)"
proof -
  let ?ws = "k_wire (y_k s)"
  have reach: "reachable sysact (system_init (w_cfg w) (w_enc w) (w_framer w) n m (hasConn w)) s"
    using run_reachable [OF r] st0 by (simp add: started_Some)
  note inv = system_reachable [OF w reach]
  have st: "a_framer (y_a s) = w_framer w \<and> a_enc (y_a s) = w_enc w"
    using hooks.reachable_inv [of "async_init (w_cfg w) (w_enc w) (w_framer w) n m" "y_a s" "w_framer w" "w_enc w"]
      system_projects [OF reach]
    by (simp add: async_init_def)
  have "list_all2 (framed (w_framer w)) (y_sent s) (whole_frames ?ws)" using inv(1) st by (simp add: coupled_def)
  from frames_on_sent [OF this, of c] obtain bs where bs: "list_all2 (framed (w_framer w)) bs (frames_on ?ws c)"
    "subseq bs (y_sent s)" by blast
  have "payloads_from (written es) (y_a s0)"
    using st0 by (simp add: payloads_from_def started_Some system_init_def async_init_def pc_from_def list_all_iff)
  with payloads_run [OF r, of "written es"] have pay: "payloads_from (written es) (y_a s)"
    by (auto simp: written_def)
  have "ordered (y_a s)" using inv(2) by (simp add: async_inv_def)
  with subseq_concat [OF bs(2)] sent_accepted [OF inv(1)] have sub: "subseq (concat bs) (a_in (y_a s))"
    by (blast intro: subseq_order.trans)
  have "tidy (stream ?ws c)" using inv(4) by (auto simp: single_def)
  from tidy_bytes [OF this] have bytes: "peer_bytes c s = concat (map fst (frames_on ?ws c)) @ torn_tail (stream ?ws c)"
    by (simp add: peer_bytes_def frames_on_def)
  have "list_all2 (\<lambda>b f. w_framer w [] b = Inr f) bs (map fst (frames_on ?ws c))"
    using bs(1) by (auto simp: list_all2_map2 framed_def elim: list_all2_mono)
  moreover have "length (concat bs) = logs_on c s"
    using bs(1) unfolding logs_on_def by (rule framed_length)
  moreover have "payload_of (w_enc w) (written es) x" if "x \<in> set (concat bs)" for x
    using that subseq_set [OF sub] pay st by (auto simp: payloads_from_def)
  ultimately show ?thesis using bytes sub by blast
qed

lemma list_all2_set1: "list_all2 R xs ys \<Longrightarrow> x \<in> set xs \<Longrightarrow> \<exists>y. R x y"
  by (induction rule: list_all2_induct) auto

lemma batch_length:
  assumes "b \<in> set bs" and "subseq (concat bs) xs"
  shows "length (concat b) \<le> length (concat xs)"
proof -
  obtain us vs where "bs = us @ b # vs" using assms(1) by (meson split_list)
  then have "length (concat b) \<le> length (concat (concat bs))" by simp
  also have "\<dots> \<le> length (concat xs)" using subseq_concat [OF assms(2)] by (rule list_emb_length)
  finally show ?thesis .
qed

section \<open>Properties\<close>

text \<open>C8: newline-delimited JSON over the concurrent writer, in asynchronous mode. However many callers write through one writer
  of the preset, however their goroutines, the flush and the reconnect goroutine and Close interleave,
  and whatever the network does, the peer of each connection reads lines that are records some caller
  wrote, without their trailing newlines, in the order the writer accepted them and never twice, as many
  as the writer takes to be delivered there, then at most the beginning of one torn frame.\<close>

theorem ndjson_concurrent_stream:
  assumes "ndjson_NewWriter t opts d = Inr w" and "started n m w = Some s0" and "run sysact es s0 = Some s"
    and "\<forall>i r. YWriter i r \<in> set es \<longrightarrow> LF \<notin> set (trim_right_lf r)"
  shows "\<exists>ls fr. peer_bytes c s = fr @ torn_tail (stream (k_wire (y_k s)) c) \<and> parse_lines fr = Some ls \<and>
    subseq ls (a_in (y_a s)) \<and> length ls = logs_on c s \<and>
    (\<forall>l\<in>set ls. \<exists>i r. YWriter i r \<in> set es \<and> l = trim_right_lf r)"
proof -
  have w: "config_wf (w_cfg w)" "w_enc w = ndjson_Encode" "w_framer w = ndjson_Frame"
    using started_New [OF assms(1) [unfolded ndjson_NewWriter_def]] by simp_all
  obtain bs fr where rd: "list_all2 (\<lambda>b f. w_framer w [] b = Inr f) bs fr"
    "peer_bytes c s = concat fr @ torn_tail (stream (k_wire (y_k s)) c)"
    "subseq (concat bs) (a_in (y_a s))" "length (concat bs) = logs_on c s"
    and payloads: "\<forall>x \<in> set (concat bs). payload_of (w_enc w) (written es) x"
    using system_reads [OF w(1) assms(2,3), of c] by blast
  have from_call: "\<exists>i r. YWriter i r \<in> set es \<and> l = trim_right_lf r" if "l \<in> set (concat bs)" for l
  proof -
    have "payload_of ndjson_Encode (written es) l" using payloads that unfolding w(2) by blast
    then obtain r where "written es r" "ndjson_Encode [] r = Inr l" by (auto simp: payload_of_def)
    then have "written es r" "l = trim_right_lf r" by (simp_all add: ndjson_Encode_def)
    then show ?thesis unfolding written_def by blast
  qed
  have "\<forall>b\<in>set bs. \<forall>p\<in>set b. LF \<notin> set p"
  proof (intro ballI)
    fix b p assume "b \<in> set bs" "p \<in> set b"
    with from_call [of p] assms(4) show "LF \<notin> set p" by auto
  qed
  then have "parse_lines (concat fr) = Some (concat bs)"
    using ndjson.stream_roundtrip [of bs fr] rd(1) by (simp add: w(3))
  with rd(2-4) from_call show ?thesis by blast
qed

text \<open>Syslog over the concurrent writer, in asynchronous mode, octet counting: the peer of each connection splits what it
  received into messages that callers wrote, whole, in the order accepted and never twice, then at
  most the beginning of one torn frame.\<close>

theorem syslog_concurrent_stream:
  assumes "syslog_NewWriter os t opts d = Inr w" and "o_framing (syslog_apply os opts) = OctetCounting"
    and "started n m w = Some s0" and "run sysact es s0 = Some s"
  shows "\<exists>ms fr. peer_bytes c s = fr @ torn_tail (stream (k_wire (y_k s)) c) \<and> parse_octets fr = Some ms \<and>
    subseq ms (a_in (y_a s)) \<and> length ms = logs_on c s \<and> (\<forall>r\<in>set ms. \<exists>i. YWriter i r \<in> set es)"
proof -
  have w: "config_wf (w_cfg w)" "w_enc w = passthrough_Encode" "w_framer w = syslog_Frame (syslog_NewFramer OctetCounting)"
    using started_New [OF assms(1) [unfolded syslog_NewWriter_def syslog_buildWriter_def]] assms(2) by simp_all
  obtain bs fr where rd: "list_all2 (\<lambda>b f. w_framer w [] b = Inr f) bs fr"
    "peer_bytes c s = concat fr @ torn_tail (stream (k_wire (y_k s)) c)"
    "subseq (concat bs) (a_in (y_a s))" "length (concat bs) = logs_on c s"
    and payloads: "\<forall>x \<in> set (concat bs). payload_of (w_enc w) (written es) x"
    using system_reads [OF w(1) assms(3,4), of c] by blast
  have "\<exists>i. YWriter i r \<in> set es" if "r \<in> set (concat bs)" for r
    using payloads that by (auto simp: payload_of_def written_def w(2) passthrough_Encode_def)
  moreover have "parse_octets (concat fr) = Some (concat bs)"
    using syslog_octets.stream_roundtrip [of bs fr] rd(1) by (simp add: w(3))
  ultimately show ?thesis using rd(2-4) by blast
qed

text \<open>C9: the Forward protocol over the concurrent writer, in asynchronous mode: as long as less than 2^63 bytes were accepted, the
  peer of each connection reads whole PackedForward messages with the writer's tag and the right
  count, whose entries are values that callers wrote, in the order accepted and never twice, then at
  most the beginning of one torn message.\<close>

theorem fluent_concurrent_stream:
  assumes "msgp_laws M" and "NewNativeWriter M t opts d = Inr w"
    and "started n m w = Some s0" and "run sysact es s0 = Some s"
    and "tg = (if fo_tag (fluent_apply opts) = [] then defaultTag else fo_tag (fluent_apply opts))" and "length tg < 2 ^ 32"
    and "\<forall>i r. YWriter i r \<in> set es \<longrightarrow> (\<exists>v. reads r v)" and "length (concat (a_in (y_a s))) < 2 ^ 63"
  shows "\<exists>bs fr. peer_bytes c s = fr @ torn_tail (stream (k_wire (y_k s)) c) \<and>
    read_stream fr = Some (map (\<lambda>b. (tg, b, int (length b))) bs) \<and>
    subseq (concat bs) (a_in (y_a s)) \<and> length (concat bs) = logs_on c s \<and>
    (\<forall>r\<in>set (concat bs). \<exists>i. YWriter i r \<in> set es)"
proof -
  let ?F = "fluent_Frame M (fluent_NewFramer tg)"
  have w: "config_wf (w_cfg w)" "w_enc w = passthrough_Encode" "w_framer w = ?F"
    using started_New [OF assms(2) [unfolded NewNativeWriter_def fluent_buildWriter_def Let_def]] assms(5)
    by (simp_all split: if_splits)
  obtain bs fr where rd: "list_all2 (\<lambda>b f. w_framer w [] b = Inr f) bs fr"
    "peer_bytes c s = concat fr @ torn_tail (stream (k_wire (y_k s)) c)"
    "subseq (concat bs) (a_in (y_a s))" "length (concat bs) = logs_on c s"
    and payloads: "\<forall>x \<in> set (concat bs). payload_of (w_enc w) (written es) x"
    using system_reads [OF w(1) assms(3,4), of c] by blast
  have from_call: "\<exists>i. YWriter i r \<in> set es" if "r \<in> set (concat bs)" for r
    using payloads that by (auto simp: payload_of_def written_def w(2) passthrough_Encode_def)
  have "length (concat b) < 2 ^ 32" if b: "b \<in> set bs" for b
  proof -
    have "length (concat b) < 2 ^ 63" using batch_length [OF b rd(3)] assms(8) by simp
    moreover obtain f where "?F [] b = Inr f" using list_all2_set1 [OF rd(1) b] unfolding w(3) by blast
    ultimately show ?thesis
      using checkBinSize_iff [of "length (concat b)"]
      by (auto simp: msgp_laws.fluent_Frame_enc [OF assms(1)] split: option.splits)
  qed
  moreover have "\<exists>v. reads p v" if "b \<in> set bs" "p \<in> set b" for b p
    using from_call [of p] that assms(7) by auto
  ultimately have "\<forall>b\<in>set bs. (\<forall>p\<in>set b. \<exists>v. reads p v) \<and> length (concat b) < 2 ^ 32" by blast
  then have "read_stream (concat fr) = Some (map (\<lambda>b. (tg, b, int (length b))) bs)"
    using msgp_laws.forward_stream [OF assms(1), of "fluent_NewFramer tg" bs fr] rd(1) assms(6)
    by (simp add: w(3) fluent_NewFramer_def)
  with rd(2-4) from_call show ?thesis by blast
qed

text \<open>
  A run for the witnesses: one caller writes two records, the flush goroutine's tick writes the first frame
  completely; the second is torn after one byte.
\<close>

definition two_flushes :: "bytes \<Rightarrow> bytes \<Rightarrow> yaction list" where
  "two_flushes r1 r2 =
     replicate 6 (YWriter 0 r1) @ replicate 11 (YFlush ChTick WriteOk) @
     replicate 6 (YWriter 0 r2) @ replicate 9 (YFlush ChTick (WriteFails 1 []))"

theorem ndjson_concurrent_stream_witness:
  "\<exists>w s0 s. ndjson_NewWriter (Some (TCP [])) [WithAsyncMode] (Inr 0) = Inr w \<and> started 1 0 w = Some s0 \<and>
     run sysact (two_flushes [123, 125, 10] [91, 93]) s0 = Some s \<and>
     stream (k_wire (y_k s)) 0 = [Whole [123, 125, 10] 1, Partial [91]] \<and>
     (\<exists>ls fr. peer_bytes 0 s = fr @ [91] \<and> parse_lines fr = Some ls \<and> length ls = 1)"
proof -
  obtain w where w: "ndjson_NewWriter (Some (TCP [])) [WithAsyncMode] (Inr 0) = Inr w"
    by (simp add: ndjson_NewWriter_def New_def Let_def)
  let ?es = "two_flushes [123, 125, 10] [91, 93]"
  have "case ndjson_NewWriter (Some (TCP [])) [WithAsyncMode] (Inr 0) of Inl _ \<Rightarrow> False
    | Inr w \<Rightarrow> (case started 1 0 w of None \<Rightarrow> False
        | Some s0 \<Rightarrow> reaches sysact ?es (\<lambda>s. stream (k_wire (y_k s)) 0 = [Whole [123, 125, 10] 1, Partial [91]] \<and> logs_on 0 s = 1) s0)"
    by code_simp
  with w obtain s0 s where s: "started 1 0 w = Some s0" "run sysact ?es s0 = Some s"
    "stream (k_wire (y_k s)) 0 = [Whole [123, 125, 10] 1, Partial [91]]" "logs_on 0 s = 1"
    by (auto simp: reaches_iff split: option.splits)
  have "\<forall>i r. YWriter i r \<in> set ?es \<longrightarrow> LF \<notin> set (trim_right_lf r)"
    by (auto simp: two_flushes_def trim_right_lf_def)
  from ndjson_concurrent_stream [OF w s(1,2) this, of 0] s w show ?thesis by (auto simp: torn_tail_def)
qed

theorem syslog_concurrent_stream_witness:
  "\<exists>w s0 s. syslog_NewWriter \<lparr>env_hostname = [], env_exe = [], env_pid = 7\<rparr> (Some (TCP []))
       [\<lambda>o1. o1\<lparr>o_wireOpts := [WithAsyncMode]\<rparr>] (Inr 0) = Inr w \<and> started 1 0 w = Some s0 \<and>
     run sysact (two_flushes [60, 49] [60, 50]) s0 = Some s \<and>
     (\<exists>ms fr. peer_bytes 0 s = fr @ [50] \<and> parse_octets fr = Some ms \<and> length ms = 1)"
proof -
  let ?os = "\<lparr>env_hostname = [], env_exe = [], env_pid = 7\<rparr>" and ?o = "[\<lambda>o1. o1\<lparr>o_wireOpts := [WithAsyncMode]\<rparr>]"
  let ?es = "two_flushes [60, 49] [60, 50]"
  obtain w where w: "syslog_NewWriter ?os (Some (TCP [])) ?o (Inr 0) = Inr w"
    by (simp add: syslog_NewWriter_def syslog_buildWriter_def New_def Let_def)
  have f: "o_framing (syslog_apply ?os ?o) = OctetCounting"
    by (simp add: syslog_apply_def syslog_defaultOptions_def)
  have "case syslog_NewWriter ?os (Some (TCP [])) ?o (Inr 0) of Inl _ \<Rightarrow> False
    | Inr w \<Rightarrow> (case started 1 0 w of None \<Rightarrow> False
        | Some s0 \<Rightarrow> reaches sysact ?es (\<lambda>s. stream (k_wire (y_k s)) 0 = [Whole [50, 32, 60, 49] 1, Partial [50]] \<and> logs_on 0 s = 1) s0)"
    by code_simp
  with w obtain s0 s where s: "started 1 0 w = Some s0" "run sysact ?es s0 = Some s"
    "stream (k_wire (y_k s)) 0 = [Whole [50, 32, 60, 49] 1, Partial [50]]" "logs_on 0 s = 1"
    by (auto simp: reaches_iff split: option.splits)
  from syslog_concurrent_stream [OF w f s(1,2), of 0] s w show ?thesis by (auto simp: torn_tail_def)
qed

lemma one_flush:
  assumes "1 < bufferSize cfg" "1 < batchSize cfg" "fr [] [r] = Inr f"
  shows "reaches sysact (replicate 6 (YWriter 0 r) @ replicate 11 (YFlush ChTick WriteOk))
    (\<lambda>s. k_wire (y_k s) = [(0, Whole f 1)] \<and> a_in (y_a s) = [r])
    (system_init cfg passthrough_Encode fr 1 0 True)"
  using assms
  by (simp add: reaches_def numeral_eq_Suc system_init_def async_init_def conn_init_def writer_act_def
      passthrough_Encode_def goto_w_def try_send_def make_chan_def a_accept_def lift_a_def lift_k_def
      flush_sys_def flush_act_def after_drain_def entering_def try_recv_def frame_act_def goto_p_def
      writes_whole_def k_put_def after_flush_def batch_of_def flush_out_def a_count_def)

theorem fluent_concurrent_stream_witness:
  "\<exists>w s0 s. NewNativeWriter long_form (Some (TCP [])) [WithTag [97], fluent_WithZapwireOptions [WithAsyncMode]] (Inr 0) = Inr w \<and>
     started 1 0 w = Some s0 \<and>
     run sysact (replicate 6 (YWriter 0 [5]) @ replicate 11 (YFlush ChTick WriteOk)) s0 = Some s \<and>
     (\<exists>bs. read_stream (peer_bytes 0 s) = Some (map (\<lambda>b. ([97], b, int (length b))) bs) \<and> concat bs = [[5]])"
proof -
  let ?o = "[WithTag [97], fluent_WithZapwireOptions [WithAsyncMode]]"
  let ?es = "replicate 6 (YWriter 0 [5]) @ replicate 11 (YFlush ChTick WriteOk)"
  let ?F = "fluent_Frame long_form (fluent_NewFramer [97])"
  have o1: "fo_tag (fluent_apply ?o) = [97]" "fo_wireOpts (fluent_apply ?o) = [WithAsyncMode]"
    by (simp_all add: fluent_apply_def WithTag_def fluent_WithZapwireOptions_def fluent_zero_options_def)
  obtain w where w: "NewNativeWriter long_form (Some (TCP [])) ?o (Inr 0) = Inr w"
    by (simp add: NewNativeWriter_def fluent_buildWriter_def New_def Let_def)
  then have w1: "w_enc w = passthrough_Encode" "w_framer w = ?F" "hasConn w" "w_cfg w = applyOptions [WithAsyncMode]"
    by (auto simp: NewNativeWriter_def fluent_buildWriter_def New_def Let_def hasConn_def o1)
  have cfg: "1 < bufferSize (applyOptions [WithAsyncMode])" "1 < batchSize (applyOptions [WithAsyncMode])"
    by (simp_all add: applyOptions_def normalizeConfig_fields WithAsyncMode_def defaultConfig_def default_defs maxBufferSize_def)
  have v: "reads [5] (MInt 5)" by (simp add: reads_def mp_value.simps mp_token.simps)
  then obtain f where "?F [] [[5]] = Inr f"
    using long_form.forward_frame [of "fluent_NewFramer [97]" "[[5]]"] by (auto simp: fluent_NewFramer_def)
  from one_flush [OF cfg, of ?F "[5]" f, OF this] obtain s where s:
    "run sysact ?es (system_init (w_cfg w) (w_enc w) (w_framer w) 1 0 (hasConn w)) = Some s"
    "k_wire (y_k s) = [(0, Whole f 1)]" "a_in (y_a s) = [[5]]"
    by (auto simp: reaches_iff w1)
  have st: "started 1 0 w = Some (system_init (w_cfg w) (w_enc w) (w_framer w) 1 0 (hasConn w))"
    by (simp add: started_Some w1 applyOptions_def normalizeConfig_fields WithAsyncMode_def)
  from s have s1: "torn_tail (stream (k_wire (y_k s)) 0) = []" "logs_on 0 s = 1"
    by (simp_all add: torn_tail_def stream_def logs_on_def frames_on_def)
  have vs: "\<forall>i r. YWriter i r \<in> set ?es \<longrightarrow> (\<exists>v. reads r v)" using v by auto
  have t: "[97] = (if fo_tag (fluent_apply ?o) = [] then defaultTag else fo_tag (fluent_apply ?o))" "length [97 :: byte] < 2 ^ 32"
    by (simp_all add: o1)
  have l: "length (concat (a_in (y_a s))) < 2 ^ 63" by (simp add: s(3))
  obtain bs where bs: "read_stream (peer_bytes 0 s) = Some (map (\<lambda>b. ([97], b, int (length b))) bs)"
    "subseq (concat bs) [[5]]" "length (concat bs) = 1"
    using fluent_concurrent_stream [OF long_form.msgp_laws_axioms w st s(1) t vs l, of 0] s1 s(3) by auto
  have "concat bs = [[5]]"
    using subseq_same_length [OF bs(2)] bs(3) by simp
  with w st s(1) bs(1) show ?thesis by blast
qed

end
