(* ===== verification/Fluent_Entry.thy ===== *)
theory Fluent_Entry
  imports Fluent_Transcode
begin

text \<open>
  \<^verbatim>\<open>fluent/proto_gen.go\<close>: the rest of the generated methods of \<^verbatim>\<open>Entry\<close>. The msgpack library's streaming
  writer and its readers, over a stream or over a byte slice, are parameters: states with the
  operations the generated code calls. The locales state what is documented of them, that a reader
  returns the next value and advances past it and that a writer's output reads back as the value
  given. A Go value read back is represented by the msgpack value it stands for.
\<close>

section \<open>The generated methods\<close>

record 'w msgp_writer =
  en_Append :: "byte \<Rightarrow> 'w \<Rightarrow> go_error option \<times> 'w"
  en_Extension :: "nat \<Rightarrow> bytes \<Rightarrow> 'w \<Rightarrow> go_error option \<times> 'w"
  en_Intf :: "jany \<Rightarrow> 'w \<Rightarrow> go_error option \<times> 'w"

text \<open>Reading an extension checks its type and hands the payload to \<^verbatim>\<open>UnmarshalBinary\<close>.\<close>

record 's msgp_reader =
  dc_ArrayHeader :: "'s \<Rightarrow> (go_error, nat) result \<times> 's"
  dc_Extension :: "nat \<Rightarrow> (bytes \<Rightarrow> (go_error, gotime) result) \<Rightarrow> 's \<Rightarrow> (go_error, gotime) result \<times> 's"
  dc_Intf :: "'s \<Rightarrow> (go_error, mval) result \<times> 's"
  dc_ArrayError :: "nat \<Rightarrow> nat \<Rightarrow> go_error"
  dc_Wrap :: "go_error \<Rightarrow> bytes \<Rightarrow> go_error"

text \<open>An entry that has been read: \<^verbatim>\<open>Record\<close> holds a decoded Go value.\<close>

record read_entry =
  re_Time :: gotime
  re_Record :: mval

definition EncodeMsg :: "'w msgp_writer \<Rightarrow> transcode_env \<Rightarrow> Entry \<Rightarrow> 'w \<Rightarrow> go_error option \<times> 'w" where
  "EncodeMsg W E z w =
     (case en_Append W 0x92 w of
        (Some err, w1) \<Rightarrow> (Some err, w1)
      | (None, w1) \<Rightarrow>
          (case en_Extension W ExtensionType (MarshalBinaryTo (Time z)) w1 of
             (Some err, w2) \<Rightarrow> (Some (e_wrap E err (str ''Time'')), w2)
           | (None, w2) \<Rightarrow>
               (case en_Intf W (Record z) w2 of
                  (Some err, w3) \<Rightarrow> (Some (e_wrap E err (str ''Record'')), w3)
                | (None, w3) \<Rightarrow> (None, w3))))"

definition DecodeMsg :: "'s msgp_reader \<Rightarrow> read_entry \<Rightarrow> 's \<Rightarrow> go_error option \<times> read_entry \<times> 's" where
  "DecodeMsg R z s =
     (case dc_ArrayHeader R s of
        (Inl err, s1) \<Rightarrow> (Some (dc_Wrap R err []), z, s1)
      | (Inr n, s1) \<Rightarrow>
          if n \<noteq> 2 then (Some (dc_ArrayError R 2 n), z, s1)
          else (case dc_Extension R ExtensionType UnmarshalBinary s1 of
             (Inl err, s2) \<Rightarrow> (Some (dc_Wrap R err (str ''Time'')), z, s2)
           | (Inr t, s2) \<Rightarrow>
               (case dc_Intf R s2 of
                  (Inl err, s3) \<Rightarrow> (Some (dc_Wrap R err (str ''Record'')), z\<lparr>re_Time := t\<rparr>, s3)
                | (Inr v, s3) \<Rightarrow> (None, z\<lparr>re_Time := t, re_Record := v\<rparr>, s3))))"

text \<open>Over a byte slice the reader's state is what is left of it, and the rest is returned.\<close>

definition UnmarshalMsg :: "bytes msgp_reader \<Rightarrow> read_entry \<Rightarrow> bytes \<Rightarrow> (go_error, bytes) result \<times> read_entry" where
  "UnmarshalMsg R z bts =
     (case dc_ArrayHeader R bts of
        (Inl err, _) \<Rightarrow> (Inl (dc_Wrap R err []), z)
      | (Inr n, b1) \<Rightarrow>
          if n \<noteq> 2 then (Inl (dc_ArrayError R 2 n), z)
          else (case dc_Extension R ExtensionType UnmarshalBinary b1 of
             (Inl err, _) \<Rightarrow> (Inl (dc_Wrap R err (str ''Time'')), z)
           | (Inr t, b2) \<Rightarrow>
               (case dc_Intf R b2 of
                  (Inl err, _) \<Rightarrow> (Inl (dc_Wrap R err (str ''Record'')), z\<lparr>re_Time := t\<rparr>)
                | (Inr v, b3) \<Rightarrow> (Inr b3, z\<lparr>re_Time := t, re_Record := v\<rparr>))))"

text \<open>\<^verbatim>\<open>msgp.ExtensionPrefixSize\<close> and \<^verbatim>\<open>msgp.GuessSize\<close> are arguments.\<close>

definition Msgsize :: "int \<Rightarrow> (jany \<Rightarrow> int) \<Rightarrow> Entry \<Rightarrow> int" where
  "Msgsize ExtensionPrefixSize GuessSize z = 1 + ExtensionPrefixSize + int EventTime_Len + GuessSize (Record z)"

text \<open>The two readers are one: what differs is how the rest of the input is handed back.\<close>

lemma UnmarshalMsg_DecodeMsg:
  "UnmarshalMsg R z b =
     (case DecodeMsg R z b of (Some err, z', _) \<Rightarrow> (Inl err, z') | (None, z', r) \<Rightarrow> (Inr r, z'))"
  by (simp add: UnmarshalMsg_def DecodeMsg_def split: prod.split sum.split)

section \<open>What the library promises\<close>

text \<open>
  Bytes that hold an entry: the header of an array of two, the EventTime of the entry and its record.
\<close>

definition holds_entry :: "bytes \<Rightarrow> gotime \<Rightarrow> jany \<Rightarrow> bool" where
  "holds_entry x t j \<longleftrightarrow>
     (\<exists>h p q. x = h @ p @ q \<and> reads_token h (TArr 2) \<and> reads p (MExt ExtensionType (MarshalBinaryTo t)) \<and>
       reads q (intf_val j))"

text \<open>
  A reader stands at some input, of which each operation takes the value it reads; the extension's
  payload goes to the caller's \<^verbatim>\<open>UnmarshalBinary\<close>, whose error is the operation's. An input that does not
  begin with what is asked for is an error.
\<close>

locale entry_reader =
  fixes R :: "'s msgp_reader" and view :: "'s \<Rightarrow> bytes"
  assumes ArrayHeader: "view s = x @ rest \<Longrightarrow> reads_token x (TArr n) \<Longrightarrow> \<exists>s'. dc_ArrayHeader R s = (Inr n, s') \<and> view s' = rest"
    and ArrayHeader_error: "(\<nexists>n r. mp_token (view s) = Some (TArr n, r)) \<Longrightarrow> \<exists>e s'. dc_ArrayHeader R s = (Inl e, s')"
    and Extension: "view s = x @ rest \<Longrightarrow> reads x (MExt t p) \<Longrightarrow> f p = Inr v \<Longrightarrow>
      \<exists>s'. dc_Extension R t f s = (Inr v, s') \<and> view s' = rest"
    and Extension_error: "(\<And>p r v. mp_value (view s) = Some (MExt t p, r) \<Longrightarrow> f p \<noteq> Inr v) \<Longrightarrow>
      \<exists>e s'. dc_Extension R t f s = (Inl e, s')"
    and Intf: "view s = x @ rest \<Longrightarrow> reads x (intf_val j) \<Longrightarrow> plain_value j \<Longrightarrow>
      \<exists>s'. dc_Intf R s = (Inr (intf_val j), s') \<and> view s' = rest"
    and Intf_error: "mp_value (view s) = None \<Longrightarrow> \<exists>e s'. dc_Intf R s = (Inl e, s')"
begin

lemma DecodeMsg_entry:
  assumes "view s = x @ rest" and "holds_entry x t j" and "plain_value j" and "UnmarshalBinary (MarshalBinaryTo t) = Inr t'"
  shows "\<exists>s'. DecodeMsg R z s = (None, z\<lparr>re_Time := t', re_Record := intf_val j\<rparr>, s') \<and> view s' = rest"
proof -
  obtain h p q where x: "x = h @ p @ q" "reads_token h (TArr 2)" "reads p (MExt ExtensionType (MarshalBinaryTo t))" "reads q (intf_val j)"
    using assms(2) by (auto simp: holds_entry_def)
  obtain s1 where 1: "dc_ArrayHeader R s = (Inr 2, s1)" "view s1 = p @ q @ rest"
    using ArrayHeader [OF _ x(2)] assms(1) x(1) by auto
  obtain s2 where 2: "dc_Extension R ExtensionType UnmarshalBinary s1 = (Inr t', s2)" "view s2 = q @ rest"
    using Extension [where f = UnmarshalBinary, OF 1(2) x(3) assms(4)] by blast
  obtain s3 where "dc_Intf R s2 = (Inr (intf_val j), s3)" "view s3 = rest"
    using Intf [OF 2(2) x(4) assms(3)] by blast
  with 1 2 show ?thesis by (simp add: DecodeMsg_def)
qed

text \<open>Anything else is refused; the record is never touched by a failed call.\<close>

lemma DecodeMsg_error:
  assumes "DecodeMsg R z s = (Some err, z', s')"
  shows "re_Record z' = re_Record z"
  using assms by (auto simp: DecodeMsg_def split: prod.splits sum.splits if_splits)

lemma DecodeMsg_size:
  assumes "view s = x @ rest" and "reads_token x (TArr n)" and "n \<noteq> 2"
  shows "\<exists>s'. DecodeMsg R z s = (Some (dc_ArrayError R 2 n), z, s')"
  using ArrayHeader [OF assms(1,2)] assms(3) by (auto simp: DecodeMsg_def)

lemma DecodeMsg_not_array:
  assumes "\<nexists>n r. mp_token (view s) = Some (TArr n, r)"
  shows "\<exists>err s'. DecodeMsg R z s = (Some err, z, s')"
  using ArrayHeader_error [OF assms] by (auto simp: DecodeMsg_def)

end

text \<open>A writer appends to its output what it is given, or fails.\<close>

locale entry_writer =
  fixes W :: "'w msgp_writer" and out :: "'w \<Rightarrow> bytes"
  assumes Append: "en_Append W b w = (None, w') \<Longrightarrow> out w' = out w @ [b]"
    and Extension: "length p = 8 \<Longrightarrow> t < 128 \<Longrightarrow> en_Extension W t p w = (None, w') \<Longrightarrow>
      \<exists>x. out w' = out w @ x \<and> reads x (MExt t p)"
    and Intf: "plain_value j \<Longrightarrow> en_Intf W j w = (None, w') \<Longrightarrow> \<exists>x. out w' = out w @ x \<and> reads x (intf_val j)"
begin

lemma EncodeMsg_entry:
  assumes "EncodeMsg W E z w = (None, w')" and "plain_value (Record z)"
  shows "\<exists>x. out w' = out w @ x \<and> holds_entry x (Time z) (Record z)"
proof -
  obtain w1 w2 where w: "en_Append W 0x92 w = (None, w1)"
    "en_Extension W ExtensionType (MarshalBinaryTo (Time z)) w1 = (None, w2)" "en_Intf W (Record z) w2 = (None, w')"
    using assms(1) by (auto simp: EncodeMsg_def split: prod.splits option.splits)
  obtain p where p: "out w2 = out w1 @ p" "reads p (MExt ExtensionType (MarshalBinaryTo (Time z)))"
    using Extension [OF _ _ w(2)] by (auto simp: MarshalBinaryTo_def Let_def ExtensionType_def extensionType_def)
  obtain q where q: "out w' = out w2 @ q" "reads q (intf_val (Record z))" using Intf [OF assms(2) w(3)] by blast
  have "out w' = out w @ ([0x92] @ p @ q)" using Append [OF w(1)] p(1) q(1) by simp
  moreover have "reads_token [0x92] (TArr 2)" by (simp add: reads_token_def mp_token.simps)
  ultimately show ?thesis using p(2) q(2) unfolding holds_entry_def by blast
qed

end

context fluent_lib
begin

lemma MarshalMsg_entry:
  assumes "plain_value (Record z)"
  shows "\<exists>x. MarshalMsg M E z b = Inr (b @ x) \<and> holds_entry x (Time z) (Record z)"
proof -
  obtain p where p: "\<And>b. e_extension E b ExtensionType (MarshalBinaryTo (Time z)) = Inr (b @ p)"
      "reads p (MExt ExtensionType (MarshalBinaryTo (Time z)))"
    using Extension [of "MarshalBinaryTo (Time z)" ExtensionType]
    by (auto simp: MarshalBinaryTo_def Let_def ExtensionType_def extensionType_def)
  obtain q where q: "mp_Intf M [] (Record z) = Inr q" "reads q (intf_val (Record z))" using Intf_value [OF assms] by blast
  have "MarshalMsg M E z b = Inr (b @ ([0x92] @ p @ q))"
    using Intf_append [of "(b @ [0x92]) @ p" "Record z"] by (simp add: MarshalMsg_def p q)
  moreover have "reads_token [0x92] (TArr 2)" by (simp add: reads_token_def mp_token.simps)
  ultimately show ?thesis using p(2) q(2) unfolding holds_entry_def by blast
qed

end

section \<open>A library over byte strings\<close>

text \<open>The readers and the writer over bytes, with the reader of the format as their decoder.\<close>

definition slice_reader :: "bytes msgp_reader" where
  "slice_reader =
    \<lparr>dc_ArrayHeader = (\<lambda>s. case mp_token s of Some (TArr n, r) \<Rightarrow> (Inr n, r) | _ \<Rightarrow> (Inl (str ''not an array''), s)),
     dc_Extension = (\<lambda>t f s. case mp_value s of
         Some (MExt t' p, r) \<Rightarrow> if t' = t then (f p, r) else (Inl (str ''extension type''), s)
       | _ \<Rightarrow> (Inl (str ''not an extension''), s)),
     dc_Intf = (\<lambda>s. case mp_value s of Some (v, r) \<Rightarrow> (Inr v, r) | None \<Rightarrow> (Inl (str ''EOF''), s)),
     dc_ArrayError = (\<lambda>wanted got. str ''array size '' @ decimal got),
     dc_Wrap = (\<lambda>err field. field @ err)\<rparr>"

definition slice_writer :: "bytes msgp_writer" where
  "slice_writer =
    \<lparr>en_Append = (\<lambda>b w. (None, w @ [b])),
     en_Extension = (\<lambda>t p w. (None, w @ 0xd7 # of_nat t # p)),
     en_Intf = (\<lambda>j w. if plain_value j then (None, w @ long_intf j) else (Some (str ''unsupported''), w))\<rparr>"

interpretation slice_reader: entry_reader slice_reader "\<lambda>s. s"
proof unfold_locales
  fix s t and f :: "bytes \<Rightarrow> (go_error, gotime) result"
  assume e: "\<And>p r v. mp_value s = Some (MExt t p, r) \<Longrightarrow> f p \<noteq> Inr v"
  show "\<exists>e s'. dc_Extension slice_reader t f s = (Inl e, s')"
  proof (cases "\<exists>p r. mp_value s = Some (MExt t p, r)")
    case True
    then obtain p r where p: "mp_value s = Some (MExt t p, r)" by blast
    obtain err where "f p = Inl err" using e [OF p] by (cases "f p") auto
    with p show ?thesis by (simp add: slice_reader_def)
  next
    case False
    then show ?thesis by (auto simp: slice_reader_def split: option.split mval.split)
  qed
qed (auto simp: slice_reader_def reads_token_def reads_def split: option.split mtoken.split)

interpretation slice_writer: entry_writer slice_writer "\<lambda>w. w"
  by unfold_locales (auto simp: slice_writer_def intro!: fixext8_reads long_intf_reads split: if_splits)

lemmas slice_library = slice_reader.entry_reader_axioms slice_writer.entry_writer_axioms

section \<open>Properties\<close>

text \<open>C34: the generated methods of Entry round-trip. For an entry whose record fits the format, what
  MarshalMsg appends and what EncodeMsg writes is read back, by UnmarshalMsg from a slice and by
  DecodeMsg from a stream, as the entry's time, exactly up to the 32-bit seconds of EventTime, and the
  value of its record, leaving what follows for the next call. An array of another size is refused
  with its size and leaves the entry as it was, and no failed call touches the record.\<close>

theorem entry_roundtrip:
  assumes "fluent_lib M E" and "entry_reader B (\<lambda>b. b)" and "entry_reader R view" and "entry_writer W out"
    and "plain_value (Record z)" and "0 \<le> nsec (Time z)" and "nsec (Time z) < 1000000000"
    and "z2 = z1\<lparr>re_Time := \<lparr>unixSec = unixSec (Time z) mod 2 ^ 32, nsec = nsec (Time z)\<rparr>, re_Record := intf_val (Record z)\<rparr>"
  shows "(\<exists>x. MarshalMsg M E z b = Inr (b @ x) \<and> UnmarshalMsg B z1 (x @ rest) = (Inr rest, z2)) \<and>
    (\<forall>w w'. EncodeMsg W E z w = (None, w') \<longrightarrow>
      (\<exists>x. out w' = out w @ x \<and> (\<forall>s. view s = x @ rest \<longrightarrow> (\<exists>s'. view s' = rest \<and> DecodeMsg R z1 s = (None, z2, s'))))) \<and>
    (\<forall>h n. reads_token h (TArr n) \<and> n \<noteq> 2 \<longrightarrow> UnmarshalMsg B z1 (h @ rest) = (Inl (dc_ArrayError B 2 n), z1)) \<and>
    (\<forall>c err z'. UnmarshalMsg B z1 c = (Inl err, z') \<longrightarrow> re_Record z' = re_Record z1)"
proof (intro conjI allI impI)
  have t: "UnmarshalBinary (MarshalBinaryTo (Time z)) = Inr \<lparr>unixSec = unixSec (Time z) mod 2 ^ 32, nsec = nsec (Time z)\<rparr>"
    using eventtime_roundtrip [OF assms(6,7)] by blast
  obtain x where x: "MarshalMsg M E z b = Inr (b @ x)" "holds_entry x (Time z) (Record z)"
    using fluent_lib.MarshalMsg_entry [OF assms(1,5)] by blast
  with entry_reader.DecodeMsg_entry [OF assms(2) refl x(2) assms(5) t, of z1 rest] assms(8)
  show "\<exists>x. MarshalMsg M E z b = Inr (b @ x) \<and> UnmarshalMsg B z1 (x @ rest) = (Inr rest, z2)"
    by (auto simp: UnmarshalMsg_DecodeMsg)
  fix w w'
  assume "EncodeMsg W E z w = (None, w')"
  then obtain y where y: "out w' = out w @ y" "holds_entry y (Time z) (Record z)"
    using entry_writer.EncodeMsg_entry [OF assms(4) _ assms(5)] by blast
  with entry_reader.DecodeMsg_entry [OF assms(3) _ y(2) assms(5) t, of _ rest] assms(8)
  show "\<exists>x. out w' = out w @ x \<and> (\<forall>s. view s = x @ rest \<longrightarrow> (\<exists>s'. view s' = rest \<and> DecodeMsg R z1 s = (None, z2, s')))"
    by (intro exI [of _ y]) (simp, blast)
next
  fix h n
  assume h: "reads_token h (TArr n) \<and> n \<noteq> 2"
  show "UnmarshalMsg B z1 (h @ rest) = (Inl (dc_ArrayError B 2 n), z1)"
    using entry_reader.DecodeMsg_size [OF assms(2) refl, of h n z1 rest] h by (auto simp: UnmarshalMsg_DecodeMsg)
next
  fix c err z'
  assume "UnmarshalMsg B z1 c = (Inl err, z')"
  then show "re_Record z' = re_Record z1"
    using entry_reader.DecodeMsg_error [OF assms(2)]
    by (auto simp: UnmarshalMsg_DecodeMsg split: prod.splits option.splits)
qed

definition sample_entry :: Entry where
  "sample_entry = \<lparr>Time = \<lparr>unixSec = 4294967297, nsec = 5\<rparr>, Record = JObj [(str ''n'', JInt 7)]\<rparr>"

definition blank :: read_entry where
  "blank = \<lparr>re_Time = zeroTime, re_Record = MNil\<rparr>"

text \<open>An entry one second into the next era, followed by another byte.\<close>

theorem entry_roundtrip_witness:
  "(\<exists>x. MarshalMsg long_form sample_env sample_entry [9] = Inr (9 # x) \<and>
      UnmarshalMsg slice_reader blank (x @ [9]) =
        (Inr [9], \<lparr>re_Time = \<lparr>unixSec = 1, nsec = 5\<rparr>, re_Record = MMap [(MStr (str ''n''), MInt 7)]\<rparr>)) \<and>
   (\<exists>x. EncodeMsg slice_writer sample_env sample_entry [] = (None, x) \<and>
      DecodeMsg slice_reader blank (x @ [9]) =
        (None, \<lparr>re_Time = \<lparr>unixSec = 1, nsec = 5\<rparr>, re_Record = MMap [(MStr (str ''n''), MInt 7)]\<rparr>, [9])) \<and>
   UnmarshalMsg slice_reader blank [0x93, 9] = (Inl (str ''array size 3''), blank)"
proof -
  have p: "plain_value (Record sample_entry)" "0 \<le> nsec (Time sample_entry)" "nsec (Time sample_entry) < 1000000000"
    by (simp_all add: sample_entry_def str_def)
  have w: "\<exists>x. EncodeMsg slice_writer sample_env sample_entry [] = (None, x)"
    by (simp add: EncodeMsg_def slice_writer_def sample_entry_def str_def)
  have h: "reads_token [0x93] (TArr 3)" by (simp add: reads_token_def mp_token.simps)
  have e: "dc_ArrayError slice_reader 2 3 = str ''array size 3''"
    by (simp add: slice_reader_def str_def decimal.simps)
  note * = entry_roundtrip [OF sample_lib slice_library(1) slice_library(1) slice_library(2) p refl, of "[9]" blank "[9]"]
  from * w h e show ?thesis
    by (fastforce simp: sample_entry_def blank_def)
qed

end
