(* ===== verification/Go_Heap.thy ===== *)
theory Go_Heap
  imports Interleaving
begin

text \<open>
  Slices of shared arrays, and a \<^verbatim>\<open>sync.Pool\<close> of buffers. The encoders keep their open containers in
  frames whose buffers are recycled, and many encoder states share one pool. Here the arrays are in an
  explicit store; a frame is a cell, some fields next to a slice. Ownership says that the cells of a
  state have arrays of their own, that nothing live is in the pool and that the pool holds nothing
  twice; \<open>does\<close> is the contract of an operation on one state, and \<open>store_does\<close> carries it to a world of
  states that share the store.
\<close>

section \<open>Store, slices and the pool\<close>

text \<open>
  A slice is the first \<open>sl_len\<close> bytes of the array at its address (the code never slices from
  another offset); the length of the array is the capacity.
\<close>

record slice =
  sl_addr :: nat
  sl_len :: nat

record heap =
  arrays :: "nat \<Rightarrow> bytes"
  next_addr :: nat
  pooled :: "nat list"

definition slice_bytes :: "heap \<Rightarrow> slice \<Rightarrow> bytes" where
  "slice_bytes h sl = take (sl_len sl) (arrays h (sl_addr sl))"

text \<open>\<^verbatim>\<open>Get\<close> returns any pooled buffer, or makes a new one of the given capacity; the caller truncates it.\<close>

datatype choice = Pooled nat | Fresh

definition new_buf :: "nat \<Rightarrow> heap \<Rightarrow> slice \<times> heap" where
  "new_buf capacity h =
     (\<lparr>sl_addr = next_addr h, sl_len = 0\<rparr>,
      h\<lparr>arrays := (arrays h)(next_addr h := replicate capacity 0), next_addr := next_addr h + 1\<rparr>)"

definition get_buf :: "nat \<Rightarrow> choice \<Rightarrow> heap \<Rightarrow> slice \<times> heap" where
  "get_buf capacity ch h =
     (case ch of
        Fresh \<Rightarrow> new_buf capacity h
      | Pooled i \<Rightarrow>
          if i < length (pooled h)
          then (\<lparr>sl_addr = pooled h ! i, sl_len = 0\<rparr>, h\<lparr>pooled := take i (pooled h) @ drop (Suc i) (pooled h)\<rparr>)
          else new_buf capacity h)"

definition put_buf :: "slice \<Rightarrow> heap \<Rightarrow> heap" where
  "put_buf sl h = h\<lparr>pooled := sl_addr sl # pooled h\<rparr>"

text \<open>Go's \<^verbatim>\<open>append\<close>: in place within the capacity, else into a new array with \<open>grow\<close> bytes to spare.\<close>

definition append_slice :: "nat \<Rightarrow> slice \<Rightarrow> bytes \<Rightarrow> heap \<Rightarrow> slice \<times> heap" where
  "append_slice grow sl xs h =
     (let a = arrays h (sl_addr sl); n = sl_len sl + length xs in
      if n \<le> length a
      then (sl\<lparr>sl_len := n\<rparr>, h\<lparr>arrays := (arrays h)(sl_addr sl := take (sl_len sl) a @ xs @ drop n a)\<rparr>)
      else (\<lparr>sl_addr = next_addr h, sl_len = n\<rparr>,
            h\<lparr>arrays := (arrays h)(next_addr h := take (sl_len sl) a @ xs @ replicate grow 0),
              next_addr := next_addr h + 1\<rparr>))"

section \<open>Cells\<close>

record 'm cell =
  c_meta :: 'm
  c_buf :: slice

definition append_cell :: "nat \<Rightarrow> 'm cell \<Rightarrow> bytes \<Rightarrow> heap \<Rightarrow> 'm cell \<times> heap" where
  "append_cell grow f xs h = (let (sl, h') = append_slice grow (c_buf f) xs h in (f\<lparr>c_buf := sl\<rparr>, h'))"

fun append_all :: "nat \<Rightarrow> 'm cell \<Rightarrow> bytes list \<Rightarrow> heap \<Rightarrow> 'm cell \<times> heap" where
  "append_all grow f [] h = (f, h)"
| "append_all grow f (xs # xss) h = (let (f', h') = append_cell grow f xs h in append_all grow f' xss h')"

definition open_cell :: "nat \<Rightarrow> choice \<Rightarrow> 'm \<Rightarrow> 'm cell list \<Rightarrow> heap \<Rightarrow> 'm cell list \<times> heap" where
  "open_cell capacity ch m fs h = (let (sl, h') = get_buf capacity ch h in (fs @ [\<lparr>c_meta = m, c_buf = sl\<rparr>], h'))"

fun free_cells :: "'m cell list \<Rightarrow> heap \<Rightarrow> heap" where
  "free_cells [] h = h"
| "free_cells (f # fs) h = free_cells fs (put_buf (c_buf f) h)"

fun clone_cells :: "nat \<Rightarrow> (nat \<Rightarrow> choice) \<Rightarrow> nat \<Rightarrow> 'm cell list \<Rightarrow> heap \<Rightarrow> 'm cell list \<times> heap" where
  "clone_cells capacity ch grow [] h = ([], h)"
| "clone_cells capacity ch grow (f # fs) h =
     (let (sl, h1) = get_buf capacity (ch (length fs)) h;
          (sl', h2) = append_slice grow sl (slice_bytes h1 (c_buf f)) h1;
          (gs, h3) = clone_cells capacity ch grow fs h2
      in (\<lparr>c_meta = c_meta f, c_buf = sl'\<rparr> # gs, h3))"

text \<open>What a cell stands for by value: \<open>mk\<close> makes it of the fields and the bytes of the slice.\<close>

definition abs_cell :: "('m \<Rightarrow> bytes \<Rightarrow> 'f) \<Rightarrow> heap \<Rightarrow> 'm cell \<Rightarrow> 'f" where
  "abs_cell mk h f = mk (c_meta f) (slice_bytes h (c_buf f))"

definition abs_cells :: "('m \<Rightarrow> bytes \<Rightarrow> 'f) \<Rightarrow> heap \<Rightarrow> 'm cell list \<Rightarrow> 'f list" where
  "abs_cells mk h fs = map (abs_cell mk h) fs"

abbreviation addrs :: "'m cell list \<Rightarrow> nat list" where
  "addrs fs \<equiv> map (\<lambda>f. sl_addr (c_buf f)) fs"

section \<open>Ownership\<close>

text \<open>The pool holds no array twice and none that is live.\<close>

definition free_ok :: "heap \<Rightarrow> nat set \<Rightarrow> bool" where
  "free_ok h L \<longleftrightarrow> distinct (pooled h) \<and> set (pooled h) \<inter> L = {} \<and> (\<forall>a \<in> set (pooled h) \<union> L. a < next_addr h)"

definition within :: "heap \<Rightarrow> 'm cell \<Rightarrow> bool" where
  "within h f \<longleftrightarrow> sl_len (c_buf f) \<le> length (arrays h (sl_addr (c_buf f)))"

text \<open>The frames own their arrays, apart from those of everybody else, \<open>R\<close>.\<close>

definition own :: "heap \<Rightarrow> 'm cell list \<Rightarrow> nat set \<Rightarrow> bool" where
  "own h fs R \<longleftrightarrow> distinct (addrs fs) \<and> set (addrs fs) \<inter> R = {} \<and> free_ok h (set (addrs fs) \<union> R) \<and>
     list_all (within h) fs"

definition keeps :: "nat set \<Rightarrow> heap \<Rightarrow> heap \<Rightarrow> bool" where
  "keeps R h h' \<longleftrightarrow> (\<forall>a \<in> R. arrays h' a = arrays h a)"

lemma keeps_refl [simp]: "keeps R h h"
  by (simp add: keeps_def)

lemma keeps_trans: "keeps R h h1 \<Longrightarrow> keeps R h1 h2 \<Longrightarrow> keeps R h h2"
  by (simp add: keeps_def)

lemma keeps_subset: "keeps R h h' \<Longrightarrow> S \<subseteq> R \<Longrightarrow> keeps S h h'"
  by (auto simp: keeps_def)

lemma keeps_frames:
  "keeps (set (addrs fs)) h h' \<Longrightarrow> abs_cells mk h' fs = abs_cells mk h fs \<and> list_all (within h') fs = list_all (within h) fs"
  by (induction fs) (auto simp: keeps_def abs_cells_def abs_cell_def slice_bytes_def within_def)

lemma abs_cells_append [simp]: "abs_cells mk h (xs @ ys) = abs_cells mk h xs @ abs_cells mk h ys"
  "abs_cells mk h (f # ys) = abs_cell mk h f # abs_cells mk h ys" "abs_cells mk h [] = []"
  by (simp_all add: abs_cells_def)

text \<open>One frame at a time: the other frames of the state are part of what is kept.\<close>

lemma own_focus:
  "own h (xs @ f # ys) R \<longleftrightarrow> own h [f] (R \<union> set (addrs (xs @ ys))) \<and> distinct (addrs (xs @ ys)) \<and>
     set (addrs (xs @ ys)) \<inter> R = {} \<and> list_all (within h) (xs @ ys)"
proof -
  have "set (addrs (xs @ f # ys)) \<union> R = {sl_addr (c_buf f)} \<union> (R \<union> set (addrs (xs @ ys)))" by auto
  then show ?thesis by (auto simp: own_def)
qed

text \<open>The step of one frame, carried to the state it is in.\<close>

lemma own_replace:
  assumes "own h (xs @ f # ys) R" and "own h' [f'] (R \<union> set (addrs (xs @ ys)))"
    and "keeps (R \<union> set (addrs (xs @ ys))) h h'"
  shows "own h' (xs @ f' # ys) R" and "keeps R h h'" and "abs_cells mk h' (xs @ ys) = abs_cells mk h (xs @ ys)"
proof -
  have k: "keeps (set (addrs (xs @ ys))) h h'" using assms(3) by (auto simp: keeps_def)
  note kf = keeps_frames [OF k, where mk = mk]
  show "abs_cells mk h' (xs @ ys) = abs_cells mk h (xs @ ys)" using kf by simp
  show "keeps R h h'" using assms(3) by (auto simp: keeps_def)
  show "own h' (xs @ f' # ys) R" using assms(1,2) kf unfolding own_focus by simp
qed

section \<open>Buffers\<close>

lemma own_single: "own h [f] R \<longleftrightarrow> sl_addr (c_buf f) \<notin> R \<and> free_ok h (insert (sl_addr (c_buf f)) R) \<and> within h f"
  by (auto simp: own_def)

lemma new_buf_own:
  assumes "free_ok h L" and "new_buf capacity h = (sl, h')"
  shows "own h' [\<lparr>c_meta = m, c_buf = sl\<rparr>] L" and "keeps L h h'" and "slice_bytes h' sl = []"
  using assms by (auto simp: new_buf_def own_single free_ok_def within_def keeps_def slice_bytes_def ball_Un less_Suc_eq)

lemma get_own:
  assumes "free_ok h L" and "get_buf capacity ch h = (sl, h')"
  shows "own h' [\<lparr>c_meta = m, c_buf = sl\<rparr>] L" and "keeps L h h'" and "slice_bytes h' sl = []"
proof -
  have *: "own h' [\<lparr>c_meta = m, c_buf = sl\<rparr>] L \<and> keeps L h h' \<and> slice_bytes h' sl = []"
  proof (cases "\<exists>i < length (pooled h). ch = Pooled i")
    case True
    then obtain i where i: "ch = Pooled i" "i < length (pooled h)" by blast
    let ?a = "pooled h ! i" and ?rest = "take i (pooled h) @ drop (Suc i) (pooled h)"
    have split: "pooled h = take i (pooled h) @ ?a # drop (Suc i) (pooled h)" using i(2) by (simp add: id_take_nth_drop)
    from assms(1) have d: "distinct (pooled h)" "set (pooled h) \<inter> L = {}" "\<forall>a \<in> set (pooled h) \<union> L. a < next_addr h"
      by (simp_all add: free_ok_def)
    from d(1) have "distinct (take i (pooled h) @ ?a # drop (Suc i) (pooled h))" using split by metis
    then have r: "distinct ?rest" "?a \<notin> set ?rest" by auto
    have sub: "set ?rest \<subseteq> set (pooled h)" using set_take_subset [of i "pooled h"] set_drop_subset [of "Suc i" "pooled h"] by auto
    have a: "?a \<in> set (pooled h)" using i(2) by simp
    have h': "sl = \<lparr>sl_addr = ?a, sl_len = 0\<rparr>" "h' = h\<lparr>pooled := ?rest\<rparr>"
      using assms(2) i by (auto simp: get_buf_def)
    have "free_ok h' (insert ?a L)" using d r sub a by (auto simp: h' free_ok_def)
    moreover have "?a \<notin> L" using d(2) a by blast
    ultimately show ?thesis by (simp add: own_single h' within_def keeps_def slice_bytes_def)
  next
    case False
    then have "new_buf capacity h = (sl, h')" using assms(2) by (auto simp: get_buf_def split: choice.splits if_splits)
    with new_buf_own(1) [OF assms(1) this, of m] new_buf_own(2,3) [OF assms(1) this] show ?thesis by blast
  qed
  then show "own h' [\<lparr>c_meta = m, c_buf = sl\<rparr>] L" and "keeps L h h'" and "slice_bytes h' sl = []"
    by blast+
qed

lemma append_slice_own:
  assumes "own h [f] R" and "append_slice g (c_buf f) xs h = (sl, h')"
  shows "own h' [f\<lparr>c_buf := sl\<rparr>] R \<and> keeps R h h' \<and> slice_bytes h' sl = slice_bytes h (c_buf f) @ xs"
  using assms
  by (auto simp: append_slice_def own_single free_ok_def within_def keeps_def slice_bytes_def Let_def
      ball_Un less_Suc_eq split: if_splits)

lemma append_cell_own:
  assumes "own h [f] R" and "append_cell g f xs h = (f', h')"
  shows "own h' [f'] R \<and> keeps R h h' \<and> slice_bytes h' (c_buf f') = slice_bytes h (c_buf f) @ xs \<and> c_meta f' = c_meta f"
proof -
  obtain sl where sl: "append_slice g (c_buf f) xs h = (sl, h')" "f' = f\<lparr>c_buf := sl\<rparr>"
    using assms(2) by (auto simp: append_cell_def split: prod.splits)
  from append_slice_own [OF assms(1) sl(1)] show ?thesis by (simp add: sl(2))
qed

lemma append_all_own:
  assumes "own h [f] R" and "append_all g f xss h = (f', h')"
  shows "own h' [f'] R \<and> keeps R h h' \<and> slice_bytes h' (c_buf f') = slice_bytes h (c_buf f) @ concat xss \<and> c_meta f' = c_meta f"
  using assms
proof (induction xss arbitrary: f h)
  case (Cons xs xss)
  obtain f1 h1 where s1: "append_cell g f xs h = (f1, h1)" by force
  with Cons.prems have s2: "append_all g f1 xss h1 = (f', h')" by simp
  note a = append_cell_own [OF Cons.prems(1) s1]
  from a Cons.IH [OF _ s2] keeps_trans [of R h h1 h'] show ?case by auto
qed simp

lemma append_all_meta: "append_all g f xss h = (f', h') \<Longrightarrow> f'\<lparr>c_meta := c_meta f\<rparr> = f'"
  by (induction xss arbitrary: f h) (fastforce simp: append_cell_def split: prod.splits)+

lemma own_meta: "own h [f\<lparr>c_meta := m\<rparr>] R \<longleftrightarrow> own h [f] R"
  by (simp add: own_single within_def)

lemma put_own:
  assumes "free_ok h (insert a L)" and "a \<notin> L" and "a = sl_addr sl"
  shows "free_ok (put_buf sl h) L" and "arrays (put_buf sl h) = arrays h"
  using assms by (auto simp: put_buf_def free_ok_def)

lemma free_own:
  assumes "free_ok h (set (addrs fs) \<union> R)" and "distinct (addrs fs)" and "set (addrs fs) \<inter> R = {}"
  shows "free_ok (free_cells fs h) R \<and> arrays (free_cells fs h) = arrays h"
  using assms
proof (induction fs arbitrary: h)
  case (Cons f fs)
  let ?L = "set (addrs fs) \<union> R"
  have "free_ok h (insert (sl_addr (c_buf f)) ?L)" "sl_addr (c_buf f) \<notin> ?L" using Cons.prems by auto
  note p = put_own [OF this refl]
  from Cons.IH [OF p(1)] Cons.prems p(2) show ?case by simp
qed simp

lemma own_Nil [simp]: "own h [] R \<longleftrightarrow> free_ok h R"
  by (simp add: own_def)

lemma own_drop_top:
  assumes "own h (xs @ [tp]) R"
  shows "own (put_buf (c_buf tp) h) xs R"
proof -
  have "free_ok h (insert (sl_addr (c_buf tp)) (R \<union> set (addrs xs)))" "sl_addr (c_buf tp) \<notin> R \<union> set (addrs xs)"
    using assms by (auto simp: own_focus [of h xs tp "[]"] own_single)
  note p = put_own [OF this refl]
  have "list_all (within h) xs" "distinct (addrs xs)" "set (addrs xs) \<inter> R = {}" using assms by (auto simp: own_def)
  with p show ?thesis by (auto simp: own_def within_def Un_commute list_all_iff)
qed

lemma own_take:
  assumes "own h (xs @ ys) R"
  shows "own (free_cells (rev ys) h) xs R" and "arrays (free_cells (rev ys) h) = arrays h"
proof -
  let ?S = "R \<union> set (addrs xs)"
  have "free_ok h (set (addrs (rev ys)) \<union> ?S)" "distinct (addrs (rev ys))" "set (addrs (rev ys)) \<inter> ?S = {}"
    using assms by (auto simp: own_def Un_ac rev_map [symmetric])
  note f = free_own [OF this]
  then show "arrays (free_cells (rev ys) h) = arrays h" by blast
  have "list_all (within h) xs" "distinct (addrs xs)" "set (addrs xs) \<inter> R = {}" using assms by (auto simp: own_def)
  with f show "own (free_cells (rev ys) h) xs R" by (auto simp: own_def within_def Un_commute list_all_iff)
qed

lemma abs_same_arrays:
  assumes "arrays h' = arrays h"
  shows "abs_cells mk h' fs = abs_cells mk h fs" and "abs_cell mk h' f = abs_cell mk h f"
  using assms by (simp_all add: abs_cells_def abs_cell_def slice_bytes_def)

lemma abs_put [simp]: "abs_cells mk (put_buf sl h) fs = abs_cells mk h fs" "abs_cell mk (put_buf sl h) f = abs_cell mk h f"
  by (simp_all add: abs_cells_def abs_cell_def slice_bytes_def put_buf_def)

section \<open>Operations on one state\<close>

text \<open>What an operation on one state has to do, for everybody else's arrays \<open>R\<close>.\<close>

definition does :: "('m \<Rightarrow> bytes \<Rightarrow> 'f) \<Rightarrow> heap \<Rightarrow> 'm cell list \<Rightarrow> nat set \<Rightarrow> ('f list \<Rightarrow> 'f list) \<Rightarrow> 'm cell list \<times> heap \<Rightarrow> bool" where
  "does mk h fs R op r \<longleftrightarrow> own (snd r) (fst r) R \<and> keeps R h (snd r) \<and>
     abs_cells mk (snd r) (fst r) = op (abs_cells mk h fs)"

lemma open_does:
  assumes "own h fs R"
  shows "does mk h fs R (\<lambda>vs. vs @ [mk m []]) (open_cell capacity ch m fs h)"
proof -
  obtain sl h' where g: "get_buf capacity ch h = (sl, h')" by force
  have f: "free_ok h (R \<union> set (addrs fs))" using assms by (simp add: own_def Un_commute)
  note o = get_own(1) [OF f g, of m] get_own(2,3) [OF f g]
  have "keeps (set (addrs fs)) h h'" using o(2) by (auto simp: keeps_def)
  from keeps_frames [OF this] o assms show ?thesis
    unfolding does_def open_cell_def g
    by (auto simp: own_focus [of h' fs _ "[]"] Un_commute abs_cell_def own_def keeps_def)
qed

lemma snoc_last: "fs \<noteq> [] \<Longrightarrow> fs = butlast fs @ [last fs]"
  by simp

lemma two_last: "1 < length fs \<Longrightarrow> \<exists>xs p t. fs = xs @ [p, t]"
  by (cases fs rule: rev_cases; cases "butlast fs" rule: rev_cases) auto

text \<open>An operation on one cell of a state.\<close>

lemma replace_does:
  assumes "own h (xs @ f # ys) R"
    and "own h' [f'] (R \<union> set (addrs (xs @ ys)))" and "keeps (R \<union> set (addrs (xs @ ys))) h h'"
    and "op (abs_cells mk h (xs @ f # ys)) = abs_cells mk h xs @ abs_cell mk h' f' # abs_cells mk h ys"
  shows "does mk h (xs @ f # ys) R op (xs @ f' # ys, h')"
proof -
  note r = own_replace [OF assms(1-3)]
  have "abs_cells mk h' xs = abs_cells mk h xs \<and> abs_cells mk h' ys = abs_cells mk h ys"
    using r(3) [of mk] by (simp add: abs_cells_def)
  with r assms(4) show ?thesis by (simp add: does_def)
qed

lemma append_does:
  assumes "own h (xs @ f # ys) R" and "append_all grow f xss h = (f', h')"
    and "op (abs_cells mk h (xs @ f # ys)) =
      abs_cells mk h xs @ mk m (slice_bytes h (c_buf f) @ concat xss) # abs_cells mk h ys"
  shows "does mk h (xs @ f # ys) R op (xs @ f'\<lparr>c_meta := m\<rparr> # ys, h')"
proof -
  have "own h [f] (R \<union> set (addrs (xs @ ys)))" using assms(1) unfolding own_focus by blast
  note a = append_all_own [OF this assms(2)]
  have "abs_cell mk h' (f'\<lparr>c_meta := m\<rparr>) = mk m (slice_bytes h (c_buf f) @ concat xss)"
    using a by (simp add: abs_cell_def)
  with a assms(3) show ?thesis by (intro replace_does [OF assms(1)]) (simp_all add: own_meta)
qed

text \<open>The last cell is written into the one below it, and its buffer goes back to the pool.\<close>

definition seal_cells :: "nat \<Rightarrow> bytes list \<Rightarrow> 'm cell list \<Rightarrow> heap \<Rightarrow> 'm cell list \<times> heap" where
  "seal_cells grow pieces fs h =
     (let tp = last fs; below = butlast fs; parent = last below;
          (f1, h1) = append_all grow parent pieces h;
          (f2, h2) = append_cell grow f1 (slice_bytes h1 (c_buf tp)) h1
      in (butlast below @ [f2], put_buf (c_buf tp) h2))"

lemma seal_does:
  assumes "own h fs R" and "fs = xs @ [p, tp]"
    and "op (abs_cells mk h fs) =
      abs_cells mk h xs @ [mk (c_meta p) (slice_bytes h (c_buf p) @ concat ps @ slice_bytes h (c_buf tp))]"
  shows "does mk h fs R op (seal_cells grow ps fs h)"
proof -
  have fs: "fs = xs @ p # [tp]" using assms(2) by simp
  let ?S = "R \<union> set (addrs (xs @ [tp]))"
  have o: "own h [p] ?S" using assms(1) unfolding fs own_focus by blast
  obtain f1 h1 where a1: "append_all grow p ps h = (f1, h1)" by force
  note s1 = append_all_own [OF o a1]
  then have tp: "slice_bytes h1 (c_buf tp) = slice_bytes h (c_buf tp)"
    by (simp add: keeps_def slice_bytes_def)
  obtain f2 h2 where a2: "append_cell grow f1 (slice_bytes h1 (c_buf tp)) h1 = (f2, h2)" by force
  have o1: "own h1 [f1] ?S" using s1 by blast
  note s2 = append_cell_own [OF o1 a2]
  have f2: "own h2 [f2] ?S" "keeps ?S h h2"
    "abs_cell mk h2 f2 = mk (c_meta p) (slice_bytes h (c_buf p) @ concat ps @ slice_bytes h (c_buf tp))"
    using s1 s2 keeps_trans [of ?S h h1 h2] by (simp_all add: tp abs_cell_def)
  note r = own_replace [OF assms(1) [unfolded fs] f2(1,2)]
  have own: "own h2 ((xs @ [f2]) @ [tp]) R" and abs: "abs_cells mk h2 xs = abs_cells mk h xs"
    using r(1) r(3) [of mk] by (simp_all add: abs_cells_def)
  have "seal_cells grow ps fs h = (xs @ [f2], put_buf (c_buf tp) h2)"
    by (simp add: seal_cells_def fs butlast_append Let_def a1 a2)
  moreover have "keeps R h (put_buf (c_buf tp) h2)" using f2 by (auto simp: keeps_def put_buf_def)
  ultimately show ?thesis using own_drop_top [OF own] f2(3) assms(3) by (simp add: does_def abs)
qed

lemma free_does:
  assumes "own h fs R"
  shows "does mk h fs R (\<lambda>_. []) ([], free_cells fs h)"
proof -
  have "free_ok (free_cells fs h) R \<and> arrays (free_cells fs h) = arrays h"
    using assms by (intro free_own) (auto simp: own_def)
  then show ?thesis by (simp add: does_def keeps_def)
qed

text \<open>A clone: the frames it copies belong to another state and are kept.\<close>

lemma clone_own:
  assumes "free_ok h S" and "set (addrs fs) \<subseteq> S" and "clone_cells capacity ch g fs h = (gs, h')"
  shows "own h' gs S \<and> keeps S h h' \<and> abs_cells mk h' gs = abs_cells mk h fs"
  using assms
proof (induction fs arbitrary: h S gs h')
  case Nil
  then show ?case by simp
next
  case (Cons f fs)
  obtain sl h1 where s1: "get_buf capacity (ch (length fs)) h = (sl, h1)" by force
  obtain sl' h2 where s2: "append_slice g sl (slice_bytes h1 (c_buf f)) h1 = (sl', h2)" by force
  obtain gs' h3 where s3: "clone_cells capacity ch g fs h2 = (gs', h3)" by force
  let ?g = "\<lparr>c_meta = c_meta f, c_buf = sl\<rparr>" and ?g' = "\<lparr>c_meta = c_meta f, c_buf = sl'\<rparr>"
  let ?S = "insert (sl_addr sl') S"
  have r: "gs = ?g' # gs'" "h' = h3" using Cons.prems(3) s1 s2 s3 by simp_all
  have o1: "own h1 [?g] S" "keeps S h h1" "slice_bytes h1 sl = []"
    using get_own(1) [OF Cons.prems(1) s1, of "c_meta f"] get_own(2,3) [OF Cons.prems(1) s1] by blast+
  have f: "slice_bytes h1 (c_buf f) = slice_bytes h (c_buf f)"
    using o1(2) Cons.prems(2) by (simp add: keeps_def slice_bytes_def)
  have o2: "own h2 [?g'] S" "keeps S h1 h2" "slice_bytes h2 sl' = slice_bytes h (c_buf f)"
    using append_slice_own [OF o1(1), of g "slice_bytes h1 (c_buf f)" sl' h2] s2 o1(3) f by simp_all
  have ok: "free_ok h2 ?S" using o2(1) by (simp add: own_single)
  have o3: "own h3 gs' ?S" "keeps ?S h2 h3" "abs_cells mk h3 gs' = abs_cells mk h2 fs"
    using Cons.IH [OF ok _ s3] Cons.prems(2) by auto
  have k: "keeps S h h2" "keeps S h2 h3" using o1(2) o2(2) o3(2) by (auto simp: keeps_def)
  have "abs_cells mk h2 fs = abs_cells mk h fs"
    using keeps_frames [OF keeps_subset [OF k(1)], of fs mk] Cons.prems(2) by simp
  moreover have "abs_cell mk h3 ?g' = abs_cell mk h f"
    using o2(3) o3(2) by (simp add: abs_cell_def keeps_def slice_bytes_def)
  moreover have "own h3 ([] @ ?g' # gs') S"
    unfolding own_focus using o2(1) o3(1,2) by (auto simp: own_def within_def keeps_def Un_commute)
  ultimately show ?case using r o3(3) keeps_trans [OF k] by simp
qed

section \<open>Any number of states\<close>

record ('i, 'm) pool_world =
  pw_heap :: heap
  pw_states :: "'i \<Rightarrow> 'm cell list"

definition store :: "'i \<Rightarrow> 'm cell list \<times> heap \<Rightarrow> ('i, 'm) pool_world \<Rightarrow> ('i, 'm) pool_world" where
  "store i r w = \<lparr>pw_heap = snd r, pw_states = (pw_states w)(i := fst r)\<rparr>"

text \<open>The garbage collector may empty the pool at any time.\<close>

definition drop_pooled :: "nat \<Rightarrow> ('i, 'm) pool_world \<Rightarrow> ('i, 'm) pool_world" where
  "drop_pooled k w = w\<lparr>pw_heap := (pw_heap w)\<lparr>pooled := take k (pooled (pw_heap w))\<rparr>\<rparr>"

definition pool_init :: "('i, 'm) pool_world" where
  "pool_init = \<lparr>pw_heap = \<lparr>arrays = (\<lambda>_. []), next_addr = 0, pooled = []\<rparr>, pw_states = (\<lambda>_. [])\<rparr>"

definition others :: "('i, 'm) pool_world \<Rightarrow> 'i \<Rightarrow> nat set" where
  "others w i = (\<Union>j \<in> {j. j \<noteq> i}. set (addrs (pw_states w j)))"

definition separate :: "('i, 'm) pool_world \<Rightarrow> bool" where
  "separate w \<longleftrightarrow> (\<forall>i. own (pw_heap w) (pw_states w i) (others w i))"

definition values_of :: "('m \<Rightarrow> bytes \<Rightarrow> 'f) \<Rightarrow> ('i, 'm) pool_world \<Rightarrow> 'i \<Rightarrow> 'f list" where
  "values_of mk w i = abs_cells mk (pw_heap w) (pw_states w i)"

lemma in_others: "j \<noteq> i \<Longrightarrow> set (addrs (pw_states w j)) \<subseteq> others w i"
  by (auto simp: others_def)

text \<open>An operation on one state keeps all states separate and changes the value of this one only.\<close>

lemma store_does:
  assumes "separate w" and "does mk (pw_heap w) fs (others w i) op r"
  shows "separate (store i r w) \<and> values_of mk (store i r w) = (values_of mk w)(i := op (abs_cells mk (pw_heap w) fs))"
proof -
  let ?h = "pw_heap w" and ?w = "store i r w"
  obtain gs h' where r: "r = (gs, h')" by (cases r)
  have d: "own h' gs (others w i)" "keeps (others w i) ?h h'" "abs_cells mk h' gs = op (abs_cells mk ?h fs)"
    using assms(2) by (simp_all add: does_def r)
  have w': "pw_heap ?w = h'" "pw_states ?w = (pw_states w)(i := gs)" by (simp_all add: store_def r)
  have oi: "others ?w i = others w i" by (auto simp: others_def w')
  have keep: "abs_cells mk h' (pw_states w j) = abs_cells mk ?h (pw_states w j) \<and>
      list_all (within h') (pw_states w j) = list_all (within ?h) (pw_states w j)" if "j \<noteq> i" for j
    using keeps_frames [OF keeps_subset [OF d(2) in_others [OF that]]] .
  have "own h' (pw_states ?w j) (others ?w j)" for j
  proof (cases "j = i")
    case True
    then show ?thesis using d(1) oi by (simp add: w')
  next
    case False
    have old: "own ?h (pw_states w j) (others w j)" using assms(1) by (simp add: separate_def)
    have sub: "others ?w j \<subseteq> set (addrs gs) \<union> others w j" by (auto simp: others_def w' split: if_splits)
    have "set (addrs gs) \<inter> others w i = {}" using d(1) by (simp add: own_def)
    then have "set (addrs (pw_states w j)) \<inter> set (addrs gs) = {}" using in_others [OF False, of w] by blast
    moreover have "set (addrs (pw_states w j)) \<inter> others w j = {}" using old by (simp add: own_def)
    ultimately have dis: "set (addrs (pw_states w j)) \<inter> others ?w j = {}" using sub by blast
    have "set (addrs (pw_states w j)) \<union> others ?w j = set (addrs gs) \<union> others w i"
      using False by (auto simp: others_def w' split: if_splits)
    then have "free_ok h' (set (addrs (pw_states w j)) \<union> others ?w j)" using d(1) by (simp add: own_def)
    with old dis keep [OF False] False show ?thesis by (simp add: own_def w')
  qed
  then have "separate ?w" by (simp add: separate_def w')
  moreover have "values_of mk ?w = (values_of mk w)(i := op (abs_cells mk ?h fs))"
    using keep d(3) by (auto simp: values_of_def w')
  ultimately show ?thesis by blast
qed

lemma separate_own: "separate w \<Longrightarrow> own (pw_heap w) (pw_states w i) (others w i)"
  by (simp add: separate_def)

lemma values_empty [simp]: "values_of mk w i = [] \<longleftrightarrow> pw_states w i = []" "length (values_of mk w i) = length (pw_states w i)"
  by (simp_all add: values_of_def abs_cells_def)

lemma values_buf:
  assumes "separate w" and "k < length (pw_states w i)"
  shows "length (slice_bytes (pw_heap w) (c_buf (pw_states w i ! k))) = sl_len (c_buf (pw_states w i ! k))"
proof -
  have "within (pw_heap w) (pw_states w i ! k)"
    using separate_own [OF assms(1), of i] assms(2) by (simp add: own_def list_all_length)
  with assms(2) show ?thesis by (simp add: slice_bytes_def within_def)
qed

lemma separate_drop:
  fixes w :: "('i, 'm) pool_world"
  assumes "separate w"
  shows "separate (drop_pooled k w)" and "values_of mk (drop_pooled k w) = values_of mk w"
proof -
  let ?h = "pw_heap w" and ?h' = "pw_heap (drop_pooled k w)"
  have st: "others (drop_pooled k w) i = others w i" "pw_states (drop_pooled k w) = pw_states w" for i
    by (simp_all add: others_def drop_pooled_def)
  have h: "arrays ?h' = arrays ?h" "next_addr ?h' = next_addr ?h" "pooled ?h' = take k (pooled ?h)"
    by (simp_all add: drop_pooled_def)
  have "free_ok ?h' L" if "free_ok ?h L" for L
    using that set_take_subset [of k "pooled ?h"] unfolding free_ok_def h by (auto simp: subset_iff)
  moreover have "within ?h' f = within ?h f" for f :: "'m cell" by (simp add: within_def h)
  ultimately show "separate (drop_pooled k w)" using assms unfolding separate_def own_def st list_all_iff by simp
qed (simp add: values_of_def abs_cells_def abs_cell_def slice_bytes_def fun_eq_iff drop_pooled_def)

lemma separate_init: "separate pool_init" "values_of mk pool_init = (\<lambda>_. [])"
  by (simp_all add: separate_def pool_init_def free_ok_def others_def values_of_def abs_cells_def fun_eq_iff)

text \<open>
  A machine on a world: every action refines an action on values and keeps the states separate. Then
  so does every schedule.
\<close>

locale pool_machine =
  fixes act :: "'a \<Rightarrow> ('i, 'm) pool_world \<Rightarrow> ('i, 'm) pool_world option"
    and vact :: "'a \<Rightarrow> 'v \<Rightarrow> 'v option"
    and vals :: "('i, 'm) pool_world \<Rightarrow> 'v"
  assumes step: "separate w \<Longrightarrow>
    map_option vals (act a w) = vact a (vals w) \<and> (\<forall>w'. act a w = Some w' \<longrightarrow> separate w')"
begin

lemma pool_run:
  "separate w \<Longrightarrow> map_option vals (run act as w) = run vact as (vals w) \<and> (\<forall>w'. run act as w = Some w' \<longrightarrow> separate w')"
proof (induction "as" arbitrary: w)
  case (Cons a "as")
  show ?case
  proof (cases "act a w")
    case None
    with step [OF Cons.prems, of a] show ?thesis by (auto split: option.split)
  next
    case (Some w')
    with step [OF Cons.prems, of a] have "vact a (vals w) = Some (vals w')" "separate w'" by auto
    with Some Cons.IH show ?thesis by simp
  qed
qed simp

end

end
