(* ===== verification/Fluent_Pool.thy ===== *)
theory Fluent_Pool
  imports Fluent_Encoder Go_Heap
begin

text \<open>
  The pools of \<^verbatim>\<open>fluent/msgpack_encoder.go\<close>. The frames of every encoder take their buffers from
  \<^verbatim>\<open>bytesPool\<close>; \<^verbatim>\<open>EncodeEntry\<close> takes two encoder objects from \<^verbatim>\<open>encPool\<close>, copies the logger's stack into
  one and gives both back; a reflected value is first written into the object's own scratch buffer,
  which the object keeps when it is pooled, and copied from there. Encoder objects are numbered. An
  object owns arrays in two ways, through its stack and through its scratch buffer; an object with an
  empty stack is unused or in \<^verbatim>\<open>encPool\<close>. The refinement says that under any sharing and reuse every
  stack holds what \<open>Fluent_Encoder\<close> computes by value.
\<close>

section \<open>Frames in the store\<close>

text \<open>A frame is a cell with its kind and its count.\<close>

type_synonym fcell = "(f_frameKind \<times> nat) cell"

definition to_fframe :: "f_frameKind \<times> nat \<Rightarrow> bytes \<Rightarrow> f_frame" where
  "to_fframe m b = \<lparr>f_kind = fst m, f_buf = b, f_count = snd m\<rparr>"

definition bytesCap :: nat where "bytesCap = 256"

definition getBytes :: "choice \<Rightarrow> heap \<Rightarrow> slice \<times> heap" where
  "getBytes ch h = get_buf bytesCap ch h"

definition putBytes :: "slice \<Rightarrow> heap \<Rightarrow> heap" where
  "putBytes b h = put_buf b h"

definition fp_push :: "choice \<Rightarrow> f_frameKind \<Rightarrow> fcell list \<Rightarrow> heap \<Rightarrow> fcell list \<times> heap" where
  "fp_push ch k fs h = (let (sl, h') = getBytes ch h in (fs @ [\<lparr>c_meta = (k, 0), c_buf = sl\<rparr>], h'))"

fun fp_cloneStack :: "(nat \<Rightarrow> choice) \<Rightarrow> nat \<Rightarrow> fcell list \<Rightarrow> heap \<Rightarrow> fcell list \<times> heap" where
  "fp_cloneStack ch grow [] h = ([], h)"
| "fp_cloneStack ch grow (f # src) h =
     (let (b, h1) = getBytes (ch (length src)) h;
          (b', h2) = append_slice grow b (slice_bytes h1 (c_buf f)) h1;
          (dst, h3) = fp_cloneStack ch grow src h2
      in (\<lparr>c_meta = c_meta f, c_buf = b'\<rparr> # dst, h3))"

fun putEncoder :: "fcell list \<Rightarrow> heap \<Rightarrow> heap" where
  "putEncoder [] h = h"
| "putEncoder (f # fs) h = putEncoder fs (putBytes (c_buf f) h)"

text \<open>An append to the current frame, with what happens to its count.\<close>

definition fp_append :: "nat \<Rightarrow> bytes \<Rightarrow> (f_frameKind \<times> nat \<Rightarrow> f_frameKind \<times> nat) \<Rightarrow> fcell list \<Rightarrow> heap \<Rightarrow> fcell list \<times> heap" where
  "fp_append grow xs count fs h =
     (let t = last fs; (t', h') = append_all grow t [xs] h in (butlast fs @ [t'\<lparr>c_meta := count (c_meta t)\<rparr>], h'))"

definition one_more :: "f_frameKind \<times> nat \<Rightarrow> f_frameKind \<times> nat" where
  "one_more m = (fst m, snd m + 1)"

definition one_more_in_array :: "f_frameKind \<times> nat \<Rightarrow> f_frameKind \<times> nat" where
  "one_more_in_array m = (fst m, if fst m = kindArray then snd m + 1 else snd m)"

definition fp_addKey :: "msgp \<Rightarrow> nat \<Rightarrow> bytes \<Rightarrow> fcell list \<Rightarrow> heap \<Rightarrow> fcell list \<times> heap" where
  "fp_addKey M grow key = fp_append grow (mp_String M [] key) one_more"

definition fp_AppendPrim :: "msgp \<Rightarrow> nat \<Rightarrow> zval \<Rightarrow> fcell list \<Rightarrow> heap \<Rightarrow> fcell list \<times> heap" where
  "fp_AppendPrim M grow v = fp_append grow (append_bytes M [] v) one_more_in_array"

definition fp_AppendBinary :: "msgp \<Rightarrow> nat \<Rightarrow> bytes \<Rightarrow> fcell list \<Rightarrow> heap \<Rightarrow> fcell list \<times> heap" where
  "fp_AppendBinary M grow v = fp_append grow (mp_Bytes M [] v) id"

definition fp_count_parent :: "fcell list \<Rightarrow> fcell list" where
  "fp_count_parent fs = butlast fs @ [(last fs)\<lparr>c_meta := one_more_in_array (c_meta (last fs))\<rparr>]"

definition fp_sealTop :: "msgp \<Rightarrow> nat \<Rightarrow> fcell list \<Rightarrow> heap \<Rightarrow> fcell list \<times> heap" where
  "fp_sealTop M grow fs h =
     (let t = last fs; below = butlast fs; parent = last below;
          header = (if fst (c_meta t) = kindMap then appendMapHeader M [] (snd (c_meta t))
                    else appendArrayHeader M [] (snd (c_meta t)));
          (p1, h1) = append_all grow parent [header] h;
          (p2, h2) = append_cell grow p1 (slice_bytes h1 (c_buf t)) h1
      in (butlast below @ [p2], putBytes (c_buf t) h2))"

section \<open>The scratch buffer\<close>

text \<open>
  \<^verbatim>\<open>AppendIntf(e.scratch[:0], value)\<close>: in the array of the scratch buffer, or, when it does not fit or
  the library prefers, in a new one. A call that fails may leave anything in the old array.
\<close>

definition scratch_write :: "nat option \<Rightarrow> bytes \<Rightarrow> fcell list \<Rightarrow> heap \<Rightarrow> fcell list \<times> heap" where
  "scratch_write move xs sc h =
     (case (sc, move) of
        (c # cs, None) \<Rightarrow> (let (sl, h') = append_slice 0 ((c_buf c)\<lparr>sl_len := 0\<rparr>) xs h in (c\<lparr>c_buf := sl\<rparr> # cs, h'))
      | (_, _) \<Rightarrow>
          (let (sl, h1) = new_buf 0 h; (sl', h2) = append_slice (case move of None \<Rightarrow> 0 | Some g \<Rightarrow> g) sl xs h1
           in (\<lparr>c_meta = (kindMap, 0), c_buf = sl'\<rparr> # tl sc, h2)))"

definition scratch_junk :: "bytes \<Rightarrow> fcell list \<Rightarrow> heap \<Rightarrow> heap" where
  "scratch_junk junk sc h =
     (case sc of
        [] \<Rightarrow> h
      | c # _ \<Rightarrow>
          (let p = sl_addr (c_buf c); a = arrays h p; n = length a
           in h\<lparr>arrays := (arrays h)(p := take n (junk @ drop (length junk) a))\<rparr>))"

text \<open>On success the scratch buffer is what is returned.\<close>

definition fp_encodeReflected :: "msgp \<Rightarrow> (bytes \<Rightarrow> u64) \<Rightarrow> nat option \<Rightarrow> bytes \<Rightarrow> bytes \<Rightarrow> reflected \<Rightarrow> fcell list \<Rightarrow> heap \<Rightarrow>
    go_error option \<times> fcell list \<times> heap" where
  "fp_encodeReflected M pf move j1 j2 value sc h =
     (case mp_Reflect M [] value of
        Inr b \<Rightarrow> (None, scratch_write move b sc h)
      | Inl _ \<Rightarrow>
          (let h1 = scratch_junk j1 sc h in
           case rf_json value of
             Inl jerr \<Rightarrow> (Some jerr, sc, h1)
           | Inr _ \<Rightarrow>
               (case rf_decoded value of
                  Inl derr \<Rightarrow> (Some derr, sc, h1)
                | Inr v \<Rightarrow>
                    (case mp_Intf M [] (normalizeNumber pf v) of
                       Inl err \<Rightarrow> (Some err, sc, scratch_junk j2 sc h1)
                     | Inr b \<Rightarrow> (None, scratch_write move b sc h1)))))"

section \<open>Encoder objects\<close>

datatype owner = Stack nat | Scratch nat

type_synonym fpool = "(owner, f_frameKind \<times> nat) pool_world"

text \<open>
  \<open>FNew\<close> and \<open>FClone\<close> make a new object, without a scratch buffer; \<open>FEnv\<close> and \<open>FFinal\<close> take one from
  \<^verbatim>\<open>encPool\<close>, with the scratch buffer it was given back with, as \<^verbatim>\<open>EncodeEntry\<close> does for the envelope and
  for the copy of the logger's stack. \<^verbatim>\<open>AddX\<close> is \<open>FKey\<close> and \<open>FAppend\<close>, or \<open>FBinary\<close>; a hook is the
  \<open>FAppend\<close> steps it calls; a container is \<open>FCount\<close>, \<open>FPush\<close> and \<open>FSeal\<close>.
\<close>

datatype fpact =
    FNew nat choice
  | FClone nat nat "nat \<Rightarrow> choice" nat
  | FEnv nat choice
  | FFinal nat nat "nat \<Rightarrow> choice" nat
  | FPut nat
  | FKey nat nat bytes
  | FAppend nat nat zval
  | FBinary nat nat bytes
  | FCount nat
  | FPush nat choice f_frameKind
  | FSeal nat nat
  | FAddReflected nat "nat option" bytes bytes nat nat bytes reflected
  | FAppendReflected nat "nat option" bytes bytes nat reflected
  | FDrop nat

definition forget :: "'i \<Rightarrow> ('i, 'm) pool_world \<Rightarrow> ('i, 'm) pool_world" where
  "forget i w = w\<lparr>pw_states := (pw_states w)(i := [])\<rparr>"

definition on_stack :: "nat \<Rightarrow> (fcell list \<Rightarrow> heap \<Rightarrow> fcell list \<times> heap) \<Rightarrow> fpool \<Rightarrow> fpool option" where
  "on_stack i op w =
     (if pw_states w (Stack i) = [] then None
      else Some (store (Stack i) (op (pw_states w (Stack i)) (pw_heap w)) w))"

definition fp_reflect :: "msgp \<Rightarrow> (bytes \<Rightarrow> u64) \<Rightarrow> nat \<Rightarrow> nat option \<Rightarrow> bytes \<Rightarrow> bytes \<Rightarrow> reflected \<Rightarrow>
    (slice \<Rightarrow> fcell list \<Rightarrow> heap \<Rightarrow> fcell list \<times> heap) \<Rightarrow> fpool \<Rightarrow> fpool option" where
  "fp_reflect M pf i move j1 j2 value use w =
     (if pw_states w (Stack i) = [] then None
      else case fp_encodeReflected M pf move j1 j2 value (pw_states w (Scratch i)) (pw_heap w) of
        (err, sc, h) \<Rightarrow>
          (let w1 = store (Scratch i) (sc, h) w in
           case err of
             Some _ \<Rightarrow> Some w1
           | None \<Rightarrow> on_stack i (use (c_buf (hd sc))) w1))"

fun fpool_act :: "msgp \<Rightarrow> (bytes \<Rightarrow> u64) \<Rightarrow> fpact \<Rightarrow> fpool \<Rightarrow> fpool option" where
  "fpool_act M pf (FNew i ch) w =
     (if pw_states w (Stack i) = [] then Some (store (Stack i) (fp_push ch kindMap [] (pw_heap w)) (forget (Scratch i) w)) else None)"
| "fpool_act M pf (FClone i j ch grow) w =
     (if pw_states w (Stack i) \<noteq> [] \<and> pw_states w (Stack j) = []
      then Some (store (Stack j) (fp_cloneStack ch grow (pw_states w (Stack i)) (pw_heap w)) (forget (Scratch j) w)) else None)"
| "fpool_act M pf (FEnv i ch) w =
     (if pw_states w (Stack i) = [] then Some (store (Stack i) (fp_push ch kindMap [] (pw_heap w)) w) else None)"
| "fpool_act M pf (FFinal i j ch grow) w =
     (if pw_states w (Stack i) \<noteq> [] \<and> pw_states w (Stack j) = []
      then Some (store (Stack j) (fp_cloneStack ch grow (pw_states w (Stack i)) (pw_heap w)) w) else None)"
| "fpool_act M pf (FPut i) w = on_stack i (\<lambda>fs h. ([], putEncoder fs h)) w"
| "fpool_act M pf (FKey i grow key) w = on_stack i (fp_addKey M grow key) w"
| "fpool_act M pf (FAppend i grow v) w = on_stack i (fp_AppendPrim M grow v) w"
| "fpool_act M pf (FBinary i grow v) w = on_stack i (fp_AppendBinary M grow v) w"
| "fpool_act M pf (FCount i) w = on_stack i (\<lambda>fs h. (fp_count_parent fs, h)) w"
| "fpool_act M pf (FPush i ch k) w = on_stack i (fp_push ch k) w"
| "fpool_act M pf (FSeal i grow) w =
     (if 1 < length (pw_states w (Stack i)) then on_stack i (fp_sealTop M grow) w else None)"
| "fpool_act M pf (FAddReflected i move j1 j2 g1 g2 key value) w =
     fp_reflect M pf i move j1 j2 value
       (\<lambda>b fs h. let (fs1, h1) = fp_addKey M g1 key fs h in fp_append g2 (slice_bytes h1 b) id fs1 h1) w"
| "fpool_act M pf (FAppendReflected i move j1 j2 grow value) w =
     fp_reflect M pf i move j1 j2 value (\<lambda>b fs h. fp_append grow (slice_bytes h b) one_more_in_array fs h) w"
| "fpool_act M pf (FDrop k) w = Some (drop_pooled k w)"

text \<open>The same by value, with the operations of \<open>Fluent_Encoder\<close>; the configuration does not matter to them.\<close>

definition fby_value :: "f_config \<Rightarrow> (msgpackEncoder \<Rightarrow> msgpackEncoder) \<Rightarrow> f_frame list \<Rightarrow> f_frame list" where
  "fby_value g op fs = f_stack (op \<lparr>f_cfg = g, f_stack = fs\<rparr>)"

definition on_value :: "nat \<Rightarrow> (f_frame list \<Rightarrow> f_frame list) \<Rightarrow> (nat \<Rightarrow> f_frame list) \<Rightarrow> (nat \<Rightarrow> f_frame list) option" where
  "on_value i op v = (if v i = [] then None else Some (v(i := op (v i))))"

fun fvalue_act :: "msgp \<Rightarrow> (bytes \<Rightarrow> u64) \<Rightarrow> f_config \<Rightarrow> fpact \<Rightarrow> (nat \<Rightarrow> f_frame list) \<Rightarrow> (nat \<Rightarrow> f_frame list) option" where
  "fvalue_act M pf g (FNew i ch) v = (if v i = [] then Some (v(i := f_stack (newMsgpackEncoder g))) else None)"
| "fvalue_act M pf g (FClone i j ch grow) v = (if v i \<noteq> [] \<and> v j = [] then Some (v(j := fby_value g f_Clone (v i))) else None)"
| "fvalue_act M pf g (FEnv i ch) v = (if v i = [] then Some (v(i := [] @ [empty_map])) else None)"
| "fvalue_act M pf g (FFinal i j ch grow) v = (if v i \<noteq> [] \<and> v j = [] then Some (v(j := cloneStack [] (v i))) else None)"
| "fvalue_act M pf g (FPut i) v = on_value i (\<lambda>_. []) v"
| "fvalue_act M pf g (FKey i grow key) v = on_value i (fby_value g (addKey M key)) v"
| "fvalue_act M pf g (FAppend i grow x) v = on_value i (fby_value g (append_prim M x)) v"
| "fvalue_act M pf g (FBinary i grow x) v =
     on_value i (fby_value g (\<lambda>e. let t = f_top e in set_top (t\<lparr>f_buf := mp_Bytes M (f_buf t) x\<rparr>) e)) v"
| "fvalue_act M pf g (FCount i) v = on_value i (fby_value g count_parent) v"
| "fvalue_act M pf g (FPush i ch k) v = on_value i (fby_value g (f_push k)) v"
| "fvalue_act M pf g (FSeal i grow) v = (if 1 < length (v i) then on_value i (fby_value g (f_sealTop M)) v else None)"
| "fvalue_act M pf g (FAddReflected i move j1 j2 g1 g2 key value) v =
     on_value i (fby_value g (\<lambda>e. snd (f_AddReflected M pf key value e))) v"
| "fvalue_act M pf g (FAppendReflected i move j1 j2 grow value) v =
     on_value i (fby_value g (\<lambda>e. snd (f_AppendReflected M pf value e))) v"
| "fvalue_act M pf g (FDrop k) v = Some v"

section \<open>Operations on one stack\<close>

abbreviation f_does :: "heap \<Rightarrow> fcell list \<Rightarrow> nat set \<Rightarrow> (f_frame list \<Rightarrow> f_frame list) \<Rightarrow> fcell list \<times> heap \<Rightarrow> bool" where
  "f_does \<equiv> does to_fframe"

lemma to_fframe_simps [simp]: "f_kind (to_fframe m b) = fst m" "f_buf (to_fframe m b) = b" "f_count (to_fframe m b) = snd m"
  by (simp_all add: to_fframe_def)

lemma f_cloneStack_cells: "fp_cloneStack ch grow src h = clone_cells bytesCap ch grow src h"
  by (induction src arbitrary: h) (simp_all add: getBytes_def)

lemma putEncoder_cells: "putEncoder fs h = free_cells fs h"
  by (induction fs arbitrary: h) (simp_all add: putBytes_def)

lemma does_trans:
  "does mk h fs R op (fs1, h1) \<Longrightarrow> does mk h1 fs1 R op' r \<Longrightarrow> does mk h fs R (\<lambda>vs. op' (op vs)) r"
  by (auto simp: does_def intro: keeps_trans)

lemma fp_push_does:
  assumes "own h fs R"
  shows "f_does h fs R (fby_value g (f_push k)) (fp_push ch k fs h)"
  using open_does [OF assms, of to_fframe "(k, 0)" bytesCap ch]
  by (simp add: fp_push_def open_cell_def getBytes_def fby_value_def f_push_def to_fframe_def does_def)

text \<open>The value of an append to the current frame.\<close>

definition on_top :: "bytes \<Rightarrow> (f_frameKind \<times> nat \<Rightarrow> f_frameKind \<times> nat) \<Rightarrow> f_frame list \<Rightarrow> f_frame list" where
  "on_top xs count vs = (let t = last vs in butlast vs @ [to_fframe (count (f_kind t, f_count t)) (f_buf t @ xs)])"

lemma fp_append_does:
  assumes "own h fs R" and "fs \<noteq> []"
  shows "f_does h fs R (on_top xs count) (fp_append grow xs count fs h)"
proof -
  obtain ys t where fs: "fs = ys @ t # []" using assms(2) by (metis snoc_last)
  obtain t' h' where a: "append_all grow t [xs] h = (t', h')" by force
  have "on_top xs count (abs_cells to_fframe h (ys @ t # [])) = abs_cells to_fframe h ys @
      to_fframe (count (c_meta t)) (slice_bytes h (c_buf t) @ concat [xs]) # abs_cells to_fframe h []"
    by (simp add: on_top_def abs_cell_def Let_def)
  from append_does [where op = "on_top xs count", OF assms(1) [unfolded fs] a this]
  show ?thesis by (simp add: fs fp_append_def a Let_def del: append_all.simps)
qed

lemma fp_append_nonempty: "fs \<noteq> [] \<Longrightarrow> fst (fp_append grow xs count fs h) \<noteq> []"
  by (simp add: fp_append_def Let_def split: prod.split)

lemma fp_count_parent_does:
  assumes "own h fs R" and "fs \<noteq> []"
  shows "f_does h fs R (fby_value g count_parent) (fp_count_parent fs, h)"
proof -
  obtain ys t where fs: "fs = ys @ t # []" using assms(2) by (metis snoc_last)
  let ?t = "t\<lparr>c_meta := one_more_in_array (c_meta t)\<rparr>"
  have o: "own h [t] (R \<union> set (addrs (ys @ [])))" using assms(1) unfolding fs own_focus by blast
  have v: "fby_value g count_parent (abs_cells to_fframe h (ys @ t # [])) =
      abs_cells to_fframe h ys @ abs_cell to_fframe h ?t # abs_cells to_fframe h []"
    by (cases "c_meta t") (simp add: fby_value_def count_parent_def f_top_def set_top_def abs_cell_def to_fframe_def one_more_in_array_def)
  have "f_does h (ys @ t # []) R (fby_value g count_parent) (ys @ ?t # [], h)"
    using o v by (intro replace_does [OF assms(1) [unfolded fs]]) (simp_all add: own_meta)
  then show ?thesis by (simp add: fs fp_count_parent_def)
qed

context msgp_laws
begin

lemma addKey_top: "vs \<noteq> [] \<Longrightarrow> fby_value g (addKey M key) vs = on_top (mp_String M [] key) one_more vs"
  using String_append [of "f_buf (last vs)" key]
  by (simp add: fby_value_def addKey_def f_top_def set_top_def on_top_def to_fframe_def one_more_def Let_def)

lemma append_prim_top: "vs \<noteq> [] \<Longrightarrow> fby_value g (append_prim M v) vs = on_top (append_bytes M [] v) one_more_in_array vs"
  using append_bytes_append [of "f_buf (last vs)" v]
  by (simp add: fby_value_def append_prim_def f_top_def set_top_def on_top_def to_fframe_def one_more_in_array_def Let_def)

lemma binary_top:
  "vs \<noteq> [] \<Longrightarrow> fby_value g (\<lambda>e. let t = f_top e in set_top (t\<lparr>f_buf := mp_Bytes M (f_buf t) x\<rparr>) e) vs =
    on_top (mp_Bytes M [] x) id vs"
  using Bytes_append [of "f_buf (last vs)" x]
  by (simp add: fby_value_def f_top_def set_top_def on_top_def to_fframe_def Let_def)

lemma add_reflected_top:
  assumes "encodeReflected M pf value = Inr b" and "vs \<noteq> []"
  shows "fby_value g (\<lambda>e. snd (f_AddReflected M pf key value e)) vs = on_top b id (on_top (mp_String M [] key) one_more vs)"
    and "fby_value g (\<lambda>e. snd (f_AppendReflected M pf value e)) vs = on_top b one_more_in_array vs"
  using addKey_top [OF assms(2), of g key] assms
  by (simp_all add: fby_value_def f_AddReflected_def f_AppendReflected_def f_top_def set_top_def on_top_def to_fframe_def
      one_more_in_array_def Let_def)

lemma add_reflected_error:
  assumes "encodeReflected M pf value = Inl err"
  shows "fby_value g (\<lambda>e. snd (f_AddReflected M pf key value e)) vs = vs"
    and "fby_value g (\<lambda>e. snd (f_AppendReflected M pf value e)) vs = vs"
  using assms by (simp_all add: fby_value_def f_AddReflected_def f_AppendReflected_def)

lemma seal_top:
  "fby_value g (f_sealTop M) (A @ [P, T]) = A @ [P\<lparr>f_buf := f_buf P @
     (if f_kind T = kindMap then appendMapHeader M [] (f_count T) else appendArrayHeader M [] (f_count T)) @ f_buf T\<rparr>]"
  using MapHeader_append [of "f_buf P" "of_nat (f_count T)"] ArrayHeader_append [of "f_buf P" "of_nat (f_count T)"]
  by (simp add: fby_value_def f_sealTop_def f_top_def set_top_def butlast_append appendMapHeader_def appendArrayHeader_def Let_def)

lemma fp_sealTop_does:
  assumes "own h fs R" and "1 < length fs"
  shows "f_does h fs R (fby_value g (f_sealTop M)) (fp_sealTop M grow fs h)"
proof -
  obtain xs p tp where fs: "fs = xs @ [p, tp]" using two_last [OF assms(2)] by blast
  let ?h = "if fst (c_meta tp) = kindMap then appendMapHeader M [] (snd (c_meta tp)) else appendArrayHeader M [] (snd (c_meta tp))"
  have "fby_value g (f_sealTop M) (abs_cells to_fframe h fs) = abs_cells to_fframe h xs @
      [to_fframe (c_meta p) (slice_bytes h (c_buf p) @ concat [?h] @ slice_bytes h (c_buf tp))]"
    using seal_top [of g "abs_cells to_fframe h xs" "abs_cell to_fframe h p" "abs_cell to_fframe h tp"]
    by (simp add: fs abs_cell_def to_fframe_def)
  from seal_does [where op = "fby_value g (f_sealTop M)", OF assms(1) fs this, of grow]
  show ?thesis by (simp add: fp_sealTop_def seal_cells_def fs butlast_append Let_def putBytes_def del: append_all.simps)
qed

end

section \<open>The scratch buffer\<close>

lemma own_tl: "own h (c # cs) R \<Longrightarrow> own h cs R"
  by (auto simp: own_def free_ok_def)

lemma scratch_write_own:
  assumes "own h sc R" and "scratch_write move xs sc h = (sc', h')"
  shows "own h' sc' R \<and> keeps R h h' \<and> sc' \<noteq> [] \<and> slice_bytes h' (c_buf (hd sc')) = xs"
proof (cases "sc \<noteq> [] \<and> move = None")
  case True
  then obtain c cs where c: "sc = [] @ c # cs" by (cases sc) auto
  let ?c = "c\<lparr>c_buf := (c_buf c)\<lparr>sl_len := 0\<rparr>\<rparr>"
  have o: "own h [?c] (R \<union> set (addrs ([] @ cs)))"
    using assms(1) unfolding c own_focus by (auto simp: own_single within_def)
  obtain sl where a: "append_slice 0 (c_buf ?c) xs h = (sl, h')" "sc' = [] @ c\<lparr>c_buf := sl\<rparr> # cs"
    using assms(2) True c by (auto simp: scratch_write_def split: prod.splits)
  from append_slice_own [OF o a(1)] have f: "own h' [c\<lparr>c_buf := sl\<rparr>] (R \<union> set (addrs ([] @ cs)))"
    "keeps (R \<union> set (addrs ([] @ cs))) h h'" "slice_bytes h' sl = xs"
    by (simp_all add: slice_bytes_def)
  from own_replace(1,2) [OF assms(1) [unfolded c] f(1,2)] f(3) show ?thesis by (simp add: a(2))
next
  case False
  have o: "own h (tl sc) R" using assms(1) own_tl by (cases sc) auto
  let ?m = "(kindMap, 0) :: f_frameKind \<times> nat" and ?g = "case move of None \<Rightarrow> 0 | Some g \<Rightarrow> g"
  obtain sl h1 where n: "new_buf 0 h = (sl, h1)" by force
  obtain sl' where a: "append_slice ?g sl xs h1 = (sl', h')" "sc' = [] @ \<lparr>c_meta = ?m, c_buf = sl'\<rparr> # tl sc"
    using assms(2) False n by (auto simp: scratch_write_def split: prod.splits list.splits option.splits)
  have f: "free_ok h (R \<union> set (addrs (tl sc)))" using o by (simp add: own_def Un_commute)
  note b = new_buf_own(1) [OF f n, of ?m] new_buf_own(2,3) [OF f n]
  note s = append_slice_own [OF b(1), of ?g xs sl' h'] 
  have s': "own h' [\<lparr>c_meta = ?m, c_buf = sl'\<rparr>] (R \<union> set (addrs (tl sc)))" "keeps (R \<union> set (addrs (tl sc))) h h'"
    "slice_bytes h' sl' = xs"
    using s a(1) b keeps_trans [of _ h h1 h'] by auto
  have "keeps (set (addrs (tl sc))) h h'" using s'(2) by (auto simp: keeps_def)
  note kf = keeps_frames [OF this, of to_fframe]
  have "own h' ([] @ \<lparr>c_meta = ?m, c_buf = sl'\<rparr> # tl sc) R"
    unfolding own_focus using s'(1) o kf by (simp add: own_def)
  moreover have "keeps R h h'" using s'(2) by (auto simp: keeps_def)
  ultimately show ?thesis using s'(3) by (simp add: a(2))
qed

lemma scratch_junk_own:
  assumes "own h sc R"
  shows "own (scratch_junk junk sc h) sc R \<and> keeps R h (scratch_junk junk sc h)"
proof (cases sc)
  case (Cons c cs)
  let ?h = "scratch_junk junk sc h"
  have h: "next_addr ?h = next_addr h" "pooled ?h = pooled h" "\<And>a. length (arrays ?h a) = length (arrays h a)"
    "\<And>a. a \<noteq> sl_addr (c_buf c) \<Longrightarrow> arrays ?h a = arrays h a"
    by (auto simp: scratch_junk_def Cons Let_def min_def)
  have "within ?h f = within h f" for f :: fcell by (simp add: within_def h)
  moreover have "free_ok ?h = free_ok h" by (simp add: free_ok_def h fun_eq_iff)
  moreover have "sl_addr (c_buf c) \<notin> R" using assms by (simp add: own_def Cons)
  then have "keeps R h ?h" using h(4) unfolding keeps_def by metis
  ultimately show ?thesis using assms by (simp add: own_def list_all_iff)
qed (use assms in \<open>simp add: scratch_junk_def\<close>)

lemma encodeReflected_own:
  assumes "own h sc R" and "fp_encodeReflected M pf move j1 j2 value sc h = (err, sc', h')"
  shows "own h' sc' R \<and> keeps R h h' \<and>
    (case err of None \<Rightarrow> encodeReflected M pf value = Inr (slice_bytes h' (c_buf (hd sc')))
     | Some e \<Rightarrow> encodeReflected M pf value = Inl e)"
proof -
  note w = scratch_write_own
  note j1 = scratch_junk_own [OF assms(1), of j1]
  have j: "own (scratch_junk j2 sc (scratch_junk j1 sc h)) sc R" "keeps R h (scratch_junk j2 sc (scratch_junk j1 sc h))"
    using scratch_junk_own [OF conjunct1 [OF j1], of j2] j1 keeps_trans by blast+
  have "own h2 sc2 R \<and> keeps R h h2 \<and> slice_bytes h2 (c_buf (hd sc2)) = b"
    if "scratch_write move b sc (scratch_junk j1 sc h) = (sc2, h2)" for b sc2 h2
    using w [OF conjunct1 [OF j1] that] j1 keeps_trans by blast
  with assms(2) j j1 w [OF assms(1)] show ?thesis
    by (auto simp: fp_encodeReflected_def encodeReflected_def Let_def split: sum.splits)
qed

section \<open>All encoder objects\<close>

definition stacks_of :: "fpool \<Rightarrow> nat \<Rightarrow> f_frame list" where
  "stacks_of w i = values_of to_fframe w (Stack i)"

lemma stacks_empty [simp]: "stacks_of w i = [] \<longleftrightarrow> pw_states w (Stack i) = []" "length (stacks_of w i) = length (pw_states w (Stack i))"
  by (simp_all add: stacks_of_def)

lemma stacks_cells: "abs_cells to_fframe (pw_heap w) (pw_states w (Stack i)) = stacks_of w i"
  by (simp add: stacks_of_def values_of_def)

lemma does_eq: "does mk h fs R op r \<Longrightarrow> op' (abs_cells mk h fs) = op (abs_cells mk h fs) \<Longrightarrow> does mk h fs R op' r"
  by (simp add: does_def)

lemma store_stack:
  assumes "separate w" and "f_does (pw_heap w) fs (others w (Stack i)) op r"
  shows "separate (store (Stack i) r w) \<and> stacks_of (store (Stack i) r w) = (stacks_of w)(i := op (abs_cells to_fframe (pw_heap w) fs))"
  using store_does [OF assms] by (auto simp: stacks_of_def)

lemma store_scratch:
  assumes "separate w" and "own h sc (others w (Scratch i))" and "keeps (others w (Scratch i)) (pw_heap w) h"
  shows "separate (store (Scratch i) (sc, h) w) \<and> stacks_of (store (Scratch i) (sc, h) w) = stacks_of w"
  using store_does [OF assms(1), of to_fframe "pw_states w (Scratch i)" "Scratch i" "\<lambda>_. abs_cells to_fframe h sc" "(sc, h)"] assms(2,3)
  by (auto simp: stacks_of_def does_def)

lemma separate_forget:
  fixes w :: "('i, 'm) pool_world"
  assumes "separate w"
  shows "separate (forget k w)"
proof -
  have sub: "others (forget k w) i \<subseteq> others w i" for i by (fastforce simp: others_def forget_def split: if_splits)
  have "own h fs S" if "own h fs R" "S \<subseteq> R" for h R S and fs :: "'m cell list"
    using that by (auto simp: own_def free_ok_def)
  then have sub_own: "own h fs R \<Longrightarrow> S \<subseteq> R \<Longrightarrow> own h fs S" for h R S and fs :: "'m cell list" by blast
  have "own (pw_heap w) (pw_states (forget k w) i) (others w i)" for i
    using separate_own [OF assms, of i] by (auto simp: forget_def own_def free_ok_def)
  then show ?thesis using sub_own [OF _ sub] unfolding separate_def by (simp add: forget_def)
qed

lemma forget_scratch [simp]: "stacks_of (forget (Scratch i) w) = stacks_of w" "pw_states (forget (Scratch i) w) (Stack j) = pw_states w (Stack j)"
  "pw_heap (forget k w) = pw_heap w"
  by (simp_all add: stacks_of_def values_of_def forget_def fun_eq_iff)

text \<open>What a step has to show.\<close>

definition refines :: "fpool option \<Rightarrow> (nat \<Rightarrow> f_frame list) option \<Rightarrow> bool" where
  "refines r v \<longleftrightarrow> map_option stacks_of r = v \<and> (\<forall>w'. r = Some w' \<longrightarrow> separate w')"

lemma on_stack_refines:
  assumes "separate w"
    and "pw_states w (Stack i) \<noteq> [] \<Longrightarrow>
      f_does (pw_heap w) (pw_states w (Stack i)) (others w (Stack i)) op' (op (pw_states w (Stack i)) (pw_heap w))"
    and "stacks_of w i \<noteq> [] \<Longrightarrow> vop (stacks_of w i) = op' (stacks_of w i)"
  shows "refines (on_stack i op w) (on_value i vop (stacks_of w))"
  using store_stack [OF assms(1) assms(2)] assms(3) by (auto simp: refines_def on_stack_def on_value_def stacks_cells)

lemma clone_refines:
  assumes "separate w" and "pw_states w (Stack i) \<noteq> []" and "pw_states w (Stack j) = []"
  shows "refines (Some (store (Stack j) (fp_cloneStack ch grow (pw_states w (Stack i)) (pw_heap w)) w))
    (Some ((stacks_of w)(j := stacks_of w i)))"
proof -
  obtain gs h' where c: "clone_cells bytesCap ch grow (pw_states w (Stack i)) (pw_heap w) = (gs, h')" by force
  have "free_ok (pw_heap w) (others w (Stack j))" using separate_own [OF assms(1), of "Stack j"] assms(3) by simp
  moreover have "Stack i \<noteq> Stack j" using assms(2,3) by auto
  ultimately have "f_does (pw_heap w) [] (others w (Stack j)) (\<lambda>_. stacks_of w i) (gs, h')"
    using clone_own [OF _ in_others c, where mk = to_fframe] by (simp add: does_def stacks_cells)
  from store_stack [OF assms(1) this] show ?thesis by (simp add: refines_def f_cloneStack_cells c)
qed

lemma new_refines:
  assumes "separate w" and "pw_states w (Stack i) = []"
  shows "refines (Some (store (Stack i) (fp_push ch kindMap [] (pw_heap w)) w)) (Some ((stacks_of w)(i := [empty_map])))"
proof -
  have o: "own (pw_heap w) [] (others w (Stack i))" using separate_own [OF assms(1), of "Stack i"] assms(2) by simp
  have "fby_value g (f_push kindMap) [] = [empty_map]" for g by (simp add: fby_value_def f_push_def empty_map_def)
  with store_stack [OF assms(1) fp_push_does [OF o, of undefined kindMap ch]] show ?thesis by (simp add: refines_def)
qed

lemma fp_reflect_refines:
  assumes "separate w"
    and "\<And>w1 b op. separate w1 \<Longrightarrow> pw_states w1 (Stack i) \<noteq> [] \<Longrightarrow>
      set (addrs (pw_states w1 (Scratch i))) \<subseteq> others w1 (Stack i) \<Longrightarrow> pw_states w1 (Scratch i) \<noteq> [] \<Longrightarrow>
      b = c_buf (hd (pw_states w1 (Scratch i))) \<Longrightarrow>
      f_does (pw_heap w1) (pw_states w1 (Stack i)) (others w1 (Stack i)) (opv (slice_bytes (pw_heap w1) b))
        (use b (pw_states w1 (Stack i)) (pw_heap w1))"
    and "\<And>b. encodeReflected M pf value = Inr b \<Longrightarrow> stacks_of w i \<noteq> [] \<Longrightarrow> vop (stacks_of w i) = opv b (stacks_of w i)"
    and "\<And>e. encodeReflected M pf value = Inl e \<Longrightarrow> vop (stacks_of w i) = stacks_of w i"
  shows "refines (fp_reflect M pf i move j1 j2 value use w) (on_value i vop (stacks_of w))"
proof (cases "pw_states w (Stack i) = []")
  case True
  then show ?thesis by (simp add: fp_reflect_def refines_def on_value_def)
next
  case False
  obtain err sc h where e: "fp_encodeReflected M pf move j1 j2 value (pw_states w (Scratch i)) (pw_heap w) = (err, sc, h)"
    by (metis prod_cases3)
  note r = encodeReflected_own [OF separate_own [OF assms(1), of "Scratch i"] e]
  let ?w = "store (Scratch i) (sc, h) w"
  have s: "separate ?w" "stacks_of ?w = stacks_of w" using store_scratch [OF assms(1)] r by blast+
  show ?thesis
  proof (cases err)
    case (Some x)
    with r assms(4) s False show ?thesis
      by (auto simp: fp_reflect_def e refines_def on_value_def fun_upd_idem)
  next
    case None
    have w1: "pw_states ?w (Scratch i) = sc" "pw_heap ?w = h" "pw_states ?w (Stack i) \<noteq> []"
      using False by (simp_all add: store_def)
    have ne: "sc \<noteq> []" using e None
      by (auto simp: fp_encodeReflected_def scratch_write_def Let_def split: sum.splits prod.splits list.splits option.splits)
    let ?b = "c_buf (hd sc)"
    have enc: "encodeReflected M pf value = Inr (slice_bytes h ?b)" using r None by simp
    have d: "f_does h (pw_states ?w (Stack i)) (others ?w (Stack i)) (opv (slice_bytes h ?b)) (use ?b (pw_states ?w (Stack i)) h)"
      using assms(2) [OF s(1) w1(3) in_others] w1 ne by simp
    have "refines (on_stack i (use ?b) ?w) (on_value i vop (stacks_of ?w))"
      by (rule on_stack_refines [OF s(1), where op' = "opv (slice_bytes h ?b)"])
        (use d assms(3) [OF enc] s(2) in \<open>simp_all add: w1\<close>)
    then show ?thesis using False None s(2) by (simp add: fp_reflect_def e)
  qed
qed

context msgp_laws
begin

lemma fpool_step:
  assumes "separate w"
  shows "refines (fpool_act M pf a w) (fvalue_act M pf g a (stacks_of w))"
proof -
  note o = separate_own [OF assms]
  show ?thesis
  proof (cases a)
    case (FNew i ch)
    show ?thesis
      using new_refines [OF separate_forget [OF assms, of "Scratch i"], of i ch]
      by (auto simp: FNew newMsgpackEncoder_def refines_def)
  next
    case (FClone i j ch grow)
    show ?thesis
      using clone_refines [OF separate_forget [OF assms, of "Scratch j"], of i j ch grow]
      by (auto simp: FClone fby_value_def f_Clone_def cloneStack_id refines_def)
  next
    case (FEnv i ch)
    show ?thesis using new_refines [OF assms, of i ch] by (auto simp: FEnv refines_def)
  next
    case (FFinal i j ch grow)
    show ?thesis using clone_refines [OF assms, of i j ch grow] by (auto simp: FFinal cloneStack_id refines_def)
  next
    case (FPut i)
    show ?thesis
      unfolding FPut fpool_act.simps fvalue_act.simps
      by (rule on_stack_refines [OF assms, where op' = "\<lambda>_. []"]) (simp_all add: putEncoder_cells free_does [OF o])
  next
    case (FKey i grow key)
    show ?thesis
      unfolding FKey fpool_act.simps fvalue_act.simps fp_addKey_def
      by (rule on_stack_refines [where op = "fp_append grow (mp_String M [] key) one_more" and op' = "on_top (mp_String M [] key) one_more",
        OF assms fp_append_does [OF o]]) (simp_all add: addKey_top)
  next
    case (FAppend i grow v)
    show ?thesis
      unfolding FAppend fpool_act.simps fvalue_act.simps fp_AppendPrim_def
      by (rule on_stack_refines [where op = "fp_append grow (append_bytes M [] v) one_more_in_array" and op' = "on_top (append_bytes M [] v) one_more_in_array",
        OF assms fp_append_does [OF o]]) (simp_all add: append_prim_top)
  next
    case (FBinary i grow v)
    show ?thesis
      unfolding FBinary fpool_act.simps fvalue_act.simps fp_AppendBinary_def
      by (rule on_stack_refines [where op = "fp_append grow (mp_Bytes M [] v) id" and op' = "on_top (mp_Bytes M [] v) id",
        OF assms fp_append_does [OF o]]) (simp_all only: binary_top not_False_eq_True)
  next
    case (FCount i)
    show ?thesis
      unfolding FCount fpool_act.simps fvalue_act.simps
      by (rule on_stack_refines [where op = "\<lambda>fs h. (fp_count_parent fs, h)" and op' = "fby_value g count_parent",
        OF assms fp_count_parent_does [OF o]]) simp_all
  next
    case (FPush i ch k)
    show ?thesis
      unfolding FPush fpool_act.simps fvalue_act.simps
      by (rule on_stack_refines [where op = "fp_push ch k" and op' = "fby_value g (f_push k)",
        OF assms fp_push_does [OF o]]) simp
  next
    case (FSeal i grow)
    have "refines (on_stack i (fp_sealTop M grow) w) (on_value i (fby_value g (f_sealTop M)) (stacks_of w))"
      if "1 < length (pw_states w (Stack i))"
      by (rule on_stack_refines [where op = "fp_sealTop M grow" and op' = "fby_value g (f_sealTop M)",
        OF assms fp_sealTop_does [OF o that]]) simp
    then show ?thesis by (simp add: FSeal refines_def)
  next
    case (FAddReflected i move j1 j2 g1 g2 key val)
    show ?thesis
      unfolding FAddReflected fpool_act.simps fvalue_act.simps
    proof (rule fp_reflect_refines [OF assms, where opv = "\<lambda>b vs. on_top b id (on_top (mp_String M [] key) one_more vs)"])
      fix w1 :: fpool and b
      assume w1: "separate w1" "pw_states w1 (Stack i) \<noteq> []"
        "set (addrs (pw_states w1 (Scratch i))) \<subseteq> others w1 (Stack i)" "pw_states w1 (Scratch i) \<noteq> []"
        "b = c_buf (hd (pw_states w1 (Scratch i)))"
      let ?fs = "pw_states w1 (Stack i)" and ?R = "others w1 (Stack i)"
      obtain fs1 h1 where k: "fp_addKey M g1 key ?fs (pw_heap w1) = (fs1, h1)" by force
      have d: "f_does (pw_heap w1) ?fs ?R (on_top (mp_String M [] key) one_more) (fs1, h1)"
        using fp_append_does [OF separate_own [OF w1(1)] w1(2), where grow = g1 and xs = "mp_String M [] key" and count = one_more] k
        by (simp add: fp_addKey_def)
      have ne: "fs1 \<noteq> []" using fp_append_nonempty [OF w1(2)] k unfolding fp_addKey_def by (metis fst_conv)
      have "sl_addr b \<in> ?R" using w1(3-5) by (cases "pw_states w1 (Scratch i)") auto
      then have b: "slice_bytes h1 b = slice_bytes (pw_heap w1) b" using d by (simp add: does_def keeps_def slice_bytes_def)
      have "own h1 fs1 ?R" using d by (simp add: does_def)
      from does_trans [OF d fp_append_does [OF this ne]] k b
      show "f_does (pw_heap w1) ?fs ?R (\<lambda>vs. on_top (slice_bytes (pw_heap w1) b) id (on_top (mp_String M [] key) one_more vs))
        (let (fs1, h1) = fp_addKey M g1 key ?fs (pw_heap w1) in fp_append g2 (slice_bytes h1 b) id fs1 h1)"
        by simp
    qed (simp_all add: add_reflected_top add_reflected_error)
  next
    case (FAppendReflected i move j1 j2 grow val)
    show ?thesis
      unfolding FAppendReflected fpool_act.simps fvalue_act.simps
      by (rule fp_reflect_refines [OF assms, where opv = "\<lambda>b. on_top b one_more_in_array"])
        (simp_all add: fp_append_does separate_own add_reflected_top add_reflected_error)
  next
    case (FDrop k)
    show ?thesis using separate_drop(1) [OF assms, of k] separate_drop(2) [OF assms, of to_fframe k]
      by (simp add: FDrop refines_def stacks_of_def fun_eq_iff)
  qed
qed

lemma fpool_machine: "pool_machine (fpool_act M pf) (fvalue_act M pf g) stacks_of"
  using fpool_step by unfold_locales (simp add: refines_def)

end

section \<open>Properties\<close>

text \<open>C20: the pools of the fluent encoder are invisible. For every msgpack library that appends, every
  sequence of operations on any number of encoder objects that share the two pools, whatever buffers
  and objects the pools hand out or drop, however arrays grow and whatever a failed call of the library
  leaves in a scratch buffer, the stacks hold exactly the bytes and counts the by-value encoder
  computes, and a step is possible in the one model exactly when it is in the other. No array is live
  in two frames, in a frame and a scratch buffer, or live and pooled.\<close>

theorem fluent_pool_refines_values:
  assumes "msgp_laws M"
  shows "map_option stacks_of (run (fpool_act M pf) as pool_init) = run (fvalue_act M pf g) as (\<lambda>_. []) \<and>
    (\<forall>w. run (fpool_act M pf) as pool_init = Some w \<longrightarrow> separate w)"
proof -
  have "stacks_of pool_init = (\<lambda>_. [])" by (simp add: stacks_of_def separate_init(2) fun_eq_iff)
  with pool_machine.pool_run [OF msgp_laws.fpool_machine [OF assms] separate_init(1)] show ?thesis by simp
qed

text \<open>
  The logger's encoder 0 holds one field. An entry copies it to 1, which adds a reflected value through
  its scratch buffer and is given back; the next entry reuses object 1, its scratch buffer and a buffer
  of the pool, and adds another value.
\<close>

definition fpool_sample :: "fpact list" where
  "fpool_sample =
     (let reflect = (\<lambda>i b. FAddReflected i None [] [] 0 0 [114] \<lparr>rf_value = AnyOther, rf_json = Inr [], rf_decoded = Inr (JBool b)\<rparr>) in
      [FNew 0 Fresh, FKey 0 0 [107], FAppend 0 0 (ZBool True), FFinal 0 1 (\<lambda>_. Fresh) 0, reflect 1 True, FPut 1,
       FFinal 0 1 (\<lambda>_. Pooled 0) 0, reflect 1 False])"

theorem fluent_pool_refines_values_witness:
  "\<exists>w. run (fpool_act long_form (\<lambda>_. 0)) fpool_sample pool_init = Some w \<and> separate w \<and>
     stacks_of w 0 = [\<lparr>f_kind = kindMap, f_buf = [0xdb, 0, 0, 0, 1, 107, 0xc3], f_count = 1\<rparr>] \<and>
     stacks_of w 1 = [\<lparr>f_kind = kindMap, f_buf = [0xdb, 0, 0, 0, 1, 107, 0xc3, 0xdb, 0, 0, 0, 1, 114, 0xc2], f_count = 2\<rparr>]"
proof -
  let ?g = undefined
  have m: "mp_String long_form b x = b @ long_len 0xdb x" "mp_Bool long_form b t = b @ [if t then 0xc3 else 0xc2]"
    "mp_Reflect long_form b r = Inl (str ''unsupported'')" "mp_Intf long_form b (JBool t) = Inr (b @ [if t then 0xc3 else 0xc2])"
    for b x t r by (simp_all add: long_form_def)
  have "be_bytes 4 1 = [0, 0, 0, 1]" by code_simp
  then have l: "long_len 0xdb [k] = [0xdb, 0, 0, 0, 1, k]" for k by (simp add: long_len_def)
  have v: "map_option (\<lambda>v. (v 0, v 1)) (run (fvalue_act long_form (\<lambda>_. 0) ?g) fpool_sample (\<lambda>_. [])) =
     Some ([\<lparr>f_kind = kindMap, f_buf = [0xdb, 0, 0, 0, 1, 107, 0xc3], f_count = 1\<rparr>],
      [\<lparr>f_kind = kindMap, f_buf = [0xdb, 0, 0, 0, 1, 107, 0xc3, 0xdb, 0, 0, 0, 1, 114, 0xc2], f_count = 2\<rparr>])"
    by (simp add: fpool_sample_def Let_def on_value_def fby_value_def newMsgpackEncoder_def empty_map_def addKey_def
        append_prim_def f_top_def set_top_def cloneStack_id f_AddReflected_def encodeReflected_def m l)
  with fluent_pool_refines_values [OF long_form.msgp_laws_axioms, of "\<lambda>_. 0" fpool_sample ?g] show ?thesis
    by (cases "run (fpool_act long_form (\<lambda>_. 0)) fpool_sample pool_init") auto
qed

end
