(* ===== verification/Otlp_Proto.thy ===== *)
theory Otlp_Proto
  imports Go_Runtime
begin

text \<open>
  \<^verbatim>\<open>otlp/proto.go\<close>: the proto3 append helpers and the response scanners. The three
  scanners of the source repeat one loop body, which reads a tag, checks the wire type and
  advances; \<open>wire_step\<close> is that body, and each scanner is its loop. Encoded messages
  are scanned back field by field; the last occurrence of a field wins, as proto3 requires.
\<close>

section \<open>Appending\<close>

function appendUvarint :: "bytes \<Rightarrow> u64 \<Rightarrow> bytes" where
  "appendUvarint dst v =
     (if v \<ge> 0x80 then appendUvarint (dst @ [ucast v OR 0x80]) (drop_bit 7 v)
      else dst @ [ucast v])"
  by pat_completeness auto
termination
proof (relation "measure (\<lambda>(dst, v). unat v)", goal_cases)
  case (2 dst v)
  then have "128 \<le> unat v" by (simp add: word_le_nat_alt)
  then have "unat v div 2 ^ 7 < unat v" by simp
  then show ?case by (simp only: in_measure case_prod_conv unat_drop_bit_div)
qed simp

declare appendUvarint.simps [simp del]

definition uvarintLen :: "u64 \<Rightarrow> nat" where
  "uvarintLen v = (Len64 (v OR 1) + 6) div 7"

definition appendVarint :: "bytes \<Rightarrow> int \<Rightarrow> bytes" where
  "appendVarint dst v = appendUvarint dst (of_int v)"

definition appendTaggedUvarint :: "bytes \<Rightarrow> byte \<Rightarrow> u64 \<Rightarrow> bytes" where
  "appendTaggedUvarint dst tag v = appendUvarint (dst @ [tag]) v"

definition appendTaggedVarint :: "bytes \<Rightarrow> byte \<Rightarrow> int \<Rightarrow> bytes" where
  "appendTaggedVarint dst tag v = appendVarint (dst @ [tag]) v"

definition appendTaggedFixed64 :: "bytes \<Rightarrow> byte \<Rightarrow> u64 \<Rightarrow> bytes" where
  "appendTaggedFixed64 dst tag v = (dst @ [tag]) @ le64 v"

definition appendTaggedFixed32 :: "bytes \<Rightarrow> byte \<Rightarrow> u32 \<Rightarrow> bytes" where
  "appendTaggedFixed32 dst tag v = (dst @ [tag]) @ le32 v"

definition appendTaggedBytes :: "bytes \<Rightarrow> byte \<Rightarrow> bytes \<Rightarrow> bytes" where
  "appendTaggedBytes dst tag b = appendUvarint (dst @ [tag]) (of_nat (length b)) @ b"

definition appendTaggedString :: "bytes \<Rightarrow> byte \<Rightarrow> bytes \<Rightarrow> bytes" where
  "appendTaggedString dst tag s = appendUvarint (dst @ [tag]) (of_nat (length s)) @ s"

section \<open>Scanning\<close>

datatype proto_error = ErrTruncatedResponse

datatype wire_val = WVarint u64 | WFixed64 bytes | WLen bytes | WFixed32 bytes

text \<open>
  One iteration: the field number, the value and the remaining bytes, or \<open>None\<close> where
  the source returns \<^verbatim>\<open>errTruncatedResponse\<close> (a bad tag or varint, a length past the end,
  an unknown wire type, or fewer bytes than the fixed width).
\<close>

definition wire_step :: "bytes \<Rightarrow> (nat \<times> wire_val \<times> bytes) option" where
  "wire_step b0 =
     (let (tag, n) = Uvarint b0 in
      if n \<le> 0 then None
      else
        let b = drop (nat n) b0; num = unat (drop_bit 3 tag); wt = unat (tag AND 7) in
        if wt = 0 then
          (let (v, vn) = Uvarint b in
           if vn \<le> 0 then None else Some (num, WVarint v, drop (nat vn) b))
        else if wt = 1 then
          (if length b < 8 then None else Some (num, WFixed64 (take 8 b), drop 8 b))
        else if wt = 2 then
          (let (l, ln) = Uvarint b in
           if ln \<le> 0 \<or> length b - nat ln < unat l then None
           else Some (num, WLen (take (unat l) (drop (nat ln) b)), drop (nat ln + unat l) b))
        else if wt = 5 then
          (if length b < 4 then None else Some (num, WFixed32 (take 4 b), drop 4 b))
        else None)"

lemma wire_step_shorter: "wire_step b = Some (num, v, rest) \<Longrightarrow> length rest < length b"
proof -
  assume a: "wire_step b = Some (num, v, rest)"
  obtain tag n where u: "Uvarint b = (tag, n)" by (cases "Uvarint b")
  with a have n: "0 < n" by (auto simp: wire_step_def split: if_splits)
  then have "n \<le> int (length b)" using u by (rule Uvarint_count [rotated])
  with n have "length (drop (nat n) b) < length b" by auto
  moreover have "length rest \<le> length (drop (nat n) b)"
    using a u n by (auto simp: wire_step_def Let_def split: if_splits prod.splits)
  ultimately show ?thesis by simp
qed

function findField_loop :: "bytes \<Rightarrow> nat \<Rightarrow> bytes option \<Rightarrow> (proto_error, bytes option) result" where
  "findField_loop b field payload =
     (if b = [] then Inr payload
      else case wire_step b of
        None \<Rightarrow> Inl ErrTruncatedResponse
      | Some (num, v, rest) \<Rightarrow>
          findField_loop rest field
            (case v of WLen p \<Rightarrow> if num = field then Some p else payload | _ \<Rightarrow> payload))"
  by pat_completeness auto
termination
  by (relation "measure (\<lambda>(b, field, payload). length b)") (auto dest: wire_step_shorter)

declare findField_loop.simps [simp del]

definition findField :: "bytes \<Rightarrow> nat \<Rightarrow> (proto_error, bytes option) result" where
  "findField b field = findField_loop b field None"

function findVarint_loop :: "bytes \<Rightarrow> nat \<Rightarrow> u64 \<Rightarrow> (proto_error, u64) result" where
  "findVarint_loop b field out =
     (if b = [] then Inr out
      else case wire_step b of
        None \<Rightarrow> Inl ErrTruncatedResponse
      | Some (num, v, rest) \<Rightarrow>
          findVarint_loop rest field
            (case v of WVarint x \<Rightarrow> if num = field then x else out | _ \<Rightarrow> out))"
  by pat_completeness auto
termination
  by (relation "measure (\<lambda>(b, field, payload). length b)") (auto dest: wire_step_shorter)

declare findVarint_loop.simps [simp del]

definition findVarint :: "bytes \<Rightarrow> nat \<Rightarrow> (proto_error, u64) result" where
  "findVarint b field = findVarint_loop b field 0"

text \<open>
  The callback of \<^verbatim>\<open>forEachLenField\<close> updates captured variables, here the state \<open>s\<close>;
  it answers whether to go on.
\<close>

function forEachLenField ::
  "bytes \<Rightarrow> nat \<Rightarrow> (bytes \<Rightarrow> 's \<Rightarrow> bool \<times> 's) \<Rightarrow> 's \<Rightarrow> proto_error option \<times> 's" where
  "forEachLenField b field fn s =
     (if b = [] then (None, s)
      else case wire_step b of
        None \<Rightarrow> (Some ErrTruncatedResponse, s)
      | Some (num, v, rest) \<Rightarrow>
          (case v of
             WLen p \<Rightarrow>
               (if num = field then
                  (case fn p s of (go, s') \<Rightarrow>
                     if go then forEachLenField rest field fn s' else (None, s'))
                else forEachLenField rest field fn s)
           | _ \<Rightarrow> forEachLenField rest field fn s))"
  by pat_completeness auto
termination
  by (relation "measure (\<lambda>(b, field, fn, s). length b)") (auto dest: wire_step_shorter)

declare forEachLenField.simps [simp del]

text \<open>The rejected count is read back as a signed integer, as \<^verbatim>\<open>int64(rejRaw)\<close> does.\<close>

definition decodePartialSuccess :: "bytes \<Rightarrow> (proto_error, int \<times> bytes) result" where
  "decodePartialSuccess body =
     (case findField body 1 of
        Inl e \<Rightarrow> Inl e
      | Inr None \<Rightarrow> Inr (0, [])
      | Inr (Some ps) \<Rightarrow>
          (case findVarint ps 1 of
             Inl e \<Rightarrow> Inl e
           | Inr rejRaw \<Rightarrow>
               (case findField ps 2 of
                  Inl e \<Rightarrow> Inl e
                | Inr msgRaw \<Rightarrow>
                    Inr (sint rejRaw, (case msgRaw of None \<Rightarrow> [] | Some m \<Rightarrow> m)))))"

section \<open>Varints\<close>

lemma appendUvarint_prefix: "appendUvarint (d1 @ d2) v = d1 @ appendUvarint d2 v"
proof (induction d2 v rule: appendUvarint.induct)
  case (1 d2 v)
  then show ?case
    by (simp add: appendUvarint.simps [of "d1 @ d2" v] appendUvarint.simps [of d2 v])
qed

lemma appendUvarint_append: "NO_MATCH [] dst \<Longrightarrow> appendUvarint dst v = dst @ appendUvarint [] v"
  using appendUvarint_prefix [of dst "[]" v] by simp

lemma appendUvarint_small: "v < 0x80 \<Longrightarrow> appendUvarint [] v = [ucast v]"
  by (subst appendUvarint.simps) (simp add: not_le [symmetric])

lemma appendUvarint_big:
  "v \<ge> 0x80 \<Longrightarrow> appendUvarint [] v = (ucast v OR 0x80) # appendUvarint [] (drop_bit 7 v)"
  by (subst appendUvarint.simps) (simp add: appendUvarint_append)

lemma unat_or_1_div: "unat (v OR (1 :: u64)) div 128 = unat v div 128"
proof -
  have "drop_bit 7 (v OR 1) = drop_bit 7 v"
    by (rule bit_word_eqI) (auto simp: bit_simps)
  then show ?thesis using unat_drop_bit_div [of 7 "v OR 1"] unat_drop_bit_div [of 7 v] by simp
qed

lemma unat_or_1_pos: "0 < unat (v OR (1 :: u64))"
proof -
  have "bit (v OR 1) 0" by (simp add: bit_or_iff)
  then have "v OR 1 \<noteq> 0" by auto
  then show ?thesis using unat_gt_0 by blast
qed

lemma bit_len_or_1: "0 < unat v \<Longrightarrow> bit_len (unat (v OR (1 :: u64))) = bit_len (unat v)"
proof -
  assume v: "0 < unat v"
  have d: "drop_bit 1 (v OR 1) = drop_bit 1 v"
    by (rule bit_word_eqI) (auto simp: bit_simps)
  have "unat (v OR 1) div 2 = unat v div 2"
    using unat_drop_bit_div [of 1 "v OR 1"] unat_drop_bit_div [of 1 v] unfolding d by simp
  then show ?thesis using v by (simp add: bit_len_pos unat_or_1_pos)
qed

lemma uvarintLen_small: "v < 0x80 \<Longrightarrow> uvarintLen v = 1"
proof -
  assume "v < 0x80"
  then have "unat v div 128 = 0" by (simp add: word_less_nat_alt)
  then have "unat (v OR 1) < 2 ^ 7" using unat_or_1_div [of v] by (simp add: div_eq_0_iff)
  then have "bit_len (unat (v OR 1)) \<le> 7" by (rule bit_len_le)
  moreover have "0 < bit_len (unat (v OR 1))" by (simp add: bit_len_pos unat_or_1_pos)
  ultimately have "bit_len (unat (v OR 1)) \<in> {1..7}" by simp
  then show ?thesis by (auto simp: uvarintLen_def Len64_def)
qed

lemma uvarintLen_big: "v \<ge> 0x80 \<Longrightarrow> uvarintLen v = Suc (uvarintLen (drop_bit 7 v))"
proof -
  assume "v \<ge> 0x80"
  then have v: "2 ^ 7 \<le> unat v" by (simp add: word_le_nat_alt)
  have d: "unat (drop_bit 7 v) = unat v div 2 ^ 7" by (rule unat_drop_bit_div)
  have "0 < unat v div 2 ^ 7" using v by (simp add: div_greater_zero_iff)
  then have "bit_len (unat (drop_bit 7 v OR 1)) = bit_len (unat v div 2 ^ 7)"
    using bit_len_or_1 [of "drop_bit 7 v"] d by simp
  moreover have "bit_len (unat (v OR 1)) = 7 + bit_len (unat v div 2 ^ 7)"
    using bit_len_or_1 [of v] bit_len_shift [OF v] v by simp
  ultimately show ?thesis by (simp add: uvarintLen_def Len64_def)
qed

lemma length_appendUvarint: "length (appendUvarint dst v) = length dst + uvarintLen v"
proof (induction dst v rule: appendUvarint.induct)
  case (1 dst v)
  then show ?case
    by (cases "v \<ge> 0x80")
      (simp_all add: appendUvarint.simps [of dst v] uvarintLen_small uvarintLen_big)
qed

lemma bit_low_septet:
  "bit (ucast ((ucast v OR 0x80) AND 0x7f :: byte) :: u64) n \<longleftrightarrow> n < 7 \<and> bit (v :: u64) n"
proof -
  have c: "(0x7f :: byte) = mask 7" "(0x80 :: byte) = 2 ^ 7" by (simp_all add: mask_eq_exp_minus_1)
  show ?thesis unfolding c
    by (auto simp: bit_ucast_iff bit_and_iff bit_or_iff bit_mask_iff bit_exp_iff
        simp del: numeral_power_eq_of_nat_cancel_iff power_numeral power2_eq_square)
qed

lemma septet_join:
  "(x OR push_bit (7 * i) (ucast ((ucast v OR 0x80) AND 0x7f :: byte))) OR
     push_bit (7 * (i + 1)) (drop_bit 7 v) = x OR push_bit (7 * i) (v :: u64)"
proof (rule bit_word_eqI)
  fix n
  have "bit v (7 + (n - (7 + 7 * i))) = bit v (n - 7 * i)" if "7 * i \<le> n" "\<not> n - 7 * i < 7"
  proof -
    have "7 + (n - (7 + 7 * i)) = n - 7 * i" using that by simp
    then show ?thesis by simp
  qed
  then show "bit ((x OR push_bit (7 * i) (ucast ((ucast v OR 0x80) AND 0x7f :: byte))) OR
      push_bit (7 * (i + 1)) (drop_bit 7 v)) n = bit (x OR push_bit (7 * i) v) n"
    by (cases "n - 7 * i < 7")
      (auto simp: bit_or_iff bit_push_bit_iff bit_low_septet bit_drop_bit_eq)
qed

lemma uvarint_loop_append:
  assumes "unat v < 2 ^ (64 - 7 * i)" and "i \<le> 9"
  shows "uvarint_loop (appendUvarint [] v @ rest) i x =
    (x OR push_bit (7 * i) v, int (i + uvarintLen v))"
  using assms
proof (induction "unat v" arbitrary: v i x rule: less_induct)
  case less
  show ?case
  proof (cases "v < 0x80")
    case True
    then have v: "unat v < 128" by (simp add: word_less_nat_alt)
    then have b: "unat (ucast v :: byte) = unat v" by (simp add: unat_ucast_byte)
    then have "(ucast v :: byte) < 0x80" using v by (simp add: word_less_nat_alt)
    moreover have "\<not> (i = 9 \<and> (ucast v :: byte) > 1)"
      using less.prems b by (auto simp: word_less_nat_alt)
    moreover have "(ucast (ucast v :: byte) :: u64) = v"
      using b v by (simp add: word_unat_eq_iff unsigned_ucast_eq take_bit_eq_mod unat_mod)
    ultimately show ?thesis using less.prems True
      by (simp add: appendUvarint_small uvarintLen_small)
  next
    case False
    then have v: "v \<ge> 0x80" by simp
    then have n: "2 ^ 7 \<le> unat v" by (simp add: word_le_nat_alt)
    then have i: "i < 9"
      using less.prems power_increasing [of "64 - 7 * i" 7 "2::nat"] by (cases "i = 9") auto
    have d: "unat (drop_bit 7 v) = unat v div 2 ^ 7" by (rule unat_drop_bit_div)
    have e: "64 - 7 * i = 64 - 7 * (i + 1) + 7" using i by simp
    have "unat v < 2 ^ (64 - 7 * (i + 1)) * 2 ^ 7"
      using less.prems(1) unfolding e power_add .
    then have "unat (drop_bit 7 v) < 2 ^ (64 - 7 * (i + 1))"
      unfolding d by (rule less_mult_imp_div_less)
    moreover have "unat (drop_bit 7 v) < unat v" using n d by simp
    ultimately have IH: "uvarint_loop (appendUvarint [] (drop_bit 7 v) @ rest) (i + 1) y =
        (y OR push_bit (7 * (i + 1)) (drop_bit 7 v), int (i + 1 + uvarintLen (drop_bit 7 v)))" for y
      using i by (intro less.hyps) auto
    have "\<not> (ucast v OR 0x80 :: byte) < 0x80"
    proof -
      have "(0x80 :: byte) \<le> ucast v OR 0x80" by (rule le_word_or1)
      then show ?thesis by simp
    qed
    then show ?thesis using v i
      by (simp only: appendUvarint_big append_Cons uvarint_loop.simps IH septet_join)
        (simp add: uvarintLen_big)
  qed
qed

lemma Uvarint_appendUvarint [decode_simps]:
  "Uvarint (appendUvarint [] v @ rest) = (v, int (uvarintLen v))"
  using uvarint_loop_append [of v 0 rest 0] unsigned_less [of v] by (simp add: Uvarint_def)

lemma length_appendUvarint_Nil [simp]: "length (appendUvarint [] v) = uvarintLen v"
  by (simp add: length_appendUvarint)

lemma uvarintLen_bounds: "1 \<le> uvarintLen v \<and> uvarintLen v \<le> 10"
proof -
  have "unat (v OR 1) < 2 ^ 64" using unsigned_less [of "v OR 1"] by simp
  then have "bit_len (unat (v OR 1)) \<le> 64" by (rule bit_len_le)
  moreover have "0 < bit_len (unat (v OR 1))" by (simp add: bit_len_pos unat_or_1_pos)
  ultimately show ?thesis by (auto simp: uvarintLen_def Len64_def)
qed

lemma uvarintLen_pos [simp]: "0 < uvarintLen v"
  using uvarintLen_bounds [of v] by simp

lemma appendTagged_append:
  "appendTaggedUvarint dst t v = dst @ t # appendUvarint [] v"
  "appendTaggedVarint dst t k = dst @ t # appendUvarint [] (of_int k)"
  "appendTaggedFixed64 dst t v = dst @ t # le64 v"
  "appendTaggedFixed32 dst t w = dst @ t # le32 w"
  "appendTaggedBytes dst t p = dst @ t # appendUvarint [] (of_nat (length p)) @ p"
  "appendTaggedString dst t p = dst @ t # appendUvarint [] (of_nat (length p)) @ p"
  using appendUvarint_prefix [of "dst @ [t]" "[]"]
  by (simp_all add: appendTaggedUvarint_def appendTaggedVarint_def appendVarint_def
      appendTaggedFixed64_def appendTaggedFixed32_def appendTaggedBytes_def appendTaggedString_def)

lemmas appendTagged_simps [append_simps] = appendTagged_append

section \<open>Scanning what was appended\<close>

text \<open>
  An abstract message is a list of numbered fields. \<open>enc_field\<close> writes one with the
  append helpers under its single-byte tag, so the field number is below 16.
\<close>

datatype pfield =
    PVarint nat u64
  | PFixed64 nat u64
  | PLen nat bytes
  | PFixed32 nat u32

fun enc_field :: "pfield \<Rightarrow> bytes" where
  "enc_field (PVarint k v) = appendTaggedUvarint [] (of_nat (8 * k)) v"
| "enc_field (PFixed64 k v) = appendTaggedFixed64 [] (of_nat (8 * k + 1)) v"
| "enc_field (PLen k p) = appendTaggedBytes [] (of_nat (8 * k + 2)) p"
| "enc_field (PFixed32 k v) = appendTaggedFixed32 [] (of_nat (8 * k + 5)) v"

fun field_num :: "pfield \<Rightarrow> nat" where
  "field_num (PVarint k v) = k"
| "field_num (PFixed64 k v) = k"
| "field_num (PLen k p) = k"
| "field_num (PFixed32 k v) = k"

fun field_val :: "pfield \<Rightarrow> wire_val" where
  "field_val (PVarint k v) = WVarint v"
| "field_val (PFixed64 k v) = WFixed64 (le64 v)"
| "field_val (PLen k p) = WLen p"
| "field_val (PFixed32 k v) = WFixed32 (le32 v)"

fun field_ok :: "pfield \<Rightarrow> bool" where
  "field_ok (PLen k p) \<longleftrightarrow> k < 16 \<and> length p < 2 ^ 64"
| "field_ok f \<longleftrightarrow> field_num f < 16"

definition enc_msg :: "pfield list \<Rightarrow> bytes" where
  "enc_msg fs = concat (map enc_field fs)"

lemma Uvarint_tag: "unat t < 128 \<Longrightarrow> Uvarint (t # rest) = (ucast t, 1)"
  by (simp add: Uvarint_def word_less_nat_alt)

lemma tag_split:
  assumes "m < 128"
  shows "unat (drop_bit 3 (ucast (of_nat m :: byte) :: u64)) = m div 8"
    and "unat (ucast (of_nat m :: byte) AND 7 :: u64) = m mod 8"
proof -
  have u: "unat (ucast (of_nat m :: byte) :: u64) = m"
    using assms by (simp add: unsigned_ucast_eq unsigned_of_nat take_bit_nat_eq_self)
  show "unat (drop_bit 3 (ucast (of_nat m :: byte) :: u64)) = m div 8"
    unfolding unat_drop_bit_div u by simp
  have "ucast (of_nat m :: byte) AND 7 = (take_bit 3 (ucast (of_nat m :: byte)) :: u64)"
    by (simp add: take_bit_eq_mask mask_eq_exp_minus_1)
  then show "unat (ucast (of_nat m :: byte) AND 7 :: u64) = m mod 8"
    using u by (simp add: unsigned_take_bit_eq take_bit_eq_mod unat_mod)
qed

lemma wire_step_tagged:
  assumes m: "m < 128"
  shows "wire_step (of_nat m # b) =
     (if m mod 8 = 0 then
          (let (v, vn) = Uvarint b in
           if vn \<le> 0 then None else Some (m div 8, WVarint v, drop (nat vn) b))
        else if m mod 8 = 1 then
          (if length b < 8 then None else Some (m div 8, WFixed64 (take 8 b), drop 8 b))
        else if m mod 8 = 2 then
          (let (l, ln) = Uvarint b in
           if ln \<le> 0 \<or> length b - nat ln < unat l then None
           else Some (m div 8, WLen (take (unat l) (drop (nat ln) b)), drop (nat ln + unat l) b))
        else if m mod 8 = 5 then
          (if length b < 4 then None else Some (m div 8, WFixed32 (take 4 b), drop 4 b))
        else None)"
proof -
  have "unat (of_nat m :: byte) < 128" using m by (simp add: unat_of_nat_byte)
  from Uvarint_tag [OF this] show ?thesis
    by (simp add: wire_step_def tag_split [OF m] Let_def)
qed

lemma wire_step_enc:
  assumes "field_ok f"
  shows "wire_step (enc_field f @ rest) = Some (field_num f, field_val f, rest)"
proof (cases f)
  case (PVarint k v)
  with assms show ?thesis
    by (simp add: append_simps wire_step_tagged decode_simps del: of_nat_mult of_nat_add)
next
  case (PFixed64 k v)
  moreover have "(8 * k + 1) mod 8 = 1" "(8 * k + 1) div 8 = k" by presburger+
  ultimately show ?thesis using assms
    by (simp add: append_simps wire_step_tagged del: of_nat_mult of_nat_add of_nat_Suc)
next
  case (PLen k p)
  moreover have "(8 * k + 2) mod 8 = 2" "(8 * k + 2) div 8 = k" by presburger+
  ultimately show ?thesis using assms
    by (simp add: append_simps wire_step_tagged decode_simps unat_of_nat_u64
        del: of_nat_mult of_nat_add of_nat_Suc add_2_eq_Suc')
next
  case (PFixed32 k v)
  moreover have "(8 * k + 5) mod 8 = 5" "(8 * k + 5) div 8 = k" by presburger+
  ultimately show ?thesis using assms
    by (simp add: append_simps wire_step_tagged del: of_nat_mult of_nat_add of_nat_Suc)
qed

lemma enc_field_nonempty [simp]: "enc_field f \<noteq> []"
  by (cases f) (simp_all add: append_simps)

lemma enc_msg_Nil [simp]: "enc_msg [] = []"
  and enc_msg_Cons [simp]: "enc_msg (f # fs) = enc_field f @ enc_msg fs"
  by (simp_all add: enc_msg_def)

text \<open>The specification of the scanners: the last field with the number, of the right kind.\<close>

fun last_len :: "nat \<Rightarrow> bytes option \<Rightarrow> pfield list \<Rightarrow> bytes option" where
  "last_len k acc [] = acc"
| "last_len k acc (PLen j p # fs) = last_len k (if j = k then Some p else acc) fs"
| "last_len k acc (f # fs) = last_len k acc fs"

fun last_varint :: "nat \<Rightarrow> u64 \<Rightarrow> pfield list \<Rightarrow> u64" where
  "last_varint k acc [] = acc"
| "last_varint k acc (PVarint j v # fs) = last_varint k (if j = k then v else acc) fs"
| "last_varint k acc (f # fs) = last_varint k acc fs"

lemma findField_loop_enc:
  "\<forall>f\<in>set fs. field_ok f \<Longrightarrow> findField_loop (enc_msg fs) k acc = Inr (last_len k acc fs)"
proof (induction fs arbitrary: acc)
  case Nil
  then show ?case by (simp add: findField_loop.simps)
next
  case (Cons f fs)
  then show ?case
    by (cases f) (simp_all add: findField_loop.simps [of "enc_field _ @ _"] wire_step_enc
        del: enc_field.simps)
qed

lemma findVarint_loop_enc:
  "\<forall>f\<in>set fs. field_ok f \<Longrightarrow> findVarint_loop (enc_msg fs) k acc = Inr (last_varint k acc fs)"
proof (induction fs arbitrary: acc)
  case Nil
  then show ?case by (simp add: findVarint_loop.simps)
next
  case (Cons f fs)
  then show ?case
    by (cases f) (simp_all add: findVarint_loop.simps [of "enc_field _ @ _"] wire_step_enc
        del: enc_field.simps)
qed

lemma findField_enc_msg [decode_simps]:
  "\<forall>f\<in>set fs. field_ok f \<Longrightarrow> findField (enc_msg fs) k = Inr (last_len k None fs)"
  by (simp add: findField_def findField_loop_enc)

lemma findVarint_enc_msg [decode_simps]:
  "\<forall>f\<in>set fs. field_ok f \<Longrightarrow> findVarint (enc_msg fs) k = Inr (last_varint k 0 fs)"
  by (simp add: findVarint_def findVarint_loop_enc)

section \<open>Properties\<close>

text \<open>a varint written by \<open>appendUvarint\<close> is read back by \<^verbatim>\<open>binary.Uvarint\<close>, value
  and byte count, whatever follows it; and \<open>uvarintLen\<close> is the number of bytes written,
  between one and ten.\<close>

theorem uvarint_roundtrip:
  "Uvarint (appendUvarint [] v @ rest) = (v, int (uvarintLen v)) \<and>
   appendUvarint dst v = dst @ appendUvarint [] v \<and>
   length (appendUvarint dst v) = length dst + uvarintLen v \<and>
   1 \<le> uvarintLen v \<and> uvarintLen v \<le> 10"
  using Uvarint_appendUvarint [of v rest] appendUvarint_prefix [of dst "[]" v]
    length_appendUvarint [of dst v] uvarintLen_bounds [of v] by simp

text \<open>Scanning an encoded message finds the last occurrence of a field of the asked kind:
  for len-delimited fields its payload or nothing, for varints its value or zero. No
  well-formed message is reported as truncated.\<close>

theorem scanners_last_wins:
  assumes "\<forall>f\<in>set fs. field_ok f"
  shows "findField (enc_msg fs) k = Inr (last_len k None fs) \<and>
         findVarint (enc_msg fs) k = Inr (last_varint k 0 fs)"
  using findField_enc_msg [OF assms] findVarint_enc_msg [OF assms] by simp

theorem scanners_last_wins_witness:
  "findField (enc_msg [PLen 2 [1], PVarint 1 300, PLen 2 [5, 6], PFixed32 4 9]) 2 = Inr (Some [5, 6]) \<and>
   findVarint (enc_msg [PLen 2 [1], PVarint 1 300, PLen 2 [5, 6], PFixed32 4 9]) 1 = Inr 300"
proof -
  have h: "\<forall>f\<in>set [PLen 2 [1], PVarint 1 300, PLen 2 [5, 6], PFixed32 4 9]. field_ok f" by simp
  show ?thesis
    using scanners_last_wins [OF h, of 2] scanners_last_wins [OF h, of 1] by simp
qed

lemma sint_of_int64: "- (2 ^ 63) \<le> r \<Longrightarrow> r < 2 ^ 63 \<Longrightarrow> sint (of_int r :: u64) = r"
  by (simp add: signed_of_int signed_take_bit_int_eq_self)

lemma last_len_append: "last_len k acc (fs @ gs) = last_len k (last_len k acc fs) gs"
  by (induction k acc fs rule: last_len.induct) simp_all

lemma last_varint_append: "last_varint k acc (fs @ gs) = last_varint k (last_varint k acc fs) gs"
  by (induction k acc fs rule: last_varint.induct) simp_all

lemma last_len_other: "\<forall>f\<in>set fs. field_num f \<noteq> k \<Longrightarrow> last_len k acc fs = acc"
  by (induction k acc fs rule: last_len.induct) simp_all

lemma last_varint_other: "\<forall>f\<in>set fs. field_num f \<noteq> k \<Longrightarrow> last_varint k acc fs = acc"
  by (induction k acc fs rule: last_varint.induct) simp_all

definition ps_fields :: "int \<Rightarrow> bytes \<Rightarrow> pfield list \<Rightarrow> pfield list" where
  "ps_fields r m unknown = PVarint 1 (of_int r) # PLen 2 m # unknown"

text \<open>The partial-success counts of an export response survive the round trip: for a
  response carrying a rejected count in the int64 range and a message, among unknown fields
  before and after, the decoder returns exactly that count and message.\<close>

theorem partial_success_roundtrip:
  assumes resp: "\<forall>f\<in>set (before @ after). field_ok f \<and> field_num f \<noteq> 1"
    and inner: "\<forall>f\<in>set unknown. field_ok f \<and> field_num f \<noteq> 1 \<and> field_num f \<noteq> 2"
    and len: "length (enc_msg (ps_fields r m unknown)) < 2 ^ 64"
    and range: "- (2 ^ 63) \<le> r" "r < 2 ^ 63"
  shows "decodePartialSuccess (enc_msg (before @ PLen 1 (enc_msg (ps_fields r m unknown)) # after)) =
    Inr (r, m)"
proof -
  let ?ps = "ps_fields r m unknown"
  have "length m < 2 ^ 64" using len by (simp add: ps_fields_def append_simps)
  then have ok: "\<forall>f\<in>set ?ps. field_ok f" using inner by (simp add: ps_fields_def)
  have okr: "\<forall>f\<in>set (before @ PLen 1 (enc_msg ?ps) # after). field_ok f"
    using resp len by auto
  have "findField (enc_msg (before @ PLen 1 (enc_msg ?ps) # after)) 1 = Inr (Some (enc_msg ?ps))"
    using resp by (subst findField_enc_msg [OF okr]) (simp add: last_len_append last_len_other)
  moreover have "findVarint (enc_msg ?ps) 1 = Inr (of_int r)"
    using inner by (subst findVarint_enc_msg [OF ok]) (simp add: ps_fields_def last_varint_other)
  moreover have "findField (enc_msg ?ps) 2 = Inr (Some m)"
    using inner by (subst findField_enc_msg [OF ok]) (simp add: ps_fields_def last_len_other)
  ultimately show ?thesis
    using range by (simp add: decodePartialSuccess_def sint_of_int64)
qed

theorem partial_success_roundtrip_witness:
  "decodePartialSuccess (enc_msg ([PVarint 7 1] @ PLen 1 (enc_msg (ps_fields (- 3) [33] [])) # [])) =
    Inr (- 3, [33])"
proof -
  have "length (enc_msg (ps_fields (- 3) [33] [])) = 14" by code_simp
  then have "length (enc_msg (ps_fields (- 3) [33] [])) < 2 ^ 64" by simp
  then show ?thesis by (intro partial_success_roundtrip) simp_all
qed

end
