(* ===== verification/Otlp_Envelope.thy ===== *)
theory Otlp_Envelope
  imports Otlp_Proto
begin

text \<open>
  \<^verbatim>\<open>otlp/envelope.go\<close>: wrapping a batch of LogRecord payloads into one
  ExportLogsServiceRequest. The size computed without assembling (\<open>sizeFor\<close>) is exactly
  the length of what \<open>assemble\<close> writes, and a proto3 scanner recovers the resource, the
  scope and the records, in order, from the assembled request.
\<close>

record envelope =
  resourceBlob :: bytes
  scopeBlob :: bytes

definition recordCost :: "nat \<Rightarrow> nat" where
  "recordCost recLen = 1 + uvarintLen (of_nat recLen) + recLen"

definition scopePartLen :: "envelope \<Rightarrow> nat" where
  "scopePartLen e =
     (if length (scopeBlob e) = 0 then 0
      else 1 + uvarintLen (of_nat (length (scopeBlob e))) + length (scopeBlob e))"

definition sizeFor :: "envelope \<Rightarrow> nat \<Rightarrow> nat" where
  "sizeFor e taggedRecords =
     (let scopeLogs = scopePartLen e + taggedRecords;
          resourceLogs = 1 + uvarintLen (of_nat (length (resourceBlob e))) + length (resourceBlob e) +
            1 + uvarintLen (of_nat scopeLogs) + scopeLogs
      in 1 + uvarintLen (of_nat resourceLogs) + resourceLogs)"

definition assemble :: "envelope \<Rightarrow> bytes \<Rightarrow> bytes list \<Rightarrow> bytes" where
  "assemble e dst0 records =
     (let tagged = foldl (\<lambda>t r. t + recordCost (length r)) 0 records;
          scopeLogsLen = scopePartLen e + tagged;
          resourceLogsLen = 1 + uvarintLen (of_nat (length (resourceBlob e))) +
            length (resourceBlob e) + 1 + uvarintLen (of_nat scopeLogsLen) + scopeLogsLen;
          dst1 = appendUvarint (dst0 @ [0x0a]) (of_nat resourceLogsLen);
          dst2 = appendTaggedBytes dst1 0x0a (resourceBlob e);
          dst3 = appendUvarint (dst2 @ [0x12]) (of_nat scopeLogsLen);
          dst4 = (if length (scopeBlob e) \<noteq> 0 then appendTaggedBytes dst3 0x0a (scopeBlob e)
                  else dst3)
      in foldl (\<lambda>d r. appendTaggedBytes d 0x12 r) dst4 records)"

text \<open>The tagged cost of a batch, the sum the writer keeps incrementally.\<close>

definition batchCost :: "bytes list \<Rightarrow> nat" where
  "batchCost rs = (\<Sum>r\<leftarrow>rs. recordCost (length r))"

section \<open>Exact sizes\<close>

lemma foldl_cost: "foldl (\<lambda>t r. t + recordCost (length r)) n rs = n + batchCost rs"
  by (induction rs arbitrary: n) (simp_all add: batchCost_def)

lemma batchCost_simps [simp]:
  "batchCost [] = 0" "batchCost (rs @ [r]) = batchCost rs + recordCost (length r)"
  "batchCost (r # rs) = recordCost (length r) + batchCost rs"
  by (simp_all add: batchCost_def)

lemma length_appendTaggedBytes:
  "length (appendTaggedBytes dst t p) = length dst + recordCost (length p)"
  by (simp add: append_simps recordCost_def)

lemma foldl_taggedBytes:
  "foldl (\<lambda>d r. appendTaggedBytes d t r) dst rs = dst @ concat (map (appendTaggedBytes [] t) rs)"
  by (induction rs arbitrary: dst) (simp_all add: append_simps)

lemma length_concat_tagged: "length (concat (map (appendTaggedBytes [] t) rs)) = batchCost rs"
  by (induction rs) (simp_all add: length_appendTaggedBytes)

lemma scopePartLen_eq:
  "scopePartLen e = (if scopeBlob e = [] then 0 else recordCost (length (scopeBlob e)))"
  by (simp add: scopePartLen_def recordCost_def)

lemma sizeFor_eq:
  "sizeFor e t = recordCost (recordCost (length (resourceBlob e)) + recordCost (scopePartLen e + t))"
  by (simp add: sizeFor_def recordCost_def Let_def)

section \<open>The assembled request as a proto3 message\<close>

definition scopeFields :: "envelope \<Rightarrow> bytes list \<Rightarrow> pfield list" where
  "scopeFields e rs = (if scopeBlob e = [] then [] else [PLen 1 (scopeBlob e)]) @ map (PLen 2) rs"

definition requestFields :: "envelope \<Rightarrow> bytes list \<Rightarrow> pfield list" where
  "requestFields e rs =
     [PLen 1 (enc_msg [PLen 1 (resourceBlob e), PLen 2 (enc_msg (scopeFields e rs))])]"

lemma enc_msg_append: "enc_msg (fs @ gs) = enc_msg fs @ enc_msg gs"
  by (simp add: enc_msg_def)

lemma enc_msg_map_PLen: "enc_msg (map (PLen 2) rs) = concat (map (appendTaggedBytes [] 0x12) rs)"
  by (induction rs) simp_all

lemma length_enc_scope: "length (enc_msg (scopeFields e rs)) = scopePartLen e + batchCost rs"
  by (simp add: scopeFields_def enc_msg_append enc_msg_map_PLen length_concat_tagged
      scopePartLen_eq length_appendTaggedBytes)

lemma assemble_enc: "assemble e dst rs = dst @ enc_msg (requestFields e rs)"
proof -
  let ?S = "scopePartLen e + batchCost rs" and ?R = "resourceBlob e"
  have cost: "1 + uvarintLen (of_nat (length ?R)) + length ?R + 1 + uvarintLen (of_nat ?S) + ?S =
      recordCost (length ?R) + recordCost ?S"
    by (simp add: recordCost_def)
  have scope: "(if length (scopeBlob e) \<noteq> 0 then appendTaggedBytes d 0x0a (scopeBlob e) else d) @
      concat (map (appendTaggedBytes [] 0x12) rs) = d @ enc_msg (scopeFields e rs)" for d
    by (simp add: scopeFields_def enc_msg_append enc_msg_map_PLen append_simps)
  have "assemble e dst rs =
      appendUvarint (appendTaggedBytes (appendUvarint (dst @ [0x0a])
        (of_nat (recordCost (length ?R) + recordCost ?S))) 0x0a ?R @ [0x12]) (of_nat ?S) @
      enc_msg (scopeFields e rs)"
    unfolding assemble_def Let_def foldl_cost foldl_taggedBytes add_0 cost scope ..
  also have "\<dots> = dst @ enc_msg (requestFields e rs)"
    by (simp add: requestFields_def append_simps length_enc_scope recordCost_def
        appendUvarint_append [of "_ @ _"] add.assoc)
  finally show ?thesis .
qed

lemma length_assemble: "length (assemble e dst rs) = length dst + sizeFor e (batchCost rs)"
  by (simp add: assemble_enc requestFields_def length_appendTaggedBytes length_enc_scope sizeFor_eq)

section \<open>Scanning the request back\<close>

definition collect_records :: "bytes \<Rightarrow> bytes list" where
  "collect_records scopeLogs = snd (forEachLenField scopeLogs 2 (\<lambda>p acc. (True, acc @ [p])) [])"

text \<open>A receiver's reading of a request: the resource, the optional scope, the records.\<close>

definition parse_request :: "bytes \<Rightarrow> (bytes option \<times> bytes option \<times> bytes list) option" where
  "parse_request req =
     (case findField req 1 of
        Inr (Some rl) \<Rightarrow>
          (case (findField rl 1, findField rl 2) of
             (Inr res, Inr (Some sl)) \<Rightarrow>
               (case findField sl 1 of
                  Inr sc \<Rightarrow> Some (res, sc, collect_records sl)
                | Inl _ \<Rightarrow> None)
           | _ \<Rightarrow> None)
      | _ \<Rightarrow> None)"

lemma forEachLenField_collect:
  assumes "\<forall>f\<in>set fs. field_ok f"
  shows "forEachLenField (enc_msg fs) k (\<lambda>p acc. (True, acc @ [p])) acc =
    (None, acc @ concat (map (\<lambda>f. case f of PLen j p \<Rightarrow> if j = k then [p] else [] | _ \<Rightarrow> []) fs))"
  using assms
proof (induction fs arbitrary: acc)
  case Nil
  then show ?case by (simp add: forEachLenField.simps)
next
  case (Cons f fs)
  then show ?case
    by (cases f) (simp_all add: forEachLenField.simps [of "enc_field _ @ _"] wire_step_enc
        del: enc_field.simps)
qed

lemma last_len_records: "last_len 1 acc (map (PLen 2) rs) = acc"
  by (induction rs) simp_all

lemma concat_map_sing: "concat (map (\<lambda>r. [r]) rs) = rs"
  by (induction rs) simp_all

lemma length_le_recordCost: "n < recordCost n"
  by (simp add: recordCost_def)

lemma length_le_batchCost: "r \<in> set rs \<Longrightarrow> length r < batchCost rs"
  using length_le_recordCost by (induction rs) (auto simp: recordCost_def)

lemma request_fields_ok:
  assumes "sizeFor e (batchCost rs) < 2 ^ 64"
  shows "\<forall>f\<in>set (requestFields e rs). field_ok f"
    and "\<forall>f\<in>set [PLen 1 (resourceBlob e), PLen 2 (enc_msg (scopeFields e rs))]. field_ok f"
    and "\<forall>f\<in>set (scopeFields e rs). field_ok f"
proof -
  let ?S = "scopePartLen e + batchCost rs"
  have a: "recordCost (length (resourceBlob e)) + recordCost ?S < 2 ^ 64"
    using assms length_le_recordCost unfolding sizeFor_eq by (rule less_trans [rotated])
  then show "\<forall>f\<in>set (requestFields e rs). field_ok f"
    by (simp add: requestFields_def length_appendTaggedBytes length_enc_scope)
  have b: "length (resourceBlob e) < 2 ^ 64" "?S < 2 ^ 64"
    using a length_le_recordCost [of "length (resourceBlob e)"] length_le_recordCost [of ?S]
    by linarith+
  then show "\<forall>f\<in>set [PLen 1 (resourceBlob e), PLen 2 (enc_msg (scopeFields e rs))]. field_ok f"
    by (simp add: length_enc_scope)
  have "length (scopeBlob e) < 2 ^ 64"
    using b(2) length_le_recordCost [of "length (scopeBlob e)"]
    by (cases "scopeBlob e = []") (auto simp: scopePartLen_eq)
  moreover have "length r < 2 ^ 64" if "r \<in> set rs" for r
    using length_le_batchCost [OF that] b(2) by linarith
  ultimately show "\<forall>f\<in>set (scopeFields e rs). field_ok f"
    by (auto simp: scopeFields_def)
qed

lemma collect_records_scope:
  assumes "\<forall>f\<in>set (scopeFields e rs). field_ok f"
  shows "collect_records (enc_msg (scopeFields e rs)) = rs"
  unfolding collect_records_def forEachLenField_collect [OF assms]
  by (simp add: scopeFields_def comp_def concat_map_sing)

lemma parse_assembled:
  assumes "sizeFor e (batchCost rs) < 2 ^ 64"
  shows "parse_request (assemble e [] rs) =
    Some (Some (resourceBlob e), (if scopeBlob e = [] then None else Some (scopeBlob e)), rs)"
proof -
  note ok = request_fields_ok [OF assms]
  let ?sl = "enc_msg (scopeFields e rs)"
  let ?rl = "enc_msg [PLen 1 (resourceBlob e), PLen 2 ?sl]"
  have "findField (enc_msg (requestFields e rs)) 1 = Inr (Some ?rl)"
    by (subst findField_enc_msg [OF ok(1)]) (simp add: requestFields_def del: enc_msg_Cons)
  moreover have "findField ?rl 1 = Inr (Some (resourceBlob e))" "findField ?rl 2 = Inr (Some ?sl)"
    by (subst findField_enc_msg [OF ok(2)], simp)+
  moreover have "findField ?sl 1 = Inr (if scopeBlob e = [] then None else Some (scopeBlob e))"
    by (subst findField_enc_msg [OF ok(3)])
      (auto simp: scopeFields_def last_len_records simp flip: One_nat_def)
  ultimately show ?thesis
    by (simp add: parse_request_def assemble_enc collect_records_scope [OF ok(3)] del: enc_msg_Cons)
qed

section \<open>Properties\<close>

text \<open>C39: the request size computed without assembling is the exact length of the assembled
  request, for every envelope, destination buffer and batch, whatever the record lengths.\<close>

theorem assemble_exact_size:
  "length (assemble e dst rs) = length dst + sizeFor e (\<Sum>r\<leftarrow>rs. recordCost (length r))"
  using length_assemble by (simp only: batchCost_def)

text \<open>a receiver that scans the assembled request finds exactly the resource, the scope
  (absent when the scope is empty) and the batch's records in their order.\<close>

theorem assemble_roundtrip:
  assumes "sizeFor e (batchCost rs) < 2 ^ 64"
  shows "parse_request (assemble e [] rs) =
    Some (Some (resourceBlob e), (if scopeBlob e = [] then None else Some (scopeBlob e)), rs)"
  by (rule parse_assembled [OF assms])

definition demo_envelope :: envelope where
  "demo_envelope = \<lparr>resourceBlob = [1, 2], scopeBlob = [3]\<rparr>"

theorem assemble_roundtrip_witness:
  "sizeFor demo_envelope (batchCost [[7, 8], []]) < 2 ^ 64 \<and>
   parse_request (assemble demo_envelope [] [[7, 8], []]) = Some (Some [1, 2], Some [3], [[7, 8], []])"
proof -
  have "sizeFor demo_envelope (batchCost [[7, 8], []]) = 17" by code_simp
  then have h: "sizeFor demo_envelope (batchCost [[7, 8], []]) < 2 ^ 64" by simp
  show ?thesis using h assemble_roundtrip [OF h] by (simp add: demo_envelope_def)
qed

end
