(* ===== verification/Otlp_Attr.thy ===== *)
theory Otlp_Attr
  imports Zap_Marshal Otlp_Envelope
begin

text \<open>
  \<^verbatim>\<open>otlp/attr.go\<close> and \<^verbatim>\<open>otlp/tracectx.go\<close>: the proto-writing object encoder. Its state is
  the stack of open containers, the root first, each with the bytes already written for it, and
  the trace sink. The interpreter runs a marshaler's calls on that state. The specification reads
  the same calls as a tree of attribute values, and the refinement lemma says that the bytes of
  every frame are the proto3 encoding of that tree: containers are nested correctly whatever a
  marshaler does, and a failed marshaler leaves every container as it was (a trace context it passed by
  reflection stays in the sink). The pooled buffers and the scratch buffer
  hold no state between calls and are not modelled.
\<close>

section \<open>Trace contexts\<close>

definition zero_spanctx :: spanctx where
  "zero_spanctx = \<lparr>traceID = replicate 16 0, spanID = replicate 8 0, traceFlags = 0\<rparr>"

text \<open>\<^verbatim>\<open>SpanContext.IsValid\<close>: both identifiers have a non-zero byte.\<close>

definition sc_IsValid :: "spanctx \<Rightarrow> bool" where
  "sc_IsValid sc \<longleftrightarrow> list_ex (\<lambda>b. b \<noteq> 0) (traceID sc) \<and> list_ex (\<lambda>b. b \<noteq> 0) (spanID sc)"

fun isNilValue :: "go_context \<Rightarrow> bool" where
  "isNilValue TypedNilContext \<longleftrightarrow> True"
| "isNilValue c \<longleftrightarrow> False"

definition spanContextOrZero :: "go_context \<Rightarrow> spanctx" where
  "spanContextOrZero ctx =
     (if ctx = NilContext \<or> isNilValue ctx then zero_spanctx
      else case ctx of LiveContext sc \<Rightarrow> sc | _ \<Rightarrow> zero_spanctx)"

fun spanContextFromValue :: "goany \<Rightarrow> spanctx \<times> bool" where
  "spanContextFromValue AnyNil = (zero_spanctx, False)"
| "spanContextFromValue (AnySpanContext v) = (v, True)"
| "spanContextFromValue (AnyContext v) = (spanContextOrZero v, True)"
| "spanContextFromValue AnyOther = (zero_spanctx, False)"

definition spanContextFromField :: "zfield \<Rightarrow> spanctx \<times> bool" where
  "spanContextFromField f = spanContextFromValue (fd_interface f)"

section \<open>The encoder state\<close>

definition maxEncodeDepth :: nat where "maxEncodeDepth = 1000"

definition errMaxEncodeDepth :: go_error where
  "errMaxEncodeDepth = str ''otlp: max container nesting depth exceeded''"

datatype frameKind = frameRoot | frameKVList | frameArray

record frame =
  kind :: frameKind
  nsKey :: bytes
  fr_buf :: bytes

text \<open>
  The sink is the pair of variables \<^verbatim>\<open>scSink\<close> and \<^verbatim>\<open>scSinkSet\<close> point to, \<open>None\<close> where
  they are nil.
\<close>

record encState =
  stack :: "frame list"
  scSink :: "(spanctx \<times> bool) option"

definition newEncState :: encState where
  "newEncState = \<lparr>stack = [\<lparr>kind = frameRoot, nsKey = [], fr_buf = []\<rparr>], scSink = None\<rparr>"

definition clone :: "encState \<Rightarrow> encState" where
  "clone s = \<lparr>stack = map (\<lambda>f. \<lparr>kind = kind f, nsKey = nsKey f, fr_buf = [] @ fr_buf f\<rparr>) (stack s), scSink = None\<rparr>"

definition cur :: "encState \<Rightarrow> frame" where
  "cur s = last (stack s)"

definition set_cur :: "bytes \<Rightarrow> encState \<Rightarrow> encState" where
  "set_cur b s = s\<lparr>stack := butlast (stack s) @ [(cur s)\<lparr>fr_buf := b\<rparr>]\<rparr>"

record snapshot =
  depth :: nat
  bufLen :: nat

definition snap :: "encState \<Rightarrow> snapshot" where
  "snap s = \<lparr>depth = length (stack s), bufLen = length (fr_buf (cur s))\<rparr>"

definition rollback :: "snapshot \<Rightarrow> encState \<Rightarrow> encState" where
  "rollback sn s0 =
     (let s = s0\<lparr>stack := take (depth sn) (stack s0)\<rparr>
      in set_cur (take (bufLen sn) (fr_buf (cur s))) s)"

definition entryTag :: "frame \<Rightarrow> byte" where
  "entryTag f = (if kind f = frameRoot then 0x32 else 0x0a)"

definition kv_into :: "frame \<Rightarrow> bytes \<Rightarrow> bytes \<Rightarrow> bytes" where
  "kv_into f key av =
     (let kvLen = 1 + uvarintLen (of_nat (length key)) + length key +
            1 + uvarintLen (of_nat (length av)) + length av;
          b1 = appendUvarint (fr_buf f @ [entryTag f]) (of_nat kvLen);
          b2 = appendTaggedString b1 0x0a key
      in appendTaggedBytes b2 0x12 av)"

definition addKV :: "bytes \<Rightarrow> bytes \<Rightarrow> encState \<Rightarrow> encState" where
  "addKV key av s = set_cur (kv_into (cur s) key av) s"

definition addAV :: "bytes \<Rightarrow> encState \<Rightarrow> encState" where
  "addAV av s = set_cur (appendTaggedBytes (fr_buf (cur s)) (entryTag (cur s)) av) s"

definition addValue :: "bytes \<Rightarrow> bytes \<Rightarrow> encState \<Rightarrow> encState" where
  "addValue key av s = (if kind (cur s) = frameArray then addAV av s else addKV key av s)"

definition anyString :: "bytes \<Rightarrow> bytes" where "anyString v = appendTaggedString [] 0x0a v"
definition anyBool :: "bool \<Rightarrow> bytes" where "anyBool v = [0x10, if v then 1 else 0]"
definition anyInt :: "int \<Rightarrow> bytes" where "anyInt v = appendTaggedVarint [] 0x18 v"
definition anyDouble :: "gofloat \<Rightarrow> bytes" where "anyDouble v = appendTaggedFixed64 [] 0x21 (f_bits64 v)"
definition anyBytes :: "bytes \<Rightarrow> bytes" where "anyBytes v = appendTaggedBytes [] 0x3a v"

definition openFrame :: "frameKind \<Rightarrow> bytes \<Rightarrow> encState \<Rightarrow> encState" where
  "openFrame k key s = s\<lparr>stack := stack s @ [\<lparr>kind = k, nsKey = key, fr_buf = []\<rparr>]\<rparr>"

definition sealTop :: "encState \<Rightarrow> encState" where
  "sealTop s0 =
     (let top = last (stack s0);
          s = s0\<lparr>stack := butlast (stack s0)\<rparr>;
          avTag = (if kind top = frameArray then 0x2a else 0x32);
          avLen = 1 + uvarintLen (of_nat (length (fr_buf top))) + length (fr_buf top);
          parent = cur s;
          b = (if kind parent = frameArray then appendUvarint (fr_buf parent @ [entryTag parent]) (of_nat avLen)
               else
                 let kvLen = 1 + uvarintLen (of_nat (length (nsKey top))) + length (nsKey top) +
                       1 + uvarintLen (of_nat avLen) + avLen;
                     b1 = appendUvarint (fr_buf parent @ [entryTag parent]) (of_nat kvLen);
                     b2 = appendTaggedString b1 0x0a (nsKey top)
                 in appendUvarint (b2 @ [0x12]) (of_nat avLen))
      in set_cur (appendUvarint (b @ [avTag]) (of_nat (length (fr_buf top))) @ fr_buf top) s)"

text \<open>
  Sealing never takes the root: every caller's depth is at least one. (Sealing the root would index
  an empty stack and panic in Go; the guard keeps the loop total there.)
\<close>

function sealDownTo :: "nat \<Rightarrow> encState \<Rightarrow> encState" where
  "sealDownTo d s = (if length (stack s) > d \<and> 1 < length (stack s) then sealDownTo d (sealTop s) else s)"
  by pat_completeness auto
termination
  by (relation "measure (\<lambda>(d, s). length (stack s))") (auto simp: sealTop_def set_cur_def Let_def)

declare sealDownTo.simps [simp del]

definition sealAll :: "encState \<Rightarrow> encState" where
  "sealAll s = sealDownTo 1 s"

section \<open>The encoder interfaces\<close>

definition formatComplex :: "gofloat \<Rightarrow> gofloat \<Rightarrow> bytes" where
  "formatComplex re im =
     (let i = f_text64 im;
          sign = (if i \<noteq> [] \<and> (hd i = of_char CHR ''+'' \<or> hd i = of_char CHR ''-'') then [] else str ''+'');
          s = str ''('' @ f_text64 re @ sign @ i @ str ''i)''
      in take (length s - 2) (drop 1 s))"

definition maxInt64 :: u64 where "maxInt64 = 9223372036854775807"

definition anyUint :: "u64 \<Rightarrow> bytes" where
  "anyUint v = (if v > maxInt64 then anyString (decimal (unat v)) else anyInt (uint v))"

text \<open>
  The AnyValue bytes each of the \<^verbatim>\<open>AddX\<close> and \<^verbatim>\<open>AppendX\<close> methods builds; the integer
  methods all convert to 64 bits first.
\<close>

fun any_of :: "zval \<Rightarrow> bytes" where
  "any_of (ZString v) = anyString v"
| "any_of (ZByteString v) = anyString v"
| "any_of (ZBinary v) = anyBytes v"
| "any_of (ZBool v) = anyBool v"
| "any_of (ZInt v) = anyInt v"
| "any_of (ZInt64 v) = anyInt v"
| "any_of (ZInt32 v) = anyInt v"
| "any_of (ZInt16 v) = anyInt v"
| "any_of (ZInt8 v) = anyInt v"
| "any_of (ZUint v) = anyUint v"
| "any_of (ZUint64 v) = anyUint v"
| "any_of (ZUint32 v) = anyInt (uint v)"
| "any_of (ZUint16 v) = anyInt (uint v)"
| "any_of (ZUint8 v) = anyInt (uint v)"
| "any_of (ZUintptr v) = anyUint v"
| "any_of (ZFloat64 v) = anyDouble v"
| "any_of (ZFloat32 v) = anyDouble v"
| "any_of (ZComplex128 re im) = anyString (formatComplex re im)"
| "any_of (ZComplex64 re im) = anyString (formatComplex re im)"
| "any_of (ZDuration v) = anyInt v"
| "any_of (ZTime v) = anyInt (UnixNano v)"

definition AddString :: "bytes \<Rightarrow> bytes \<Rightarrow> encState \<Rightarrow> encState" where
  "AddString k v s = addValue k (anyString v) s"

definition OpenNamespace :: "bytes \<Rightarrow> encState \<Rightarrow> encState" where
  "OpenNamespace k s = openFrame frameKVList k s"

text \<open>
  \<^verbatim>\<open>AddObject\<close>, \<^verbatim>\<open>AddArray\<close> and their array counterparts share one body: the depth cap, a
  snapshot, a new frame, the marshaler, then rollback or seal. The marshaler is given by what it
  does to the state.
\<close>

definition in_frame :: "frameKind \<Rightarrow> bytes \<Rightarrow> (encState \<Rightarrow> go_error option \<times> encState) \<Rightarrow>
    encState \<Rightarrow> go_error option \<times> encState" where
  "in_frame k key m s =
     (if length (stack s) \<ge> maxEncodeDepth then (Some errMaxEncodeDepth, s)
      else
        let sn = snap s in
        case m (openFrame k key s) of
          (Some err, s1) \<Rightarrow> (Some err, rollback sn s1)
        | (None, s1) \<Rightarrow> (None, sealDownTo (depth sn) s1))"

definition AddReflected :: "bytes \<Rightarrow> reflected \<Rightarrow> encState \<Rightarrow> go_error option \<times> encState" where
  "AddReflected k v s =
     (case spanContextFromValue (rf_value v) of
        (sc, True) \<Rightarrow> (None, if scSink s \<noteq> None then s\<lparr>scSink := Some (sc, True)\<rparr> else s)
      | (_, False) \<Rightarrow>
          (let sn = snap s in
           case rf_json v of
             Inl err \<Rightarrow> (Some err, rollback sn s)
           | Inr js \<Rightarrow> (None, addValue k (anyString js) s)))"

definition AppendReflected :: "reflected \<Rightarrow> encState \<Rightarrow> go_error option \<times> encState" where
  "AppendReflected v s =
     (let sn = snap s in
      case rf_json v of
        Inl err \<Rightarrow> (Some err, rollback sn s)
      | Inr js \<Rightarrow> (None, addAV (anyString js) s))"

primrec MarshalLogObject :: "omarsh \<Rightarrow> encState \<Rightarrow> go_error option \<times> encState"
  and MarshalLogArray :: "amarsh \<Rightarrow> encState \<Rightarrow> go_error option \<times> encState" where
  "MarshalLogObject (OReturn err) s = (err, s)"
| "MarshalLogObject (OAdd k v m) s = MarshalLogObject m (addValue k (any_of v) s)"
| "MarshalLogObject (ONamespace k m) s = MarshalLogObject m (OpenNamespace k s)"
| "MarshalLogObject (OObject k m c) s =
     (case in_frame frameKVList k (MarshalLogObject m) s of (err, s1) \<Rightarrow> MarshalLogObject (c err) s1)"
| "MarshalLogObject (OArray k m c) s =
     (case in_frame frameArray k (MarshalLogArray m) s of (err, s1) \<Rightarrow> MarshalLogObject (c err) s1)"
| "MarshalLogObject (OReflect k r c) s =
     (case AddReflected k r s of (err, s1) \<Rightarrow> MarshalLogObject (c err) s1)"
| "MarshalLogArray (AReturn err) s = (err, s)"
| "MarshalLogArray (AAppend v m) s = MarshalLogArray m (addAV (any_of v) s)"
| "MarshalLogArray (AObject m c) s =
     (case in_frame frameKVList [] (MarshalLogObject m) s of (err, s1) \<Rightarrow> MarshalLogArray (c err) s1)"
| "MarshalLogArray (AArray m c) s =
     (case in_frame frameArray [] (MarshalLogArray m) s of (err, s1) \<Rightarrow> MarshalLogArray (c err) s1)"
| "MarshalLogArray (AReflect r c) s =
     (case AppendReflected r s of (err, s1) \<Rightarrow> MarshalLogArray (c err) s1)"

definition addKVRoot :: "bytes \<Rightarrow> bytes \<Rightarrow> encState \<Rightarrow> encState" where
  "addKVRoot key av s = s\<lparr>stack := (stack s)[0 := (stack s ! 0)\<lparr>fr_buf := kv_into (stack s ! 0) key av\<rparr>]\<rparr>"

text \<open>
  \<^verbatim>\<open>applyField\<close> of \<^verbatim>\<open>otlp/encoder.go\<close>: an inlined marshaler writes into the current frame
  and is rolled back here; every other field goes through its \<^verbatim>\<open>AddTo\<close>.
\<close>

definition applyField :: "encState \<Rightarrow> zfield \<Rightarrow> encState" where
  "applyField work f =
     (case fd_inline f of
        Some m \<Rightarrow>
          (let sn = snap work in
           case MarshalLogObject m work of
             (Some err, s1) \<Rightarrow> AddString (fd_key f @ str ''Error'') err (rollback sn s1)
           | (None, s1) \<Rightarrow> s1)
      | None \<Rightarrow> snd (MarshalLogObject (fd_addTo f) work))"

section \<open>Specification: attribute trees\<close>

text \<open>
  An attribute value of the OTLP data model, its encoding as a proto3 AnyValue, and a list of
  entries as the repeated KeyValue field number \<open>n\<close> of a message.
\<close>

datatype av =
    AStr bytes
  | ABool bool
  | AInt int
  | ADouble u64
  | ABytes bytes
  | AList "av list"
  | AKV "(bytes \<times> av) list"

fun enc_av :: "av \<Rightarrow> bytes" where
  "enc_av (AStr s) = enc_msg [PLen 1 s]"
| "enc_av (ABool b) = enc_msg [PVarint 2 (if b then 1 else 0)]"
| "enc_av (AInt i) = enc_msg [PVarint 3 (of_int i)]"
| "enc_av (ADouble d) = enc_msg [PFixed64 4 d]"
| "enc_av (ABytes b) = enc_msg [PLen 7 b]"
| "enc_av (AList vs) = enc_msg [PLen 5 (enc_msg (map (\<lambda>v. PLen 1 (enc_av v)) vs))]"
| "enc_av (AKV kvs) =
     enc_msg [PLen 6 (enc_msg (map (\<lambda>(k, v). PLen 1 (enc_msg [PLen 1 k, PLen 2 (enc_av v)])) kvs))]"

definition kv_field :: "nat \<Rightarrow> bytes \<times> av \<Rightarrow> pfield" where
  "kv_field n kv = PLen n (enc_msg [PLen 1 (fst kv), PLen 2 (enc_av (snd kv))])"

definition enc_kvs :: "nat \<Rightarrow> (bytes \<times> av) list \<Rightarrow> bytes" where
  "enc_kvs n kvs = enc_msg (map (kv_field n) kvs)"

definition enc_avs :: "av list \<Rightarrow> bytes" where
  "enc_avs vs = enc_msg (map (\<lambda>v. PLen 1 (enc_av v)) vs)"

definition of_uint :: "u64 \<Rightarrow> av" where
  "of_uint v = (if v > maxInt64 then AStr (decimal (unat v)) else AInt (uint v))"

fun value_of :: "zval \<Rightarrow> av" where
  "value_of (ZString v) = AStr v"
| "value_of (ZByteString v) = AStr v"
| "value_of (ZBinary v) = ABytes v"
| "value_of (ZBool v) = ABool v"
| "value_of (ZInt v) = AInt v"
| "value_of (ZInt64 v) = AInt v"
| "value_of (ZInt32 v) = AInt v"
| "value_of (ZInt16 v) = AInt v"
| "value_of (ZInt8 v) = AInt v"
| "value_of (ZUint v) = of_uint v"
| "value_of (ZUint64 v) = of_uint v"
| "value_of (ZUint32 v) = AInt (uint v)"
| "value_of (ZUint16 v) = AInt (uint v)"
| "value_of (ZUint8 v) = AInt (uint v)"
| "value_of (ZUintptr v) = of_uint v"
| "value_of (ZFloat64 v) = ADouble (f_bits64 v)"
| "value_of (ZFloat32 v) = ADouble (f_bits64 v)"
| "value_of (ZComplex128 re im) = AStr (formatComplex re im)"
| "value_of (ZComplex64 re im) = AStr (formatComplex re im)"
| "value_of (ZDuration v) = AInt v"
| "value_of (ZTime v) = AInt (UnixNano v)"

text \<open>
  What a marshaler adds: entries to the current container, then a chain of namespaces it left
  open, each with the entries that went into it. Closing the chain nests them.
\<close>

type_synonym entries = "(bytes \<times> av) list"
type_synonym namespaces = "(bytes \<times> entries) list"

fun closed_ns :: "namespaces \<Rightarrow> entries" where
  "closed_ns [] = []"
| "closed_ns ((k, es) # ns) = [(k, AKV (es @ closed_ns ns))]"

text \<open>
  The meaning of a marshaler run at nesting depth \<open>n\<close>: its error, what it adds, and the span
  contexts it passed by reflection. A container whose marshaler fails adds nothing; at the depth cap
  a container is an error.
\<close>

primrec den_o :: "omarsh \<Rightarrow> nat \<Rightarrow> go_error option \<times> entries \<times> namespaces \<times> spanctx list"
  and den_a :: "amarsh \<Rightarrow> nat \<Rightarrow> go_error option \<times> av list \<times> spanctx list" where
  "den_o (OReturn err) n = (err, [], [], [])"
| "den_o (OAdd k v m) n = (case den_o m n of (e, es, ns, sp) \<Rightarrow> (e, (k, value_of v) # es, ns, sp))"
| "den_o (ONamespace k m) n = (case den_o m (Suc n) of (e, es, ns, sp) \<Rightarrow> (e, [], (k, es) # ns, sp))"
| "den_o (OObject k m c) n =
     (if n \<ge> maxEncodeDepth then den_o (c (Some errMaxEncodeDepth)) n
      else case den_o m (Suc n) of
        (Some err, _, _, sp) \<Rightarrow> (case den_o (c (Some err)) n of (e, es', ns', sp') \<Rightarrow> (e, es', ns', sp @ sp'))
      | (None, es, ns, sp) \<Rightarrow>
          (case den_o (c None) n of (e, es', ns', sp') \<Rightarrow> (e, (k, AKV (es @ closed_ns ns)) # es', ns', sp @ sp')))"
| "den_o (OArray k m c) n =
     (if n \<ge> maxEncodeDepth then den_o (c (Some errMaxEncodeDepth)) n
      else case den_a m (Suc n) of
        (Some err, _, sp) \<Rightarrow> (case den_o (c (Some err)) n of (e, es', ns', sp') \<Rightarrow> (e, es', ns', sp @ sp'))
      | (None, vs, sp) \<Rightarrow>
          (case den_o (c None) n of (e, es', ns', sp') \<Rightarrow> (e, (k, AList vs) # es', ns', sp @ sp')))"
| "den_o (OReflect k r c) n =
     (case spanContextFromValue (rf_value r) of
        (sc, True) \<Rightarrow> (case den_o (c None) n of (e, es', ns', sp') \<Rightarrow> (e, es', ns', sc # sp'))
      | (_, False) \<Rightarrow>
          (case rf_json r of
             Inl err \<Rightarrow> den_o (c (Some err)) n
           | Inr js \<Rightarrow> (case den_o (c None) n of (e, es', ns', sp') \<Rightarrow> (e, (k, AStr js) # es', ns', sp'))))"
| "den_a (AReturn err) n = (err, [], [])"
| "den_a (AAppend v m) n = (case den_a m n of (e, vs, sp) \<Rightarrow> (e, value_of v # vs, sp))"
| "den_a (AObject m c) n =
     (if n \<ge> maxEncodeDepth then den_a (c (Some errMaxEncodeDepth)) n
      else case den_o m (Suc n) of
        (Some err, _, _, sp) \<Rightarrow> (case den_a (c (Some err)) n of (e, vs', sp') \<Rightarrow> (e, vs', sp @ sp'))
      | (None, es, ns, sp) \<Rightarrow>
          (case den_a (c None) n of (e, vs', sp') \<Rightarrow> (e, AKV (es @ closed_ns ns) # vs', sp @ sp')))"
| "den_a (AArray m c) n =
     (if n \<ge> maxEncodeDepth then den_a (c (Some errMaxEncodeDepth)) n
      else case den_a m (Suc n) of
        (Some err, _, sp) \<Rightarrow> (case den_a (c (Some err)) n of (e, vs', sp') \<Rightarrow> (e, vs', sp @ sp'))
      | (None, vs, sp) \<Rightarrow> (case den_a (c None) n of (e, vs', sp') \<Rightarrow> (e, AList vs # vs', sp @ sp')))"
| "den_a (AReflect r c) n =
     (case rf_json r of
        Inl err \<Rightarrow> den_a (c (Some err)) n
      | Inr js \<Rightarrow> (case den_a (c None) n of (e, vs', sp') \<Rightarrow> (e, AStr js # vs', sp')))"

section \<open>Refinement\<close>

text \<open>A frame extended by entries, by array elements, and the frame of an open namespace.\<close>

definition ext_kv :: "frame \<Rightarrow> entries \<Rightarrow> frame" where
  "ext_kv f es = f\<lparr>fr_buf := fr_buf f @ enc_kvs (if kind f = frameRoot then 6 else 1) es\<rparr>"

definition ext_av :: "frame \<Rightarrow> av list \<Rightarrow> frame" where
  "ext_av f vs = f\<lparr>fr_buf := fr_buf f @ enc_avs vs\<rparr>"

definition ext_value :: "frame \<Rightarrow> bytes \<Rightarrow> av \<Rightarrow> frame" where
  "ext_value f k v = (if kind f = frameArray then ext_av f [v] else ext_kv f [(k, v)])"

definition ns_frame :: "bytes \<times> entries \<Rightarrow> frame" where
  "ns_frame ke = \<lparr>kind = frameKVList, nsKey = fst ke, fr_buf = enc_kvs 1 (snd ke)\<rparr>"

definition stored :: "spanctx list \<Rightarrow> (spanctx \<times> bool) option \<Rightarrow> (spanctx \<times> bool) option" where
  "stored sp k = (if k = None \<or> sp = [] then k else Some (last sp, True))"

lemma stored_simps [simp]:
  "stored [] k = k" "stored sp None = None"
  "stored sp' (stored sp k) = stored (sp @ sp') k"
  "k \<noteq> None \<Longrightarrow> stored [sc] k = Some (sc, True)"
  by (auto simp: stored_def)

lemma enc_msg_app: "enc_msg (xs @ ys) = enc_msg xs @ enc_msg ys"
  by (rule enc_msg_append)

lemma enc_kvs_simps [simp]:
  "enc_kvs n [] = []" "enc_kvs n (es @ es') = enc_kvs n es @ enc_kvs n es'"
  "enc_avs [] = []" "enc_avs (vs @ vs') = enc_avs vs @ enc_avs vs'"
  by (simp_all add: enc_kvs_def enc_avs_def enc_msg_append)

lemma kind_ext [simp]: "kind (ext_kv f es) = kind f" "kind (ext_av f vs) = kind f" "kind (ns_frame ke) = frameKVList"
  "kind (ext_value f k v) = kind f"
  by (simp_all add: ext_kv_def ext_av_def ns_frame_def ext_value_def)

lemma ext_ext [simp]:
  "ext_kv f [] = f" "ext_av f [] = f"
  "ext_kv (ext_kv f es) es' = ext_kv f (es @ es')" "ext_av (ext_av f vs) vs' = ext_av f (vs @ vs')"
  by (simp_all add: ext_kv_def ext_av_def)

lemma ext_ns_frame [simp]: "ext_kv (ns_frame (k, es)) es' = ns_frame (k, es @ es')"
  by (simp add: ext_kv_def ns_frame_def)

lemma any_of_value: "any_of v = enc_av (value_of v)"
  by (cases v) (simp_all add: anyString_def anyBool_def anyInt_def anyDouble_def anyBytes_def anyUint_def
      of_uint_def append_simps appendUvarint_small)

lemma length_PLen: "length (enc_field (PLen k p)) = 1 + uvarintLen (of_nat (length p)) + length p"
  by (simp add: append_simps)

lemma kv_into_ext:
  assumes "kind f \<noteq> frameArray"
  shows "f\<lparr>fr_buf := kv_into f k (enc_av v)\<rparr> = ext_kv f [(k, v)]"
  by (simp add: kv_into_def ext_kv_def enc_kvs_def kv_field_def entryTag_def append_simps Let_def
      appendUvarint_append [of "_ @ _"] ac_simps)

lemma set_cur_snoc [simp]:
  "set_cur b \<lparr>stack = base @ [f], scSink = k\<rparr> = \<lparr>stack = base @ [f\<lparr>fr_buf := b\<rparr>], scSink = k\<rparr>"
  "cur \<lparr>stack = base @ [f], scSink = k\<rparr> = f"
  by (simp_all add: set_cur_def cur_def)

lemma addAV_ext:
  assumes "kind f = frameArray"
  shows "addAV (enc_av v) \<lparr>stack = base @ [f], scSink = k\<rparr> = \<lparr>stack = base @ [ext_av f [v]], scSink = k\<rparr>"
  using assms by (simp add: addAV_def entryTag_def ext_av_def enc_avs_def append_simps)

lemma addValue_ext:
  "addValue key (enc_av v) \<lparr>stack = base @ [f], scSink = k\<rparr> =
     \<lparr>stack = base @ [ext_value f key v], scSink = k\<rparr>"
  by (simp add: addValue_def addAV_ext addKV_def kv_into_ext ext_value_def)

lemma sealTop_ext:
  assumes "kind tp = frameArray \<Longrightarrow> enc_av v = enc_msg [PLen 5 (fr_buf tp)]"
    and "kind tp \<noteq> frameArray \<Longrightarrow> enc_av v = enc_msg [PLen 6 (fr_buf tp)]"
  shows "sealTop \<lparr>stack = base @ [f, tp], scSink = k\<rparr> =
     \<lparr>stack = base @ [ext_value f (nsKey tp) v], scSink = k\<rparr>"
proof -
  have e: "enc_av v = (if kind tp = frameArray then 0x2a else 0x32) # appendUvarint [] (of_nat (length (fr_buf tp))) @ fr_buf tp"
    using assms by (auto simp: append_simps)
  have bl: "butlast (base @ [f, tp]) = base @ [f]" by (simp add: butlast_append)
  show ?thesis
    by (simp add: sealTop_def Let_def bl ext_value_def ext_av_def ext_kv_def enc_avs_def enc_kvs_def kv_field_def e
        entryTag_def append_simps appendUvarint_append [of "_ @ _"] ac_simps)
qed

lemma kv_field_fun: "kv_field n = (\<lambda>(k, v). PLen n (enc_msg [PLen 1 k, PLen 2 (enc_av v)]))"
  by (simp add: kv_field_def fun_eq_iff)

lemma enc_av_containers:
  "enc_av (AKV es) = enc_msg [PLen 6 (enc_kvs 1 es)]" "enc_av (AList vs) = enc_msg [PLen 5 (enc_avs vs)]"
  by (simp_all add: enc_kvs_def enc_avs_def kv_field_fun)

lemma sealTop_ns:
  "sealTop \<lparr>stack = base @ [f, ns_frame (key, es)], scSink = k\<rparr> =
     \<lparr>stack = base @ [ext_value f key (AKV es)], scSink = k\<rparr>"
  using sealTop_ext [of "ns_frame (key, es)" "AKV es" base f k]
  by (simp add: ns_frame_def enc_av_containers del: enc_av.simps)

lemma sealTop_array:
  "sealTop \<lparr>stack = base @ [f, ext_av \<lparr>kind = frameArray, nsKey = key, fr_buf = []\<rparr> vs], scSink = k\<rparr> =
     \<lparr>stack = base @ [ext_value f key (AList vs)], scSink = k\<rparr>"
  using sealTop_ext [of "ext_av \<lparr>kind = frameArray, nsKey = key, fr_buf = []\<rparr> vs" "AList vs" base f k]
  by (simp add: ext_av_def enc_av_containers del: enc_av.simps)

lemma sealDownTo_mono: "d \<le> d' \<Longrightarrow> sealDownTo d (sealDownTo d' s) = sealDownTo d s"
proof (induction d' s rule: sealDownTo.induct)
  case (1 d' s)
  show ?case
  proof (cases "length (stack s) > d' \<and> 1 < length (stack s)")
    case True
    then have "sealDownTo d' s = sealDownTo d' (sealTop s)" "sealDownTo d s = sealDownTo d (sealTop s)"
      using 1(2) by (subst sealDownTo.simps, simp)+
    with 1 True show ?thesis by simp
  next
    case False
    then have "sealDownTo d' s = s" by (subst sealDownTo.simps) auto
    then show ?thesis by simp
  qed
qed

lemma sealDownTo_done: "length (stack s) \<le> d \<Longrightarrow> sealDownTo d s = s"
  by (subst sealDownTo.simps) simp

lemma sealDownTo_step:
  "base \<noteq> [] \<Longrightarrow> sealDownTo (length base) \<lparr>stack = base @ [f], scSink = k\<rparr> =
     sealDownTo (length base) (sealTop \<lparr>stack = base @ [f], scSink = k\<rparr>)"
  by (subst sealDownTo.simps) (cases base, simp_all)

lemma sealDownTo_ns:
  assumes "kind f \<noteq> frameArray"
  shows "sealDownTo (Suc (length base)) \<lparr>stack = base @ f # map ns_frame ns, scSink = k\<rparr> =
    \<lparr>stack = base @ [ext_kv f (closed_ns ns)], scSink = k\<rparr>"
  using assms
proof (induction ns arbitrary: base f)
  case Nil
  then show ?case by (simp add: sealDownTo_done)
next
  case (Cons kes ns)
  obtain key es where kes: "kes = (key, es)" by (cases kes)
  have "sealDownTo (Suc (length base)) \<lparr>stack = base @ f # map ns_frame (kes # ns), scSink = k\<rparr> =
      sealDownTo (Suc (length base))
        (sealDownTo (Suc (length (base @ [f]))) \<lparr>stack = (base @ [f]) @ ns_frame kes # map ns_frame ns, scSink = k\<rparr>)"
    by (simp add: sealDownTo_mono)
  also have "\<dots> = sealDownTo (Suc (length base))
      \<lparr>stack = (base @ [f]) @ [ns_frame (key, es @ closed_ns ns)], scSink = k\<rparr>"
    using Cons.IH [of "ns_frame kes" "base @ [f]"] by (simp add: kes)
  also have "\<dots> = sealDownTo (length (base @ [f]))
      (sealTop \<lparr>stack = (base @ [f]) @ [ns_frame (key, es @ closed_ns ns)], scSink = k\<rparr>)"
    using sealDownTo_step [of "base @ [f]"] by simp
  also have "\<dots> = \<lparr>stack = base @ [ext_kv f (closed_ns (kes # ns))], scSink = k\<rparr>"
    using Cons.prems by (simp add: sealTop_ns sealDownTo_done ext_value_def kes)
  finally show ?case .
qed

lemma sealDownTo_frame:
  "sealDownTo (Suc (length base)) \<lparr>stack = base @ f # ns_frame (key, es) # map ns_frame ns, scSink = k\<rparr> =
    \<lparr>stack = base @ [ext_value f key (AKV (es @ closed_ns ns))], scSink = k\<rparr>"
proof -
  have "sealDownTo (Suc (length base)) \<lparr>stack = base @ f # ns_frame (key, es) # map ns_frame ns, scSink = k\<rparr> =
    sealDownTo (length (base @ [f]))
      (sealDownTo (Suc (length (base @ [f]))) \<lparr>stack = (base @ [f]) @ ns_frame (key, es) # map ns_frame ns, scSink = k\<rparr>)"
    by (simp add: sealDownTo_mono)
  also have "\<dots> = sealDownTo (length (base @ [f]))
      (sealTop \<lparr>stack = (base @ [f]) @ [ns_frame (key, es @ closed_ns ns)], scSink = k\<rparr>)"
    using sealDownTo_ns [of "ns_frame (key, es)" "base @ [f]"] sealDownTo_step [of "base @ [f]"] by simp
  also have "\<dots> = \<lparr>stack = base @ [ext_value f key (AKV (es @ closed_ns ns))], scSink = k\<rparr>"
    by (simp add: sealTop_ns sealDownTo_done)
  finally show ?thesis .
qed

lemma rollback_snap:
  assumes "fr_buf f' = fr_buf f @ x" and "f'\<lparr>fr_buf := fr_buf f\<rparr> = f"
  shows "rollback (snap \<lparr>stack = base @ [f], scSink = k\<rparr>) \<lparr>stack = base @ f' # rest, scSink = k'\<rparr> =
    \<lparr>stack = base @ [f], scSink = k'\<rparr>"
  using assms by (simp add: rollback_def snap_def)

lemma rollback_frame:
  "rollback (snap \<lparr>stack = base @ [f], scSink = k\<rparr>) \<lparr>stack = base @ f # rest, scSink = k'\<rparr> =
    \<lparr>stack = base @ [f], scSink = k'\<rparr>"
  by (rule rollback_snap [of f f "[]"]) simp_all

lemma in_frame_object:
  assumes "m (openFrame frameKVList key \<lparr>stack = base @ [f], scSink = k\<rparr>) =
    (e, \<lparr>stack = base @ f # ns_frame (key, es) # map ns_frame ns, scSink = k'\<rparr>)"
    and "Suc (length base) < maxEncodeDepth"
  shows "in_frame frameKVList key m \<lparr>stack = base @ [f], scSink = k\<rparr> =
    (e, \<lparr>stack = base @ [case e of None \<Rightarrow> ext_value f key (AKV (es @ closed_ns ns)) | Some _ \<Rightarrow> f], scSink = k'\<rparr>)"
  using assms by (simp add: in_frame_def rollback_frame sealDownTo_frame snap_def [of "\<lparr>stack = _ @ [_], scSink = _\<rparr>"]
      Let_def split: option.split) (simp add: rollback_def set_cur_def cur_def)

lemma in_frame_array:
  assumes "m (openFrame frameArray key \<lparr>stack = base @ [f], scSink = k\<rparr>) =
    (e, \<lparr>stack = base @ [f, ext_av \<lparr>kind = frameArray, nsKey = key, fr_buf = []\<rparr> vs], scSink = k'\<rparr>)"
    and "Suc (length base) < maxEncodeDepth"
  shows "in_frame frameArray key m \<lparr>stack = base @ [f], scSink = k\<rparr> =
    (e, \<lparr>stack = base @ [case e of None \<Rightarrow> ext_value f key (AList vs) | Some _ \<Rightarrow> f], scSink = k'\<rparr>)"
proof -
  have "sealDownTo (Suc (length base)) \<lparr>stack = (base @ [f]) @ [ext_av \<lparr>kind = frameArray, nsKey = key, fr_buf = []\<rparr> vs], scSink = k'\<rparr> =
     \<lparr>stack = base @ [ext_value f key (AList vs)], scSink = k'\<rparr>"
    using sealDownTo_step [of "base @ [f]"] by (simp add: sealTop_array sealDownTo_done)
  then show ?thesis using assms
    by (simp add: in_frame_def rollback_frame Let_def snap_def split: option.split)
      (simp add: rollback_def set_cur_def cur_def)
qed

lemma openFrame_ns:
  "openFrame frameKVList key \<lparr>stack = base @ [f], scSink = k\<rparr> = \<lparr>stack = (base @ [f]) @ [ns_frame (key, [])], scSink = k\<rparr>"
  by (simp add: openFrame_def ns_frame_def)

lemma openFrame_array:
  "openFrame frameArray key \<lparr>stack = base @ [f], scSink = k\<rparr> =
    \<lparr>stack = (base @ [f]) @ [\<lparr>kind = frameArray, nsKey = key, fr_buf = []\<rparr>], scSink = k\<rparr>"
  by (simp add: openFrame_def)

lemma in_frame_deep: "maxEncodeDepth \<le> Suc (length base) \<Longrightarrow>
    in_frame kd key m \<lparr>stack = base @ [f], scSink = k\<rparr> = (Some errMaxEncodeDepth, \<lparr>stack = base @ [f], scSink = k\<rparr>)"
  by (simp add: in_frame_def)

lemma AddReflected_ext:
  "AddReflected key r \<lparr>stack = base @ [f], scSink = k\<rparr> =
    (case spanContextFromValue (rf_value r) of
       (sc, True) \<Rightarrow> (None, \<lparr>stack = base @ [f], scSink = stored [sc] k\<rparr>)
     | (_, False) \<Rightarrow>
         (case rf_json r of
            Inl err \<Rightarrow> (Some err, \<lparr>stack = base @ [f], scSink = k\<rparr>)
          | Inr js \<Rightarrow> (None, \<lparr>stack = base @ [ext_value f key (AStr js)], scSink = k\<rparr>)))"
  using addValue_ext [of key "AStr _" base f k] rollback_frame [of base f k "[]" k]
  by (auto simp: AddReflected_def Let_def anyString_def append_simps stored_def
      split: prod.split bool.split sum.split)

lemma AppendReflected_ext:
  assumes "kind f = frameArray"
  shows "AppendReflected r \<lparr>stack = base @ [f], scSink = k\<rparr> =
    (case rf_json r of
       Inl err \<Rightarrow> (Some err, \<lparr>stack = base @ [f], scSink = k\<rparr>)
     | Inr js \<Rightarrow> (None, \<lparr>stack = base @ [ext_av f [AStr js]], scSink = k\<rparr>))"
  using addAV_ext [OF assms, of "AStr _" base k] rollback_frame [of base f k "[]" k]
  by (auto simp: AppendReflected_def Let_def anyString_def append_simps split: sum.split)

definition o_refines :: "omarsh \<Rightarrow> bool" where
  "o_refines m \<longleftrightarrow> (\<forall>base f k. kind f \<noteq> frameArray \<longrightarrow>
     MarshalLogObject m \<lparr>stack = base @ [f], scSink = k\<rparr> =
       (case den_o m (Suc (length base)) of (e, es, ns, sp) \<Rightarrow>
          (e, \<lparr>stack = base @ ext_kv f es # map ns_frame ns, scSink = stored sp k\<rparr>)))"

definition a_refines :: "amarsh \<Rightarrow> bool" where
  "a_refines a \<longleftrightarrow> (\<forall>base f k. kind f = frameArray \<longrightarrow>
     MarshalLogArray a \<lparr>stack = base @ [f], scSink = k\<rparr> =
       (case den_a a (Suc (length base)) of (e, vs, sp) \<Rightarrow>
          (e, \<lparr>stack = base @ [ext_av f vs], scSink = stored sp k\<rparr>)))"

lemma o_refinesD: "o_refines m \<Longrightarrow> kind f \<noteq> frameArray \<Longrightarrow>
    MarshalLogObject m \<lparr>stack = base @ [f], scSink = k\<rparr> =
       (case den_o m (Suc (length base)) of (e, es, ns, sp) \<Rightarrow>
          (e, \<lparr>stack = base @ ext_kv f es # map ns_frame ns, scSink = stored sp k\<rparr>))"
  by (simp add: o_refines_def)

lemma a_refinesD: "a_refines a \<Longrightarrow> kind f = frameArray \<Longrightarrow>
    MarshalLogArray a \<lparr>stack = base @ [f], scSink = k\<rparr> =
       (case den_a a (Suc (length base)) of (e, vs, sp) \<Rightarrow>
          (e, \<lparr>stack = base @ [ext_av f vs], scSink = stored sp k\<rparr>))"
  by (simp add: a_refines_def)

lemma in_frame_object_den:
  assumes "o_refines m" and "\<not> maxEncodeDepth \<le> Suc (length base)"
  shows "in_frame frameKVList key (MarshalLogObject m) \<lparr>stack = base @ [f], scSink = k\<rparr> =
    (case den_o m (Suc (Suc (length base))) of (e, es, ns, sp) \<Rightarrow>
       (e, \<lparr>stack = base @ [case e of None \<Rightarrow> ext_value f key (AKV (es @ closed_ns ns)) | Some _ \<Rightarrow> f],
            scSink = stored sp k\<rparr>))"
proof -
  obtain e es ns sp where d: "den_o m (Suc (Suc (length base))) = (e, es, ns, sp)" by (metis prod_cases4)
  have "MarshalLogObject m (openFrame frameKVList key \<lparr>stack = base @ [f], scSink = k\<rparr>) =
      (e, \<lparr>stack = base @ f # ns_frame (key, es) # map ns_frame ns, scSink = stored sp k\<rparr>)"
    using o_refinesD [OF assms(1), of "ns_frame (key, [])" "base @ [f]"] d
    by (simp add: openFrame_ns [simplified])
  from in_frame_object [of "MarshalLogObject m", OF this] assms(2) d show ?thesis by simp
qed

lemma in_frame_array_den:
  assumes "a_refines m" and "\<not> maxEncodeDepth \<le> Suc (length base)"
  shows "in_frame frameArray key (MarshalLogArray m) \<lparr>stack = base @ [f], scSink = k\<rparr> =
    (case den_a m (Suc (Suc (length base))) of (e, vs, sp) \<Rightarrow>
       (e, \<lparr>stack = base @ [case e of None \<Rightarrow> ext_value f key (AList vs) | Some _ \<Rightarrow> f],
            scSink = stored sp k\<rparr>))"
proof -
  let ?g = "\<lparr>kind = frameArray, nsKey = key, fr_buf = []\<rparr>"
  obtain e vs sp where d: "den_a m (Suc (Suc (length base))) = (e, vs, sp)" by (metis prod_cases3)
  have "MarshalLogArray m (openFrame frameArray key \<lparr>stack = base @ [f], scSink = k\<rparr>) =
      (e, \<lparr>stack = base @ [f, ext_av ?g vs], scSink = stored sp k\<rparr>)"
    using a_refinesD [OF assms(1), of ?g "base @ [f]"] d by (simp add: openFrame_array [simplified])
  from in_frame_array [of "MarshalLogArray m", OF this] assms(2) d show ?thesis by simp
qed

lemma marshal_refines: "o_refines m" "a_refines a"
proof (induction m and a)
  case (OReturn err)
  then show ?case by (simp add: o_refines_def)
next
  case (OAdd key v m)
  then show ?case
    by (auto simp: o_refines_def [of "OAdd _ _ _"] o_refinesD any_of_value addValue_ext ext_value_def split: prod.split)
next
  case (ONamespace key m)
  have "MarshalLogObject m \<lparr>stack = base @ [f, ns_frame (key, [])], scSink = k\<rparr> =
      (case den_o m (Suc (Suc (length base))) of (e, es, ns, sp) \<Rightarrow>
         (e, \<lparr>stack = base @ f # ns_frame (key, es) # map ns_frame ns, scSink = stored sp k\<rparr>))" for base f k
    using o_refinesD [OF ONamespace.IH, of "ns_frame (key, [])" "base @ [f]"] by simp
  then show ?case
    by (simp add: o_refines_def OpenNamespace_def openFrame_ns [simplified] split: prod.split)
next
  case (OObject key m c)
  have c: "o_refines (c e)" for e using OObject.IH(2) by simp
  show ?case unfolding o_refines_def
    by (clarsimp simp: in_frame_object_den [OF OObject.IH(1)] in_frame_deep ext_value_def o_refinesD [OF c]
        split: prod.split option.split)
next
  case (OArray key m c)
  have c: "o_refines (c e)" for e using OArray.IH(2) by simp
  show ?case unfolding o_refines_def
    by (clarsimp simp: in_frame_array_den [OF OArray.IH(1)] in_frame_deep ext_value_def o_refinesD [OF c]
        split: prod.split option.split)
next
  case (OReflect key r c)
  have c: "o_refines (c e)" for e using OReflect.IH by simp
  show ?case unfolding o_refines_def
    by (auto simp: AddReflected_ext ext_value_def o_refinesD [OF c] split: prod.split sum.split bool.split)
next
  case (AReturn err)
  then show ?case by (simp add: a_refines_def)
next
  case (AAppend v m)
  then show ?case
    by (auto simp: a_refines_def [of "AAppend _ _"] a_refinesD any_of_value addAV_ext split: prod.split)
next
  case (AObject m c)
  have c: "a_refines (c e)" for e using AObject.IH(2) by simp
  show ?case unfolding a_refines_def
    by (clarsimp simp: in_frame_object_den [OF AObject.IH(1)] in_frame_deep ext_value_def a_refinesD [OF c]
        split: prod.split option.split)
next
  case (AArray m c)
  have c: "a_refines (c e)" for e using AArray.IH(2) by simp
  show ?case unfolding a_refines_def
    by (clarsimp simp: in_frame_array_den [OF AArray.IH(1)] in_frame_deep ext_value_def a_refinesD [OF c]
        split: prod.split option.split)
next
  case (AReflect r c)
  have c: "a_refines (c e)" for e using AReflect.IH by simp
  show ?case unfolding a_refines_def
    by (auto simp: AppendReflected_ext a_refinesD [OF c] split: prod.split sum.split)
qed

section \<open>Failed containers\<close>

lemma state_split:
  assumes "stack s \<noteq> []"
  obtains base f k where "s = \<lparr>stack = base @ [f], scSink = k\<rparr>"
  using assms that by (cases s) (metis append_butlast_last_id encState.select_convs(1))

lemma failed_object:
  assumes "stack s \<noteq> []" and "length (stack s) < maxEncodeDepth"
    and "MarshalLogObject m (openFrame frameKVList key s) = (Some err, s1)"
  shows "in_frame frameKVList key (MarshalLogObject m) s = (Some err, s\<lparr>scSink := scSink s1\<rparr>)"
proof -
  obtain base f k where s: "s = \<lparr>stack = base @ [f], scSink = k\<rparr>" using state_split [OF assms(1)] .
  show ?thesis
    using assms(2,3) in_frame_object_den [OF marshal_refines(1), where base = base and m = m and key = key and f = f and k = k]
      o_refinesD [OF marshal_refines(1), where f = "ns_frame (key, [])" and m = m and base = "base @ [f]" and k = k]
    by (auto simp: s openFrame_ns [simplified] split: prod.splits)
qed

lemma failed_array:
  assumes "stack s \<noteq> []" and "length (stack s) < maxEncodeDepth"
    and "MarshalLogArray m (openFrame frameArray key s) = (Some err, s1)"
  shows "in_frame frameArray key (MarshalLogArray m) s = (Some err, s\<lparr>scSink := scSink s1\<rparr>)"
proof -
  obtain base f k where s: "s = \<lparr>stack = base @ [f], scSink = k\<rparr>" using state_split [OF assms(1)] .
  show ?thesis
    using assms(2,3) in_frame_array_den [OF marshal_refines(2), where base = base and m = m and key = key and f = f and k = k]
      a_refinesD [OF marshal_refines(2), where f = "\<lparr>kind = frameArray, nsKey = key, fr_buf = []\<rparr>" and a = m and base = "base @ [f]" and k = k]
    by (auto simp: s openFrame_array [simplified] split: prod.splits)
qed

lemma failed_inline:
  assumes "stack s \<noteq> []" and "kind (cur s) \<noteq> frameArray" and "MarshalLogObject m s = (Some err, s1)"
  shows "rollback (snap s) s1 = s\<lparr>scSink := scSink s1\<rparr>"
proof -
  obtain base f k where s: "s = \<lparr>stack = base @ [f], scSink = k\<rparr>" using state_split [OF assms(1)] .
  show ?thesis
    using assms(2,3) o_refinesD [OF marshal_refines(1), where f = f and m = m and base = base and k = k]
    by (auto simp: s ext_kv_def rollback_snap split: prod.splits)
qed

lemma failed_call:
  assumes "stack s \<noteq> []"
  shows "in_frame frameKVList key (MarshalLogObject m) s = (Some err, s1) \<Longrightarrow> stack s1 = stack s"
    and "in_frame frameArray key (MarshalLogArray a) s = (Some err, s1) \<Longrightarrow> stack s1 = stack s"
    and "AddReflected key r s = (Some err, s1) \<Longrightarrow> s1 = s"
    and "AppendReflected r s = (Some err, s1) \<Longrightarrow> s1 = s"
proof -
  obtain base f k where s: "s = \<lparr>stack = base @ [f], scSink = k\<rparr>" using state_split [OF assms] .
  show "stack s1 = stack s" if "in_frame frameKVList key (MarshalLogObject m) s = (Some err, s1)"
    using that in_frame_object_den [OF marshal_refines(1), where base = base and m = m and key = key and f = f and k = k] in_frame_deep [of base]
    by (cases "maxEncodeDepth \<le> Suc (length base)") (auto simp: s split: prod.splits)
  show "stack s1 = stack s" if "in_frame frameArray key (MarshalLogArray a) s = (Some err, s1)"
    using that in_frame_array_den [OF marshal_refines(2), where base = base and m = a and key = key and f = f and k = k] in_frame_deep [of base]
    by (cases "maxEncodeDepth \<le> Suc (length base)") (auto simp: s split: prod.splits)
  show "s1 = s" if "AddReflected key r s = (Some err, s1)"
    using that by (auto simp: s AddReflected_ext split: prod.splits bool.splits sum.splits)
  show "s1 = s" if "AppendReflected r s = (Some err, s1)"
    using that by (auto simp: s AppendReflected_def rollback_frame Let_def split: sum.splits)
qed

section \<open>Fields\<close>

text \<open>What an encoder has collected: the root's entries and the chain of open namespaces.\<close>

type_synonym collected = "entries \<times> namespaces"

definition root_frame :: frame where
  "root_frame = \<lparr>kind = frameRoot, nsKey = [], fr_buf = []\<rparr>"

definition rep :: "collected \<Rightarrow> (spanctx \<times> bool) option \<Rightarrow> encState" where
  "rep c k = \<lparr>stack = ext_kv root_frame (fst c) # map ns_frame (snd c), scSink = k\<rparr>"

text \<open>New entries go to the innermost open namespace, new namespaces below it.\<close>

fun collect_more :: "collected \<Rightarrow> collected \<Rightarrow> collected" where
  "collect_more (es, []) (es', ns') = (es @ es', ns')"
| "collect_more (es, ns) (es', ns') =
     (es, butlast ns @ (fst (last ns), snd (last ns) @ es') # ns')"

definition den_field :: "zfield \<Rightarrow> nat \<Rightarrow> collected \<times> spanctx list" where
  "den_field f n =
     (case fd_inline f of
        Some m \<Rightarrow>
          (case den_o m n of
             (Some err, _, _, sp) \<Rightarrow> (([(fd_key f @ str ''Error'', AStr err)], []), sp)
           | (None, es, ns, sp) \<Rightarrow> ((es, ns), sp))
      | None \<Rightarrow> (case den_o (fd_addTo f) n of (_, es, ns, sp) \<Rightarrow> ((es, ns), sp)))"

lemma collect_more_snoc:
  "collect_more (es, ns @ [ke]) (es', ns') = (es, ns @ (fst ke, snd ke @ es') # ns')"
  by (cases ns) (auto simp: butlast_append)

lemma rep_split:
  obtains base f where "rep c k = \<lparr>stack = base @ [f], scSink = k\<rparr>" and "kind f \<noteq> frameArray"
    and "length base = length (snd c)"
    and "\<And>es' ns' k'. \<lparr>stack = base @ ext_kv f es' # map ns_frame ns', scSink = k'\<rparr> =
           rep (collect_more c (es', ns')) k'"
proof (cases "snd c" rule: rev_cases)
  case Nil
  have "rep c k = \<lparr>stack = [] @ [ext_kv root_frame (fst c)], scSink = k\<rparr>" using Nil by (simp add: rep_def)
  then show thesis using that [of "[]" "ext_kv root_frame (fst c)"] Nil
    by (cases c) (simp add: rep_def root_frame_def)
next
  case (snoc ns ke)
  obtain es where c: "c = (es, ns @ [ke])" using snoc by (cases c) auto
  have cm: "collect_more c (es', ns') = (es, ns @ (fst ke, snd ke @ es') # ns')" for es' ns'
    unfolding c by (rule collect_more_snoc)
  have nf: "ext_kv (ns_frame ke) es' = ns_frame (fst ke, snd ke @ es')" for es' using ext_ns_frame [of "fst ke" "snd ke" es'] by simp
  show thesis
  proof (rule that [of "ext_kv root_frame es # map ns_frame ns" "ns_frame ke"])
    show "rep c k = \<lparr>stack = (ext_kv root_frame es # map ns_frame ns) @ [ns_frame ke], scSink = k\<rparr>"
      by (simp add: rep_def c)
    show "length (ext_kv root_frame es # map ns_frame ns) = length (snd c)" by (simp add: c)
    show "\<lparr>stack = (ext_kv root_frame es # map ns_frame ns) @ ext_kv (ns_frame ke) es' # map ns_frame ns', scSink = k'\<rparr> =
        rep (collect_more c (es', ns')) k'" for es' ns' k'
      by (simp add: cm nf rep_def)
  qed simp
qed

lemma MarshalLogObject_rep:
  "MarshalLogObject m (rep c k) =
     (case den_o m (Suc (length (snd c))) of (e, es, ns, sp) \<Rightarrow> (e, rep (collect_more c (es, ns)) (stored sp k)))"
proof -
  obtain base f where b: "rep c k = \<lparr>stack = base @ [f], scSink = k\<rparr>" "kind f \<noteq> frameArray"
    "length base = length (snd c)"
    "\<And>es' ns' k'. \<lparr>stack = base @ ext_kv f es' # map ns_frame ns', scSink = k'\<rparr> = rep (collect_more c (es', ns')) k'"
    using rep_split [of c k] by blast
  show ?thesis unfolding b(1) o_refinesD [OF marshal_refines(1) b(2)] b(3) b(4) ..
qed

lemma rollback_rep:
  "rollback (snap (rep c k)) (rep (collect_more c (es, ns)) k') = rep c k'"
proof -
  obtain base f where b: "rep c k = \<lparr>stack = base @ [f], scSink = k\<rparr>" "kind f \<noteq> frameArray"
    "length base = length (snd c)"
    "\<And>es' ns' k'. \<lparr>stack = base @ ext_kv f es' # map ns_frame ns', scSink = k'\<rparr> = rep (collect_more c (es', ns')) k'"
    using rep_split [of c k] by blast
  have "rep c k' = \<lparr>stack = base @ [f], scSink = k'\<rparr>" using b(1) by (simp add: rep_def)
  then show ?thesis unfolding b(1) b(4) [symmetric]
    by (subst rollback_snap) (simp_all add: ext_kv_def)
qed

lemma AddString_rep: "AddString key v (rep c k) = rep (collect_more c ([(key, AStr v)], [])) k"
proof -
  obtain base f where b: "rep c k = \<lparr>stack = base @ [f], scSink = k\<rparr>" "kind f \<noteq> frameArray"
    "length base = length (snd c)"
    "\<And>es' ns' k'. \<lparr>stack = base @ ext_kv f es' # map ns_frame ns', scSink = k'\<rparr> = rep (collect_more c (es', ns')) k'"
    using rep_split [of c k] by blast
  have "anyString v = enc_av (AStr v)" by (simp add: anyString_def append_simps)
  then show ?thesis unfolding b(1) AddString_def
    using b(2) b(4) [of "[(key, AStr v)]" "[]" k] by (simp add: addValue_ext ext_value_def del: enc_av.simps)
qed

lemma applyField_rep:
  "applyField (rep c k) f =
     (case den_field f (Suc (length (snd c))) of (d, sp) \<Rightarrow> rep (collect_more c d) (stored sp k))"
  by (auto simp: applyField_def den_field_def MarshalLogObject_rep rollback_rep AddString_rep Let_def
      split: option.split prod.split)

lemma OpenNamespace_rep: "OpenNamespace key (rep c k) = rep (collect_more c ([], [(key, [])])) k"
proof -
  have "OpenNamespace key (rep c k) = snd (MarshalLogObject (ONamespace key (OReturn None)) (rep c k))" by simp
  then show ?thesis unfolding MarshalLogObject_rep by simp
qed

lemma length_collect_more: "length (snd (collect_more c (es, ns))) = length (snd c) + length ns"
  by (cases c; cases "snd c" rule: rev_cases) (auto simp: collect_more_snoc)

lemma addKVRoot_rep:
  "addKVRoot key (enc_av v) (rep (es, ns) k) = rep (es @ [(key, v)], ns) k"
  by (simp add: addKVRoot_def rep_def kv_into_ext root_frame_def)

lemma rep_new: "newEncState\<lparr>scSink := k\<rparr> = rep ([], []) k"
  by (simp add: newEncState_def rep_def root_frame_def)

lemma clone_rep: "clone (rep c k) = rep c None"
  by (simp add: clone_def rep_def comp_def)

lemma sealAll_rep: "sealAll (rep (es, ns) k) = rep (es @ closed_ns ns, []) k"
  using sealDownTo_ns [of "ext_kv root_frame es" "[]" ns k]
  by (simp add: sealAll_def rep_def root_frame_def)

lemma rep_root_buf: "fr_buf (stack (rep (es, ns) k) ! 0) = enc_kvs 6 es"
  by (simp add: rep_def ext_kv_def root_frame_def)

end
