(* ===== verification/Otlp_Options.thy ===== *)
theory Otlp_Options
  imports Zap_Marshal Root_Options
begin

text \<open>
  \<^verbatim>\<open>otlp/options.go\<close>: severities, the retry and error records, the options of the OTLP
  presets with their defaults and normalisation, and the environment lookups. The executable's
  base name and the build information come from the running process and are arguments of the
  defaults. Endpoint parsing is left to \<^verbatim>\<open>net/url\<close>.
\<close>

section \<open>Severities\<close>

type_synonym SeverityNumber = int

definition SeverityUnspecified :: SeverityNumber where "SeverityUnspecified = 0"
definition SeverityTrace :: SeverityNumber where "SeverityTrace = 1"
definition SeverityDebug :: SeverityNumber where "SeverityDebug = 5"
definition SeverityInfo :: SeverityNumber where "SeverityInfo = 9"
definition SeverityWarn :: SeverityNumber where "SeverityWarn = 13"
definition SeverityError :: SeverityNumber where "SeverityError = 17"
definition SeverityFatal :: SeverityNumber where "SeverityFatal = 21"
definition SeverityFatal2 :: SeverityNumber where "SeverityFatal2 = 22"
definition SeverityFatal3 :: SeverityNumber where "SeverityFatal3 = 23"
definition maxSeverity :: SeverityNumber where "maxSeverity = 24"

lemmas severity_defs = SeverityUnspecified_def SeverityTrace_def SeverityDebug_def SeverityInfo_def SeverityWarn_def
  SeverityError_def SeverityFatal_def SeverityFatal2_def SeverityFatal3_def maxSeverity_def

definition otlp_defaultSeverityMapper :: "level \<Rightarrow> SeverityNumber" where
  "otlp_defaultSeverityMapper l =
     (if l = DebugLevel then SeverityDebug
      else if l = InfoLevel then SeverityInfo
      else if l = WarnLevel then SeverityWarn
      else if l = ErrorLevel then SeverityError
      else if l = DPanicLevel then SeverityFatal
      else if l = PanicLevel then SeverityFatal2
      else if l = FatalLevel then SeverityFatal3
      else SeverityUnspecified)"

definition otlp_clampSeverity :: "SeverityNumber \<Rightarrow> SeverityNumber" where
  "otlp_clampSeverity s = (if s < 0 then 0 else if s > maxSeverity then maxSeverity else s)"

section \<open>Retry configuration and export errors\<close>

datatype Compression = NoCompression | Gzip

text \<open>Values above \<^verbatim>\<open>JSON\<close> are representable and rejected at construction.\<close>

datatype Encoding = Protobuf | JSON | UndefinedEncoding nat

record RetryConfig =
  Initial :: int
  MaxInterval :: int
  MaxElapsed :: int

record ExportError =
  StatusCode :: int
  GRPCStatus :: int
  Retryable :: bool
  Rejected :: int
  IsWarning :: bool
  Message :: bytes
  Err :: "go_error option"
  retryAfter :: int

definition no_export_error :: ExportError where
  "no_export_error = \<lparr>StatusCode = 0, GRPCStatus = 0, Retryable = False, Rejected = 0,
     IsWarning = False, Message = [], Err = None, retryAfter = 0\<rparr>"

text \<open>
  The text of an error, with \<^verbatim>\<open>strconv.Quote\<close>, which \<^verbatim>\<open>%q\<close> is, as an argument.
\<close>

definition format_bool :: "bool \<Rightarrow> bytes" where
  "format_bool b = (if b then str ''true'' else str ''false'')"

definition ExportError_Error :: "(bytes \<Rightarrow> bytes) \<Rightarrow> ExportError \<Rightarrow> bytes" where
  "ExportError_Error quote e =
     (let g = (if GRPCStatus e \<noteq> 0 then str '' grpc='' @ format_int (GRPCStatus e) else [])
      in str ''otlp export: status='' @ format_int (StatusCode e) @ g @
         str '' retryable='' @ format_bool (Retryable e) @ str '' rejected='' @ format_int (Rejected e) @
         str '' warning='' @ format_bool (IsWarning e) @ str '' msg='' @ quote (Message e) @
         str '' err='' @ (case Err e of None \<Rightarrow> str ''<nil>'' | Some err \<Rightarrow> err))"

definition ExportError_Unwrap :: "ExportError \<Rightarrow> go_error option" where
  "ExportError_Unwrap e = Err e"

section \<open>Options\<close>

definition maxQueueSize :: int where "maxQueueSize = 16777216"
definition maxRequestBytesCeil :: int where "maxRequestBytesCeil = 268435456"

text \<open>Handlers, clients and TLS configurations are represented by their identity.\<close>

record otlp_options =
  serviceName :: bytes
  resourceFields :: "zfield list"
  scopeName :: bytes
  scopeVersion :: bytes
  o_severityOf :: "level \<Rightarrow> SeverityNumber"
  callerAttrs :: bool
  loggerNameKey :: bytes
  traceCorrelationAttrs :: bool
  queueSize :: int
  o_batchSize :: int
  maxRequestBytes :: int
  o_flushInterval :: int
  o_timeout :: int
  drainTimeout :: int
  o_dropPolicy :: DropPolicy
  retry :: RetryConfig
  headers :: "(bytes \<times> bytes) list"
  client :: nat
  compression :: Compression
  encoding :: Encoding
  insecure :: bool
  tlsConfig :: "nat option"
  errFn :: nat

text \<open>
  What the process supplies: the executable's base name and this module's version, which is looked up
  in what \<^verbatim>\<open>debug.ReadBuildInfo\<close> says of the main module and its dependencies.
\<close>

record go_module =
  mod_Path :: bytes
  mod_Version :: bytes

record build_info =
  bi_Main :: go_module
  bi_Deps :: "go_module list"

definition readModuleVersion :: "build_info option \<Rightarrow> bytes" where
  "readModuleVersion info =
     (case info of
        None \<Rightarrow> []
      | Some bi \<Rightarrow>
          (let path = str ''github.com/arloliu/zapwire/otlp'' in
           if mod_Path (bi_Main bi) = path \<and> mod_Version (bi_Main bi) \<noteq> [] \<and> mod_Version (bi_Main bi) \<noteq> str ''(devel)''
           then mod_Version (bi_Main bi)
           else case find (\<lambda>d. mod_Path d = path) (bi_Deps bi) of None \<Rightarrow> [] | Some d \<Rightarrow> mod_Version d))"

record process =
  exeBase :: bytes
  moduleVersion :: bytes

definition otlp_defaultOptions :: "process \<Rightarrow> otlp_options" where
  "otlp_defaultOptions ps =
    \<lparr>serviceName = str ''unknown_service:'' @ exeBase ps, resourceFields = [],
     scopeName = str ''github.com/arloliu/zapwire/otlp'', scopeVersion = moduleVersion ps,
     o_severityOf = otlp_defaultSeverityMapper, callerAttrs = True, loggerNameKey = str ''logger'',
     traceCorrelationAttrs = False, queueSize = 2048, o_batchSize = 512,
     maxRequestBytes = 4194304, o_flushInterval = Second, o_timeout = 10 * Second,
     drainTimeout = 0, o_dropPolicy = DropNewest,
     retry = \<lparr>Initial = 5 * Second, MaxInterval = 30 * Second, MaxElapsed = 60 * Second\<rparr>,
     headers = [], client = 0, compression = NoCompression, encoding = Protobuf,
     insecure = False, tlsConfig = None, errFn = 0\<rparr>"

definition this_process :: "bytes \<Rightarrow> build_info option \<Rightarrow> process" where
  "this_process exe info = \<lparr>exeBase = exe, moduleVersion = readModuleVersion info\<rparr>"

text \<open>In a build of the module itself the scope has no version; as a dependency it has its own.\<close>

lemma scope_version:
  "scopeVersion (otlp_defaultOptions (this_process exe None)) = []"
  "mod_Path m = str ''github.com/arloliu/zapwire/otlp'' \<Longrightarrow> mod_Version m = str ''(devel)'' \<Longrightarrow>
   scopeVersion (otlp_defaultOptions (this_process exe (Some \<lparr>bi_Main = m, bi_Deps = []\<rparr>))) = []"
  "mod_Path m \<noteq> mod_Path d \<Longrightarrow> mod_Path d = str ''github.com/arloliu/zapwire/otlp'' \<Longrightarrow>
   scopeVersion (otlp_defaultOptions (this_process exe (Some \<lparr>bi_Main = m, bi_Deps = d # ds\<rparr>))) = mod_Version d"
  by (simp_all add: otlp_defaultOptions_def this_process_def readModuleVersion_def Let_def)

type_synonym otlp_option = "otlp_options \<Rightarrow> otlp_options"

text \<open>
  The nil checks of \<^verbatim>\<open>severityOf\<close>, \<^verbatim>\<open>client\<close> and \<^verbatim>\<open>errFn\<close> cannot fire: the options
  that set them ignore nil, so those fields are never nil and have no nil here.
\<close>

definition normalize :: "process \<Rightarrow> otlp_options \<Rightarrow> otlp_options" where
  "normalize ps o1 =
     (let d = otlp_defaultOptions ps in
      o1\<lparr>queueSize :=
             (if queueSize o1 \<le> 0 then queueSize d
              else if queueSize o1 > maxQueueSize then maxQueueSize else queueSize o1),
         o_batchSize := (if o_batchSize o1 \<le> 0 then o_batchSize d else o_batchSize o1),
         maxRequestBytes :=
             (if maxRequestBytes o1 \<le> 0 then maxRequestBytes d
              else if maxRequestBytes o1 > maxRequestBytesCeil then maxRequestBytesCeil
              else maxRequestBytes o1),
         drainTimeout := (if drainTimeout o1 < 0 then 0 else drainTimeout o1),
         o_flushInterval := (if o_flushInterval o1 \<le> 0 then o_flushInterval d else o_flushInterval o1),
         o_timeout := (if o_timeout o1 \<le> 0 then o_timeout d else o_timeout o1),
         retry := (retry o1)
           \<lparr>Initial := (if Initial (retry o1) \<le> 0 then Initial (retry d) else Initial (retry o1)),
            MaxInterval := (if MaxInterval (retry o1) \<le> 0 then MaxInterval (retry d)
                            else MaxInterval (retry o1)),
            MaxElapsed := (if MaxElapsed (retry o1) \<le> 0 then MaxElapsed (retry d)
                           else MaxElapsed (retry o1))\<rparr>\<rparr>)"

definition otlp_applyOptions :: "process \<Rightarrow> otlp_option list \<Rightarrow> otlp_options" where
  "otlp_applyOptions ps opts = normalize ps (foldl (\<lambda>o1 opt. opt o1) (otlp_defaultOptions ps) opts)"

definition WithServiceName :: "bytes \<Rightarrow> otlp_option" where
  "WithServiceName s o1 = o1\<lparr>serviceName := s\<rparr>"
definition WithResource :: "zfield list \<Rightarrow> otlp_option" where
  "WithResource fs o1 = o1\<lparr>resourceFields := resourceFields o1 @ fs\<rparr>"
definition WithScopeName :: "bytes \<Rightarrow> otlp_option" where
  "WithScopeName s o1 = o1\<lparr>scopeName := s\<rparr>"
definition WithScopeVersion :: "bytes \<Rightarrow> otlp_option" where
  "WithScopeVersion s o1 = o1\<lparr>scopeVersion := s\<rparr>"
definition otlp_WithSeverityMapper :: "(level \<Rightarrow> SeverityNumber) option \<Rightarrow> otlp_option" where
  "otlp_WithSeverityMapper f o1 = (case f of Some g \<Rightarrow> o1\<lparr>o_severityOf := g\<rparr> | None \<Rightarrow> o1)"
definition WithCallerAttributes :: "bool \<Rightarrow> otlp_option" where
  "WithCallerAttributes on o1 = o1\<lparr>callerAttrs := on\<rparr>"
definition WithLoggerNameKey :: "bytes \<Rightarrow> otlp_option" where
  "WithLoggerNameKey k o1 = o1\<lparr>loggerNameKey := k\<rparr>"
definition WithTraceCorrelationAttributes :: "bool \<Rightarrow> otlp_option" where
  "WithTraceCorrelationAttributes on o1 = o1\<lparr>traceCorrelationAttrs := on\<rparr>"
definition WithQueueSize :: "int \<Rightarrow> otlp_option" where
  "WithQueueSize n o1 = o1\<lparr>queueSize := n\<rparr>"
definition otlp_WithBatchSize :: "int \<Rightarrow> otlp_option" where
  "otlp_WithBatchSize n o1 = o1\<lparr>o_batchSize := n\<rparr>"
definition WithMaxRequestBytes :: "int \<Rightarrow> otlp_option" where
  "WithMaxRequestBytes n o1 = o1\<lparr>maxRequestBytes := n\<rparr>"
definition otlp_WithFlushInterval :: "int \<Rightarrow> otlp_option" where
  "otlp_WithFlushInterval d o1 = o1\<lparr>o_flushInterval := d\<rparr>"
definition otlp_WithDropPolicy :: "DropPolicy \<Rightarrow> otlp_option" where
  "otlp_WithDropPolicy p o1 = o1\<lparr>o_dropPolicy := p\<rparr>"
definition WithTimeout :: "int \<Rightarrow> otlp_option" where
  "WithTimeout d o1 = o1\<lparr>o_timeout := d\<rparr>"
definition WithDrainTimeout :: "int \<Rightarrow> otlp_option" where
  "WithDrainTimeout d o1 = o1\<lparr>drainTimeout := d\<rparr>"
definition WithRetry :: "RetryConfig \<Rightarrow> otlp_option" where
  "WithRetry rc o1 = o1\<lparr>retry := rc\<rparr>"

text \<open>A later header of the same name replaces an earlier one.\<close>

definition WithHeaders :: "(bytes \<times> bytes) list \<Rightarrow> otlp_option" where
  "WithHeaders h o1 =
     o1\<lparr>headers := foldl (\<lambda>m (k, v). filter (\<lambda>(k', _). k' \<noteq> k) m @ [(k, v)]) (headers o1) h\<rparr>"
definition WithHTTPClient :: "nat option \<Rightarrow> otlp_option" where
  "WithHTTPClient c o1 = (case c of Some n \<Rightarrow> o1\<lparr>client := n\<rparr> | None \<Rightarrow> o1)"
definition WithCompression :: "Compression \<Rightarrow> otlp_option" where
  "WithCompression c o1 = o1\<lparr>compression := c\<rparr>"
definition WithEncoding :: "Encoding \<Rightarrow> otlp_option" where
  "WithEncoding e o1 = o1\<lparr>encoding := e\<rparr>"
definition WithInsecure :: otlp_option where
  "WithInsecure o1 = o1\<lparr>insecure := True\<rparr>"
definition WithTLSConfig :: "nat option \<Rightarrow> otlp_option" where
  "WithTLSConfig c o1 = (case c of Some n \<Rightarrow> o1\<lparr>tlsConfig := Some n\<rparr> | None \<Rightarrow> o1)"
definition otlp_WithErrorHandler :: "nat option \<Rightarrow> otlp_option" where
  "otlp_WithErrorHandler f o1 = (case f of Some n \<Rightarrow> o1\<lparr>errFn := n\<rparr> | None \<Rightarrow> o1)"

section \<open>Environment\<close>

definition EndpointFromEnv :: "(bytes \<Rightarrow> bytes) \<Rightarrow> bytes" where
  "EndpointFromEnv getenv =
     (if getenv (str ''OTEL_EXPORTER_OTLP_LOGS_ENDPOINT'') \<noteq> []
      then getenv (str ''OTEL_EXPORTER_OTLP_LOGS_ENDPOINT'')
      else getenv (str ''OTEL_EXPORTER_OTLP_ENDPOINT''))"

definition ProtocolFromEnv :: "(bytes \<Rightarrow> bytes) \<Rightarrow> bytes" where
  "ProtocolFromEnv getenv =
     (if getenv (str ''OTEL_EXPORTER_OTLP_LOGS_PROTOCOL'') \<noteq> []
      then getenv (str ''OTEL_EXPORTER_OTLP_LOGS_PROTOCOL'')
      else getenv (str ''OTEL_EXPORTER_OTLP_PROTOCOL''))"

section \<open>Well-formed options\<close>

definition retry_wf :: "RetryConfig \<Rightarrow> bool" where
  "retry_wf r \<longleftrightarrow> 0 < Initial r \<and> 0 < MaxInterval r \<and> 0 < MaxElapsed r"

definition otlp_wf :: "otlp_options \<Rightarrow> bool" where
  "otlp_wf o1 \<longleftrightarrow> 0 < queueSize o1 \<and> queueSize o1 \<le> maxQueueSize \<and> 0 < o_batchSize o1 \<and>
     0 < maxRequestBytes o1 \<and> maxRequestBytes o1 \<le> maxRequestBytesCeil \<and> 0 \<le> drainTimeout o1 \<and>
     0 < o_flushInterval o1 \<and> 0 < o_timeout o1 \<and> retry_wf (retry o1)"

lemma normalize_wf: "otlp_wf (normalize ps o1)"
  by (simp add: normalize_def otlp_wf_def retry_wf_def otlp_defaultOptions_def Let_def maxQueueSize_def
      maxRequestBytesCeil_def Second_def)

lemma normalize_id: "otlp_wf o1 \<Longrightarrow> normalize ps o1 = o1"
  by (simp add: normalize_def otlp_wf_def retry_wf_def Let_def)

lemma otlp_clampSeverity_range: "0 \<le> otlp_clampSeverity s \<and> otlp_clampSeverity s \<le> 24"
  by (simp add: otlp_clampSeverity_def maxSeverity_def)

section \<open>Properties\<close>

text \<open>every option list gives well-formed OTLP options (queue, batch, request cap, timeouts
  and retry bounds positive, the queue at most 2^24 and the request at most 256 MiB), whatever
  values were passed; normalising again changes nothing, and the severity that reaches the wire
  is in 0..24 for every mapper.\<close>

theorem otlp_applyOptions_contract:
  "otlp_wf (otlp_applyOptions ps opts) \<and>
   normalize ps (otlp_applyOptions ps opts) = otlp_applyOptions ps opts \<and>
   0 \<le> otlp_clampSeverity (o_severityOf (otlp_applyOptions ps opts) l) \<and>
   otlp_clampSeverity (o_severityOf (otlp_applyOptions ps opts) l) \<le> 24"
  using normalize_wf normalize_id otlp_clampSeverity_range by (simp add: otlp_applyOptions_def)

end
