(* ===== verification/Otlp_Encoder.thy ===== *)
theory Otlp_Encoder
  imports Otlp_Attr Go_Text Otlp_Options
begin

text \<open>
  \<^verbatim>\<open>otlp/encoder.go\<close>, the constructor of \<^verbatim>\<open>otlp/envelope.go\<close>, \<^verbatim>\<open>otlp/core.go\<close> and the
  field helpers of \<^verbatim>\<open>otlp/tracectx.go\<close>: one zap entry becomes the bytes of a LogRecord. The
  record is shown to be the proto3 encoding of an abstract log record whose attributes are the
  logger's fields, the entry's metadata, the call's fields and the sealed namespaces, in that
  order, and whose trace identifiers come from the last trace context given.
\<close>

section \<open>Trace fields\<close>

definition spanContextKey :: bytes where "spanContextKey = str ''span_context''"

text \<open>How the runtime reflects a span context is the trace API's and an argument.\<close>

definition SpanContext :: "(spanctx \<Rightarrow> reflected) \<Rightarrow> go_context \<Rightarrow> zfield" where
  "SpanContext rfl ctx =
     zap_Reflect spanContextKey
       ((rfl (spanContextOrZero ctx))\<lparr>rf_value := AnySpanContext (spanContextOrZero ctx)\<rparr>)"

definition InjectTraceFields :: "(spanctx \<Rightarrow> reflected) \<Rightarrow> go_context \<Rightarrow> zfield list \<Rightarrow> zfield list" where
  "InjectTraceFields rfl ctx fs = fs @ [SpanContext rfl ctx]"

datatype sugared = SField zfield | SValue goany

definition InjectTraceKVs :: "(spanctx \<Rightarrow> reflected) \<Rightarrow> go_context \<Rightarrow> sugared list \<Rightarrow> sugared list" where
  "InjectTraceKVs rfl ctx kvs = SField (SpanContext rfl ctx) # kvs"

definition TraceCorrelationFields :: "go_context \<Rightarrow> zfield list" where
  "TraceCorrelationFields ctx =
     (let sc = spanContextOrZero ctx in
      if \<not> sc_IsValid sc then []
      else [zap_String (str ''trace_id'') (hex_lower (traceID sc)),
            zap_String (str ''span_id'') (hex_lower (spanID sc))])"

section \<open>The encoder\<close>

record encConfig =
  cfg_severityOf :: "level \<Rightarrow> SeverityNumber"
  cfg_callerAttrs :: bool
  cfg_loggerNameKey :: bytes
  cfg_traceCorrelationAttrs :: bool

text \<open>
  The embedded state's sink is armed at the encoder's own \<^verbatim>\<open>sc\<close> and \<^verbatim>\<open>scSet\<close>: the pair in the
  sink is these two fields.
\<close>

record encoder =
  e_state :: encState
  cfg :: encConfig

definition enc_stash :: "encoder \<Rightarrow> spanctx \<times> bool" where
  "enc_stash e = (case scSink (e_state e) of Some p \<Rightarrow> p | None \<Rightarrow> (zero_spanctx, False))"

definition armSink :: "spanctx \<times> bool \<Rightarrow> encState \<Rightarrow> encState" where
  "armSink p s = s\<lparr>scSink := Some p\<rparr>"

definition newEncoder :: "otlp_options \<Rightarrow> encoder" where
  "newEncoder o1 =
    \<lparr>e_state = armSink (zero_spanctx, False) newEncState,
     cfg = \<lparr>cfg_severityOf = o_severityOf o1, cfg_callerAttrs = callerAttrs o1,
            cfg_loggerNameKey = loggerNameKey o1, cfg_traceCorrelationAttrs = traceCorrelationAttrs o1\<rparr>\<rparr>"

definition cloneTyped :: "encoder \<Rightarrow> encoder" where
  "cloneTyped e = \<lparr>e_state = armSink (enc_stash e) (clone (e_state e)), cfg = cfg e\<rparr>"

definition addMeta :: "encoder \<Rightarrow> entry \<Rightarrow> encState \<Rightarrow> encState" where
  "addMeta e ent w0 =
     (let k = cfg_loggerNameKey (cfg e);
          w1 = (if k \<noteq> [] \<and> ent_LoggerName ent \<noteq> [] then addKVRoot k (anyString (ent_LoggerName ent)) w0 else w0);
          w2 = (if cfg_callerAttrs (cfg e) \<and> Defined (ent_Caller ent) then
                  let fn = Function (ent_Caller ent);
                      v1 = (if fn \<noteq> [] then addKVRoot (str ''code.function.name'') (anyString fn) w1 else w1);
                      v2 = addKVRoot (str ''code.file.path'') (anyString (File (ent_Caller ent))) v1
                  in addKVRoot (str ''code.line.number'') (anyInt (Line (ent_Caller ent))) v2
                else w1)
      in if ent_Stack ent \<noteq> [] then addKVRoot (str ''code.stacktrace'') (anyString (ent_Stack ent)) w2 else w2)"

definition entry_field :: "encState \<Rightarrow> zfield \<Rightarrow> encState" where
  "entry_field work f =
     (case spanContextFromField f of
        (fsc, True) \<Rightarrow> work\<lparr>scSink := Some (fsc, True)\<rparr>
      | (_, False) \<Rightarrow> applyField work f)"

definition otlp_EncodeEntry :: "encoder \<Rightarrow> entry \<Rightarrow> zfield list \<Rightarrow> bytes" where
  "otlp_EncodeEntry e ent fs =
     (let work1 = armSink (enc_stash e) (clone (e_state e));
          work2 = addMeta e ent work1;
          work3 = foldl entry_field work2 fs;
          (sc, scSet) = (case scSink work3 of Some p \<Rightarrow> p | None \<Rightarrow> (zero_spanctx, False));
          work4 = (if cfg_traceCorrelationAttrs (cfg e) \<and> scSet \<and> sc_IsValid sc then
                     addKVRoot (str ''span_id'') (anyString (hex_lower (spanID sc)))
                       (addKVRoot (str ''trace_id'') (anyString (hex_lower (traceID sc))) work3)
                   else work3);
          work5 = sealAll work4;
          t = UnixNano (ent_Time ent);
          rec1 = (if t \<noteq> 0 then appendTaggedFixed64 [] 0x09 (of_int t) else []);
          sev = otlp_clampSeverity (cfg_severityOf (cfg e) (ent_Level ent));
          rec2 = (if sev \<noteq> SeverityUnspecified then appendTaggedUvarint rec1 0x10 (of_int sev) else rec1);
          txt = level_String (ent_Level ent);
          rec3 = (if txt \<noteq> [] then appendTaggedString rec2 0x1a txt else rec2);
          msg = ent_Message ent;
          bodyLen = 1 + uvarintLen (of_nat (length msg)) + length msg;
          rec4 = appendTaggedString (appendUvarint (rec3 @ [0x2a]) (of_nat bodyLen)) 0x0a msg;
          rec5 = rec4 @ fr_buf (stack work5 ! 0);
          rec6 = (if scSet \<and> sc_IsValid sc then
                    let f = ucast (traceFlags sc) :: u32;
                        r1 = (if f \<noteq> 0 then appendTaggedFixed32 rec5 0x45 f else rec5)
                    in appendTaggedBytes (appendTaggedBytes r1 0x4a (traceID sc)) 0x52 (spanID sc)
                  else rec5)
      in if t \<noteq> 0 then appendTaggedFixed64 rec6 0x59 (of_int t) else rec6)"

section \<open>Resource and scope\<close>

definition newEnvelope :: "otlp_options \<Rightarrow> envelope" where
  "newEnvelope o1 =
     (let s1 = openFrame frameKVList [] newEncState;
          d = length (stack s1);
          s2 = AddString (str ''service.name'') (serviceName o1) s1;
          s3 = foldl applyField s2 (resourceFields o1);
          s4 = sealDownTo d s3;
          res = fr_buf (cur s4);
          scope1 = (if scopeName o1 \<noteq> [] then appendTaggedString [] 0x0a (scopeName o1) else []);
          scope2 = (if scopeVersion o1 \<noteq> [] then appendTaggedString scope1 0x12 (scopeVersion o1) else scope1)
      in \<lparr>resourceBlob = res, scopeBlob = scope2\<rparr>)"

section \<open>The core\<close>

text \<open>The write syncer is given by its effect on a state of its own.\<close>

record 'w syncer =
  sy_Write :: "bytes \<Rightarrow> 'w \<Rightarrow> go_error option \<times> 'w"
  sy_Sync :: "'w \<Rightarrow> go_error option \<times> 'w"

record core =
  enabled :: "level \<Rightarrow> bool"
  core_enc :: encoder

definition core_With :: "core \<Rightarrow> zfield list \<Rightarrow> core" where
  "core_With c fs =
     c\<lparr>core_enc := foldl (\<lambda>e f. e\<lparr>e_state := entry_field (e_state e) f\<rparr>) (cloneTyped (core_enc c)) fs\<rparr>"

definition core_Check :: "core \<Rightarrow> entry \<Rightarrow> (entry \<times> core) list \<Rightarrow> (entry \<times> core) list" where
  "core_Check c ent ce = (if enabled c (ent_Level ent) then ce @ [(ent, c)] else ce)"

definition core_Write :: "'w syncer \<Rightarrow> core \<Rightarrow> entry \<Rightarrow> zfield list \<Rightarrow> 'w \<Rightarrow> go_error option \<times> 'w" where
  "core_Write out c ent fs w =
     (case sy_Write out (otlp_EncodeEntry (core_enc c) ent fs) w of
        (Some werr, w1) \<Rightarrow> (Some werr, w1)
      | (None, w1) \<Rightarrow>
          (None, if ent_Level ent > ErrorLevel then snd (sy_Sync out w1) else w1))"

section \<open>Specification: the log record of an entry\<close>

text \<open>
  What a logger has collected: the attributes, and the trace context with whether one was given.
  A field either replaces the trace context or adds attributes; a trace context met inside a
  marshaler replaces it too.
\<close>

type_synonym logged = "collected \<times> spanctx \<times> bool"

definition log_field :: "logged \<Rightarrow> zfield \<Rightarrow> logged" where
  "log_field st f =
     (case st of (c, p) \<Rightarrow>
        (case spanContextFromField f of
           (sc, True) \<Rightarrow> (c, (sc, True))
         | (_, False) \<Rightarrow>
             (case den_field f (Suc (length (snd c))) of
                (d, sps) \<Rightarrow> (collect_more c d, if sps = [] then p else (last sps, True)))))"

definition meta_entries :: "encConfig \<Rightarrow> entry \<Rightarrow> entries" where
  "meta_entries g ent =
     (if cfg_loggerNameKey g \<noteq> [] \<and> ent_LoggerName ent \<noteq> []
      then [(cfg_loggerNameKey g, AStr (ent_LoggerName ent))] else []) @
     (if cfg_callerAttrs g \<and> Defined (ent_Caller ent) then
        (if Function (ent_Caller ent) \<noteq> [] then [(str ''code.function.name'', AStr (Function (ent_Caller ent)))] else []) @
        [(str ''code.file.path'', AStr (File (ent_Caller ent))),
         (str ''code.line.number'', AInt (Line (ent_Caller ent)))] else []) @
     (if ent_Stack ent \<noteq> [] then [(str ''code.stacktrace'', AStr (ent_Stack ent))] else [])"

definition correlation_entries :: "encConfig \<Rightarrow> spanctx \<times> bool \<Rightarrow> entries" where
  "correlation_entries g p =
     (if cfg_traceCorrelationAttrs g \<and> snd p \<and> sc_IsValid (fst p)
      then [(str ''trace_id'', AStr (hex_lower (traceID (fst p)))),
            (str ''span_id'', AStr (hex_lower (spanID (fst p))))] else [])"

definition when_set :: "bool \<Rightarrow> pfield \<Rightarrow> pfield list" where
  "when_set b f = (if b then [f] else [])"

definition record_fields :: "encConfig \<Rightarrow> entry \<Rightarrow> entries \<Rightarrow> spanctx \<times> bool \<Rightarrow> pfield list" where
  "record_fields g ent attrs p =
     (let t = UnixNano (ent_Time ent); sev = otlp_clampSeverity (cfg_severityOf g (ent_Level ent));
          traced = snd p \<and> sc_IsValid (fst p) in
      when_set (t \<noteq> 0) (PFixed64 1 (of_int t)) @
      when_set (sev \<noteq> 0) (PVarint 2 (of_int sev)) @
      when_set (level_String (ent_Level ent) \<noteq> []) (PLen 3 (level_String (ent_Level ent))) @
      [PLen 5 (enc_av (AStr (ent_Message ent)))] @
      map (kv_field 6) attrs @
      when_set (traced \<and> traceFlags (fst p) \<noteq> 0) (PFixed32 8 (ucast (traceFlags (fst p)))) @
      when_set traced (PLen 9 (traceID (fst p))) @
      when_set traced (PLen 10 (spanID (fst p))) @
      when_set (t \<noteq> 0) (PFixed64 11 (of_int t)))"

text \<open>Everything together: the attributes and the trace context of one call on a logger.\<close>

definition entry_meaning :: "encConfig \<Rightarrow> logged \<Rightarrow> entry \<Rightarrow> zfield list \<Rightarrow> entries \<times> spanctx \<times> bool" where
  "entry_meaning g lg ent fs =
     (case foldl log_field ((fst (fst lg) @ meta_entries g ent, snd (fst lg)), snd lg) fs of
        ((es, ns), p) \<Rightarrow> (es @ correlation_entries g p @ closed_ns ns, p))"

section \<open>Refinement\<close>

definition stands_for :: "encoder \<Rightarrow> logged \<Rightarrow> bool" where
  "stands_for e lg \<longleftrightarrow> e_state e = rep (fst lg) (Some (snd lg))"

lemma any_AStr: "anyString s = enc_av (AStr s)"
  and any_AInt: "anyInt i = enc_av (AInt i)"
  by (simp_all add: anyString_def anyInt_def append_simps)

lemma armSink_rep: "armSink p (rep c k) = rep c (Some p)"
  by (simp add: armSink_def rep_def)

lemma entry_field_rep:
  "entry_field (rep c (Some p)) f = (case log_field (c, p) f of (c', p') \<Rightarrow> rep c' (Some p'))"
proof -
  have "(rep c (Some p))\<lparr>scSink := Some q\<rparr> = rep c (Some q)" for q by (simp add: rep_def)
  then show ?thesis
    by (auto simp: entry_field_def log_field_def applyField_rep stored_def split: prod.split bool.split)
qed

lemma fold_entry_field:
  "foldl entry_field (rep (fst lg) (Some (snd lg))) fs =
     rep (fst (foldl log_field lg fs)) (Some (snd (foldl log_field lg fs)))"
proof (induction fs arbitrary: lg)
  case (Cons f fs)
  have "entry_field (rep (fst lg) (Some (snd lg))) f = rep (fst (log_field lg f)) (Some (snd (log_field lg f)))"
    using entry_field_rep [of "fst lg" "snd lg" f] by (simp add: case_prod_unfold)
  with Cons show ?case by simp
qed simp

lemma addMeta_rep:
  "addMeta e ent (rep (es, ns) k) = rep (es @ meta_entries (cfg e) ent, ns) k"
  by (simp add: addMeta_def meta_entries_def any_AStr any_AInt addKVRoot_rep Let_def del: enc_av.simps)

lemma stands_for_new: "stands_for (newEncoder o1) (([], []), (zero_spanctx, False))"
  using rep_new by (simp add: stands_for_def newEncoder_def armSink_def)

lemma stands_for_clone: "stands_for e lg \<Longrightarrow> stands_for (cloneTyped e) lg"
  by (simp add: stands_for_def cloneTyped_def clone_rep armSink_rep enc_stash_def) (simp add: rep_def)

lemma core_With_fold:
  "foldl (\<lambda>e f. e\<lparr>e_state := entry_field (e_state e) f\<rparr>) e fs = e\<lparr>e_state := foldl entry_field (e_state e) fs\<rparr>"
  by (induction fs arbitrary: e) simp_all

lemma stands_for_With:
  assumes "stands_for (core_enc c) lg"
  shows "stands_for (core_enc (core_With c fs)) (foldl log_field lg fs)"
  using stands_for_clone [OF assms] fold_entry_field [of lg fs]
  by (simp add: stands_for_def core_With_def core_With_fold)

lemma cfg_With [simp]: "cfg (core_enc (core_With c fs)) = cfg (core_enc c)"
  by (simp add: core_With_def core_With_fold cloneTyped_def)

lemma enc_when: "enc_msg (when_set b f) = (if b then enc_field f else [])"
  by (simp add: when_set_def)

lemma ucast_byte_0: "(ucast (f :: byte) :: u32) = 0 \<longleftrightarrow> f = 0"
proof -
  have "unat (ucast f :: u32) = unat f"
    using byte_unat_less [of f] by (simp add: unsigned_ucast_eq take_bit_nat_eq_self)
  then show ?thesis by (metis unat_eq_zero)
qed

lemma EncodeEntry_enc:
  assumes "stands_for e lg" and "entry_meaning (cfg e) lg ent fs = (attrs, p)"
  shows "otlp_EncodeEntry e ent fs = enc_msg (record_fields (cfg e) ent attrs p)"
proof -
  obtain es0 ns0 p0 where lg: "lg = ((es0, ns0), p0)" by (metis prod.collapse)
  obtain es ns sc b where f: "foldl log_field ((es0 @ meta_entries (cfg e) ent, ns0), p0) fs = ((es, ns), (sc, b))"
    by (metis prod.collapse)
  have a: "attrs = es @ correlation_entries (cfg e) (sc, b) @ closed_ns ns" "p = (sc, b)"
    using assms(2) f by (auto simp: entry_meaning_def lg)
  have w: "foldl entry_field (addMeta e ent (armSink (enc_stash e) (clone (e_state e)))) fs = rep (es, ns) (Some (sc, b))"
    using assms(1) fold_entry_field [of "((es0 @ meta_entries (cfg e) ent, ns0), p0)" fs] f
    by (simp add: stands_for_def lg clone_rep armSink_rep addMeta_rep enc_stash_def) (simp add: rep_def)
  have c: "(if cfg_traceCorrelationAttrs (cfg e) \<and> b \<and> sc_IsValid sc then
        addKVRoot (str ''span_id'') (anyString (hex_lower (spanID sc)))
          (addKVRoot (str ''trace_id'') (anyString (hex_lower (traceID sc))) (rep (es, ns) (Some (sc, b))))
      else rep (es, ns) (Some (sc, b))) = rep (es @ correlation_entries (cfg e) (sc, b), ns) (Some (sc, b))"
    by (simp add: correlation_entries_def any_AStr addKVRoot_rep del: enc_av.simps)
  have fl: "(ucast (traceFlags sc) :: u32) = 0 \<longleftrightarrow> traceFlags sc = 0"
    using ucast_byte_0 .
  have snk: "scSink (rep (es, ns) (Some (sc, b))) = Some (sc, b)" by (simp add: rep_def)
  show ?thesis
    unfolding otlp_EncodeEntry_def Let_def w snk option.case prod.case c sealAll_rep rep_root_buf a record_fields_def
    by (simp add: enc_msg_append enc_when fl append_simps SeverityUnspecified_def enc_kvs_def
        appendUvarint_append [of "_ @ _"])
qed

lemma EncodeEntry_logger:
  assumes "entry_meaning (cfg (newEncoder o1)) (foldl (foldl log_field) (([], []), (zero_spanctx, False)) withs) ent fs = (attrs, p)"
  shows "otlp_EncodeEntry (core_enc (foldl core_With \<lparr>enabled = en, core_enc = newEncoder o1\<rparr> withs)) ent fs =
    enc_msg (record_fields (cfg (newEncoder o1)) ent attrs p)"
proof -
  have "stands_for (core_enc (foldl core_With c withs)) (foldl (foldl log_field) lg withs) \<and>
      cfg (core_enc (foldl core_With c withs)) = cfg (core_enc c)" if "stands_for (core_enc c) lg" for c lg
    using that
  proof (induction withs arbitrary: c lg)
    case (Cons fs withs)
    from Cons.IH [OF stands_for_With [OF Cons.prems]] show ?case by simp
  qed simp
  from this [of "\<lparr>enabled = en, core_enc = newEncoder o1\<rparr>" "(([], []), (zero_spanctx, False))"] stands_for_new [of o1]
  have "stands_for (core_enc (foldl core_With \<lparr>enabled = en, core_enc = newEncoder o1\<rparr> withs))
        (foldl (foldl log_field) (([], []), (zero_spanctx, False)) withs)"
    "cfg (core_enc (foldl core_With \<lparr>enabled = en, core_enc = newEncoder o1\<rparr> withs)) = cfg (newEncoder o1)"
    by simp_all
  from EncodeEntry_enc [OF this(1)] this(2) assms show ?thesis by simp
qed

section \<open>The resource\<close>

definition resource_collected :: "otlp_options \<Rightarrow> collected" where
  "resource_collected o1 =
     foldl (\<lambda>c f. collect_more c (fst (den_field f (Suc (Suc (length (snd c)))))))
       ([(str ''service.name'', AStr (serviceName o1))], []) (resourceFields o1)"

definition scope_fields :: "otlp_options \<Rightarrow> pfield list" where
  "scope_fields o1 = when_set (scopeName o1 \<noteq> []) (PLen 1 (scopeName o1)) @
     when_set (scopeVersion o1 \<noteq> []) (PLen 2 (scopeVersion o1))"

definition below :: "bytes \<Rightarrow> collected \<Rightarrow> collected" where
  "below key c = ([], (key, fst c) # snd c)"

lemma collect_more_below: "collect_more (below key c) d = below key (collect_more c d)"
proof (cases "snd c" rule: rev_cases)
  case Nil
  then show ?thesis by (cases c; cases d) (simp add: below_def)
next
  case (snoc ns ke)
  then have "c = (fst c, ns @ [ke])" by (cases c) simp
  then show ?thesis
    using collect_more_snoc [of "[]" "(key, fst c) # ns" ke "fst d" "snd d"]
      collect_more_snoc [of "fst c" ns ke "fst d" "snd d"]
    by (simp add: below_def) (metis append_Cons fst_conv snd_conv)
qed

lemma applyField_below:
  "foldl applyField (rep (below key c) None) fs =
     rep (below key (foldl (\<lambda>c f. collect_more c (fst (den_field f (Suc (Suc (length (snd c))))))) c fs)) None"
proof (induction fs arbitrary: c)
  case (Cons f fs)
  have "length (snd (below key c)) = Suc (length (snd c))" by (simp add: below_def)
  then have "applyField (rep (below key c) None) f =
      rep (below key (collect_more c (fst (den_field f (Suc (Suc (length (snd c)))))))) None"
    by (simp add: applyField_rep collect_more_below split: prod.split)
  with Cons show ?case by simp
qed simp

lemma newEnvelope_enc:
  "newEnvelope o1 =
     \<lparr>resourceBlob = enc_kvs 1 (fst (resource_collected o1) @ closed_ns (snd (resource_collected o1))),
      scopeBlob = enc_msg (scope_fields o1)\<rparr>"
proof -
  let ?c = "resource_collected o1"
  have o: "openFrame frameKVList [] newEncState = rep (below [] ([], [])) None"
    by (simp add: openFrame_def newEncState_def rep_def below_def root_frame_def ns_frame_def)
  have l: "length (stack (rep (below [] ([], [])) None)) = 2" by (simp add: rep_def below_def)
  have a: "foldl applyField (AddString (str ''service.name'') (serviceName o1) (rep (below [] ([], [])) None)) (resourceFields o1) =
      rep (below [] ?c) None"
    by (simp add: AddString_rep collect_more_below applyField_below resource_collected_def)
  have "rep (below [] ?c) None = \<lparr>stack = [root_frame] @ ns_frame ([], fst ?c) # map ns_frame (snd ?c), scSink = None\<rparr>"
    by (simp add: rep_def below_def)
  then have s: "sealDownTo 2 (rep (below [] ?c) None) =
      \<lparr>stack = [root_frame] @ [ns_frame ([], fst ?c @ closed_ns (snd ?c))], scSink = None\<rparr>"
    using sealDownTo_ns [of "ns_frame ([], fst ?c)" "[root_frame]" "snd ?c" None] by (simp add: numeral_2_eq_2)
  show ?thesis unfolding newEnvelope_def Let_def o l a s
    by (simp add: cur_def ns_frame_def scope_fields_def enc_msg_append enc_when append_simps)
qed

lemma rollback_here: "stack s \<noteq> [] \<Longrightarrow> rollback (snap s) s = s"
  by (cases s rule: state_split) (auto simp: rollback_frame)

lemmas field_error_simps = applyField_def with_error_field_def AddString_def

section \<open>Properties\<close>

text \<open>C21: an encoded entry is exactly the proto3 LogRecord of its meaning, whatever loggers were
  derived with With before and whatever the fields' marshalers do: the time fields, the severity
  and its text, the message as the body, the attributes (fields given to With, entry metadata,
  fields of the call and correlation attributes at the root, then the open namespaces sealed
  inside each other) and, when the last trace context given is valid, its identifiers and flags.\<close>

theorem otlp_record_meaning:
  "otlp_EncodeEntry (core_enc (foldl core_With \<lparr>enabled = en, core_enc = newEncoder o1\<rparr> withs)) ent fs =
     (let g = cfg (newEncoder o1);
          logger = foldl (foldl log_field) (([], []), (zero_spanctx, False)) withs;
          (attrs, p) = entry_meaning g logger ent fs
      in enc_msg (record_fields g ent attrs p))"
  using EncodeEntry_logger by (simp add: Let_def split: prod.split)

text \<open>The resource of a writer is the proto3 encoding of service.name followed by the resource
  fields, with every namespace they opened sealed; the scope is its name and version, and is
  empty exactly when both are.\<close>

theorem otlp_resource_meaning:
  "resourceBlob (newEnvelope o1) = enc_kvs 1 (fst (resource_collected o1) @ closed_ns (snd (resource_collected o1))) \<and>
   scopeBlob (newEnvelope o1) = enc_msg (scope_fields o1) \<and>
   (scopeBlob (newEnvelope o1) = [] \<longleftrightarrow> scopeName o1 = [] \<and> scopeVersion o1 = [])"
  by (simp add: newEnvelope_enc scope_fields_def enc_msg_append enc_when append_simps)

text \<open>C23: a field that fails leaves only its error attribute. Into any state whose current container is
  not an array: an inlined object, an object, an array and a reflected value that fail, and an object or
  an array at the depth cap, add the one attribute that names the error and leave every container and
  its bytes as they were; so does each failing call inside a marshaler, for objects, arrays and reflected
  values in objects and in arrays. Only a trace context that the failed marshaler passed by reflection
  survives it, in the sink.\<close>

theorem failed_field_leaves_only_its_error:
  assumes "stack s \<noteq> []" and "kind (cur s) \<noteq> frameArray"
  shows "(\<forall>m err s1. MarshalLogObject m s = (Some err, s1) \<longrightarrow>
      applyField s (zap_Inline m) = AddString (str ''Error'') err (s\<lparr>scSink := scSink s1\<rparr>)) \<and>
    (\<forall>k m err s1. length (stack s) < maxEncodeDepth \<and> MarshalLogObject m (openFrame frameKVList k s) = (Some err, s1) \<longrightarrow>
      applyField s (zap_Object k m) = AddString (k @ str ''Error'') err (s\<lparr>scSink := scSink s1\<rparr>)) \<and>
    (\<forall>k m err s1. length (stack s) < maxEncodeDepth \<and> MarshalLogArray m (openFrame frameArray k s) = (Some err, s1) \<longrightarrow>
      applyField s (zap_Array k m) = AddString (k @ str ''Error'') err (s\<lparr>scSink := scSink s1\<rparr>)) \<and>
    (\<forall>k r err. \<not> snd (spanContextFromValue (rf_value r)) \<and> rf_json r = Inl err \<longrightarrow>
      applyField s (zap_Reflect k r) = AddString (k @ str ''Error'') err s) \<and>
    (\<forall>k m a. maxEncodeDepth \<le> length (stack s) \<longrightarrow>
      applyField s (zap_Object k m) = AddString (k @ str ''Error'') errMaxEncodeDepth s \<and>
      applyField s (zap_Array k a) = AddString (k @ str ''Error'') errMaxEncodeDepth s) \<and>
    (\<forall>t k m a r err t1. stack t \<noteq> [] \<and>
       (in_frame frameKVList k (MarshalLogObject m) t = (Some err, t1) \<or> in_frame frameArray k (MarshalLogArray a) t = (Some err, t1) \<or>
        AddReflected k r t = (Some err, t1) \<or> AppendReflected r t = (Some err, t1)) \<longrightarrow> stack t1 = stack t)"
proof (intro conjI allI impI; (elim conjE)?)
  show "applyField s (zap_Inline m) = AddString (str ''Error'') err (s\<lparr>scSink := scSink s1\<rparr>)"
    if "MarshalLogObject m s = (Some err, s1)" for m err s1
    using failed_inline [OF assms that] that by (simp add: applyField_def zap_Inline_def Let_def)
  show "applyField s (zap_Object k m) = AddString (k @ str ''Error'') err (s\<lparr>scSink := scSink s1\<rparr>)"
    if "length (stack s) < maxEncodeDepth" "MarshalLogObject m (openFrame frameKVList k s) = (Some err, s1)" for k m err s1
    using failed_object [OF assms(1) that] by (simp add: field_error_simps zap_Object_def)
  show "applyField s (zap_Array k m) = AddString (k @ str ''Error'') err (s\<lparr>scSink := scSink s1\<rparr>)"
    if "length (stack s) < maxEncodeDepth" "MarshalLogArray m (openFrame frameArray k s) = (Some err, s1)" for k m err s1
    using failed_array [OF assms(1) that] by (simp add: field_error_simps zap_Array_def)
  show "applyField s (zap_Reflect k r) = AddString (k @ str ''Error'') err s"
    if "\<not> snd (spanContextFromValue (rf_value r))" "rf_json r = Inl err" for k r err
    using that rollback_here [OF assms(1)]
    by (cases "spanContextFromValue (rf_value r)") (simp add: field_error_simps zap_Reflect_def AddReflected_def Let_def)
  show "applyField s (zap_Object k m) = AddString (k @ str ''Error'') errMaxEncodeDepth s"
    "applyField s (zap_Array k a) = AddString (k @ str ''Error'') errMaxEncodeDepth s"
    if "maxEncodeDepth \<le> length (stack s)" for k m a
    using that by (simp_all add: field_error_simps zap_Object_def zap_Array_def in_frame_def)
  show "stack t1 = stack t"
    if "stack t \<noteq> []" and "in_frame frameKVList k (MarshalLogObject m) t = (Some err, t1) \<or> in_frame frameArray k (MarshalLogArray a) t = (Some err, t1) \<or>
        AddReflected k r t = (Some err, t1) \<or> AppendReflected r t = (Some err, t1)" for t k m a r err t1
    using that(2) failed_call [OF that(1)] by blast
qed

definition failing :: omarsh where
  "failing = OAdd (str ''a'') (ZInt 1) (ONamespace (str ''n'') (OAdd (str ''b'') (ZBool True) (OReturn (Some (str ''boom'')))))"

text \<open>A marshaler that hands over a trace context before it fails, and a list with it.\<close>

definition failing_traced :: omarsh where
  "failing_traced = OAdd (str ''a'') (ZInt 1) (OReflect [] \<lparr>rf_value = AnySpanContext zero_spanctx, rf_json = Inr [], rf_decoded = Inr JNull\<rparr>
     (\<lambda>_. ONamespace (str ''n'') (OAdd (str ''b'') (ZBool True) (OReturn (Some (str ''boom''))))))"

definition failing_list :: amarsh where
  "failing_list = AAppend (ZInt 1) (AObject failing_traced (\<lambda>e. AReturn e))"

theorem failed_field_leaves_only_its_error_witness:
  "let s = e_state (newEncoder (otlp_defaultOptions \<lparr>exeBase = [], moduleVersion = []\<rparr>)) in
   applyField s (zap_Inline failing_traced) = AddString (str ''Error'') (str ''boom'') (s\<lparr>scSink := Some (zero_spanctx, True)\<rparr>) \<and>
   applyField s (zap_Array (str ''xs'') failing_list) =
     AddString (str ''xs'' @ str ''Error'') (str ''boom'') (s\<lparr>scSink := Some (zero_spanctx, True)\<rparr>)"
proof -
  define s where "s = e_state (newEncoder (otlp_defaultOptions \<lparr>exeBase = [], moduleVersion = []\<rparr>))"
  have s: "s = \<lparr>stack = [] @ [root_frame], scSink = Some (zero_spanctx, False)\<rparr>"
    by (simp add: s_def newEncoder_def armSink_def newEncState_def root_frame_def)
  let ?g = "\<lparr>kind = frameArray, nsKey = str ''xs'', fr_buf = []\<rparr>"
  have d: "\<exists>es ns. den_o failing_traced n = (Some (str ''boom''), es, ns, [zero_spanctx])" for n by (simp add: failing_traced_def)
  obtain es ns where o: "den_o failing_traced (Suc 0) = (Some (str ''boom''), es, ns, [zero_spanctx])" using d by blast
  obtain vs where a: "den_a failing_list (Suc (length [root_frame])) = (Some (str ''boom''), vs, [zero_spanctx])"
    using d [of 3] by (auto simp: failing_list_def maxEncodeDepth_def numeral_3_eq_3)
  have st: "stored [zero_spanctx] (Some (zero_spanctx, False)) = Some (zero_spanctx, True)" by (simp add: stored_def)
  note ob = o_refinesD [OF marshal_refines(1), where f = root_frame and m = failing_traced and base = "[]" and k = "Some (zero_spanctx, False)"]
  note ar = a_refinesD [OF marshal_refines(2), where f = ?g and a = failing_list and base = "[root_frame]" and k = "Some (zero_spanctx, False)",
      unfolded a prod.case st]
  obtain s1 s2 where f: "MarshalLogObject failing_traced s = (Some (str ''boom''), s1)" "scSink s1 = Some (zero_spanctx, True)"
    "MarshalLogArray failing_list (openFrame frameArray (str ''xs'') s) = (Some (str ''boom''), s2)" "scSink s2 = Some (zero_spanctx, True)"
    using ob ar by (simp add: s openFrame_def root_frame_def o st)
  have n: "stack s \<noteq> []" "kind (cur s) \<noteq> frameArray" "length (stack s) < maxEncodeDepth"
    by (simp_all add: s_def newEncoder_def armSink_def newEncState_def cur_def maxEncodeDepth_def)
  note p = failed_field_leaves_only_its_error [OF n(1,2)]
  have i: "applyField s (zap_Inline failing_traced) = AddString (str ''Error'') (str ''boom'') (s\<lparr>scSink := scSink s1\<rparr>)"
    using p [THEN conjunct1] f(1) by blast
  have l: "applyField s (zap_Array (str ''xs'') failing_list) =
      AddString (str ''xs'' @ str ''Error'') (str ''boom'') (s\<lparr>scSink := scSink s2\<rparr>)"
    using p [THEN conjunct2, THEN conjunct2, THEN conjunct1] f(3) n(3) by blast
  show ?thesis unfolding Let_def s_def [symmetric] i l f(2) f(4) by (rule conjI [OF refl refl])
qed

end
