(* ===== verification/Otlp_Receiver.thy ===== *)
theory Otlp_Receiver
  imports Otlp_Encoder
begin

text \<open>
  A receiver of the OTLP data model, the specification against which the encoder's bytes are read:
  it scans a LogRecord with the wire format and rebuilds the attribute tree. What the encoder
  writes is read back unchanged.
\<close>

section \<open>Reading attribute trees\<close>

lemma wire_step_payload: "wire_step b = Some (num, WLen p, rest) \<Longrightarrow> length p < length b"
  using Uvarint_count [of b] Uvarint_count [of "drop _ b"]
  by (fastforce simp: wire_step_def Let_def split: if_splits prod.splits)

lemma wire_step_nested:
  "wire_step b = Some (n, v, rest) \<Longrightarrow> wire_step rest = Some (m, WLen p, r) \<Longrightarrow> length p < length b"
  using wire_step_payload wire_step_shorter by (meson less_trans)

text \<open>An AnyValue, the elements of an ArrayValue, and the entries of the repeated KeyValue field \<open>n\<close>.\<close>

function dec_av :: "bytes \<Rightarrow> av option"
  and dec_avs :: "bytes \<Rightarrow> av list option"
  and dec_kvs :: "nat \<Rightarrow> bytes \<Rightarrow> (bytes \<times> av) list option"
  and dec_kv :: "bytes \<Rightarrow> (bytes \<times> av) option" where
  "dec_av b =
     (case wire_step b of
        Some (num, v, []) \<Rightarrow>
          (case v of
             WVarint x \<Rightarrow> (if num = 2 then Some (ABool (x \<noteq> 0)) else if num = 3 then Some (AInt (sint x)) else None)
           | WFixed64 x \<Rightarrow> (if num = 4 then Some (ADouble (le64_read x)) else None)
           | WLen p \<Rightarrow>
               (if num = 1 then Some (AStr p) else if num = 7 then Some (ABytes p)
                else if num = 5 then map_option AList (dec_avs p)
                else if num = 6 then map_option AKV (dec_kvs 1 p) else None)
           | WFixed32 x \<Rightarrow> None)
      | _ \<Rightarrow> None)"
| "dec_avs b =
     (if b = [] then Some []
      else case wire_step b of
        Some (num, WLen p, rest) \<Rightarrow>
          (if num = 1 then
             (case dec_av p of None \<Rightarrow> None | Some v \<Rightarrow> map_option (\<lambda>vs. v # vs) (dec_avs rest))
           else None)
      | _ \<Rightarrow> None)"
| "dec_kvs n b =
     (if b = [] then Some []
      else case wire_step b of
        Some (num, WLen p, rest) \<Rightarrow>
          (if num = n then
             (case dec_kv p of None \<Rightarrow> None | Some kv \<Rightarrow> map_option (\<lambda>kvs. kv # kvs) (dec_kvs n rest))
           else None)
      | _ \<Rightarrow> None)"
| "dec_kv b =
     (case wire_step b of
        Some (num, WLen k, rest) \<Rightarrow>
          (if num = 1 then
             (case wire_step rest of
                Some (num', WLen p, []) \<Rightarrow> (if num' = 2 then map_option (\<lambda>v. (k, v)) (dec_av p) else None)
              | _ \<Rightarrow> None)
           else None)
      | _ \<Rightarrow> None)"
  by pat_completeness auto
termination
  by (relation "measure (\<lambda>x. case x of Inl (Inl b) \<Rightarrow> length b | Inl (Inr b) \<Rightarrow> length b
       | Inr (Inl (n, b)) \<Rightarrow> length b | Inr (Inr b) \<Rightarrow> length b)")
    (auto dest: wire_step_payload wire_step_shorter intro: wire_step_nested)

declare dec_av.simps [simp del] dec_avs.simps [simp del] dec_kvs.simps [simp del] dec_kv.simps [simp del]

section \<open>Reading back what was written\<close>

text \<open>Integers are 64-bit, as Go's are.\<close>

fun ints_ok :: "av \<Rightarrow> bool" where
  "ints_ok (AInt i) \<longleftrightarrow> - (2 ^ 63) \<le> i \<and> i < 2 ^ 63"
| "ints_ok (AList vs) \<longleftrightarrow> list_all ints_ok vs"
| "ints_ok (AKV kvs) \<longleftrightarrow> list_all (\<lambda>(k, v). ints_ok v) kvs"
| "ints_ok _ \<longleftrightarrow> True"

lemma wire_step_enc_Nil: "field_ok f \<Longrightarrow> wire_step (enc_field f) = Some (field_num f, field_val f, [])"
  using wire_step_enc [of f "[]"] by simp

lemma length_PLen_less: "length p < length (enc_field (PLen k p))"
  by (simp add: append_simps)

lemma dec_avs_enc:
  assumes "\<And>v. v \<in> set vs \<Longrightarrow> length (enc_av v) < 2 ^ 64 \<Longrightarrow> dec_av (enc_av v) = Some v"
    and "length (enc_avs vs) < 2 ^ 64"
  shows "dec_avs (enc_avs vs) = Some vs"
  using assms
proof (induction vs)
  case Nil
  then show ?case by (simp add: dec_avs.simps)
next
  case (Cons v vs)
  have e: "enc_avs (v # vs) = enc_field (PLen 1 (enc_av v)) @ enc_avs vs"
    by (simp add: enc_avs_def del: enc_field.simps)
  have l: "length (enc_av v) < 2 ^ 64" "length (enc_avs vs) < 2 ^ 64"
    using Cons.prems(2) length_PLen_less [of "enc_av v" 1] unfolding e length_append by linarith+
  have "wire_step (enc_field (PLen 1 (enc_av v)) @ enc_avs vs) = Some (1, WLen (enc_av v), enc_avs vs)"
    using l(1) wire_step_enc [of "PLen 1 (enc_av v)"] by simp
  then show ?case unfolding e using Cons.IH Cons.prems(1) l
    by (subst dec_avs.simps) (simp del: enc_field.simps)
qed

lemma dec_kv_enc:
  assumes "dec_av (enc_av v) = Some v" and "length (enc_msg [PLen 1 k, PLen 2 (enc_av v)]) < 2 ^ 64"
  shows "dec_kv (enc_msg [PLen 1 k, PLen 2 (enc_av v)]) = Some (k, v)"
proof -
  have "length k < 2 ^ 64" "length (enc_av v) < 2 ^ 64"
    using assms(2) length_PLen_less [of k 1] length_PLen_less [of "enc_av v" 2]
    unfolding enc_msg_Cons enc_msg_Nil length_append by linarith+
  then have "wire_step (enc_field (PLen 1 k) @ enc_field (PLen 2 (enc_av v))) = Some (1, WLen k, enc_field (PLen 2 (enc_av v)))"
    "wire_step (enc_field (PLen 2 (enc_av v))) = Some (2, WLen (enc_av v), [])"
    using wire_step_enc [of "PLen 1 k"] wire_step_enc_Nil [of "PLen 2 (enc_av v)"] by simp_all
  with assms(1) show ?thesis by (simp add: dec_kv.simps del: enc_field.simps)
qed

lemma kv_field_length:
  assumes "length (enc_field (kv_field n (k, v))) < 2 ^ 64"
  shows "length (enc_msg [PLen 1 k, PLen 2 (enc_av v)]) < 2 ^ 64" "length (enc_av v) < 2 ^ 64"
proof -
  show a: "length (enc_msg [PLen 1 k, PLen 2 (enc_av v)]) < 2 ^ 64"
    using assms length_PLen_less [of "enc_msg [PLen 1 k, PLen 2 (enc_av v)]" n]
    unfolding kv_field_def fst_conv snd_conv by linarith
  show "length (enc_av v) < 2 ^ 64"
    using a length_PLen_less [of "enc_av v" 2] unfolding enc_msg_Cons enc_msg_Nil length_append by linarith
qed

lemma dec_kvs_enc:
  assumes "\<And>k v. (k, v) \<in> set kvs \<Longrightarrow> length (enc_av v) < 2 ^ 64 \<Longrightarrow> dec_av (enc_av v) = Some v"
    and "length (enc_kvs n kvs) < 2 ^ 64" and "n < 16"
  shows "dec_kvs n (enc_kvs n kvs) = Some kvs"
  using assms(1,2)
proof (induction kvs)
  case Nil
  then show ?case by (simp add: dec_kvs.simps)
next
  case (Cons kv kvs)
  obtain k v where kv: "kv = (k, v)" by (cases kv)
  let ?p = "enc_msg [PLen 1 k, PLen 2 (enc_av v)]"
  have e: "enc_kvs n (kv # kvs) = enc_field (PLen n ?p) @ enc_kvs n kvs"
    by (simp add: enc_kvs_def kv_field_def kv del: enc_field.simps)
  have le: "length (enc_field (kv_field n (k, v))) < 2 ^ 64" "length (enc_kvs n kvs) < 2 ^ 64"
    using Cons.prems(2) unfolding e length_append kv_field_def by simp_all
  note l = kv_field_length [OF le(1)]
  have "wire_step (enc_field (PLen n ?p) @ enc_kvs n kvs) = Some (n, WLen ?p, enc_kvs n kvs)"
    using l(1) assms(3) wire_step_enc [of "PLen n ?p"] by simp
  moreover have "dec_kv ?p = Some (k, v)"
    using l Cons.prems(1) by (intro dec_kv_enc) (auto simp: kv)
  moreover have "dec_kvs n (enc_kvs n kvs) = Some kvs"
    using Cons.prems(1) le(2) by (intro Cons.IH) auto
  ultimately show ?case unfolding e
    by (subst dec_kvs.simps) (simp add: kv del: enc_field.simps enc_msg_Cons)
qed

lemma dec_av_enc: "ints_ok v \<Longrightarrow> length (enc_av v) < 2 ^ 64 \<Longrightarrow> dec_av (enc_av v) = Some v"
proof (induction v)
  case (AKV kvs)
  have l: "length (enc_kvs 1 kvs) < 2 ^ 64"
    using AKV.prems(2) length_PLen_less [of "enc_kvs 1 kvs" 6] unfolding enc_av_containers enc_msg_Cons by simp
  have "dec_kvs 1 (enc_kvs 1 kvs) = Some kvs"
    using AKV l by (intro dec_kvs_enc) (auto simp: list_all_iff)
  then show ?case using l wire_step_enc_Nil [of "PLen 6 (enc_kvs 1 kvs)"]
    unfolding enc_av_containers by (simp add: dec_av.simps del: enc_field.simps)
next
  case (AList vs)
  have l: "length (enc_avs vs) < 2 ^ 64"
    using AList.prems(2) length_PLen_less [of "enc_avs vs" 5] unfolding enc_av_containers enc_msg_Cons by simp
  have "dec_avs (enc_avs vs) = Some vs"
    using AList l by (intro dec_avs_enc) (auto simp: list_all_iff)
  then show ?case using l wire_step_enc_Nil [of "PLen 5 (enc_avs vs)"]
    unfolding enc_av_containers by (simp add: dec_av.simps del: enc_field.simps)
next
  case (AStr s)
  then have "length s < 2 ^ 64" using length_PLen_less [of s 1] unfolding enc_av.simps enc_msg_Cons enc_msg_Nil by simp
  then show ?case using wire_step_enc_Nil [of "PLen 1 s"] by (simp add: dec_av.simps del: enc_field.simps)
next
  case (ABytes s)
  then have "length s < 2 ^ 64" using length_PLen_less [of s 7] unfolding enc_av.simps enc_msg_Cons enc_msg_Nil by simp
  then show ?case using wire_step_enc_Nil [of "PLen 7 s"] by (simp add: dec_av.simps del: enc_field.simps)
next
  case (ABool b)
  show ?case using wire_step_enc_Nil [of "PVarint 2 (if b then 1 else 0)"]
    by (simp add: dec_av.simps del: enc_field.simps)
next
  case (AInt i)
  then show ?case using wire_step_enc_Nil [of "PVarint 3 (of_int i)"]
    by (simp add: dec_av.simps sint_of_int64 del: enc_field.simps)
next
  case (ADouble d)
  show ?case using wire_step_enc_Nil [of "PFixed64 4 d"] le64_read_le64 [of d "[]"]
    by (simp add: dec_av.simps del: enc_field.simps)
qed

section \<open>Reading a log record\<close>

record log_record =
  lr_body :: av
  lr_severity :: u64
  lr_attrs :: "(bytes \<times> av) list"
  lr_trace :: "(bytes \<times> bytes) option"

definition read_record :: "bytes \<Rightarrow> log_record option" where
  "read_record b =
     (case (findField b 5, findVarint b 2, findField b 9, findField b 10,
            those (map dec_kv (snd (forEachLenField b 6 (\<lambda>p acc. (True, acc @ [p])) [])))) of
        (Inr (Some body), Inr sev, Inr tid, Inr sid, Some attrs) \<Rightarrow>
          map_option (\<lambda>v. \<lparr>lr_body = v, lr_severity = sev, lr_attrs = attrs,
            lr_trace = (case (tid, sid) of (Some t, Some s) \<Rightarrow> Some (t, s) | _ \<Rightarrow> None)\<rparr>) (dec_av body)
      | _ \<Rightarrow> None)"

lemma length_enc_member: "f \<in> set fs \<Longrightarrow> length (enc_field f) \<le> length (enc_msg fs)"
  by (induction fs) (auto simp del: enc_field.simps)

lemma field_ok_short:
  assumes "f \<in> set fs" and "length (enc_msg fs) < 2 ^ 64" and "field_num f < 16"
  shows "field_ok f"
proof (cases f)
  case (PLen k p)
  then show ?thesis
    using assms length_enc_member [OF assms(1)] length_PLen_less [of p k] by (simp del: enc_field.simps)
qed (use assms in simp_all)

lemma record_fields_num: "f \<in> set (record_fields g ent attrs p) \<Longrightarrow> field_num f < 16"
  by (auto simp: record_fields_def when_set_def kv_field_def Let_def split: if_splits)

lemma last_len_kv: "k \<noteq> n \<Longrightarrow> last_len k acc (map (kv_field n) attrs) = acc"
  and last_varint_kv: "last_varint k acc' (map (kv_field n) attrs) = acc'"
  by (induction attrs) (simp_all add: kv_field_def)

lemma those_map_Some: "(\<And>x. x \<in> set xs \<Longrightarrow> f (g x) = Some x) \<Longrightarrow> those (map (f \<circ> g) xs) = Some xs"
  by (induction xs) simp_all

lemma collect_attrs:
  "concat (map (\<lambda>f. case f of PLen j q \<Rightarrow> if j = 6 then [q] else [] | _ \<Rightarrow> []) (record_fields g ent attrs p)) =
     map (\<lambda>kv. enc_msg [PLen 1 (fst kv), PLen 2 (enc_av (snd kv))]) attrs"
proof -
  have "concat (map (\<lambda>f. case f of PLen j q \<Rightarrow> if j = 6 then [q] else [] | _ \<Rightarrow> []) (map (kv_field 6) attrs)) =
     map (\<lambda>kv. enc_msg [PLen 1 (fst kv), PLen 2 (enc_av (snd kv))]) attrs"
    by (induction attrs) (simp_all add: kv_field_def)
  then show ?thesis by (simp add: record_fields_def when_set_def Let_def del: map_map)
qed

lemma read_record_fields:
  assumes fs_def: "fs = record_fields g ent attrs p"
    and "length (enc_msg fs) < 2 ^ 64" and "\<And>k v. (k, v) \<in> set attrs \<Longrightarrow> ints_ok v"
  shows "read_record (enc_msg fs) =
    Some \<lparr>lr_body = AStr (ent_Message ent),
          lr_severity = of_int (otlp_clampSeverity (cfg_severityOf g (ent_Level ent))),
          lr_attrs = attrs,
          lr_trace = (if snd p \<and> sc_IsValid (fst p) then Some (traceID (fst p), spanID (fst p)) else None)\<rparr>"
proof -
  have ok: "\<forall>f\<in>set fs. field_ok f"
    using assms(2) by (auto simp: fs_def intro: field_ok_short record_fields_num)
  have body: "length (enc_av (AStr (ent_Message ent))) < 2 ^ 64"
  proof -
    have "PLen 5 (enc_av (AStr (ent_Message ent))) \<in> set fs" by (simp add: fs_def record_fields_def Let_def)
    with ok have "field_ok (PLen 5 (enc_av (AStr (ent_Message ent))))" by blast
    then show ?thesis by simp
  qed
  have kvs: "dec_kv (enc_msg [PLen 1 k, PLen 2 (enc_av v)]) = Some (k, v)" if "(k, v) \<in> set attrs" for k v
  proof -
    have "kv_field 6 (k, v) \<in> set fs" using that by (force simp: fs_def record_fields_def Let_def)
    from length_enc_member [OF this] assms(2) have "length (enc_field (kv_field 6 (k, v))) < 2 ^ 64" by simp
    from kv_field_length [OF this] assms(3) [OF that] show ?thesis by (intro dec_kv_enc dec_av_enc)
  qed
  have "those (map dec_kv (map (\<lambda>kv. enc_msg [PLen 1 (fst kv), PLen 2 (enc_av (snd kv))]) attrs)) = Some attrs"
    unfolding map_map using kvs by (intro those_map_Some) (auto simp del: enc_msg_Cons)
  moreover have "forEachLenField (enc_msg fs) 6 (\<lambda>p acc. (True, acc @ [p])) [] =
      (None, map (\<lambda>kv. enc_msg [PLen 1 (fst kv), PLen 2 (enc_av (snd kv))]) attrs)"
    unfolding forEachLenField_collect [OF ok] by (simp only: fs_def collect_attrs append_Nil)
  moreover have "last_len 5 None fs = Some (enc_av (AStr (ent_Message ent)))"
    "last_len 9 None fs = (if snd p \<and> sc_IsValid (fst p) then Some (traceID (fst p)) else None)"
    "last_len 10 None fs = (if snd p \<and> sc_IsValid (fst p) then Some (spanID (fst p)) else None)"
    "last_varint 2 0 fs = of_int (otlp_clampSeverity (cfg_severityOf g (ent_Level ent)))"
    by (auto simp: fs_def record_fields_def when_set_def Let_def last_len_append last_len_kv last_varint_append
        last_varint_kv)
  ultimately show ?thesis
    unfolding read_record_def findField_enc_msg [OF ok] findVarint_enc_msg [OF ok]
    using dec_av_enc [of "AStr (ent_Message ent)"] body by (simp del: enc_av.simps)
qed

section \<open>Property\<close>

text \<open>C22: a receiver reads back from an encoded entry exactly its message, its severity, the
  attribute tree the loggers, the metadata and the fields describe, and the identifiers of the
  last valid trace context, whenever the record is shorter than 2^64 bytes and the integers of
  its attributes are 64-bit.\<close>

theorem otlp_record_roundtrip:
  assumes "rec = otlp_EncodeEntry (core_enc (foldl core_With \<lparr>enabled = en, core_enc = newEncoder o1\<rparr> withs)) ent fs"
    and "length rec < 2 ^ 64"
    and "entry_meaning (cfg (newEncoder o1)) (foldl (foldl log_field) (([], []), (zero_spanctx, False)) withs) ent fs =
      (attrs, sc, given)"
    and "\<forall>(k, v)\<in>set attrs. ints_ok v"
  shows "read_record rec =
    Some \<lparr>lr_body = AStr (ent_Message ent),
          lr_severity = of_int (otlp_clampSeverity (o_severityOf o1 (ent_Level ent))),
          lr_attrs = attrs,
          lr_trace = (if given \<and> sc_IsValid sc then Some (traceID sc, spanID sc) else None)\<rparr>"
proof -
  have "rec = enc_msg (record_fields (cfg (newEncoder o1)) ent attrs (sc, given))"
    using assms(1,3) EncodeEntry_logger by simp
  moreover have "ints_ok v" if "(k, v) \<in> set attrs" for k v using assms(4) that by auto
  ultimately show ?thesis
    using read_record_fields [OF refl, of "cfg (newEncoder o1)" ent attrs "(sc, given)"] assms(2)
    by (simp add: newEncoder_def)
qed

definition sample_entry :: entry where
  "sample_entry = \<lparr>ent_Level = InfoLevel, ent_Time = \<lparr>unixSec = 0, nsec = 1\<rparr>, ent_LoggerName = [],
     ent_Message = [109], ent_Caller = \<lparr>Defined = False, File = [], Line = 0, Function = []\<rparr>, ent_Stack = []\<rparr>"

definition sample_options :: otlp_options where
  "sample_options = otlp_defaultOptions \<lparr>exeBase = [], moduleVersion = []\<rparr>"

theorem otlp_record_roundtrip_witness:
  "read_record (otlp_EncodeEntry (core_enc (foldl core_With \<lparr>enabled = (\<lambda>_. True), core_enc = newEncoder sample_options\<rparr>
       [[zap_Namespace [110]]])) sample_entry [zap_Object [111] failing, zap_String [107] [118]]) =
     Some \<lparr>lr_body = AStr [109], lr_severity = 9,
       lr_attrs = [([110], AKV [([111] @ str ''Error'', AStr (str ''boom'')), ([107], AStr [118])])], lr_trace = None\<rparr>"
proof -
  let ?rec = "otlp_EncodeEntry (core_enc (foldl core_With \<lparr>enabled = (\<lambda>_. True), core_enc = newEncoder sample_options\<rparr>
       [[zap_Namespace [110]]])) sample_entry [zap_Object [111] failing, zap_String [107] [118]]"
  have m: "entry_meaning (cfg (newEncoder sample_options)) (foldl (foldl log_field) (([], []), (zero_spanctx, False)) [[zap_Namespace [110]]])
      sample_entry [zap_Object [111] failing, zap_String [107] [118]] =
      ([([110], AKV [([111] @ str ''Error'', AStr (str ''boom'')), ([107], AStr [118])])], (zero_spanctx, False))"
    by code_simp
  have "length ?rec < 100" by code_simp
  then have l: "length ?rec < 2 ^ 64" by simp
  have s: "otlp_clampSeverity (o_severityOf sample_options (ent_Level sample_entry)) = 9" by code_simp
  show ?thesis using otlp_record_roundtrip [OF refl l m] s by (simp add: sample_entry_def)
qed

end
