(* ===== verification/Otlp_Writer.thy ===== *)
theory Otlp_Writer
  imports Otlp_Envelope Otlp_Options Interleaving
begin

text \<open>
  \<^verbatim>\<open>otlp/transport.go\<close> and \<^verbatim>\<open>otlp/writer.go\<close>: the outcome of a request, the export of one
  batch with retries, the flush goroutine's byte-aware batching, and the operations of the
  exporter. A transport is its \<^verbatim>\<open>prepare\<close>, a function of the assembled request, and its
  \<^verbatim>\<open>attempt\<close>, whose answers (with the clock readings, the jitter and the cancellations seen
  around each attempt) are supplied by the environment of an export.
\<close>

section \<open>Request outcomes\<close>

record prepared =
  body :: bytes
  compressed :: bool
  warn :: "ExportError option"
  fail :: "ExportError option"

record acceptance =
  rejected :: int
  event :: "ExportError option"

definition classifyAccept :: "int \<Rightarrow> bytes \<Rightarrow> go_error option \<Rightarrow> ExportError \<Rightarrow> acceptance option" where
  "classifyAccept rej msg derr base =
     (case derr of
        Some d \<Rightarrow> Some \<lparr>rejected = 0, event = Some (base\<lparr>Err := Some d\<rparr>)\<rparr>
      | None \<Rightarrow>
          if rej > 0 then
            Some \<lparr>rejected = rej, event = Some (base\<lparr>Rejected := rej, Message := msg\<rparr>)\<rparr>
          else if msg \<noteq> [] then
            Some \<lparr>rejected = 0, event = Some (base\<lparr>IsWarning := True, Message := msg\<rparr>)\<rparr>
          else None)"

definition proto_error_text :: "proto_error \<Rightarrow> go_error" where
  "proto_error_text e = str ''otlp: truncated export response''"

definition resolveAccept :: "bytes \<Rightarrow> ExportError \<Rightarrow> acceptance option" where
  "resolveAccept respMsg base =
     (case decodePartialSuccess respMsg of
        Inl e \<Rightarrow> classifyAccept 0 [] (Some (proto_error_text e)) base
      | Inr (rej, msg) \<Rightarrow> classifyAccept rej msg None base)"

section \<open>State\<close>

text \<open>
  The fields after \<open>ow_closed\<close> record effects: the events handed to the error handler, the
  batches given to \<^verbatim>\<open>export\<close>, and what each call of \<^verbatim>\<open>attempt\<close> was given to post.
\<close>

record otlp_writer =
  ow_prepare :: "bytes \<Rightarrow> prepared"
  ow_retry :: RetryConfig
  ow_maxBytes :: int
  ow_batchSize :: int
  ow_drainEvery :: int
  ow_dropPolicy :: DropPolicy
  ow_env :: envelope
  ow_queue :: "bytes chan"
  ow_dropped :: u64
  ow_closed :: bool
  ow_events :: "ExportError list"
  ow_sent :: "bytes list list"
  ow_posts :: "prepared list"

definition newWriterCore :: "(bytes \<Rightarrow> prepared) \<Rightarrow> envelope \<Rightarrow> otlp_options \<Rightarrow> otlp_writer" where
  "newWriterCore prep env o1 =
     \<lparr>ow_prepare = prep, ow_retry = retry o1, ow_maxBytes = maxRequestBytes o1,
      ow_batchSize = o_batchSize o1, ow_drainEvery = drainTimeout o1, ow_dropPolicy = o_dropPolicy o1,
      ow_env = env, ow_queue = make_chan (nat (queueSize o1)), ow_dropped = 0, ow_closed = False,
      ow_events = [], ow_sent = [], ow_posts = []\<rparr>"

definition otlp_DroppedLogs :: "otlp_writer \<Rightarrow> u64" where "otlp_DroppedLogs w = ow_dropped w"

definition report :: "ExportError \<Rightarrow> otlp_writer \<Rightarrow> otlp_writer" where
  "report e w = w\<lparr>ow_events := ow_events w @ [e]\<rparr>"

definition drop_logs :: "int \<Rightarrow> ExportError option \<Rightarrow> otlp_writer \<Rightarrow> otlp_writer" where
  "drop_logs n err w =
     (let w1 = w\<lparr>ow_dropped := ow_dropped w + of_int n\<rparr>
      in case err of Some e \<Rightarrow> report e w1 | None \<Rightarrow> w1)"

section \<open>Exporting one batch\<close>

text \<open>
  What one export meets, by the number of the attempt: the answer, the clock after it, the
  random jitter, and whether the lifecycle context was cancelled after the attempt and during
  the sleep.
\<close>

record export_env =
  ee_now0 :: int
  ee_now1 :: int
  ee_answer :: "nat \<Rightarrow> (ExportError, acceptance option) result"
  ee_now :: "nat \<Rightarrow> int"
  ee_jitter :: "nat \<Rightarrow> int"
  ee_cancelled :: "nat \<Rightarrow> bool"
  ee_cancelledInSleep :: "nat \<Rightarrow> bool"

definition settle_accept :: "acceptance option \<Rightarrow> otlp_writer \<Rightarrow> otlp_writer" where
  "settle_accept accept w =
     (case accept of
        None \<Rightarrow> w
      | Some a \<Rightarrow>
          if rejected a > 0 then drop_logs (rejected a) (event a) w
          else (case event a of Some e \<Rightarrow> report e w | None \<Rightarrow> w))"

definition retry_delay :: "int \<Rightarrow> int \<Rightarrow> ExportError \<Rightarrow> int" where
  "retry_delay delay jitter e =
     (if retryAfter e > 0 then retryAfter e else delay div 2 + jitter)"

definition next_delay :: "RetryConfig \<Rightarrow> int \<Rightarrow> int" where
  "next_delay r delay =
     (if wrap64 (delay * 2) > MaxInterval r then MaxInterval r else wrap64 (delay * 2))"

text \<open>The retry loop; none stands for a loop that never ends.\<close>

partial_function (option) export_loop ::
  "export_env \<Rightarrow> bool \<Rightarrow> prepared \<Rightarrow> int \<Rightarrow> int \<Rightarrow> nat \<Rightarrow> int \<Rightarrow> otlp_writer \<Rightarrow> otlp_writer option" where
  "export_loop env allowRetry p n deadline k delay w =
     (let w1 = w\<lparr>ow_posts := ow_posts w @ [p]\<rparr> in
      case ee_answer env k of
        Inr accept \<Rightarrow> Some (settle_accept accept w1)
      | Inl e \<Rightarrow>
          if \<not> allowRetry \<or> \<not> Retryable e \<or> ee_cancelled env k then Some (drop_logs n (Some e) w1)
          else if ee_now env k + retry_delay delay (ee_jitter env k) e > deadline
          then Some (drop_logs n (Some e) w1)
          else if ee_cancelledInSleep env k then Some (drop_logs n (Some e) w1)
          else export_loop env allowRetry p n deadline (Suc k) (next_delay (ow_retry w1) delay) w1)"

definition drain_timeout_error :: ExportError where
  "drain_timeout_error = no_export_error\<lparr>Message := str ''drain timeout exceeded''\<rparr>"

text \<open>A zero \<^verbatim>\<open>drainDeadline\<close> is none.\<close>

definition export :: "export_env \<Rightarrow> bytes list \<Rightarrow> bool \<Rightarrow> int option \<Rightarrow> otlp_writer \<Rightarrow> otlp_writer option" where
  "export env records allowRetry drainDeadline w0 =
     (if length records = 0 then Some w0
      else
        (let w = w0\<lparr>ow_sent := ow_sent w0 @ [records]\<rparr>; n = int (length records) in
         if (case drainDeadline of Some dd \<Rightarrow> \<not> ee_now0 env < dd | None \<Rightarrow> False)
         then Some (drop_logs n (Some drain_timeout_error) w)
         else
           (let p = ow_prepare w (assemble (ow_env w) [] records) in
            case fail p of
              Some e \<Rightarrow> Some (drop_logs n (Some e) w)
            | None \<Rightarrow>
                (let w1 = (case warn p of Some e \<Rightarrow> report e w | None \<Rightarrow> w);
                     deadline0 = ee_now1 env + MaxElapsed (ow_retry w1);
                     deadline = (case drainDeadline of
                                   Some dd \<Rightarrow> if dd < deadline0 then dd else deadline0
                                 | None \<Rightarrow> deadline0)
                 in export_loop env allowRetry p n deadline 0 (Initial (ow_retry w1)) w1))))"

section \<open>Write\<close>

definition record_too_big :: ExportError where
  "record_too_big = no_export_error\<lparr>Message := str ''record exceeds WithMaxRequestBytes''\<rparr>"

definition add_dropped1 :: "otlp_writer \<Rightarrow> otlp_writer" where
  "add_dropped1 w = w\<lparr>ow_dropped := ow_dropped w + 1\<rparr>"

definition otlp_Write :: "bytes \<Rightarrow> otlp_writer \<Rightarrow> nat \<times> otlp_writer" where
  "otlp_Write p w =
     (if ow_closed w then (length p, w)
      else if int (sizeFor (ow_env w) (recordCost (length p))) > ow_maxBytes w
      then (length p, report record_too_big (add_dropped1 w))
      else
        (case try_send (ow_queue w) p of
           Some q \<Rightarrow> (length p, w\<lparr>ow_queue := q\<rparr>)
         | None \<Rightarrow>
             if ow_dropPolicy w = DropOldest then
               (let w1 = (case try_recv (ow_queue w) of
                            Some (_, q) \<Rightarrow> add_dropped1 (w\<lparr>ow_queue := q\<rparr>)
                          | None \<Rightarrow> w)
                in case try_send (ow_queue w1) p of
                     Some q \<Rightarrow> (length p, w1\<lparr>ow_queue := q\<rparr>)
                   | None \<Rightarrow> (length p, add_dropped1 w1))
             else (length p, add_dropped1 w)))"

section \<open>The flush goroutine\<close>

text \<open>
  \<^verbatim>\<open>flush\<close>, \<^verbatim>\<open>add\<close> and \<^verbatim>\<open>drainQueued\<close> of \<^verbatim>\<open>run\<close>, over any way of exporting a
  batch; the state of the loop is the batch, its tagged cost, and the writer.
\<close>

type_synonym 'w loop = "bytes list \<times> nat \<times> 'w"

definition run_flush :: "(bytes list \<Rightarrow> 'w \<Rightarrow> 'w option) \<Rightarrow> 'w loop \<Rightarrow> 'w loop option" where
  "run_flush ef st =
     (case st of (batch, tagged, w) \<Rightarrow>
        if length batch > 0 then map_option (\<lambda>w'. ([], 0, w')) (ef batch w)
        else Some (batch, tagged, w))"

definition run_add :: "envelope \<Rightarrow> int \<Rightarrow> int \<Rightarrow> (bytes list \<Rightarrow> 'w \<Rightarrow> 'w option) \<Rightarrow> bytes \<Rightarrow>
    'w loop \<Rightarrow> 'w loop option" where
  "run_add env maxBytes bsize ef r st =
     (let cost = recordCost (length r) in
      case st of (batch, tagged, w) \<Rightarrow>
        (case (if length batch > 0 \<and> int (sizeFor env (tagged + cost)) > maxBytes
               then run_flush ef (batch, tagged, w) else Some (batch, tagged, w)) of
           None \<Rightarrow> None
         | Some (batch1, tagged1, w1) \<Rightarrow>
             (let batch2 = batch1 @ [r]; tagged2 = tagged1 + cost in
              if int (length batch2) \<ge> bsize \<or> int (sizeFor env tagged2) \<ge> maxBytes
              then run_flush ef (batch2, tagged2, w1) else Some (batch2, tagged2, w1))))"

fun run_adds :: "envelope \<Rightarrow> int \<Rightarrow> int \<Rightarrow> (bytes list \<Rightarrow> 'w \<Rightarrow> 'w option) \<Rightarrow> bytes list \<Rightarrow>
    'w loop \<Rightarrow> 'w loop option" where
  "run_adds env maxBytes bsize ef [] st = Some st"
| "run_adds env maxBytes bsize ef (r # rs) st =
     (case run_add env maxBytes bsize ef r st of
        None \<Rightarrow> None
      | Some st' \<Rightarrow> run_adds env maxBytes bsize ef rs st')"

text \<open>Draining the queued records, in their order, then flushing.\<close>

definition run_drainQueued :: "envelope \<Rightarrow> int \<Rightarrow> int \<Rightarrow> (bytes list \<Rightarrow> 'w \<Rightarrow> 'w option) \<Rightarrow>
    bytes list \<Rightarrow> 'w loop \<Rightarrow> 'w loop option" where
  "run_drainQueued env maxBytes bsize ef queued st =
     (case run_adds env maxBytes bsize ef queued st of
        None \<Rightarrow> None
      | Some st' \<Rightarrow> run_flush ef st')"

text \<open>\<^verbatim>\<open>drainBudget\<close>: the shared deadline of a Sync or Close drain.\<close>

definition drainBudget :: "int \<Rightarrow> otlp_writer \<Rightarrow> int option" where
  "drainBudget now w = (if ow_drainEvery w > 0 then Some (now + ow_drainEvery w) else None)"

text \<open>
  One turn of \<^verbatim>\<open>run\<close>, by the case its \<^verbatim>\<open>select\<close> chose. The environments of the exports
  are numbered by the batches exported so far; \<open>now\<close> is the clock when a drain starts.
\<close>

datatype run_event = RunCancelled | RunFlushReq | RunTick | RunRecord

definition export_kth :: "(nat \<Rightarrow> export_env) \<Rightarrow> bool \<Rightarrow> int option \<Rightarrow> bytes list \<Rightarrow> otlp_writer \<Rightarrow>
    otlp_writer option" where
  "export_kth envs allowRetry dd records w = export (envs (length (ow_sent w))) records allowRetry dd w"

definition run_turn :: "run_event \<Rightarrow> (nat \<Rightarrow> export_env) \<Rightarrow> int \<Rightarrow> otlp_writer loop \<Rightarrow> otlp_writer loop option" where
  "run_turn ev envs now st =
     (case st of (batch, tagged, w) \<Rightarrow>
        (let add = (\<lambda>allow dd rs. run_drainQueued (ow_env w) (ow_maxBytes w) (ow_batchSize w)
                      (export_kth envs allow dd) rs (batch, tagged, w\<lparr>ow_queue := (ow_queue w)\<lparr>buf := []\<rparr>\<rparr>))
         in case ev of
              RunCancelled \<Rightarrow> add False (drainBudget now w) (buf (ow_queue w))
            | RunFlushReq \<Rightarrow> add True (drainBudget now w) (buf (ow_queue w))
            | RunTick \<Rightarrow> run_flush (export_kth envs True None) (batch, tagged, w)
            | RunRecord \<Rightarrow>
                (case try_recv (ow_queue w) of
                   None \<Rightarrow> Some (batch, tagged, w)
                 | Some (r, q) \<Rightarrow>
                     run_add (ow_env w) (ow_maxBytes w) (ow_batchSize w) (export_kth envs True None) r
                       (batch, tagged, w\<lparr>ow_queue := q\<rparr>))))"

section \<open>Batching refines byte-aware cutting\<close>

text \<open>The batches the loop means to make of the current batch and the records that follow.\<close>

definition over_limit :: "envelope \<Rightarrow> int \<Rightarrow> bytes list \<Rightarrow> bytes \<Rightarrow> bool" where
  "over_limit env mb cur r \<longleftrightarrow> cur \<noteq> [] \<and> int (sizeFor env (batchCost (cur @ [r]))) > mb"

definition batch_full :: "envelope \<Rightarrow> int \<Rightarrow> int \<Rightarrow> bytes list \<Rightarrow> bool" where
  "batch_full env mb n b \<longleftrightarrow> int (length b) \<ge> n \<or> int (sizeFor env (batchCost b)) \<ge> mb"

fun cut_bytes :: "envelope \<Rightarrow> int \<Rightarrow> int \<Rightarrow> bytes list \<Rightarrow> bytes list \<Rightarrow> bytes list list" where
  "cut_bytes env mb n cur [] = (if cur = [] then [] else [cur])"
| "cut_bytes env mb n cur (r # rs) =
     (if over_limit env mb cur r then
        cur # (if batch_full env mb n [r] then [r] # cut_bytes env mb n [] rs
               else cut_bytes env mb n [r] rs)
      else if batch_full env mb n (cur @ [r]) then (cur @ [r]) # cut_bytes env mb n [] rs
      else cut_bytes env mb n (cur @ [r]) rs)"

fun fold_exports :: "(bytes list \<Rightarrow> 'w \<Rightarrow> 'w option) \<Rightarrow> bytes list list \<Rightarrow> 'w \<Rightarrow> 'w option" where
  "fold_exports ef [] w = Some w"
| "fold_exports ef (b # bs) w = (case ef b w of None \<Rightarrow> None | Some w' \<Rightarrow> fold_exports ef bs w')"

definition push_batch :: "envelope \<Rightarrow> int \<Rightarrow> int \<Rightarrow> (bytes list \<Rightarrow> 'w \<Rightarrow> 'w option) \<Rightarrow> bytes list \<Rightarrow> 'w \<Rightarrow> 'w loop option" where
  "push_batch env mb n ef b w =
     (if batch_full env mb n b then map_option (\<lambda>w'. ([], 0, w')) (ef b w) else Some (b, batchCost b, w))"

lemma run_add_push:
  "run_add env mb n ef r (cur, batchCost cur, w) =
     (if over_limit env mb cur r
      then (case ef cur w of None \<Rightarrow> None | Some w1 \<Rightarrow> push_batch env mb n ef [r] w1)
      else push_batch env mb n ef (cur @ [r]) w)"
proof (cases "over_limit env mb cur r")
  case True
  then have c: "cur \<noteq> []" "int (sizeFor env (batchCost cur + recordCost (length r))) > mb"
    by (auto simp: over_limit_def)
  then show ?thesis
    using True by (cases "ef cur w") (auto simp: run_add_def run_flush_def Let_def push_batch_def batch_full_def)
next
  case False
  then have c: "\<not> (length cur > 0 \<and> int (sizeFor env (batchCost cur + recordCost (length r))) > mb)"
    by (auto simp: over_limit_def)
  show ?thesis
    unfolding run_add_def Let_def prod.case if_not_P [OF c] option.case
    using False by (simp add: run_flush_def push_batch_def batch_full_def)
qed

lemma run_drain_step:
  "run_drainQueued env mb n ef (r # rs) st =
     (case run_add env mb n ef r st of None \<Rightarrow> None | Some st' \<Rightarrow> run_drainQueued env mb n ef rs st')"
  by (simp add: run_drainQueued_def split: option.splits)

lemma run_drain_cut:
  "run_drainQueued env mb n ef rs (cur, batchCost cur, w) =
     map_option (\<lambda>w'. ([], 0, w')) (fold_exports ef (cut_bytes env mb n cur rs) w)"
proof (induction rs arbitrary: cur w)
  case Nil
  then show ?case by (auto simp: run_drainQueued_def run_flush_def split: option.splits)
next
  case (Cons r rs)
  have push: "(case push_batch env mb n ef b w' of None \<Rightarrow> None | Some st' \<Rightarrow> run_drainQueued env mb n ef rs st') =
      map_option (\<lambda>w'. ([], 0, w'))
        (fold_exports ef (if batch_full env mb n b then b # cut_bytes env mb n [] rs else cut_bytes env mb n b rs) w')"
    for b w'
    using Cons.IH [of "[]"] Cons.IH [of b w'] by (cases "ef b w'") (simp_all add: push_batch_def)
  show ?case
  proof (cases "over_limit env mb cur r")
    case True
    then show ?thesis
      using push [of "[r]"] by (cases "ef cur w") (simp_all add: run_drain_step run_add_push)
  next
    case False
    then show ?thesis using push [of "cur @ [r]" w] by (simp add: run_drain_step run_add_push)
  qed
qed

lemma concat_cut_bytes: "concat (cut_bytes env mb n cur rs) = cur @ rs"
  by (induction env mb n cur rs rule: cut_bytes.induct) (auto simp: Let_def)

lemma cut_bytes_nonempty: "b \<in> set (cut_bytes env mb n cur rs) \<Longrightarrow> b \<noteq> []"
  by (induction env mb n cur rs rule: cut_bytes.induct) (auto simp: over_limit_def split: if_splits)

lemma cut_bytes_hd: "cut_bytes env mb n cur rs = b # bs \<Longrightarrow> hd b = hd (cur @ rs)"
  using concat_cut_bytes [of env mb n cur rs] cut_bytes_nonempty [of b env mb n cur rs]
  by (metis concat.simps(2) hd_append2 list.set_intros(1))

text \<open>Cuts happen only where they must: after a full batch, or where the next record does not fit.\<close>

abbreviation must_cut :: "envelope \<Rightarrow> int \<Rightarrow> int \<Rightarrow> bytes list \<Rightarrow> bytes list \<Rightarrow> bool" where
  "must_cut env mb n b b' \<equiv> batch_full env mb n b \<or> over_limit env mb b (hd b')"

lemma successively_full:
  "batch_full env mb n b \<Longrightarrow> successively (must_cut env mb n) bs \<Longrightarrow> successively (must_cut env mb n) (b # bs)"
  by (cases bs) auto

lemma cut_bytes_greedy: "successively (must_cut env mb n) (cut_bytes env mb n cur rs)"
proof (induction rs arbitrary: cur)
  case (Cons r rs)
  let ?rest = "\<lambda>b. if batch_full env mb n b then b # cut_bytes env mb n [] rs else cut_bytes env mb n b rs"
  have rest: "successively (must_cut env mb n) (?rest b)" for b
    using Cons.IH by (simp add: successively_full)
  show ?case
  proof (cases "over_limit env mb cur r")
    case True
    have "\<exists>b bs. ?rest [r] = b # bs \<and> hd b = r"
    proof (cases "batch_full env mb n [r]")
      case False
      have "cut_bytes env mb n [r] rs \<noteq> []" using concat_cut_bytes [of env mb n "[r]" rs] by force
      then obtain b bs where b: "cut_bytes env mb n [r] rs = b # bs" by (cases "cut_bytes env mb n [r] rs") simp
      have "hd b = r" using cut_bytes_hd [OF b] by (simp only: hd_append list.sel if_False list.distinct)
      with b False show ?thesis by (simp only: if_False) blast
    qed simp
    then obtain b bs where b: "?rest [r] = b # bs" "hd b = r" by blast
    have "cut_bytes env mb n cur (r # rs) = cur # b # bs" using True b(1) by simp
    moreover have "successively (must_cut env mb n) (b # bs)" using rest [of "[r]"] b(1) by simp
    ultimately show ?thesis using True b(2) by simp
  next
    case False
    then show ?thesis using rest [of "cur @ [r]"] by simp
  qed
qed simp

lemma cut_bytes_fits:
  assumes "0 < n" and "\<forall>r\<in>set rs. int (sizeFor env (recordCost (length r))) \<le> mb"
    and "int (length cur) < n" and "cur \<noteq> [] \<longrightarrow> int (sizeFor env (batchCost cur)) \<le> mb"
  shows "\<forall>b\<in>set (cut_bytes env mb n cur rs). int (length b) \<le> n \<and> int (sizeFor env (batchCost b)) \<le> mb"
  using assms
proof (induction rs arbitrary: cur)
  case Nil
  then show ?case by auto
next
  case (Cons r rs)
  have rs: "\<forall>r\<in>set rs. int (sizeFor env (recordCost (length r))) \<le> mb"
    and r: "int (sizeFor env (batchCost [r])) \<le> mb" using Cons.prems(2) by auto
  have next_batch: "\<forall>b'\<in>set (if batch_full env mb n b then b # cut_bytes env mb n [] rs else cut_bytes env mb n b rs).
      int (length b') \<le> n \<and> int (sizeFor env (batchCost b')) \<le> mb"
    if "int (length b) \<le> n" "int (sizeFor env (batchCost b)) \<le> mb" for b
    using that Cons.IH [OF Cons.prems(1) rs, of b] Cons.IH [OF Cons.prems(1) rs, of "[]"] Cons.prems(1)
    by (auto simp: batch_full_def)
  show ?case
  proof (cases "over_limit env mb cur r")
    case True
    then show ?thesis using next_batch [of "[r]"] r Cons.prems by (simp add: over_limit_def)
  next
    case False
    moreover have "int (sizeFor env (batchCost (cur @ [r]))) \<le> mb"
      using False r by (cases "cur = []") (auto simp: over_limit_def)
    ultimately show ?thesis using next_batch [of "cur @ [r]"] Cons.prems by simp
  qed
qed

section \<open>The retry loop\<close>

definition posted :: "prepared \<Rightarrow> nat \<Rightarrow> otlp_writer \<Rightarrow> otlp_writer" where
  "posted p m w = w\<lparr>ow_posts := ow_posts w @ replicate m p\<rparr>"

definition retried :: "export_env \<Rightarrow> bool \<Rightarrow> nat \<Rightarrow> bool" where
  "retried env allowRetry i \<longleftrightarrow> allowRetry \<and> \<not> ee_cancelled env i \<and> \<not> ee_cancelledInSleep env i \<and>
     (\<exists>e. ee_answer env i = Inl e \<and> Retryable e)"

lemma posted_retry [simp]: "ow_retry (posted b m w) = ow_retry w"
  by (simp add: posted_def)

lemma posted_Suc: "posted b m (w\<lparr>ow_posts := ow_posts w @ [b]\<rparr>) = posted b (Suc m) w"
  by (simp add: posted_def)

text \<open>Whenever the loop returns, the attempt it stopped at decided the outcome of the whole batch.\<close>

lemma export_loop_outcome:
  "export_loop env allow b n deadline k delay w = Some w' \<Longrightarrow>
     \<exists>m. (\<forall>i\<in>{k..<k + m}. retried env allow i) \<and>
       ((\<exists>a. ee_answer env (k + m) = Inr a \<and> w' = settle_accept a (posted b (Suc m) w)) \<or>
        (\<exists>e. ee_answer env (k + m) = Inl e \<and> w' = drop_logs n (Some e) (posted b (Suc m) w)))"
proof (induction rule: export_loop.raw_induct [rotated, consumes 1, case_names step])
  case (step loop env allow b n deadline k delay w w')
  let ?w1 = "w\<lparr>ow_posts := ow_posts w @ [b]\<rparr>"
  have w1: "?w1 = posted b (Suc 0) w" by (simp add: posted_def)
  show ?case
  proof (cases "ee_answer env k")
    case (Inr a)
    then show ?thesis using step.hyps by (intro exI [of _ 0]) (auto simp: Let_def w1)
  next
    case (Inl e)
    show ?thesis
    proof (cases "allow \<and> Retryable e \<and> \<not> ee_cancelled env k \<and>
        \<not> ee_now env k + retry_delay delay (ee_jitter env k) e > deadline \<and> \<not> ee_cancelledInSleep env k")
      case False
      then show ?thesis using step.hyps Inl by (intro exI [of _ 0]) (auto simp: Let_def w1 split: if_splits)
    next
      case True
      then have "loop env allow b n deadline (Suc k) (next_delay (ow_retry w) delay) ?w1 = Some w'"
        using step.hyps Inl by (simp add: Let_def)
      from step.IH [OF this] obtain m where m: "\<forall>i\<in>{Suc k..<Suc k + m}. retried env allow i"
        "(\<exists>a. ee_answer env (Suc k + m) = Inr a \<and> w' = settle_accept a (posted b (Suc m) ?w1)) \<or>
         (\<exists>e. ee_answer env (Suc k + m) = Inl e \<and> w' = drop_logs n (Some e) (posted b (Suc m) ?w1))"
        by blast
      have "retried env allow k" using True Inl by (simp add: retried_def)
      moreover have "{k..<k + Suc m} = insert k {Suc k..<Suc k + m}" by auto
      ultimately show ?thesis using m by (intro exI [of _ "Suc m"]) (simp add: posted_Suc)
    qed
  qed
qed

lemma next_delay_bounds:
  assumes "0 < delay" "delay < 2 ^ 62" and "0 < MaxInterval r" "MaxInterval r < 2 ^ 62"
  shows "next_delay r delay = min (delay * 2) (MaxInterval r)"
    and "0 < next_delay r delay" and "next_delay r delay < 2 ^ 62"
proof -
  have "wrap64 (delay * 2) = delay * 2" using assms by (intro wrap64_id) auto
  then show "next_delay r delay = min (delay * 2) (MaxInterval r)"
    by (auto simp: next_delay_def min_def)
  then show "0 < next_delay r delay" "next_delay r delay < 2 ^ 62"
    using assms by (auto simp: min_def)
qed

text \<open>
  The loop returns when the clock moves forward from attempt to attempt: the deadline ends it.
\<close>

lemma export_loop_returns:
  assumes clock: "\<And>i. ee_now env i < ee_now env (Suc i)" and jitter: "\<And>i. 0 \<le> ee_jitter env i"
    and r: "0 < MaxInterval (ow_retry w)" "MaxInterval (ow_retry w) < 2 ^ 62"
    and d: "0 < delay" "delay < 2 ^ 62"
  shows "\<exists>w'. export_loop env allow b n deadline k delay w = Some w'"
  using r d
proof (induction "nat (deadline + 1 - ee_now env k)" arbitrary: k delay w rule: less_induct)
  case less
  let ?w1 = "w\<lparr>ow_posts := ow_posts w @ [b]\<rparr>"
  note unfold = export_loop.simps [of env allow b n deadline k delay w]
  show ?case
  proof (cases "ee_answer env k")
    case (Inr a)
    then show ?thesis by (subst unfold) (simp add: Let_def)
  next
    case (Inl e)
    show ?thesis
    proof (cases "\<not> allow \<or> \<not> Retryable e \<or> ee_cancelled env k \<or>
        ee_now env k + retry_delay delay (ee_jitter env k) e > deadline \<or> ee_cancelledInSleep env k")
      case True
      then show ?thesis using Inl by (subst unfold) (auto simp: Let_def)
    next
      case False
      have "0 \<le> retry_delay delay (ee_jitter env k) e"
        using less.prems jitter [of k] by (simp add: retry_delay_def)
      with False have "ee_now env k \<le> deadline" by simp
      then have "nat (deadline + 1 - ee_now env (Suc k)) < nat (deadline + 1 - ee_now env k)"
        using clock [of k] by simp
      from less.hyps [OF this, of ?w1 "next_delay (ow_retry w) delay"]
      have "\<exists>w'. export_loop env allow b n deadline (Suc k) (next_delay (ow_retry w) delay) ?w1 = Some w'"
        using less.prems next_delay_bounds [OF less.prems(3,4,1,2)] by simp
      then show ?thesis using False Inl by (subst unfold) (simp add: Let_def)
    qed
  qed
qed

lemma export_outcome:
  assumes "export env records allow dd w = Some w'" and "records \<noteq> []"
  defines "p \<equiv> ow_prepare w (assemble (ow_env w) [] records)"
    and "w1 \<equiv> w\<lparr>ow_sent := ow_sent w @ [records]\<rparr>" and "N \<equiv> int (length records)"
  shows "(\<exists>e. w' = drop_logs N (Some e) w1 \<and> (e = drain_timeout_error \<or> fail p = Some e)) \<or>
    (\<exists>m. let w2 = posted p (Suc m) (case warn p of Some e \<Rightarrow> report e w1 | None \<Rightarrow> w1) in
       (\<not> allow \<longrightarrow> m = 0) \<and> (\<forall>i<m. retried env allow i) \<and>
       ((\<exists>a. ee_answer env m = Inr a \<and> w' = settle_accept a w2) \<or>
        (\<exists>e. ee_answer env m = Inl e \<and> w' = drop_logs N (Some e) w2)))"
proof (cases "(\<exists>d. dd = Some d \<and> \<not> ee_now0 env < d) \<or> fail p \<noteq> None")
  case True
  then show ?thesis
    using assms(1,2) by (auto simp: export_def Let_def p_def w1_def N_def split: option.splits if_splits)
next
  case False
  let ?w = "case warn p of Some e \<Rightarrow> report e w1 | None \<Rightarrow> w1"
  obtain deadline delay where "export_loop env allow p N deadline 0 delay ?w = Some w'"
    using assms(1,2) False by (auto simp: export_def Let_def p_def w1_def N_def split: option.splits if_splits)
  from export_loop_outcome [OF this] obtain m where m: "\<forall>i\<in>{0..<m}. retried env allow i"
    "(\<exists>a. ee_answer env m = Inr a \<and> w' = settle_accept a (posted p (Suc m) ?w)) \<or>
     (\<exists>e. ee_answer env m = Inl e \<and> w' = drop_logs N (Some e) (posted p (Suc m) ?w))"
    by auto
  then have "\<not> allow \<longrightarrow> m = 0" by (cases m) (auto simp: retried_def)
  with m show ?thesis by (auto simp: Let_def intro!: exI [of _ m])
qed

text \<open>
  What an export may come to, read off what it met: \<open>k\<close> attempts, and \<open>d\<close> records that are
  not confirmed delivered. Without an attempt, because the drain budget was spent or the preparation
  failed, and after an error of the last attempt, that is the whole batch; an accepted request loses
  what the server says it rejected.
\<close>

definition budget_spent :: "export_env \<Rightarrow> int option \<Rightarrow> bool" where
  "budget_spent env dd = (case dd of Some t \<Rightarrow> t \<le> ee_now0 env | None \<Rightarrow> False)"

definition server_rejected :: "acceptance option \<Rightarrow> int" where
  "server_rejected a = (case a of None \<Rightarrow> 0 | Some a1 \<Rightarrow> max 0 (rejected a1))"

fun export_result :: "(bytes \<Rightarrow> prepared) \<Rightarrow> envelope \<Rightarrow> export_env \<times> bool \<times> int option \<Rightarrow> bytes list \<Rightarrow> nat \<times> int \<Rightarrow> bool" where
  "export_result prep ev (env, allow, dd) rs (0, d) \<longleftrightarrow>
     (budget_spent env dd \<or> fail (prep (assemble ev [] rs)) \<noteq> None) \<and> d = int (length rs)"
| "export_result prep ev (env, allow, dd) rs (Suc m, d) \<longleftrightarrow>
     \<not> budget_spent env dd \<and> fail (prep (assemble ev [] rs)) = None \<and> (\<forall>i<m. retried env allow i) \<and>
     d = (case ee_answer env m of Inl _ \<Rightarrow> int (length rs) | Inr a \<Rightarrow> server_rejected a)"

lemma effects_posts [simp]:
  "ow_prepare (report e w) = ow_prepare w" "ow_posts (report e w) = ow_posts w" "ow_env (report e w) = ow_env w"
  "ow_prepare (drop_logs n oe w) = ow_prepare w" "ow_posts (drop_logs n oe w) = ow_posts w" "ow_env (drop_logs n oe w) = ow_env w"
  "ow_prepare (settle_accept a w) = ow_prepare w" "ow_posts (settle_accept a w) = ow_posts w" "ow_env (settle_accept a w) = ow_env w"
  "ow_prepare (posted p m w) = ow_prepare w" "ow_posts (posted p m w) = ow_posts w @ replicate m p" "ow_env (posted p m w) = ow_env w"
  "ow_prepare (add_dropped1 w) = ow_prepare w" "ow_posts (add_dropped1 w) = ow_posts w" "ow_env (add_dropped1 w) = ow_env w"
  "ow_sent (add_dropped1 w) = ow_sent w" "ow_maxBytes (report e w) = ow_maxBytes w" "ow_maxBytes (add_dropped1 w) = ow_maxBytes w"
  by (simp_all add: report_def drop_logs_def settle_accept_def posted_def add_dropped1_def Let_def split: option.splits)

lemma effects_dropped [simp]:
  "ow_dropped (report e w) = ow_dropped w" "ow_dropped (posted p m w) = ow_dropped w"
  "ow_dropped (drop_logs n oe w) = ow_dropped w + of_int n" "ow_dropped (add_dropped1 w) = ow_dropped w + 1"
  "ow_dropped (settle_accept a w) = ow_dropped w + of_int (server_rejected a)"
  by (simp_all add: report_def drop_logs_def settle_accept_def posted_def add_dropped1_def server_rejected_def Let_def
      split: option.splits)

lemma export_settles:
  assumes "export env rs allow dd w = Some w'" and "rs \<noteq> []"
  defines "p \<equiv> ow_prepare w (assemble (ow_env w) [] rs)"
  shows "\<exists>k d. export_result (ow_prepare w) (ow_env w) (env, allow, dd) rs (k, d) \<and>
    ow_dropped w' = ow_dropped w + of_int d \<and> ow_posts w' = ow_posts w @ replicate k p \<and> ow_prepare w' = ow_prepare w"
proof -
  let ?w1 = "w\<lparr>ow_sent := ow_sent w @ [rs]\<rparr>"
  let ?w2 = "case warn p of Some e \<Rightarrow> report e ?w1 | None \<Rightarrow> ?w1"
  have w2: "ow_dropped ?w2 = ow_dropped w" "ow_posts ?w2 = ow_posts w" "ow_prepare ?w2 = ow_prepare w"
    by (simp_all split: option.split)
  show ?thesis
  proof (cases "budget_spent env dd \<or> fail p \<noteq> None")
    case True
    then obtain e where "w' = drop_logs (int (length rs)) (Some e) ?w1"
      using assms(1,2) by (auto simp: export_def budget_spent_def p_def not_less Let_def split: option.splits if_splits)
    with True show ?thesis by (intro exI [of _ 0] exI [of _ "int (length rs)"]) (auto simp: p_def)
  next
    case False
    then obtain deadline delay where "export_loop env allow p (int (length rs)) deadline 0 delay ?w2 = Some w'"
      using assms(1,2) by (auto simp: export_def budget_spent_def p_def not_less Let_def split: option.splits if_splits)
    from export_loop_outcome [OF this, unfolded add_0] obtain m where m: "\<forall>i\<in>{0..<m}. retried env allow i"
      and out: "(\<exists>a. ee_answer env m = Inr a \<and> w' = settle_accept a (posted p (Suc m) ?w2)) \<or>
        (\<exists>e. ee_answer env m = Inl e \<and> w' = drop_logs (int (length rs)) (Some e) (posted p (Suc m) ?w2))"
      by blast
    let ?d = "case ee_answer env m of Inl _ \<Rightarrow> int (length rs) | Inr a \<Rightarrow> server_rejected a"
    have "ow_dropped w' = ow_dropped w + of_int ?d \<and> ow_posts w' = ow_posts w @ replicate (Suc m) p \<and>
        ow_prepare w' = ow_prepare w"
      using out w2 by (elim disjE exE conjE) simp_all
    moreover have "export_result (ow_prepare w) (ow_env w) (env, allow, dd) rs (Suc m, ?d)"
      using m False by (auto simp: p_def)
    ultimately show ?thesis by blast
  qed
qed

text \<open>What an export leaves alone.\<close>

definition fixed :: "otlp_writer \<Rightarrow> envelope \<times> int \<times> int \<times> bytes chan \<times> RetryConfig \<times> bool" where
  "fixed w = (ow_env w, ow_maxBytes w, ow_batchSize w, ow_queue w, ow_retry w, ow_closed w)"

lemma effects_fixed [simp]:
  "fixed (report e w) = fixed w" "fixed (drop_logs n oe w) = fixed w" "fixed (posted b m w) = fixed w"
  "fixed (settle_accept a w) = fixed w" "fixed (w\<lparr>ow_sent := x\<rparr>) = fixed w"
  "ow_sent (report e w) = ow_sent w" "ow_sent (drop_logs n oe w) = ow_sent w"
  "ow_sent (posted b m w) = ow_sent w" "ow_sent (settle_accept a w) = ow_sent w"
  by (simp_all add: fixed_def report_def drop_logs_def posted_def settle_accept_def Let_def split: option.splits)

lemma export_fixed:
  assumes "export env records allow dd w = Some w'"
  shows "fixed w' = fixed w" and "ow_sent w' = ow_sent w @ (if records = [] then [] else [records])"
proof -
  have "fixed w' = fixed w \<and> ow_sent w' = ow_sent w @ (if records = [] then [] else [records])"
  proof (cases "records = []")
    case True
    then show ?thesis using assms by (simp add: export_def)
  next
    case False
    from export_outcome [OF assms False] show ?thesis
      using False by (auto simp: Let_def split: option.splits)
  qed
  then show "fixed w' = fixed w" "ow_sent w' = ow_sent w @ (if records = [] then [] else [records])" by auto
qed

lemma fold_exports_fixed:
  "fold_exports (export_kth envs allow dd) bs w = Some w' \<Longrightarrow> \<forall>b\<in>set bs. b \<noteq> [] \<Longrightarrow>
     fixed w' = fixed w \<and> ow_sent w' = ow_sent w @ bs"
proof (induction bs arbitrary: w)
  case (Cons b bs)
  then obtain w1 where w1: "export_kth envs allow dd b w = Some w1" "fold_exports (export_kth envs allow dd) bs w1 = Some w'"
    by (auto split: option.splits)
  with Cons.prems(2) export_fixed [of "envs (length (ow_sent w))" b allow dd w w1]
  have "fixed w1 = fixed w" "ow_sent w1 = ow_sent w @ [b]" by (auto simp: export_kth_def)
  then show ?case using Cons.IH [OF w1(2)] Cons.prems(2) by simp
qed simp

lemma export_total:
  assumes "\<And>i. ee_now env i < ee_now env (Suc i)" and "\<And>i. 0 \<le> ee_jitter env i"
    and "retry_wf (ow_retry w)" and "Initial (ow_retry w) < 2 ^ 62" and "MaxInterval (ow_retry w) < 2 ^ 62"
  shows "\<exists>w'. export env records allow dd w = Some w'"
proof -
  have "\<exists>w'. export_loop env allow b n deadline 0 (Initial (ow_retry v)) v = Some w'"
    if "ow_retry v = ow_retry w" for b n deadline v
    using assms that by (intro export_loop_returns) (auto simp: retry_wf_def)
  then show ?thesis by (auto simp: export_def Let_def report_def split: option.splits)
qed

lemma fold_exports_returns:
  assumes "\<And>k i. ee_now (envs k) i < ee_now (envs k) (Suc i)" and "\<And>k i. 0 \<le> ee_jitter (envs k) i"
    and "retry_wf (ow_retry w)" and "Initial (ow_retry w) < 2 ^ 62" and "MaxInterval (ow_retry w) < 2 ^ 62"
  shows "\<exists>w'. fold_exports (export_kth envs allow dd) bs w = Some w'"
  using assms(3-5)
proof (induction bs arbitrary: w)
  case (Cons b bs)
  obtain w1 where w1: "export_kth envs allow dd b w = Some w1"
    using export_total [of "envs (length (ow_sent w))" w b allow dd] assms(1,2) Cons.prems
    by (auto simp: export_kth_def)
  then have "ow_retry w1 = ow_retry w" using export_fixed(1) by (auto simp: export_kth_def fixed_def)
  then show ?case using Cons.IH [of w1] Cons.prems w1 by simp
qed simp

section \<open>Request bounds\<close>

definition fits :: "otlp_writer \<Rightarrow> bytes list \<Rightarrow> bool" where
  "fits w b \<longleftrightarrow> int (length b) \<le> ow_batchSize w \<and> int (length (assemble (ow_env w) [] b)) \<le> ow_maxBytes w"

definition otlp_inv :: "otlp_writer loop \<Rightarrow> bool" where
  "otlp_inv st \<longleftrightarrow> (case st of (batch, tagged, w) \<Rightarrow>
     0 < ow_batchSize w \<and> length (buf (ow_queue w)) \<le> cap (ow_queue w) \<and>
     tagged = batchCost batch \<and> int (length batch) < ow_batchSize w \<and>
     (batch = [] \<or> int (sizeFor (ow_env w) (batchCost batch)) \<le> ow_maxBytes w) \<and>
     (\<forall>r\<in>set (buf (ow_queue w)). int (sizeFor (ow_env w) (recordCost (length r))) \<le> ow_maxBytes w) \<and>
     (\<forall>b\<in>set (ow_sent w). b \<noteq> [] \<and> fits w b))"

lemma otlp_inv_sent:
  assumes "otlp_inv (batch, tagged, w)" and "fixed w' = fixed w" and "ow_sent w' = ow_sent w @ bs"
    and "\<forall>b\<in>set bs. b \<noteq> [] \<and> fits w b"
  shows "otlp_inv ([], 0, w')"
  using assms by (auto simp: otlp_inv_def fixed_def fits_def)

lemma drain_turn:
  assumes inv: "otlp_inv (batch, tagged, w)"
    and run: "run_drainQueued (ow_env w) (ow_maxBytes w) (ow_batchSize w) (export_kth envs allow dd)
      (buf (ow_queue w)) (batch, tagged, w\<lparr>ow_queue := (ow_queue w)\<lparr>buf := []\<rparr>\<rparr>) = Some st'"
  shows "\<exists>w' bs. st' = ([], 0, w') \<and> otlp_inv st' \<and> buf (ow_queue w') = [] \<and>
    ow_sent w' = ow_sent w @ bs \<and> concat bs = batch @ buf (ow_queue w)"
proof -
  let ?w = "w\<lparr>ow_queue := (ow_queue w)\<lparr>buf := []\<rparr>\<rparr>"
  let ?bs = "cut_bytes (ow_env w) (ow_maxBytes w) (ow_batchSize w) batch (buf (ow_queue w))"
  have t: "tagged = batchCost batch" using inv by (simp add: otlp_inv_def)
  obtain w' where w': "fold_exports (export_kth envs allow dd) ?bs ?w = Some w'" "st' = ([], 0, w')"
    using run unfolding t run_drain_cut by auto
  have ne: "\<forall>b\<in>set ?bs. b \<noteq> []" using cut_bytes_nonempty by blast
  have fx: "fixed w' = fixed ?w" "ow_sent w' = ow_sent ?w @ ?bs"
    using fold_exports_fixed [OF w'(1) ne] by auto
  have fit: "\<forall>b\<in>set ?bs. b \<noteq> [] \<and> fits ?w b"
    using inv ne cut_bytes_fits [of "ow_batchSize w" "buf (ow_queue w)" "ow_env w" "ow_maxBytes w" batch]
    by (auto simp: otlp_inv_def fits_def length_assemble)
  have "otlp_inv (batch, tagged, ?w)" using inv by (auto simp: otlp_inv_def fits_def)
  from otlp_inv_sent [OF this fx fit] show ?thesis
    using fx w'(2) concat_cut_bytes by (auto simp: fixed_def)
qed

lemma push_batch_inv:
  assumes inv: "otlp_inv (batch, tagged, w)" and b: "b \<noteq> []" "fits w b"
    and push: "push_batch (ow_env w) (ow_maxBytes w) (ow_batchSize w) (export_kth envs True None) b w = Some st'"
  shows "otlp_inv st'"
proof (cases "batch_full (ow_env w) (ow_maxBytes w) (ow_batchSize w) b")
  case True
  then obtain w' where w': "export_kth envs True None b w = Some w'" "st' = ([], 0, w')"
    using push by (auto simp: push_batch_def)
  then have "fixed w' = fixed w" "ow_sent w' = ow_sent w @ [b]"
    using export_fixed [of "envs (length (ow_sent w))" b True None w w'] b by (auto simp: export_kth_def)
  from otlp_inv_sent [OF inv this] w'(2) b show ?thesis by simp
next
  case False
  with push inv b show ?thesis
    by (auto simp: push_batch_def otlp_inv_def fits_def batch_full_def length_assemble)
qed

lemma record_turn:
  assumes inv: "otlp_inv (batch, tagged, w)"
    and r: "int (sizeFor (ow_env w) (recordCost (length r))) \<le> ow_maxBytes w"
    and add: "run_add (ow_env w) (ow_maxBytes w) (ow_batchSize w) (export_kth envs True None) r (batch, tagged, w) = Some st'"
  shows "otlp_inv st'"
proof -
  let ?mb = "ow_maxBytes w" and ?n = "ow_batchSize w" and ?e = "ow_env w" and ?ef = "export_kth envs True None"
  have t: "tagged = batchCost batch" and n: "0 < ?n" "int (length batch) < ?n" using inv by (simp_all add: otlp_inv_def)
  have one: "fits w [r]" using r n by (simp add: fits_def length_assemble)
  show ?thesis
  proof (cases "over_limit ?e ?mb batch r")
    case True
    then have ne: "batch \<noteq> []" by (simp add: over_limit_def)
    obtain w1 where w1: "?ef batch w = Some w1" "push_batch ?e ?mb ?n ?ef [r] w1 = Some st'"
      using add True unfolding t run_add_push by (auto split: option.splits)
    then have fx: "fixed w1 = fixed w" "ow_sent w1 = ow_sent w @ [batch]"
      using export_fixed [of "envs (length (ow_sent w))" batch True None w w1] ne by (auto simp: export_kth_def)
    have "fits w batch" using inv ne n by (auto simp: otlp_inv_def fits_def length_assemble)
    with otlp_inv_sent [OF inv fx] ne have "otlp_inv ([], 0, w1)" by simp
    moreover have "fits w1 [r]" "ow_env w1 = ?e" "ow_maxBytes w1 = ?mb" "ow_batchSize w1 = ?n"
      using one fx(1) by (auto simp: fits_def fixed_def)
    ultimately show ?thesis using push_batch_inv [of "[]" 0 w1 "[r]"] w1(2) by simp
  next
    case False
    then have "push_batch ?e ?mb ?n ?ef (batch @ [r]) w = Some st'" using add unfolding t run_add_push by simp
    moreover have "fits w (batch @ [r])"
      using False one n by (cases "batch = []") (auto simp: over_limit_def fits_def length_assemble)
    ultimately show ?thesis using push_batch_inv [OF inv] by blast
  qed
qed

lemma otlp_inv_turn:
  assumes "otlp_inv st" and "run_turn ev envs now st = Some st'"
  shows "otlp_inv st'"
proof -
  obtain batch tagged w where st: "st = (batch, tagged, w)" by (cases st)
  note inv = assms(1) [unfolded st]
  have drained: "otlp_inv st'"
    if "run_drainQueued (ow_env w) (ow_maxBytes w) (ow_batchSize w) (export_kth envs allow dd)
      (buf (ow_queue w)) (batch, tagged, w\<lparr>ow_queue := (ow_queue w)\<lparr>buf := []\<rparr>\<rparr>) = Some st'" for allow dd
    using drain_turn [OF inv that] by blast
  show ?thesis
  proof (cases ev)
    case RunTick
    have "fits w batch" if "batch \<noteq> []" using inv that by (auto simp: otlp_inv_def fits_def length_assemble)
    with RunTick assms(2) inv st show ?thesis
      using export_fixed [of "envs (length (ow_sent w))" batch True None w] otlp_inv_sent [OF inv]
      by (auto simp: run_turn_def run_flush_def export_kth_def split: if_splits)
  next
    case RunRecord
    show ?thesis
    proof (cases "try_recv (ow_queue w)")
      case None
      with RunRecord assms st show ?thesis by (simp add: run_turn_def)
    next
      case (Some rq)
      obtain r q where rq: "rq = (r, q)" by (cases rq)
      with Some have q: "buf (ow_queue w) = r # buf q" "cap q = cap (ow_queue w)" by (auto simp: try_recv_buf)
      let ?w = "w\<lparr>ow_queue := q\<rparr>"
      have "otlp_inv (batch, tagged, ?w)" "int (sizeFor (ow_env ?w) (recordCost (length r))) \<le> ow_maxBytes ?w"
        using inv q by (auto simp: otlp_inv_def fits_def)
      from record_turn [OF this, of envs st'] show ?thesis
        using RunRecord Some rq assms(2) st by (simp add: run_turn_def)
    qed
  qed (use assms(2) st drained in \<open>auto simp: run_turn_def Let_def\<close>)
qed

lemma otlp_inv_write: "otlp_inv (batch, tagged, w) \<Longrightarrow> otlp_inv (batch, tagged, snd (otlp_Write p w))"
  by (auto simp: otlp_Write_def otlp_inv_def fits_def report_def add_dropped1_def Let_def try_send_def try_recv_def
      split: option.splits if_splits list.splits)

text \<open>The exporter's operations in any order.\<close>

datatype otlp_action = OWrite bytes | OTurn run_event "nat \<Rightarrow> export_env" int

fun otlp_act :: "otlp_action \<Rightarrow> otlp_writer loop \<Rightarrow> otlp_writer loop option" where
  "otlp_act (OWrite p) (batch, tagged, w) = Some (batch, tagged, snd (otlp_Write p w))"
| "otlp_act (OTurn ev envs now) st = run_turn ev envs now st"

interpretation otlp: step_invariant otlp_act otlp_inv
proof
  fix st a st'
  assume "otlp_inv st" and "otlp_act a st = Some st'"
  then show "otlp_inv st'"
    by (cases a; cases st) (auto intro: otlp_inv_turn otlp_inv_write)
qed

lemma otlp_inv_new: "otlp_wf o1 \<Longrightarrow> otlp_inv ([], 0, newWriterCore prep env o1)"
  by (simp add: otlp_inv_def newWriterCore_def otlp_wf_def)

section \<open>Properties\<close>

definition sample_env :: export_env where
  "sample_env = \<lparr>ee_now0 = 0, ee_now1 = 0,
     ee_answer = (\<lambda>i. if i < 2 then Inl (no_export_error\<lparr>StatusCode := 503, Retryable := True\<rparr>) else Inr None),
     ee_now = (\<lambda>i. int i * 10), ee_jitter = (\<lambda>_. 0), ee_cancelled = (\<lambda>_. False),
     ee_cancelledInSleep = (\<lambda>_. False)\<rparr>"

definition plain_prepare :: "bytes \<Rightarrow> prepared" where
  "plain_prepare msg = \<lparr>body = msg, compressed = False, warn = None, fail = None\<rparr>"

definition sample_otlp :: otlp_writer where
  "sample_otlp = newWriterCore plain_prepare demo_envelope
     ((otlp_defaultOptions \<lparr>exeBase = [], moduleVersion = []\<rparr>)\<lparr>o_batchSize := 2, maxRequestBytes := 20, queueSize := 2\<rparr>)"

text \<open>A drain (Sync, Close) exports the current batch and the queued records as exactly the
  batches of the byte-aware cutting: every record once and in order, no empty batch, and a cut
  only after a full batch or before a record that would not fit. When every record fits on its
  own, each batch has at most batchSize records and its assembled request is at most maxBytes
  long.\<close>

theorem drain_cuts_batches:
  assumes "0 < n" and "int (length cur) < n" and "cur = [] \<or> int (sizeFor env (batchCost cur)) \<le> mb"
    and "\<forall>r\<in>set rs. int (sizeFor env (recordCost (length r))) \<le> mb"
  shows "\<exists>bs. run_drainQueued env mb n ef rs (cur, batchCost cur, w) =
      map_option (\<lambda>w'. ([], 0, w')) (fold_exports ef bs w) \<and>
    concat bs = cur @ rs \<and> successively (must_cut env mb n) bs \<and>
    (\<forall>b\<in>set bs. b \<noteq> [] \<and> int (length b) \<le> n \<and> int (length (assemble env [] b)) \<le> mb)"
proof (intro exI conjI)
  show "run_drainQueued env mb n ef rs (cur, batchCost cur, w) =
      map_option (\<lambda>w'. ([], 0, w')) (fold_exports ef (cut_bytes env mb n cur rs) w)"
    by (rule run_drain_cut)
  show "\<forall>b\<in>set (cut_bytes env mb n cur rs).
      b \<noteq> [] \<and> int (length b) \<le> n \<and> int (length (assemble env [] b)) \<le> mb"
    using cut_bytes_fits [OF assms(1,4,2)] assms(3) cut_bytes_nonempty by (auto simp: length_assemble)
qed (rule concat_cut_bytes cut_bytes_greedy)+

theorem drain_cuts_batches_witness:
  "\<exists>bs. run_drainQueued demo_envelope 20 2 (\<lambda>b w. Some (w @ [b])) [[1, 2, 3], [4, 5, 6], [7]] ([], batchCost [], []) =
      map_option (\<lambda>w'. ([], 0, w')) (fold_exports (\<lambda>b w. Some (w @ [b])) bs []) \<and>
    concat bs = [[1, 2, 3], [4, 5, 6], [7]] \<and> (\<forall>b\<in>set bs. b \<noteq> [] \<and> int (length (assemble demo_envelope [] b)) \<le> 20)"
proof -
  have "\<forall>r\<in>set [[1, 2, 3], [4, 5, 6], [7]]. int (sizeFor demo_envelope (recordCost (length (r :: bytes)))) \<le> 20"
    by code_simp
  from drain_cuts_batches [of 2 "[]" demo_envelope 20 "[[1, 2, 3], [4, 5, 6], [7]]" "\<lambda>b w. Some (w @ [b])" "[]", OF _ _ _ this]
  show ?thesis by auto
qed

text \<open>C24: one export settles its batch exactly once. All attempts are given the one request that was
  prepared, every attempt but the last was answered by a retryable error, and the last attempt
  alone decides: an accepted request drops what the server rejected (and nothing otherwise), an
  error drops the whole batch. Without retries there is exactly one attempt, and a batch whose
  preparation failed, or whose drain budget was spent, is dropped without any.\<close>

theorem export_settles_once:
  assumes "export env records allow dd w = Some w'" and "records \<noteq> []"
  defines "p \<equiv> ow_prepare w (assemble (ow_env w) [] records)"
    and "w1 \<equiv> w\<lparr>ow_sent := ow_sent w @ [records]\<rparr>" and "N \<equiv> int (length records)"
  shows "(\<exists>e. w' = drop_logs N (Some e) w1 \<and> (e = drain_timeout_error \<or> fail p = Some e)) \<or>
    (\<exists>m. let w2 = posted p (Suc m) (case warn p of Some e \<Rightarrow> report e w1 | None \<Rightarrow> w1) in
       (\<not> allow \<longrightarrow> m = 0) \<and> (\<forall>i<m. retried env allow i) \<and>
       ((\<exists>a. ee_answer env m = Inr a \<and> w' = settle_accept a w2) \<or>
        (\<exists>e. ee_answer env m = Inl e \<and> w' = drop_logs N (Some e) w2)))"
  using export_outcome [OF assms(1,2)] unfolding p_def w1_def N_def .

theorem export_settles_once_witness:
  "\<exists>w'. export sample_env [[9]] True None sample_otlp = Some w' \<and> ow_dropped w' = 0 \<and>
     ow_posts w' = replicate 3 (plain_prepare (assemble demo_envelope [] [[9]])) \<and>
     (\<exists>m. (\<forall>i<m. retried sample_env True i) \<and> ee_answer sample_env m = Inr None)"
proof -
  have "\<exists>w'. export sample_env [[9]] True None sample_otlp = Some w' \<and> ow_dropped w' = 0 \<and>
      ow_posts w' = replicate 3 (plain_prepare (assemble demo_envelope [] [[9]]))"
    by (simp add: export_def Let_def sample_otlp_def newWriterCore_def plain_prepare_def
        otlp_defaultOptions_def export_loop.simps sample_env_def retry_delay_def next_delay_def
        settle_accept_def Second_def wrap64_id no_export_error_def numeral_eq_Suc)
  then obtain w' where w': "export sample_env [[9]] True None sample_otlp = Some w'" "ow_dropped w' = 0"
    "ow_posts w' = replicate 3 (plain_prepare (assemble demo_envelope [] [[9]]))" by blast
  have p: "ow_prepare sample_otlp = plain_prepare" "ow_posts sample_otlp = []"
    by (simp_all add: sample_otlp_def newWriterCore_def)
  from export_settles_once [OF w'(1)] obtain m where "\<forall>i<m. retried sample_env True i"
    "(\<exists>a. ee_answer sample_env m = Inr a) \<or> (\<exists>e. ee_answer sample_env m = Inl e \<and> ow_dropped w' = 1)"
    using w'(3) p
    by (auto simp: Let_def plain_prepare_def drop_logs_def report_def sample_otlp_def newWriterCore_def posted_def
        split: option.splits)
  then have "\<forall>i<m. retried sample_env True i" "\<exists>a. ee_answer sample_env m = Inr a" using w'(2) by auto
  then have "\<exists>m. (\<forall>i<m. retried sample_env True i) \<and> ee_answer sample_env m = Inr None"
    by (auto simp: sample_env_def split: if_splits)
  with w' show ?thesis by blast
qed

text \<open>C25: an export always returns when the clock moves forward between attempts: the retry loop is
  ended by its deadline, whatever the server answers, for retry intervals below 2^62 ns.\<close>

theorem export_returns:
  assumes "\<And>i. ee_now env i < ee_now env (Suc i)" and "\<And>i. 0 \<le> ee_jitter env i"
    and "retry_wf (ow_retry w)" and "Initial (ow_retry w) < 2 ^ 62" and "MaxInterval (ow_retry w) < 2 ^ 62"
  shows "\<exists>w'. export env records allow dd w = Some w'"
  using assms by (rule export_total)

theorem export_returns_witness:
  "\<exists>w'. export (sample_env\<lparr>ee_answer := (\<lambda>_. Inl (no_export_error\<lparr>Retryable := True, retryAfter := 1\<rparr>))\<rparr>)
     [[9]] True None sample_otlp = Some w'"
  by (rule export_returns)
    (simp_all add: sample_env_def retry_wf_def sample_otlp_def newWriterCore_def otlp_defaultOptions_def Second_def)

text \<open>whatever is written and however the flush goroutine runs, every batch the exporter hands
  to export is non-empty, has at most batchSize records, and its assembled request is at most
  maxRequestBytes long; the queue holds at most queueSize records.\<close>

theorem otlp_request_bounds:
  assumes "otlp_wf o1" and "reachable otlp_act ([], 0, newWriterCore prep env o1) (batch, tagged, w)"
  shows "(\<forall>b\<in>set (ow_sent w). b \<noteq> [] \<and> int (length b) \<le> ow_batchSize w \<and>
      int (length (assemble (ow_env w) [] b)) \<le> ow_maxBytes w) \<and>
    length (buf (ow_queue w)) \<le> cap (ow_queue w) \<and> tagged = batchCost batch"
  using otlp.reachable_inv [OF assms(2) otlp_inv_new [OF assms(1)]]
  by (auto simp: otlp_inv_def fits_def)

theorem otlp_request_bounds_witness:
  "\<exists>batch tagged w. run otlp_act [OWrite [1, 2, 3], OWrite [4, 5, 6], OTurn RunRecord (\<lambda>_. sample_env) 0] ([], 0, sample_otlp) =
      Some (batch, tagged, w) \<and> length (buf (ow_queue w)) \<le> cap (ow_queue w) \<and> tagged = batchCost batch"
proof -
  let ?as = "[OWrite [1, 2, 3], OWrite [4, 5, 6], OTurn RunRecord (\<lambda>_. sample_env) 0]"
  have fit: "sizeFor demo_envelope 5 = 16" by code_simp
  have cost: "recordCost 3 = 5" "recordCost (Suc (Suc (Suc 0))) = 5" by code_simp+
  have "\<exists>st. run otlp_act ?as ([], 0, sample_otlp) = Some st"
    by (simp add: sample_otlp_def newWriterCore_def otlp_defaultOptions_def otlp_Write_def try_send_def
        make_chan_def run_turn_def try_recv_def run_add_def run_flush_def fit cost)
  then obtain batch tagged w where r: "run otlp_act ?as ([], 0, sample_otlp) = Some (batch, tagged, w)" by auto
  have wf: "otlp_wf ((otlp_defaultOptions \<lparr>exeBase = [], moduleVersion = []\<rparr>)\<lparr>o_batchSize := 2, maxRequestBytes := 20, queueSize := 2\<rparr>)"
    by (simp add: otlp_wf_def retry_wf_def otlp_defaultOptions_def maxQueueSize_def maxRequestBytesCeil_def Second_def)
  show ?thesis
    using otlp_request_bounds [OF wf run_reachable [OF r [unfolded sample_otlp_def]]] r by blast
qed

text \<open>Sync and Close lose nothing and keep the order: a drain hands the current batch and every
  queued record to export, in order and each once, leaves the queue empty, and returns whenever
  the exports do.\<close>

theorem otlp_drain_complete:
  assumes "otlp_inv (batch, tagged, w)" and "ev = RunFlushReq \<or> ev = RunCancelled"
  shows "(\<forall>st'. run_turn ev envs now (batch, tagged, w) = Some st' \<longrightarrow>
      (\<exists>w' bs. st' = ([], 0, w') \<and> buf (ow_queue w') = [] \<and> ow_sent w' = ow_sent w @ bs \<and>
         concat bs = batch @ buf (ow_queue w))) \<and>
    ((\<forall>k i. ee_now (envs k) i < ee_now (envs k) (Suc i) \<and> 0 \<le> ee_jitter (envs k) i) \<and>
     retry_wf (ow_retry w) \<and> Initial (ow_retry w) < 2 ^ 62 \<and> MaxInterval (ow_retry w) < 2 ^ 62 \<longrightarrow>
       run_turn ev envs now (batch, tagged, w) \<noteq> None)"
proof
  show "\<forall>st'. run_turn ev envs now (batch, tagged, w) = Some st' \<longrightarrow>
      (\<exists>w' bs. st' = ([], 0, w') \<and> buf (ow_queue w') = [] \<and> ow_sent w' = ow_sent w @ bs \<and>
         concat bs = batch @ buf (ow_queue w))"
  proof (intro allI impI)
    fix st' assume "run_turn ev envs now (batch, tagged, w) = Some st'"
    then obtain allow where "run_drainQueued (ow_env w) (ow_maxBytes w) (ow_batchSize w)
        (export_kth envs allow (drainBudget now w)) (buf (ow_queue w))
        (batch, tagged, w\<lparr>ow_queue := (ow_queue w)\<lparr>buf := []\<rparr>\<rparr>) = Some st'"
      using assms(2) by (auto simp: run_turn_def Let_def)
    from drain_turn [OF assms(1) this]
    show "\<exists>w' bs. st' = ([], 0, w') \<and> buf (ow_queue w') = [] \<and> ow_sent w' = ow_sent w @ bs \<and>
         concat bs = batch @ buf (ow_queue w)" by blast
  qed
next
  show "(\<forall>k i. ee_now (envs k) i < ee_now (envs k) (Suc i) \<and> 0 \<le> ee_jitter (envs k) i) \<and>
     retry_wf (ow_retry w) \<and> Initial (ow_retry w) < 2 ^ 62 \<and> MaxInterval (ow_retry w) < 2 ^ 62 \<longrightarrow>
       run_turn ev envs now (batch, tagged, w) \<noteq> None"
  proof
    assume h: "(\<forall>k i. ee_now (envs k) i < ee_now (envs k) (Suc i) \<and> 0 \<le> ee_jitter (envs k) i) \<and>
     retry_wf (ow_retry w) \<and> Initial (ow_retry w) < 2 ^ 62 \<and> MaxInterval (ow_retry w) < 2 ^ 62"
    have t: "tagged = batchCost batch" using assms(1) by (simp add: otlp_inv_def)
    have "\<exists>w'. fold_exports (export_kth envs allow dd) bs v = Some w'" if "ow_retry v = ow_retry w" for allow dd bs v
      using h that by (intro fold_exports_returns) auto
    then show "run_turn ev envs now (batch, tagged, w) \<noteq> None"
      using assms(2) unfolding t by (auto simp: run_turn_def Let_def run_drain_cut)
  qed
qed

definition quick_env :: export_env where
  "quick_env = sample_env\<lparr>ee_answer := (\<lambda>_. Inr None)\<rparr>"

lemma quick_env_ok: "ee_now quick_env i < ee_now quick_env (Suc i) \<and> 0 \<le> ee_jitter quick_env i"
  by (simp add: quick_env_def sample_env_def)

lemma sample_otlp_inv: "otlp_inv ([], 0, sample_otlp\<lparr>ow_queue := \<lparr>buf = [[1], [2], [3]], cap = 4\<rparr>\<rparr>)"
proof -
  have "sizeFor demo_envelope (recordCost 1) = 14" by code_simp
  then show ?thesis
    by (simp add: otlp_inv_def sample_otlp_def newWriterCore_def otlp_defaultOptions_def)
qed

theorem otlp_drain_complete_witness:
  "\<exists>w' bs. run_turn RunFlushReq (\<lambda>_. quick_env) 0 ([], 0, sample_otlp\<lparr>ow_queue := \<lparr>buf = [[1], [2], [3]], cap = 4\<rparr>\<rparr>) =
     Some ([], 0, w') \<and> ow_sent w' = bs \<and> concat bs = [[1], [2], [3]]"
proof -
  let ?w = "sample_otlp\<lparr>ow_queue := \<lparr>buf = [[1], [2], [3]], cap = 4\<rparr>\<rparr>"
  have f: "ow_retry ?w = \<lparr>Initial = 5 * Second, MaxInterval = 30 * Second, MaxElapsed = 60 * Second\<rparr>"
    "ow_sent ?w = []" by (simp_all add: sample_otlp_def newWriterCore_def otlp_defaultOptions_def)
  have ret: "(\<forall>k i. ee_now ((\<lambda>_. quick_env) (k :: nat)) i < ee_now quick_env (Suc i) \<and> 0 \<le> ee_jitter quick_env i) \<and>
      retry_wf (ow_retry ?w) \<and> Initial (ow_retry ?w) < 2 ^ 62 \<and> MaxInterval (ow_retry ?w) < 2 ^ 62"
    unfolding f using quick_env_ok by (simp add: retry_wf_def Second_def)
  note dc = otlp_drain_complete [OF sample_otlp_inv, of RunFlushReq "\<lambda>_. quick_env" 0, OF disjI1 [OF refl]]
  from dc ret obtain st' where "run_turn RunFlushReq (\<lambda>_. quick_env) 0 ([], 0, ?w) = Some st'" by blast
  with dc f(2) show ?thesis by auto
qed

text \<open>Write on every branch: it always returns the full length. Closed, it changes nothing and
  counts nothing; a record that could never fit a request is counted and reported; otherwise the
  queue takes the record, evicting its oldest record under DropOldest when full, and one log is
  counted exactly when one was lost.\<close>

theorem otlp_Write_branches:
  fixes w :: otlp_writer and p :: bytes
  assumes "0 < cap (ow_queue w)" and "length (buf (ow_queue w)) \<le> cap (ow_queue w)"
  defines "w' \<equiv> snd (otlp_Write p w)"
    and "big \<equiv> int (length (assemble (ow_env w) [] [p])) > ow_maxBytes w"
    and "full \<equiv> length (buf (ow_queue w)) = cap (ow_queue w)"
  shows "fst (otlp_Write p w) = length p \<and> (ow_closed w \<longrightarrow> w' = w) \<and>
    (\<not> ow_closed w \<longrightarrow>
      otlp_DroppedLogs w' = otlp_DroppedLogs w + (if big \<or> full then 1 else 0) \<and>
      ow_events w' = ow_events w @ (if big then [record_too_big] else []) \<and>
      buf (ow_queue w') = (if big then buf (ow_queue w)
        else if \<not> full then buf (ow_queue w) @ [p]
        else if ow_dropPolicy w = DropOldest then tl (buf (ow_queue w)) @ [p]
        else buf (ow_queue w)))"
proof -
  have len: "int (length (assemble (ow_env w) [] [p])) = int (sizeFor (ow_env w) (recordCost (length p)))"
    by (simp add: length_assemble)
  show ?thesis
  proof (cases "\<not> big \<and> full \<and> \<not> ow_closed w \<and> ow_dropPolicy w = DropOldest")
    case True
    then obtain y ys where q: "buf (ow_queue w) = y # ys" using assms(1) by (cases "buf (ow_queue w)") (auto simp: full_def)
    with True have "length ys < cap (ow_queue w)" by (simp add: full_def)
    with True q show ?thesis
      by (simp add: w'_def big_def full_def len otlp_Write_def try_send_def try_recv_def add_dropped1_def
          otlp_DroppedLogs_def)
  next
    case False
    with assms(2) show ?thesis
      by (cases "ow_dropPolicy w")
        (auto simp: w'_def big_def full_def len otlp_Write_def try_send_def add_dropped1_def report_def
          otlp_DroppedLogs_def split: if_splits)
  qed
qed

theorem otlp_Write_branches_witness:
  "otlp_DroppedLogs (snd (otlp_Write (replicate 30 7) sample_otlp)) = 1 \<and>
   buf (ow_queue (snd (otlp_Write [5] sample_otlp))) = [[5]]"
proof -
  have s: "sizeFor demo_envelope (recordCost 30) = 43" "sizeFor demo_envelope (recordCost 1) = 14" by code_simp+
  have f: "ow_env sample_otlp = demo_envelope" "ow_maxBytes sample_otlp = 20" "\<not> ow_closed sample_otlp"
    "buf (ow_queue sample_otlp) = []" "cap (ow_queue sample_otlp) = 2" "otlp_DroppedLogs sample_otlp = 0"
    by (simp_all add: sample_otlp_def newWriterCore_def otlp_defaultOptions_def otlp_DroppedLogs_def)
  show ?thesis
    using otlp_Write_branches [of sample_otlp "replicate 30 7"] otlp_Write_branches [of sample_otlp "[5]"] f s
    by (simp add: length_assemble)
qed

text \<open>How a server's answer is accounted: a malformed response is reported and drops nothing,
  positive rejections are dropped in that number and reported, a message without rejections is
  reported as a warning, and an empty response is a clean accept; no answer that the server
  accepted drops anything else.\<close>

theorem accept_accounting:
  "otlp_DroppedLogs (settle_accept (resolveAccept resp base) w) =
     otlp_DroppedLogs w +
       (case decodePartialSuccess resp of Inr (rej, _) \<Rightarrow> if rej > 0 then of_int rej else 0 | Inl _ \<Rightarrow> 0) \<and>
   length (ow_events (settle_accept (resolveAccept resp base) w)) = length (ow_events w) +
     (case decodePartialSuccess resp of
        Inr (rej, msg) \<Rightarrow> if rej \<le> 0 \<and> msg = [] then 0 else 1 | Inl _ \<Rightarrow> 1)"
  by (auto simp: settle_accept_def resolveAccept_def classifyAccept_def drop_logs_def report_def
      otlp_DroppedLogs_def Let_def split: sum.splits)

end
