(* ===== verification/Otlp_Json.thy ===== *)
theory Otlp_Json
  imports Otlp_Receiver Otlp_Writer
begin

text \<open>
  \<^verbatim>\<open>otlp/json.go\<close>: the transcoder from an assembled protobuf request to OTLP/JSON, driven by the
  table of the logs schema, and the JSON form of the response. The transcoder is shown to succeed on
  everything the encoder and the envelope produce, so no batch is lost to it, and a JSON reader gets
  from its output the tree of the request: 64-bit integers as decimal strings, identifiers in
  hexadecimal, other bytes in base64, strings with invalid UTF-8 replaced.
\<close>

section \<open>The schema\<close>

datatype jsonKind =
    jkString | jkBytesHex | jkBytesB64 | jkU64Str | jkI64Str | jkUintNum | jkFixed32 | jkDouble | jkBool | jkMsg

datatype schemaID =
    schExportRequest | schResourceLogs | schResource | schScopeLogs | schScope | schLogRecord | schKeyValue
  | schAnyValue | schArrayValue | schKVList | schNone

record jsonField =
  jf_name :: bytes
  jf_kind :: jsonKind
  jf_repeated :: bool
  jf_sub :: schemaID

definition jscalar :: "string \<Rightarrow> jsonKind \<Rightarrow> jsonField" where
  "jscalar n k = \<lparr>jf_name = str n, jf_kind = k, jf_repeated = False, jf_sub = schNone\<rparr>"

definition jmsg :: "string \<Rightarrow> bool \<Rightarrow> schemaID \<Rightarrow> jsonField" where
  "jmsg n r s = \<lparr>jf_name = str n, jf_kind = jkMsg, jf_repeated = r, jf_sub = s\<rparr>"

fun jsonSchemas :: "schemaID \<Rightarrow> (nat \<times> jsonField) list" where
  "jsonSchemas schExportRequest = [(1, jmsg ''resourceLogs'' True schResourceLogs)]"
| "jsonSchemas schResourceLogs =
     [(1, jmsg ''resource'' False schResource), (2, jmsg ''scopeLogs'' True schScopeLogs), (3, jscalar ''schemaUrl'' jkString)]"
| "jsonSchemas schResource =
     [(1, jmsg ''attributes'' True schKeyValue), (2, jscalar ''droppedAttributesCount'' jkUintNum)]"
| "jsonSchemas schScopeLogs =
     [(1, jmsg ''scope'' False schScope), (2, jmsg ''logRecords'' True schLogRecord), (3, jscalar ''schemaUrl'' jkString)]"
| "jsonSchemas schScope =
     [(1, jscalar ''name'' jkString), (2, jscalar ''version'' jkString), (3, jmsg ''attributes'' True schKeyValue),
      (4, jscalar ''droppedAttributesCount'' jkUintNum)]"
| "jsonSchemas schLogRecord =
     [(1, jscalar ''timeUnixNano'' jkU64Str), (2, jscalar ''severityNumber'' jkUintNum), (3, jscalar ''severityText'' jkString),
      (5, jmsg ''body'' False schAnyValue), (6, jmsg ''attributes'' True schKeyValue),
      (7, jscalar ''droppedAttributesCount'' jkUintNum), (8, jscalar ''flags'' jkFixed32), (9, jscalar ''traceId'' jkBytesHex),
      (10, jscalar ''spanId'' jkBytesHex), (11, jscalar ''observedTimeUnixNano'' jkU64Str), (12, jscalar ''eventName'' jkString)]"
| "jsonSchemas schKeyValue = [(1, jscalar ''key'' jkString), (2, jmsg ''value'' False schAnyValue)]"
| "jsonSchemas schAnyValue =
     [(1, jscalar ''stringValue'' jkString), (2, jscalar ''boolValue'' jkBool), (3, jscalar ''intValue'' jkI64Str),
      (4, jscalar ''doubleValue'' jkDouble), (5, jmsg ''arrayValue'' False schArrayValue),
      (6, jmsg ''kvlistValue'' False schKVList), (7, jscalar ''bytesValue'' jkBytesB64)]"
| "jsonSchemas schArrayValue = [(1, jmsg ''values'' True schAnyValue)]"
| "jsonSchemas schKVList = [(1, jmsg ''values'' True schKeyValue)]"
| "jsonSchemas schNone = []"

fun wireTypeFor :: "jsonKind \<Rightarrow> nat" where
  "wireTypeFor jkString = 2"
| "wireTypeFor jkBytesHex = 2"
| "wireTypeFor jkBytesB64 = 2"
| "wireTypeFor jkMsg = 2"
| "wireTypeFor jkU64Str = 1"
| "wireTypeFor jkDouble = 1"
| "wireTypeFor jkFixed32 = 5"
| "wireTypeFor jkI64Str = 0"
| "wireTypeFor jkUintNum = 0"
| "wireTypeFor jkBool = 0"

section \<open>Strings\<close>

definition json_escape :: "byte \<Rightarrow> bytes" where
  "json_escape c =
     (if c = 34 then [92, 34]
      else if c = 92 then [92, 92]
      else if c = 10 then [92, of_char CHR ''n'']
      else if c = 13 then [92, of_char CHR ''r'']
      else if c = 9 then [92, of_char CHR ''t'']
      else if c < 0x20 then
        [92, of_char CHR ''u'', 48, 48, hex_digit (unat (drop_bit 4 c)), hex_digit (unat (c AND 0xf))]
      else [c])"

function json_chars :: "bytes \<Rightarrow> bytes \<Rightarrow> bytes" where
  "json_chars dst s =
     (if s = [] then dst
      else if hd s < 0x80 then json_chars (dst @ json_escape (hd s)) (tl s)
      else if rune_size s = 0 then json_chars (dst @ replacement) (tl s)
      else json_chars (dst @ take (rune_size s) s) (drop (rune_size s) s))"
  by pat_completeness auto
termination
  by (relation "measure (\<lambda>(dst, s). length s)") auto

declare json_chars.simps [simp del]

definition appendJSONString :: "bytes \<Rightarrow> bytes \<Rightarrow> bytes" where
  "appendJSONString dst s = json_chars (dst @ [34]) s @ [34]"

section \<open>The transcoder\<close>

datatype json_error =
    JTruncated
  | JUnknownField nat schemaID
  | JWireType nat bytes nat nat

record jsonVal =
  jv_payload :: bytes
  jv_num :: u64

definition json_step :: "schemaID \<Rightarrow> bytes \<Rightarrow> (json_error, nat \<times> jsonVal \<times> bytes) result" where
  "json_step sid b0 =
     (let (tag, n) = Uvarint b0 in
      if n \<le> 0 then Inl JTruncated
      else
        let b = drop (nat n) b0; num = unat (drop_bit 3 tag); wt = unat (tag AND 7) in
        case map_of (jsonSchemas sid) num of
          None \<Rightarrow> Inl (JUnknownField num sid)
        | Some f \<Rightarrow>
            if wt \<noteq> wireTypeFor (jf_kind f) then Inl (JWireType num (jf_name f) wt (wireTypeFor (jf_kind f)))
            else if wt = 0 then
              (let (x, vn) = Uvarint b in
               if vn \<le> 0 then Inl JTruncated else Inr (num, \<lparr>jv_payload = [], jv_num = x\<rparr>, drop (nat vn) b))
            else if wt = 1 then
              (if length b < 8 then Inl JTruncated else Inr (num, \<lparr>jv_payload = [], jv_num = le64_read b\<rparr>, drop 8 b))
            else if wt = 2 then
              (let (l, ln) = Uvarint b in
               if ln \<le> 0 \<or> length b - nat ln < unat l then Inl JTruncated
               else Inr (num, \<lparr>jv_payload = take (unat l) (drop (nat ln) b), jv_num = 0\<rparr>, drop (nat ln + unat l) b))
            else
              (if length b < 4 then Inl JTruncated
               else Inr (num, \<lparr>jv_payload = [], jv_num = ucast (le32_read b)\<rparr>, drop 4 b)))"

lemma json_step_shorter:
  assumes "json_step sid b = Inr (num, v, rest)"
  shows "length rest < length b" "length (jv_payload v) < length b"
proof -
  obtain tag n where u: "Uvarint b = (tag, n)" by (cases "Uvarint b")
  with assms have n: "0 < n" by (auto simp: json_step_def split: if_splits)
  then have "n \<le> int (length b)" using u by (rule Uvarint_count [rotated])
  with n have "length (drop (nat n) b) < length b" by auto
  moreover have "length rest \<le> length (drop (nat n) b) \<and> length (jv_payload v) \<le> length (drop (nat n) b)"
    using assms u n by (auto simp: json_step_def Let_def split: if_splits prod.splits option.splits)
  ultimately show "length rest < length b" "length (jv_payload v) < length b" by simp_all
qed

text \<open>
  The values by field number, in the order of the first appearance: the map and the order of the
  source together.
\<close>

fun add_val :: "nat \<Rightarrow> jsonVal \<Rightarrow> (nat \<times> jsonVal list) list \<Rightarrow> (nat \<times> jsonVal list) list" where
  "add_val num v [] = [(num, [v])]"
| "add_val num v ((n, vs) # r) = (if n = num then (n, vs @ [v]) # r else (n, vs) # add_val num v r)"

function scan_fields :: "schemaID \<Rightarrow> bytes \<Rightarrow> (nat \<times> jsonVal list) list \<Rightarrow>
    (json_error, (nat \<times> jsonVal list) list) result" where
  "scan_fields sid b vals =
     (if b = [] then Inr vals
      else case json_step sid b of
        Inl e \<Rightarrow> Inl e
      | Inr (num, v, rest) \<Rightarrow> scan_fields sid rest (add_val num v vals))"
  by pat_completeness auto
termination
  by (relation "measure (\<lambda>(sid, b, vals). length b)") (auto dest: json_step_shorter)

declare scan_fields.simps [simp del]

lemma add_val_mem: "(n, vs) \<in> set (add_val num v vals) \<Longrightarrow> w \<in> set vs \<Longrightarrow> w = v \<or> (\<exists>vs'. (n, vs') \<in> set vals \<and> w \<in> set vs')"
  by (induction num v vals rule: add_val.induct) (auto split: if_splits)

lemma scan_fields_payload:
  "scan_fields sid b vals = Inr out \<Longrightarrow> (n, vs) \<in> set out \<Longrightarrow> w \<in> set vs \<Longrightarrow>
   length (jv_payload w) < length b \<or> (\<exists>vs'. (n, vs') \<in> set vals \<and> w \<in> set vs')"
proof (induction sid b vals rule: scan_fields.induct)
  case (1 sid b vals)
  show ?case
  proof (cases "b = []")
    case True
    with 1 show ?thesis by (auto simp: scan_fields.simps)
  next
    case False
    with 1(2) obtain num v rest where s: "json_step sid b = Inr (num, v, rest)"
      and o: "scan_fields sid rest (add_val num v vals) = Inr out"
      by (subst (asm) scan_fields.simps) (auto split: sum.splits)
    note sh = json_step_shorter [OF s]
    from 1(1) [OF False s refl refl o 1(3,4)] show ?thesis
      using sh by (auto dest: add_val_mem)
  qed
qed

lemma enumerate_mem: "(i, x) \<in> set (enumerate k xs) \<Longrightarrow> x \<in> set xs"
  by (auto simp: in_set_enumerate_eq)

lemma scan_fields_shorter:
  "scan_fields sid b [] = Inr vals \<Longrightarrow> (num, vs) \<in> set vals \<Longrightarrow> v \<in> set vs \<Longrightarrow> length (jv_payload v) < length b"
  by (auto dest: scan_fields_payload)

fun fold_res :: "('x \<Rightarrow> 'a \<Rightarrow> ('e, 'a) result) \<Rightarrow> 'x list \<Rightarrow> 'a \<Rightarrow> ('e, 'a) result" where
  "fold_res f [] a = Inr a"
| "fold_res f (x # xs) a = (case f x a of Inl e \<Rightarrow> Inl e | Inr a' \<Rightarrow> fold_res f xs a')"

lemma fold_res_cong [fundef_cong]:
  "xs = ys \<Longrightarrow> a = b \<Longrightarrow> (\<And>x c. x \<in> set ys \<Longrightarrow> f x c = g x c) \<Longrightarrow> fold_res f xs a = fold_res g ys b"
  by (induction ys arbitrary: xs a b) (auto split: sum.split)

text \<open>The text of a float, \<^verbatim>\<open>strconv.AppendFloat\<close> in the shortest form, is an argument.\<close>

definition f64_IsNaN :: "u64 \<Rightarrow> bool" where
  "f64_IsNaN b \<longleftrightarrow> drop_bit 52 b AND 0x7ff = 0x7ff \<and> take_bit 52 b \<noteq> 0"

definition f64_IsInf :: "u64 \<Rightarrow> bool \<Rightarrow> bool" where
  "f64_IsInf b neg \<longleftrightarrow> drop_bit 52 b AND 0x7ff = 0x7ff \<and> take_bit 52 b = 0 \<and> bit b 63 = neg"

definition scalar_text :: "(u64 \<Rightarrow> bytes) \<Rightarrow> jsonKind \<Rightarrow> jsonVal \<Rightarrow> bytes" where
  "scalar_text fmt k v =
     (case k of
        jkString \<Rightarrow> appendJSONString [] (jv_payload v)
      | jkBytesHex \<Rightarrow> [34] @ hex_lower (jv_payload v) @ [34]
      | jkBytesB64 \<Rightarrow> [34] @ base64 (jv_payload v) @ [34]
      | jkU64Str \<Rightarrow> [34] @ decimal (unat (jv_num v)) @ [34]
      | jkI64Str \<Rightarrow> [34] @ format_int (sint (jv_num v)) @ [34]
      | jkUintNum \<Rightarrow> decimal (unat (jv_num v))
      | jkFixed32 \<Rightarrow> decimal (unat (jv_num v))
      | jkBool \<Rightarrow> (if jv_num v \<noteq> 0 then str ''true'' else str ''false'')
      | jkDouble \<Rightarrow>
          if f64_IsNaN (jv_num v) then [34] @ str ''NaN'' @ [34]
          else if f64_IsInf (jv_num v) False then [34] @ str ''Infinity'' @ [34]
          else if f64_IsInf (jv_num v) True then [34] @ str ''-Infinity'' @ [34]
          else fmt (jv_num v)
      | jkMsg \<Rightarrow> [])"

function appendMsgJSON :: "(u64 \<Rightarrow> bytes) \<Rightarrow> bytes \<Rightarrow> bytes \<Rightarrow> schemaID \<Rightarrow> (json_error, bytes) result"
  and appendValJSON :: "(u64 \<Rightarrow> bytes) \<Rightarrow> bytes \<Rightarrow> jsonVal \<Rightarrow> jsonField \<Rightarrow> (json_error, bytes) result" where
  "appendMsgJSON fmt dst b sid =
     (case scan_fields sid b [] of
        Inl e \<Rightarrow> Inl e
      | Inr vals \<Rightarrow>
          (case fold_res
             (\<lambda>(i, num, vs) dst0.
                case map_of (jsonSchemas sid) num of
                  None \<Rightarrow> Inl (JUnknownField num sid)
                | Some f \<Rightarrow>
                    (let dst1 = (if i > 0 then dst0 @ [44] else dst0);
                         dst2 = appendJSONString dst1 (jf_name f) @ [58]
                     in if jf_repeated f then
                          (case fold_res (\<lambda>(j, v) d. appendValJSON fmt (if j > 0 then d @ [44] else d) v f)
                             (enumerate 0 vs) (dst2 @ [91]) of
                             Inl e \<Rightarrow> Inl e
                           | Inr d \<Rightarrow> Inr (d @ [93]))
                        else if vs = [] then Inr dst2
                        else appendValJSON fmt dst2 (last vs) f))
             (enumerate 0 vals) (dst @ [123]) of
             Inl e \<Rightarrow> Inl e
           | Inr d \<Rightarrow> Inr (d @ [125])))"
| "appendValJSON fmt dst v f =
     (if jf_kind f = jkMsg then appendMsgJSON fmt dst (jv_payload v) (jf_sub f)
      else Inr (dst @ scalar_text fmt (jf_kind f) v))"
  by pat_completeness auto
termination
  by (relation "measure (\<lambda>x. case x of Inl (fmt, dst, b, sid) \<Rightarrow> 2 * length b
       | Inr (fmt, dst, v, f) \<Rightarrow> 2 * length (jv_payload v) + 1)")
    (auto dest!: enumerate_mem dest: scan_fields_shorter scan_fields_shorter [OF _ _ last_in_set])

declare appendMsgJSON.simps [simp del] appendValJSON.simps [simp del]

definition appendRequestJSON :: "(u64 \<Rightarrow> bytes) \<Rightarrow> bytes \<Rightarrow> bytes \<Rightarrow> (json_error, bytes) result" where
  "appendRequestJSON fmt dst msg = appendMsgJSON fmt dst msg schExportRequest"

section \<open>Reading strings\<close>

lemma json_chars_prefix: "json_chars (d1 @ d2) s = d1 @ json_chars d2 s"
proof (induction d2 s rule: json_chars.induct)
  case (1 d2 s)
  then show ?case
    by (simp add: json_chars.simps [of "d1 @ d2" s] json_chars.simps [of d2 s])
qed

lemma json_chars_append: "NO_MATCH [] dst \<Longrightarrow> json_chars dst s = dst @ json_chars [] s"
  using json_chars_prefix [of dst "[]" s] by simp

lemma appendJSONString_quoted: "appendJSONString dst s = dst @ quoted (json_chars [] s)"
  by (simp add: appendJSONString_def json_chars_append quoted_def)

lemma control_escape:
  fixes c :: byte
  assumes "c < 0x20"
  shows "unat (drop_bit 4 c) < 8" "unat (c AND 0xf) < 16" "of_nat (unat (drop_bit 4 c) * 16 + unat (c AND 0xf)) = c"
proof -
  have m: "(0xf :: byte) = mask 4" by (simp add: mask_eq_exp_minus_1)
  have d: "unat (drop_bit 4 c) = unat c div 16" using unat_drop_bit_div [of 4 c] by simp
  have a: "unat (c AND 0xf) = unat c mod 16" unfolding m
    by (simp only: take_bit_eq_mask [symmetric] unsigned_take_bit_eq) (simp add: take_bit_eq_mod)
  have "unat c < 32" using assms by (simp add: word_less_nat_alt)
  then show "unat (drop_bit 4 c) < 8" "unat (c AND 0xf) < 16" unfolding d a by simp_all
  have "unat (drop_bit 4 c) * 16 + unat (c AND 0xf) = unat c" unfolding d a by simp
  then show "of_nat (unat (drop_bit 4 c) * 16 + unat (c AND 0xf)) = c" by (simp only: of_nat_unat ucast_id)
qed

lemma read_escape: "read_str (json_escape c @ q) = map_option (\<lambda>(s, r). (c # s, r)) (read_str q)"
proof (cases "c < 0x20 \<and> c \<noteq> 10 \<and> c \<noteq> 13 \<and> c \<noteq> 9")
  case True
  then have lt: "c < 0x20" by simp
  note ce = control_escape [OF lt]
  have "c \<noteq> 34" "c \<noteq> 92" using lt by auto
  moreover have "unat (drop_bit 4 c) < 16" using ce(1) by simp
  ultimately show ?thesis using True ce
    by (simp add: json_escape_def unhex_hex_digit Let_def del: of_nat_add of_nat_mult)
next
  case False
  then show ?thesis by (auto simp: json_escape_def Let_def)
qed

lemma json_chars_read: "read_str (json_chars [] s @ 34 # r) = Some (utf8_fix s, r)"
proof (induction s rule: utf8_fix.induct)
  case (1 s)
  show ?case
  proof (cases s)
    case Nil
    then show ?thesis by (simp add: json_chars.simps)
  next
    case (Cons c q)
    consider "c < 0x80" | "\<not> c < 0x80" "rune_size s = 0" | "\<not> c < 0x80" "rune_size s \<noteq> 0" by blast
    then show ?thesis
    proof cases
      case a: 1
      then have n: "rune_size s = 1" using Cons by simp
      have "read_str (json_chars [] s @ 34 # r) = map_option (\<lambda>(s, r). (c # s, r)) (read_str (json_chars [] q @ 34 # r))"
        using a unfolding Cons by (subst json_chars.simps) (simp add: json_chars_append [of "json_escape c"] read_escape)
      moreover have "utf8_fix s = c # utf8_fix q" using Cons n by (subst utf8_fix.simps) simp
      ultimately show ?thesis using Cons n "1.IH"(2) by simp
    next
      case 2
      have p: "\<forall>b\<in>set replacement. plain b" by (simp add: replacement_def plain_def)
      have "json_chars [] s = replacement @ json_chars [] q"
        using Cons 2 json_chars_prefix [of replacement "[]"] by (subst json_chars.simps) simp
      moreover have "utf8_fix s = replacement @ utf8_fix q" using Cons 2 by (subst utf8_fix.simps) simp
      ultimately show ?thesis using Cons 2 "1.IH"(1) read_str_plain [OF p] by simp
    next
      case 3
      have hi: "\<forall>b\<in>set (take (rune_size s) s). plain b"
        using rune_bytes_high [OF Cons 3(1)] by (auto simp: plain_unat word_less_nat_alt)
      have "json_chars [] s = take (rune_size s) s @ json_chars [] (drop (rune_size s) s)"
        using Cons 3 json_chars_prefix [of "take (rune_size s) s" "[]"] by (subst json_chars.simps) simp
      moreover have "utf8_fix s = take (rune_size s) s @ utf8_fix (drop (rune_size s) s)"
        using Cons 3 by (subst utf8_fix.simps) simp
      ultimately show ?thesis using Cons 3 "1.IH"(2) read_str_plain [OF hi] by simp
    qed
  qed
qed

lemma reads_json_chars: "reads_str (json_chars [] s) (utf8_fix s)"
  by (simp add: reads_str_def json_chars_read)

lemma utf8_fix_ascii: "\<forall>c\<in>set s. c < 0x80 \<Longrightarrow> utf8_fix s = s"
  by (induction s) (simp_all add: utf8_fix.simps [of "_ # _"])

section \<open>Scanning messages\<close>

fun pf_wt :: "pfield \<Rightarrow> nat" where
  "pf_wt (PVarint k v) = 0"
| "pf_wt (PFixed64 k v) = 1"
| "pf_wt (PLen k p) = 2"
| "pf_wt (PFixed32 k v) = 5"

fun pval :: "pfield \<Rightarrow> jsonVal" where
  "pval (PVarint k v) = \<lparr>jv_payload = [], jv_num = v\<rparr>"
| "pval (PFixed64 k v) = \<lparr>jv_payload = [], jv_num = v\<rparr>"
| "pval (PLen k p) = \<lparr>jv_payload = p, jv_num = 0\<rparr>"
| "pval (PFixed32 k v) = \<lparr>jv_payload = [], jv_num = ucast v\<rparr>"

lemma json_step_tagged:
  assumes "k < 16" and "w < 8" and "map_of (jsonSchemas sid) k = Some f" and "wireTypeFor (jf_kind f) = w"
  shows "json_step sid (of_nat (8 * k + w) # b) =
    (if w = 0 then
       (let (x, vn) = Uvarint b in
        if vn \<le> 0 then Inl JTruncated else Inr (k, \<lparr>jv_payload = [], jv_num = x\<rparr>, drop (nat vn) b))
     else if w = 1 then
       (if length b < 8 then Inl JTruncated else Inr (k, \<lparr>jv_payload = [], jv_num = le64_read b\<rparr>, drop 8 b))
     else if w = 2 then
       (let (l, ln) = Uvarint b in
        if ln \<le> 0 \<or> length b - nat ln < unat l then Inl JTruncated
        else Inr (k, \<lparr>jv_payload = take (unat l) (drop (nat ln) b), jv_num = 0\<rparr>, drop (nat ln + unat l) b))
     else
       (if length b < 4 then Inl JTruncated
        else Inr (k, \<lparr>jv_payload = [], jv_num = ucast (le32_read b)\<rparr>, drop 4 b)))"
proof -
  have m: "8 * k + w < 128" using assms(1,2) by simp
  have "unat (of_nat (8 * k + w) :: byte) < 128" using m by (simp add: unat_of_nat_byte del: of_nat_add of_nat_mult)
  note u = Uvarint_tag [OF this]
  have k: "(8 * k + w) div 8 = k" "(8 * k + w) mod 8 = w" using assms(2) by simp_all
  have d: "drop (nat 1) (x # b) = b" for x by simp
  show ?thesis unfolding json_step_def u prod.case Let_def tag_split [OF m] k assms(3) option.case assms(4) d
    by simp
qed

lemma json_step_enc:
  assumes "field_ok f" and "map_of (jsonSchemas sid) (field_num f) = Some jf" and "wireTypeFor (jf_kind jf) = pf_wt f"
  shows "json_step sid (enc_field f @ rest) = Inr (field_num f, pval f, rest)"
proof (cases f)
  case (PVarint k v)
  then show ?thesis using assms json_step_tagged [of k 0 sid jf]
    by (simp add: append_simps decode_simps del: of_nat_mult of_nat_add)
next
  case (PFixed64 k v)
  then show ?thesis using assms json_step_tagged [of k 1 sid jf]
    by (simp add: append_simps decode_simps del: of_nat_mult of_nat_add of_nat_Suc le64_read.simps)
next
  case (PLen k p)
  then show ?thesis using assms json_step_tagged [of k 2 sid jf]
    by (simp add: append_simps decode_simps unat_of_nat_u64 del: of_nat_mult of_nat_add of_nat_Suc add_2_eq_Suc')
next
  case (PFixed32 k v)
  then show ?thesis using assms json_step_tagged [of k 5 sid jf]
    by (simp add: append_simps decode_simps del: of_nat_mult of_nat_add of_nat_Suc le32_read.simps)
qed

definition fits_schema :: "schemaID \<Rightarrow> pfield \<Rightarrow> bool" where
  "fits_schema sid f \<longleftrightarrow> field_ok f \<and>
     (case map_of (jsonSchemas sid) (field_num f) of None \<Rightarrow> False | Some jf \<Rightarrow> wireTypeFor (jf_kind jf) = pf_wt f)"

lemma scan_enc:
  "\<forall>f\<in>set fs. fits_schema sid f \<Longrightarrow>
   scan_fields sid (enc_msg fs) vals = Inr (foldl (\<lambda>vs f. add_val (field_num f) (pval f) vs) vals fs)"
proof (induction fs arbitrary: vals)
  case Nil
  then show ?case by (simp add: scan_fields.simps)
next
  case (Cons f fs)
  then have "json_step sid (enc_field f @ enc_msg fs) = Inr (field_num f, pval f, enc_msg fs)"
    by (auto simp: fits_schema_def intro: json_step_enc split: option.splits)
  with Cons show ?case by (simp add: scan_fields.simps [of sid "enc_field f @ enc_msg fs"])
qed

text \<open>A message as blocks: for each field number its occurrences.\<close>

type_synonym blocks = "(nat \<times> pfield list) list"

definition block_fields :: "blocks \<Rightarrow> pfield list" where
  "block_fields bs = concat (map snd bs)"

definition filled :: "blocks \<Rightarrow> blocks" where
  "filled bs = filter (\<lambda>(n, fs). fs \<noteq> []) bs"

definition blocks_ok :: "schemaID \<Rightarrow> blocks \<Rightarrow> bool" where
  "blocks_ok sid bs \<longleftrightarrow> distinct (map fst bs) \<and> (\<forall>(n, fs)\<in>set bs. \<forall>f\<in>set fs. field_num f = n \<and> fits_schema sid f)"

lemma add_val_new: "num \<notin> fst ` set vals \<Longrightarrow> add_val num v (vals @ r) = vals @ add_val num v r"
  by (induction vals) auto

lemma add_block:
  "num \<notin> fst ` set vals \<Longrightarrow> \<forall>f\<in>set fs. field_num f = num \<Longrightarrow>
   foldl (\<lambda>vs f. add_val (field_num f) (pval f) vs) (vals @ [(num, ws)]) fs = vals @ [(num, ws @ map pval fs)]"
  by (induction fs arbitrary: ws) (simp_all add: add_val_new)

lemma add_blocks:
  assumes "distinct (map fst bs)" and "fst ` set vals \<inter> fst ` set bs = {}"
    and "\<forall>(n, fs)\<in>set bs. \<forall>f\<in>set fs. field_num f = n"
  shows "foldl (\<lambda>vs f. add_val (field_num f) (pval f) vs) vals (block_fields bs) =
    vals @ map (\<lambda>(n, fs). (n, map pval fs)) (filled bs)"
  using assms
proof (induction bs arbitrary: vals)
  case (Cons nf bs)
  obtain n fs where nf: "nf = (n, fs)" by (cases nf)
  show ?case
  proof (cases fs)
    case Nil
    then show ?thesis using Cons nf by (simp add: block_fields_def filled_def)
  next
    case (Cons f gs)
    have "foldl (\<lambda>vs f. add_val (field_num f) (pval f) vs) vals fs = vals @ [(n, map pval fs)]"
      using Cons.prems nf Cons add_val_new [of n vals "pval f" "[]"] add_block [of n vals gs "[pval f]"] by auto
    then show ?thesis using Cons.prems nf Cons
      by (simp add: block_fields_def filled_def Cons.IH [unfolded block_fields_def filled_def])
  qed
qed (simp add: block_fields_def filled_def)

lemma scan_blocks:
  "blocks_ok sid bs \<Longrightarrow>
   scan_fields sid (enc_msg (block_fields bs)) [] = Inr (map (\<lambda>(n, fs). (n, map pval fs)) (filled bs))"
  using add_blocks [of bs "[]"] by (subst scan_enc) (auto simp: blocks_ok_def block_fields_def)

section \<open>Emitting messages\<close>

definition val_text :: "(u64 \<Rightarrow> bytes) \<Rightarrow> jsonVal \<Rightarrow> jsonField \<Rightarrow> bytes" where
  "val_text fmt v f = (case appendValJSON fmt [] v f of Inr t \<Rightarrow> t | Inl _ \<Rightarrow> [])"

definition val_reads :: "(u64 \<Rightarrow> bytes) \<Rightarrow> jsonVal \<Rightarrow> jsonField \<Rightarrow> jtext \<Rightarrow> bool" where
  "val_reads fmt v f j \<longleftrightarrow>
     (\<forall>dst. appendValJSON fmt dst v f = Inr (dst @ val_text fmt v f)) \<and> reads_json (val_text fmt v f) j"

definition msg_reads :: "(u64 \<Rightarrow> bytes) \<Rightarrow> schemaID \<Rightarrow> bytes \<Rightarrow> jtext \<Rightarrow> bool" where
  "msg_reads fmt sid b j \<longleftrightarrow> (\<exists>t. (\<forall>dst. appendMsgJSON fmt dst b sid = Inr (dst @ t)) \<and> reads_json t j)"

lemma val_reads_msg: "jf_kind f = jkMsg \<Longrightarrow> msg_reads fmt (jf_sub f) (jv_payload v) j \<Longrightarrow> val_reads fmt v f j"
  by (auto simp: msg_reads_def val_reads_def val_text_def appendValJSON.simps)

lemma val_reads_scalar:
  "jf_kind f \<noteq> jkMsg \<Longrightarrow> reads_json (scalar_text fmt (jf_kind f) v) j \<Longrightarrow> val_reads fmt v f j"
  by (simp add: val_reads_def val_text_def appendValJSON.simps)

lemma commas_Cons: "commas (p # ps) = p @ concat (map (\<lambda>q. 44 # q) ps)"
  by (induction ps arbitrary: p) simp_all

lemma fold_commas:
  assumes "\<And>i x d. x \<in> set xs \<Longrightarrow> f (i, x) d = Inr ((if i > 0 then d @ [44] else d) @ T x)"
  shows "fold_res f (enumerate 0 xs) d = Inr (d @ commas (map T xs))"
proof (cases xs)
  case (Cons x ys)
  have "fold_res f (enumerate (Suc k) ys) d = Inr (d @ concat (map (\<lambda>q. 44 # q) (map T ys)))"
    if "set ys \<subseteq> set xs" for k ys d
    using that by (induction ys arbitrary: k d) (simp_all add: assms)
  then show ?thesis using Cons assms [of x 0 d] by (simp add: commas_Cons subset_insertI del: commas.simps)
qed simp

text \<open>What a reader gets for one block under the schema.\<close>

definition block_reads :: "(u64 \<Rightarrow> bytes) \<Rightarrow> schemaID \<Rightarrow> nat \<times> pfield list \<Rightarrow> bytes \<times> jtext \<Rightarrow> bool" where
  "block_reads fmt sid b kv \<longleftrightarrow>
     (\<exists>jf. map_of (jsonSchemas sid) (fst b) = Some jf \<and> fst kv = jf_name jf \<and>
        (if jf_repeated jf
         then \<exists>js. snd kv = JTArr js \<and> list_all2 (\<lambda>f j. val_reads fmt (pval f) jf j) (snd b) js
         else val_reads fmt (pval (last (snd b))) jf (snd kv)))"

definition block_text :: "(u64 \<Rightarrow> bytes) \<Rightarrow> schemaID \<Rightarrow> nat \<times> jsonVal list \<Rightarrow> bytes" where
  "block_text fmt sid b =
     (let jf = the (map_of (jsonSchemas sid) (fst b)) in
      member_text (json_chars [] (jf_name jf))
        (if jf_repeated jf then 91 # commas (map (\<lambda>v. val_text fmt v jf) (snd b)) @ [93]
         else val_text fmt (last (snd b)) jf))"

lemma schema_names: "map_of (jsonSchemas sid) n = Some jf \<Longrightarrow> utf8_fix (jf_name jf) = jf_name jf"
proof -
  have "\<forall>(n, jf)\<in>set (jsonSchemas sid). \<forall>c\<in>set (jf_name jf). c < 0x80"
    by (cases sid) (simp_all add: jscalar_def jmsg_def str_def)
  then show "map_of (jsonSchemas sid) n = Some jf \<Longrightarrow> utf8_fix (jf_name jf) = jf_name jf"
    by (auto dest!: map_of_SomeD intro: utf8_fix_ascii)
qed

lemma val_reads_text: "val_reads fmt v f j \<Longrightarrow> reads_json (val_text fmt v f) j"
  by (simp add: val_reads_def)

lemma block_reads_member:
  assumes "block_reads fmt sid (n, fs) kv" and "fs \<noteq> []"
  shows "reads_member (block_text fmt sid (n, map pval fs)) kv"
proof -
  from assms(1) obtain jf where jf: "map_of (jsonSchemas sid) n = Some jf" "fst kv = jf_name jf"
    and r: "if jf_repeated jf
         then \<exists>js. snd kv = JTArr js \<and> list_all2 (\<lambda>f j. val_reads fmt (pval f) jf j) fs js
         else val_reads fmt (pval (last fs)) jf (snd kv)"
    unfolding block_reads_def fst_conv snd_conv by blast
  have k: "reads_str (json_chars [] (jf_name jf)) (fst kv)"
    using reads_json_chars [of "jf_name jf"] schema_names [OF jf(1)] jf(2) by simp
  have "reads_json (91 # commas (map (\<lambda>v. val_text fmt v jf) (map pval fs)) @ [93]) (JTArr js)"
    if "list_all2 (\<lambda>f j. val_reads fmt (pval f) jf j) fs js" for js
    using that by (intro reads_json_array) (auto simp: list_all2_map1 val_reads_def elim: list_all2_mono)
  with r have "reads_json (if jf_repeated jf then 91 # commas (map (\<lambda>v. val_text fmt v jf) (map pval fs)) @ [93]
      else val_text fmt (last (map pval fs)) jf) (snd kv)"
    using assms(2) val_reads_text by (auto simp: last_map simp del: map_map)
  with k show ?thesis
    unfolding reads_member_def block_text_def fst_conv snd_conv jf(1) option.sel Let_def by blast
qed

definition emit_field :: "(u64 \<Rightarrow> bytes) \<Rightarrow> schemaID \<Rightarrow> nat \<times> nat \<times> jsonVal list \<Rightarrow> bytes \<Rightarrow> (json_error, bytes) result" where
  "emit_field fmt sid = (\<lambda>(i, num, vs) dst0.
     case map_of (jsonSchemas sid) num of
       None \<Rightarrow> Inl (JUnknownField num sid)
     | Some f \<Rightarrow>
         (let dst1 = (if i > 0 then dst0 @ [44] else dst0);
              dst2 = appendJSONString dst1 (jf_name f) @ [58]
          in if jf_repeated f then
               (case fold_res (\<lambda>(j, v) d. appendValJSON fmt (if j > 0 then d @ [44] else d) v f)
                  (enumerate 0 vs) (dst2 @ [91]) of
                  Inl e \<Rightarrow> Inl e
                | Inr d \<Rightarrow> Inr (d @ [93]))
             else if vs = [] then Inr dst2
             else appendValJSON fmt dst2 (last vs) f))"

lemma appendMsgJSON_emit:
  "appendMsgJSON fmt dst b sid =
     (case scan_fields sid b [] of
        Inl e \<Rightarrow> Inl e
      | Inr vals \<Rightarrow>
          (case fold_res (emit_field fmt sid) (enumerate 0 vals) (dst @ [123]) of
             Inl e \<Rightarrow> Inl e | Inr d \<Rightarrow> Inr (d @ [125])))"
  unfolding emit_field_def by (rule appendMsgJSON.simps)

lemma emit_block:
  assumes "block_reads fmt sid (n, fs) kv" and "fs \<noteq> []"
  shows "emit_field fmt sid (i, n, map pval fs) d =
    Inr ((if i > 0 then d @ [44] else d) @ block_text fmt sid (n, map pval fs))"
proof -
  from assms(1) obtain jf where jf: "map_of (jsonSchemas sid) n = Some jf"
    and r: "if jf_repeated jf then \<exists>js. snd kv = JTArr js \<and> list_all2 (\<lambda>f j. val_reads fmt (pval f) jf j) fs js
         else val_reads fmt (pval (last fs)) jf (snd kv)"
    unfolding block_reads_def fst_conv snd_conv by blast
  have fold: "fold_res (\<lambda>(j, v) d. appendValJSON fmt (if j > 0 then d @ [44] else d) v jf) (enumerate 0 (map pval fs)) d' =
      Inr (d' @ commas (map (\<lambda>v. val_text fmt v jf) (map pval fs)))" if "jf_repeated jf" for d'
  proof (rule fold_commas)
    fix i x d assume "x \<in> set (map pval fs)"
    with r that have "\<forall>d. appendValJSON fmt d x jf = Inr (d @ val_text fmt x jf)"
      by (auto simp: val_reads_def list_all2_conv_all_nth in_set_conv_nth)
    then show "(case (i, x) of (j, v) \<Rightarrow> \<lambda>d. appendValJSON fmt (if j > 0 then d @ [44] else d) v jf) d =
        Inr ((if i > 0 then d @ [44] else d) @ val_text fmt x jf)" by simp
  qed
  have "\<not> jf_repeated jf \<Longrightarrow> \<forall>d. appendValJSON fmt d (pval (last fs)) jf = Inr (d @ val_text fmt (pval (last fs)) jf)"
    using r by (simp add: val_reads_def)
  then show ?thesis using assms(2)
    by (simp add: emit_field_def jf fold appendJSONString_quoted block_text_def member_text_def last_map val_reads_def Let_def)
qed

lemma msg_reads_blocks:
  assumes ok: "blocks_ok sid bs" and rd: "list_all2 (block_reads fmt sid) (filled bs) kvs"
  shows "msg_reads fmt sid (enc_msg (block_fields bs)) (JTObj kvs)"
proof -
  let ?vals = "map (\<lambda>(n, fs). (n, map pval fs)) (filled bs)"
  let ?t = "123 # commas (map (block_text fmt sid) ?vals) @ [125]"
  have ne: "snd b \<noteq> []" if "b \<in> set (filled bs)" for b using that by (auto simp: filled_def)
  have ex: "\<exists>kv. block_reads fmt sid b kv" if "b \<in> set (filled bs)" for b
    using rd that unfolding list_all2_conv_all_nth in_set_conv_nth by metis
  have "appendMsgJSON fmt dst (enc_msg (block_fields bs)) sid = Inr (dst @ ?t)" for dst
  proof -
    have "fold_res (emit_field fmt sid) (enumerate 0 ?vals) d = Inr (d @ commas (map (block_text fmt sid) ?vals))" for d
      using emit_block ne ex by (intro fold_commas) fastforce
    then show ?thesis by (simp add: appendMsgJSON_emit scan_blocks [OF ok] del: map_map)
  qed
  moreover have "list_all2 reads_member (map (block_text fmt sid) ?vals) kvs"
    using rd ne block_reads_member
    by (simp add: list_all2_map1 case_prod_unfold) (auto simp: list_all2_conv_all_nth)
  ultimately show ?thesis using reads_json_object unfolding msg_reads_def by blast
qed

text \<open>
  A message as a table: for each field number its occurrences and what a reader gets for them.
\<close>

type_synonym jtable = "(nat \<times> pfield list \<times> bytes \<times> jtext) list"

definition table_fields :: "jtable \<Rightarrow> pfield list" where
  "table_fields tb = concat (map (\<lambda>(n, fs, kv). fs) tb)"

definition table_tree :: "jtable \<Rightarrow> jtext" where
  "table_tree tb = JTObj (map (\<lambda>(n, fs, kv). kv) (filter (\<lambda>(n, fs, kv). fs \<noteq> []) tb))"

definition typed :: "schemaID \<Rightarrow> pfield \<Rightarrow> bool" where
  "typed sid f \<longleftrightarrow>
     (case map_of (jsonSchemas sid) (field_num f) of None \<Rightarrow> False | Some jf \<Rightarrow> wireTypeFor (jf_kind jf) = pf_wt f)"

definition row_ok :: "(u64 \<Rightarrow> bytes) \<Rightarrow> schemaID \<Rightarrow> nat \<times> pfield list \<times> bytes \<times> jtext \<Rightarrow> bool" where
  "row_ok fmt sid row \<longleftrightarrow>
     (case row of (n, fs, kv) \<Rightarrow>
        (\<forall>f\<in>set fs. field_num f = n \<and> typed sid f) \<and> (fs \<noteq> [] \<longrightarrow> block_reads fmt sid (n, fs) kv))"

lemma schema_num: "map_of (jsonSchemas sid) n = Some jf \<Longrightarrow> n < 16"
proof -
  have "\<forall>(n, jf)\<in>set (jsonSchemas sid). n < 16" by (cases sid) simp_all
  then show "map_of (jsonSchemas sid) n = Some jf \<Longrightarrow> n < 16" by (auto dest!: map_of_SomeD)
qed

lemma payload_less: "PLen k p \<in> set fs \<Longrightarrow> length p < length (enc_msg fs)"
  using length_PLen_less by (induction fs) (auto simp: trans_less_add1 trans_less_add2 simp del: enc_field.simps)

lemma payload_map: "p \<in> set ps \<Longrightarrow> length p < length (enc_msg (map (PLen n) ps))"
  by (rule payload_less [of n]) simp

lemma typed_fits: "typed sid f \<Longrightarrow> f \<in> set fs \<Longrightarrow> length (enc_msg fs) < 2 ^ 64 \<Longrightarrow> fits_schema sid f"
  by (cases f) (auto simp: typed_def fits_schema_def dest: schema_num payload_less split: option.splits)

lemma table_fields_mem: "(n, fs, kv) \<in> set tb \<Longrightarrow> x \<in> set fs \<Longrightarrow> x \<in> set (table_fields tb)"
  by (induction tb) (auto simp: table_fields_def)

lemma msg_reads_table:
  assumes "length (enc_msg (table_fields tb)) < 2 ^ 64" and "distinct (map fst tb)" and "\<forall>row\<in>set tb. row_ok fmt sid row"
  shows "msg_reads fmt sid (enc_msg (table_fields tb)) (table_tree tb)"
proof -
  let ?bs = "map (\<lambda>(n, fs, kv). (n, fs)) tb"
  have f: "block_fields ?bs = table_fields tb"
    by (simp add: block_fields_def table_fields_def comp_def case_prod_unfold)
  have fit: "fits_schema sid x" if "x \<in> set fs" "(n, fs, kv) \<in> set tb" for x n fs kv
  proof (rule typed_fits [OF _ _ assms(1)])
    show "x \<in> set (table_fields tb)" using table_fields_mem that by blast
    show "typed sid x" using bspec [OF assms(3) that(2)] that(1) by (simp add: row_ok_def)
  qed
  have num: "field_num x = n" if "x \<in> set fs" "(n, fs, kv) \<in> set tb" for x n fs kv
    using bspec [OF assms(3) that(2)] that(1) by (simp add: row_ok_def)
  have "map fst ?bs = map fst tb" by (simp add: comp_def case_prod_unfold)
  then have "distinct (map fst ?bs)" using assms(2) by (simp only:)
  then have "blocks_ok sid ?bs" unfolding blocks_ok_def using fit num by auto
  moreover have "list_all2 (block_reads fmt sid) (filled ?bs) (map (\<lambda>(n, fs, kv). kv) (filter (\<lambda>(n, fs, kv). fs \<noteq> []) tb))"
    using assms(3) by (induction tb) (auto simp: filled_def row_ok_def)
  ultimately show ?thesis using msg_reads_blocks [of sid ?bs] unfolding f table_tree_def by blast
qed

text \<open>Rows for the three shapes of fields.\<close>

lemma row_scalar:
  assumes "map_of (jsonSchemas sid) (field_num f) = Some jf" and "\<not> jf_repeated jf" and "jf_kind jf \<noteq> jkMsg"
    and "pf_wt f = wireTypeFor (jf_kind jf)" and "reads_json (scalar_text fmt (jf_kind jf) (pval f)) j"
    and "n = field_num f" and "k = jf_name jf"
  shows "row_ok fmt sid (n, when_set b f, k, j)"
  using assms val_reads_scalar [OF assms(3,5)]
  by (auto simp: row_ok_def typed_def block_reads_def when_set_def)

lemma row_msg:
  assumes "map_of (jsonSchemas sid) n = Some jf" and "\<not> jf_repeated jf" and "jf_kind jf = jkMsg"
    and "b \<Longrightarrow> msg_reads fmt (jf_sub jf) p j" and "k = jf_name jf"
  shows "row_ok fmt sid (n, when_set b (PLen n p), k, j)"
  using assms val_reads_msg [OF assms(3), of fmt "pval (PLen n p)" j]
  by (auto simp: row_ok_def typed_def block_reads_def when_set_def)

lemma row_msgs:
  assumes "map_of (jsonSchemas sid) n = Some jf" and "jf_repeated jf" and "jf_kind jf = jkMsg"
    and "list_all2 (msg_reads fmt (jf_sub jf)) ps js" and "k = jf_name jf"
  shows "row_ok fmt sid (n, map (PLen n) ps, k, JTArr js)"
proof -
  have "list_all2 (\<lambda>f j. val_reads fmt (pval f) jf j) (map (PLen n) ps) js"
    using assms(4) by (auto simp: list_all2_map1 intro!: val_reads_msg [OF assms(3)] elim: list_all2_mono)
  with assms show ?thesis by (auto simp: row_ok_def typed_def block_reads_def)
qed

lemma row_jscalar:
  assumes "map_of (jsonSchemas sid) (field_num f) = Some (jscalar nm k)" and "k \<noteq> jkMsg"
    and "pf_wt f = wireTypeFor k" and "reads_json (scalar_text fmt k (pval f)) j" and "n = field_num f"
  shows "row_ok fmt sid (n, when_set b f, str nm, j)"
  using assms by (intro row_scalar [OF assms(1)]) (simp_all add: jscalar_def)

lemma row_jmsg:
  assumes "map_of (jsonSchemas sid) n = Some (jmsg nm False sub)" and "b \<Longrightarrow> msg_reads fmt sub p j"
  shows "row_ok fmt sid (n, when_set b (PLen n p), str nm, j)"
  using assms by (intro row_msg [OF assms(1)]) (simp_all add: jmsg_def)

lemma row_jmsgs:
  assumes "map_of (jsonSchemas sid) n = Some (jmsg nm True sub)" and "list_all2 (msg_reads fmt sub) ps js"
  shows "row_ok fmt sid (n, map (PLen n) ps, str nm, JTArr js)"
  using assms by (intro row_msgs [OF assms(1)]) (simp_all add: jmsg_def)

section \<open>Reading values and records\<close>

text \<open>The text of a finite double is a JSON number.\<close>

definition float_text_ok :: "(u64 \<Rightarrow> bytes) \<Rightarrow> bool" where
  "float_text_ok fmt \<longleftrightarrow> (\<forall>d. drop_bit 52 d AND 0x7ff \<noteq> 0x7ff \<longrightarrow> fmt d \<noteq> [] \<and> (\<forall>c\<in>set (fmt d). lit_char c))"

definition jdouble :: "(u64 \<Rightarrow> bytes) \<Rightarrow> u64 \<Rightarrow> jtext" where
  "jdouble fmt d =
     (if f64_IsNaN d then JTStr (str ''NaN'') else if f64_IsInf d False then JTStr (str ''Infinity'')
      else if f64_IsInf d True then JTStr (str ''-Infinity'') else JTLit (fmt d))"

definition jkv :: "bytes \<Rightarrow> jtext \<Rightarrow> jtext" where
  "jkv k j = JTObj [(str ''key'', JTStr (utf8_fix k)), (str ''value'', j)]"

definition jvalues :: "jtext list \<Rightarrow> jtext" where
  "jvalues js = JTObj (if js = [] then [] else [(str ''values'', JTArr js)])"

fun jav :: "(u64 \<Rightarrow> bytes) \<Rightarrow> av \<Rightarrow> jtext" where
  "jav fmt (AStr s) = JTObj [(str ''stringValue'', JTStr (utf8_fix s))]"
| "jav fmt (ABool b) = JTObj [(str ''boolValue'', JTLit (if b then str ''true'' else str ''false''))]"
| "jav fmt (AInt i) = JTObj [(str ''intValue'', JTStr (format_int (sint (of_int i :: u64))))]"
| "jav fmt (ADouble d) = JTObj [(str ''doubleValue'', jdouble fmt d)]"
| "jav fmt (ABytes b) = JTObj [(str ''bytesValue'', JTStr (base64 b))]"
| "jav fmt (AList vs) = JTObj [(str ''arrayValue'', jvalues (map (jav fmt) vs))]"
| "jav fmt (AKV kvs) = JTObj [(str ''kvlistValue'', jvalues (map (\<lambda>(k, v). jkv k (jav fmt v)) kvs))]"

lemma reads_string: "reads_json (scalar_text fmt jkString v) (JTStr (utf8_fix (jv_payload v)))"
  using reads_json_quoted [OF reads_json_chars] by (simp add: scalar_text_def appendJSONString_quoted)

lemma reads_plain: "\<forall>c\<in>set p. plain c \<Longrightarrow> reads_json ([34] @ p @ [34]) (JTStr p)"
  using reads_json_quoted [OF reads_str_plain] by (simp add: quoted_def)

lemma reads_scalar:
  "reads_json (scalar_text fmt jkBytesHex v) (JTStr (hex_lower (jv_payload v)))"
  "reads_json (scalar_text fmt jkBytesB64 v) (JTStr (base64 (jv_payload v)))"
  "reads_json (scalar_text fmt jkU64Str v) (JTStr (decimal (unat (jv_num v))))"
  "reads_json (scalar_text fmt jkI64Str v) (JTStr (format_int (sint (jv_num v))))"
  "reads_json (scalar_text fmt jkUintNum v) (JTLit (decimal (unat (jv_num v))))"
  "reads_json (scalar_text fmt jkFixed32 v) (JTLit (decimal (unat (jv_num v))))"
  "reads_json (scalar_text fmt jkBool v) (JTLit (if jv_num v \<noteq> 0 then str ''true'' else str ''false''))"
proof -
  show "reads_json (scalar_text fmt jkBytesHex v) (JTStr (hex_lower (jv_payload v)))"
    "reads_json (scalar_text fmt jkBytesB64 v) (JTStr (base64 (jv_payload v)))"
    "reads_json (scalar_text fmt jkU64Str v) (JTStr (decimal (unat (jv_num v))))"
    "reads_json (scalar_text fmt jkI64Str v) (JTStr (format_int (sint (jv_num v))))"
    using reads_plain [OF plain_hex] reads_plain [OF plain_base64] reads_plain [OF plain_decimal]
      reads_plain [OF plain_format_int] by (simp_all add: scalar_text_def)
  show "reads_json (scalar_text fmt jkUintNum v) (JTLit (decimal (unat (jv_num v))))"
    "reads_json (scalar_text fmt jkFixed32 v) (JTLit (decimal (unat (jv_num v))))"
    using reads_json_lit [OF decimal_nonempty lit_decimal] by (simp_all add: scalar_text_def)
  have "reads_json (str ''true'') (JTLit (str ''true''))" "reads_json (str ''false'') (JTLit (str ''false''))"
    by (intro reads_json_lit; simp add: str_def lit_char_def)+
  then show "reads_json (scalar_text fmt jkBool v) (JTLit (if jv_num v \<noteq> 0 then str ''true'' else str ''false''))"
    by (simp add: scalar_text_def)
qed

lemma reads_double:
  assumes "float_text_ok fmt"
  shows "reads_json (scalar_text fmt jkDouble v) (jdouble fmt (jv_num v))"
proof -
  have "reads_json ([34] @ str ''NaN'' @ [34]) (JTStr (str ''NaN''))"
    "reads_json ([34] @ str ''Infinity'' @ [34]) (JTStr (str ''Infinity''))"
    "reads_json ([34] @ str ''-Infinity'' @ [34]) (JTStr (str ''-Infinity''))"
    by (intro reads_plain; simp add: str_def plain_def)+
  moreover have "reads_json (fmt d) (JTLit (fmt d))"
    if "\<not> f64_IsNaN d" "\<not> f64_IsInf d False" "\<not> f64_IsInf d True" for d
    using that assms by (intro reads_json_lit) (auto simp: float_text_ok_def f64_IsNaN_def f64_IsInf_def)
  ultimately show ?thesis by (simp add: scalar_text_def jdouble_def)
qed

lemma msg_reads_single:
  assumes "row_ok fmt sid (n, when_set True f, kv)" and "length (enc_msg [f]) < 2 ^ 64"
  shows "msg_reads fmt sid (enc_msg [f]) (JTObj [kv])"
  using msg_reads_table [of "[(n, when_set True f, kv)]"] assms
  by (simp add: table_fields_def table_tree_def when_set_def)

lemma msg_reads_values:
  assumes "map_of (jsonSchemas sid) 1 = Some (jmsg ''values'' True sub)" and "list_all2 (msg_reads fmt sub) ps js"
    and "length (enc_msg (map (PLen 1) ps)) < 2 ^ 64"
  shows "msg_reads fmt sid (enc_msg (map (PLen 1) ps)) (jvalues js)"
proof -
  have "row_ok fmt sid (1, map (PLen 1) ps, str ''values'', JTArr js)"
    by (rule row_jmsgs [OF assms(1,2)])
  moreover have "ps = [] \<longleftrightarrow> js = []" using assms(2) by (auto dest: list_all2_lengthD)
  ultimately show ?thesis
    using msg_reads_table [of "[(1, map (PLen 1) ps, str ''values'', JTArr js)]"] assms(3)
    by (auto simp: table_fields_def table_tree_def jvalues_def split: if_splits)
qed

lemma msg_reads_kv:
  assumes "msg_reads fmt schAnyValue (enc_av v) j" and "length (enc_msg [PLen 1 k, PLen 2 (enc_av v)]) < 2 ^ 64"
  shows "msg_reads fmt schKeyValue (enc_msg [PLen 1 k, PLen 2 (enc_av v)]) (jkv k j)"
proof -
  let ?tb = "[(1, when_set True (PLen 1 k), str ''key'', JTStr (utf8_fix k)),
    (2, when_set True (PLen 2 (enc_av v)), str ''value'', j)]"
  have "row_ok fmt schKeyValue (1, when_set True (PLen 1 k), str ''key'', JTStr (utf8_fix k))"
    by (rule row_jscalar [where k = jkString]) (use reads_string [of fmt "pval (PLen 1 k)"] in \<open>simp_all\<close>)
  moreover have "row_ok fmt schKeyValue (2, when_set True (PLen 2 (enc_av v)), str ''value'', j)"
    by (rule row_jmsg [where sub = schAnyValue]) (simp_all add: assms(1))
  ultimately show ?thesis using msg_reads_table [of ?tb fmt schKeyValue] assms(2)
    by (simp add: table_fields_def table_tree_def when_set_def jkv_def del: enc_msg_Cons)
qed

definition kv_msg :: "bytes \<times> av \<Rightarrow> bytes" where
  "kv_msg kv = enc_msg [PLen 1 (fst kv), PLen 2 (enc_av (snd kv))]"

definition jattr :: "(u64 \<Rightarrow> bytes) \<Rightarrow> bytes \<times> av \<Rightarrow> jtext" where
  "jattr fmt kv = jkv (fst kv) (jav fmt (snd kv))"

lemma kvs_read:
  assumes "\<And>k v. (k, v) \<in> set kvs \<Longrightarrow> length (enc_av v) < 2 ^ 64 \<Longrightarrow> msg_reads fmt schAnyValue (enc_av v) (jav fmt v)"
    and "length (enc_msg (map (PLen n) (map kv_msg kvs))) < 2 ^ 64"
  shows "list_all2 (msg_reads fmt schKeyValue) (map kv_msg kvs) (map (jattr fmt) kvs)"
proof -
  have "msg_reads fmt schKeyValue (kv_msg (k, v)) (jattr fmt (k, v))" if kv: "(k, v) \<in> set kvs" for k v
  proof -
    have "kv_msg (k, v) \<in> set (map kv_msg kvs)" using kv by (metis image_eqI set_map)
    from less_trans [OF payload_map [OF this] assms(2)] have m: "length (enc_msg [PLen 1 k, PLen 2 (enc_av v)]) < 2 ^ 64"
      unfolding kv_msg_def fst_conv snd_conv .
    have "PLen 2 (enc_av v) \<in> set [PLen 1 k, PLen 2 (enc_av v)]" by simp
    from less_trans [OF payload_less [OF this] m] have "length (enc_av v) < 2 ^ 64" .
    from msg_reads_kv [OF assms(1) [OF kv this] m] show ?thesis by (simp add: kv_msg_def jattr_def)
  qed
  then show ?thesis by (auto simp: list_all2_map1 list_all2_map2 list_all2_same)
qed

lemma msg_reads_av:
  assumes fmt: "float_text_ok fmt" and "length (enc_av v) < 2 ^ 64"
  shows "msg_reads fmt schAnyValue (enc_av v) (jav fmt v)"
  using assms(2)
proof (induction v)
  case (AStr s)
  have "row_ok fmt schAnyValue (1, when_set True (PLen 1 s), str ''stringValue'', JTStr (utf8_fix s))"
    by (rule row_jscalar [where k = jkString]) (use reads_string [of fmt "pval (PLen 1 s)"] in \<open>simp_all\<close>)
  from msg_reads_single [OF this] AStr show ?case by (simp del: enc_msg_Cons)
next
  case (ABool b)
  let ?f = "PVarint 2 (if b then 1 else 0)"
  have "row_ok fmt schAnyValue (2, when_set True ?f, str ''boolValue'', JTLit (if b then str ''true'' else str ''false''))"
    by (rule row_jscalar [where k = jkBool]) (use reads_scalar(7) [of fmt "pval ?f"] in \<open>simp_all split: if_splits\<close>)
  from msg_reads_single [OF this] ABool show ?case by (simp del: enc_msg_Cons)
next
  case (AInt i)
  have "row_ok fmt schAnyValue (3, when_set True (PVarint 3 (of_int i)), str ''intValue'',
      JTStr (format_int (sint (of_int i :: u64))))"
    by (rule row_jscalar [where k = jkI64Str]) (use reads_scalar(4) [of fmt "pval (PVarint 3 (of_int i))"] in \<open>simp_all\<close>)
  from msg_reads_single [OF this] AInt show ?case by (simp del: enc_msg_Cons)
next
  case (ADouble d)
  have "row_ok fmt schAnyValue (4, when_set True (PFixed64 4 d), str ''doubleValue'', jdouble fmt d)"
    by (rule row_jscalar [where k = jkDouble]) (use reads_double [OF fmt, of "pval (PFixed64 4 d)"] in \<open>simp_all\<close>)
  from msg_reads_single [OF this] ADouble show ?case by (simp del: enc_msg_Cons)
next
  case (ABytes b)
  have "row_ok fmt schAnyValue (7, when_set True (PLen 7 b), str ''bytesValue'', JTStr (base64 b))"
    by (rule row_jscalar [where k = jkBytesB64]) (use reads_scalar(2) [of fmt "pval (PLen 7 b)"] in \<open>simp_all\<close>)
  from msg_reads_single [OF this] ABytes show ?case by (simp del: enc_msg_Cons)
next
  case (AList vs)
  let ?ps = "map enc_av vs"
  have e: "enc_av (AList vs) = enc_msg [PLen 5 (enc_msg (map (PLen 1) ?ps))]" by (simp add: comp_def)
  have l: "length (enc_msg (map (PLen 1) ?ps)) < 2 ^ 64"
    using AList.prems payload_less [of 5 "enc_msg (map (PLen 1) ?ps)" "[PLen 5 (enc_msg (map (PLen 1) ?ps))]"] unfolding e by simp
  have "msg_reads fmt schAnyValue (enc_av v) (jav fmt v)" if "v \<in> set vs" for v
    using AList.IH [OF that] payload_less [of 1 "enc_av v" "map (PLen 1) ?ps"] that l by simp
  then have "list_all2 (msg_reads fmt schAnyValue) ?ps (map (jav fmt) vs)"
    by (simp add: list_all2_map1 list_all2_map2 list_all2_same)
  from msg_reads_values [OF _ this l, of schArrayValue]
  have "row_ok fmt schAnyValue (5, when_set True (PLen 5 (enc_msg (map (PLen 1) ?ps))), str ''arrayValue'', jvalues (map (jav fmt) vs))"
    by (intro row_jmsg [where sub = schArrayValue]) simp_all
  from msg_reads_single [OF this] AList.prems show ?case unfolding e by simp
next
  case (AKV kvs)
  let ?p = "enc_msg (map (PLen 1) (map kv_msg kvs))"
  have e: "enc_av (AKV kvs) = enc_msg [PLen 6 ?p]" by (simp add: comp_def case_prod_unfold kv_msg_def)
  have j: "jav fmt (AKV kvs) = JTObj [(str ''kvlistValue'', jvalues (map (jattr fmt) kvs))]"
    by (simp add: jattr_def [abs_def] case_prod_unfold)
  have l: "length ?p < 2 ^ 64" using AKV.prems payload_less [of 6 ?p "[PLen 6 ?p]"] unfolding e by simp
  have "list_all2 (msg_reads fmt schKeyValue) (map kv_msg kvs) (map (jattr fmt) kvs)"
    using AKV.IH l by (intro kvs_read) auto
  from msg_reads_values [OF _ this l, of schKVList]
  have "row_ok fmt schAnyValue (6, when_set True (PLen 6 ?p), str ''kvlistValue'', jvalues (map (jattr fmt) kvs))"
    by (intro row_jmsg [where sub = schKVList]) simp_all
  from msg_reads_single [OF this] AKV.prems show ?case unfolding e j by simp
qed

lemma attrs_read:
  assumes "float_text_ok fmt" and "length (enc_msg (map (PLen n) (map kv_msg kvs))) < 2 ^ 64"
  shows "list_all2 (msg_reads fmt schKeyValue) (map kv_msg kvs) (map (jattr fmt) kvs)"
  using assms by (intro kvs_read [OF msg_reads_av])

section \<open>Reading requests\<close>

text \<open>The JSON tree of a log record, of the resource and of the scope.\<close>

definition jopt :: "bool \<Rightarrow> bytes \<times> jtext \<Rightarrow> (bytes \<times> jtext) list" where
  "jopt b kv = (if b then [kv] else [])"

definition jrecord :: "(u64 \<Rightarrow> bytes) \<Rightarrow> encConfig \<Rightarrow> entry \<Rightarrow> entries \<Rightarrow> spanctx \<times> bool \<Rightarrow> jtext" where
  "jrecord fmt g ent attrs p =
     (let t = UnixNano (ent_Time ent); sev = otlp_clampSeverity (cfg_severityOf g (ent_Level ent));
          traced = snd p \<and> sc_IsValid (fst p) in
      JTObj (
        jopt (t \<noteq> 0) (str ''timeUnixNano'', JTStr (decimal (unat (of_int t :: u64)))) @
        jopt (sev \<noteq> 0) (str ''severityNumber'', JTLit (decimal (unat (of_int sev :: u64)))) @
        jopt (level_String (ent_Level ent) \<noteq> []) (str ''severityText'', JTStr (utf8_fix (level_String (ent_Level ent)))) @
        [(str ''body'', jav fmt (AStr (ent_Message ent)))] @
        jopt (attrs \<noteq> []) (str ''attributes'', JTArr (map (jattr fmt) attrs)) @
        jopt (traced \<and> traceFlags (fst p) \<noteq> 0) (str ''flags'', JTLit (decimal (unat (traceFlags (fst p))))) @
        jopt traced (str ''traceId'', JTStr (hex_lower (traceID (fst p)))) @
        jopt traced (str ''spanId'', JTStr (hex_lower (spanID (fst p)))) @
        jopt (t \<noteq> 0) (str ''observedTimeUnixNano'', JTStr (decimal (unat (of_int t :: u64))))))"

definition record_table :: "(u64 \<Rightarrow> bytes) \<Rightarrow> encConfig \<Rightarrow> entry \<Rightarrow> entries \<Rightarrow> spanctx \<times> bool \<Rightarrow> jtable" where
  "record_table fmt g ent attrs p =
     (let t = UnixNano (ent_Time ent); sev = otlp_clampSeverity (cfg_severityOf g (ent_Level ent));
          traced = snd p \<and> sc_IsValid (fst p) in
      [(1, when_set (t \<noteq> 0) (PFixed64 1 (of_int t)), str ''timeUnixNano'', JTStr (decimal (unat (of_int t :: u64)))),
       (2, when_set (sev \<noteq> 0) (PVarint 2 (of_int sev)), str ''severityNumber'', JTLit (decimal (unat (of_int sev :: u64)))),
       (3, when_set (level_String (ent_Level ent) \<noteq> []) (PLen 3 (level_String (ent_Level ent))), str ''severityText'',
          JTStr (utf8_fix (level_String (ent_Level ent)))),
       (5, when_set True (PLen 5 (enc_av (AStr (ent_Message ent)))), str ''body'', jav fmt (AStr (ent_Message ent))),
       (6, map (PLen 6) (map kv_msg attrs), str ''attributes'', JTArr (map (jattr fmt) attrs)),
       (8, when_set (traced \<and> traceFlags (fst p) \<noteq> 0) (PFixed32 8 (ucast (traceFlags (fst p)))), str ''flags'',
          JTLit (decimal (unat (traceFlags (fst p))))),
       (9, when_set traced (PLen 9 (traceID (fst p))), str ''traceId'', JTStr (hex_lower (traceID (fst p)))),
       (10, when_set traced (PLen 10 (spanID (fst p))), str ''spanId'', JTStr (hex_lower (spanID (fst p)))),
       (11, when_set (t \<noteq> 0) (PFixed64 11 (of_int t)), str ''observedTimeUnixNano'',
          JTStr (decimal (unat (of_int t :: u64))))])"

lemma kv_field_msg: "map (kv_field n) kvs = map (PLen n) (map kv_msg kvs)"
  by (simp add: kv_field_def kv_msg_def)

lemma record_table_fields: "table_fields (record_table fmt g ent attrs p) = record_fields g ent attrs p"
  by (simp add: table_fields_def record_table_def record_fields_def kv_field_msg when_set_def Let_def)

definition rows :: "jtable \<Rightarrow> (bytes \<times> jtext) list" where
  "rows tb = map (\<lambda>(n, fs, kv). kv) (filter (\<lambda>(n, fs, kv). fs \<noteq> []) tb)"

lemma rows_simps:
  "rows [] = []" "rows ((n, when_set b f, kv) # tb) = jopt b kv @ rows tb"
  "rows ((n, map (PLen k) ps, kv) # tb) = jopt (ps \<noteq> []) kv @ rows tb"
  by (simp_all add: rows_def when_set_def jopt_def)

lemma record_table_tree: "table_tree (record_table fmt g ent attrs p) = jrecord fmt g ent attrs p"
  unfolding table_tree_def rows_def [symmetric] record_table_def jrecord_def Let_def rows_simps
  by (simp add: jopt_def del: jav.simps)

lemma enc_msg_part: "length (enc_msg fs) \<le> length (enc_msg (gs @ fs @ hs))"
  by (simp add: enc_msg_append)

lemma flags_unat: "unat (ucast (ucast (b :: byte) :: u32) :: u64) = unat b"
proof -
  have "unat (ucast b :: u32) = unat b"
    using byte_unat_less [of b] by (simp add: unsigned_ucast_eq take_bit_nat_eq_self)
  moreover have "unat (ucast w :: u64) = take_bit 64 (unat w)" for w :: u32 by (simp only: unsigned_ucast_eq) simp
  moreover have "take_bit 64 (unat b) = unat b" using byte_unat_less [of b] by (intro take_bit_nat_eq_self) simp
  ultimately show ?thesis by (simp only:)
qed

lemma msg_reads_record:
  assumes "float_text_ok fmt" and "length (enc_msg (record_fields g ent attrs p)) < 2 ^ 64"
  shows "msg_reads fmt schLogRecord (enc_msg (record_fields g ent attrs p)) (jrecord fmt g ent attrs p)"
proof -
  let ?t = "of_int (UnixNano (ent_Time ent)) :: u64"
  let ?s = "of_int (otlp_clampSeverity (cfg_severityOf g (ent_Level ent))) :: u64"
  let ?l = "level_String (ent_Level ent)"
  let ?m = "enc_av (AStr (ent_Message ent))"
  let ?fl = "PFixed32 8 (ucast (traceFlags (fst p)))"
  have part: "length x < 2 ^ 64" if "PLen n x \<in> set (record_fields g ent attrs p)" for n x
    using payload_less [OF that] assms(2) by simp
  have body: "length ?m < 2 ^ 64" by (rule part [of 5]) (simp add: record_fields_def Let_def)
  have "length (enc_msg (map (PLen 6) (map kv_msg attrs))) \<le> length (enc_msg (record_fields g ent attrs p))"
    unfolding record_fields_def kv_field_msg Let_def append_assoc [symmetric]
    by (simp add: enc_msg_append)
  then have at: "length (enc_msg (map (PLen 6) (map kv_msg attrs))) < 2 ^ 64" using assms(2) by simp
  have "row_ok fmt schLogRecord (1, when_set b (PFixed64 1 ?t), str ''timeUnixNano'', JTStr (decimal (unat ?t)))" for b
    by (rule row_jscalar [where k = jkU64Str]) (use reads_scalar(3) [of fmt "pval (PFixed64 1 ?t)"] in simp_all)
  moreover have "row_ok fmt schLogRecord (2, when_set b (PVarint 2 ?s), str ''severityNumber'', JTLit (decimal (unat ?s)))" for b
    by (rule row_jscalar [where k = jkUintNum]) (use reads_scalar(5) [of fmt "pval (PVarint 2 ?s)"] in simp_all)
  moreover have "row_ok fmt schLogRecord (3, when_set b (PLen 3 ?l), str ''severityText'', JTStr (utf8_fix ?l))" for b
    by (rule row_jscalar [where k = jkString]) (use reads_string [of fmt "pval (PLen 3 ?l)"] in simp_all)
  moreover have "row_ok fmt schLogRecord (5, when_set True (PLen 5 ?m), str ''body'', jav fmt (AStr (ent_Message ent)))"
    by (rule row_jmsg [where sub = schAnyValue]) (simp, rule msg_reads_av [OF assms(1) body])
  moreover have "row_ok fmt schLogRecord (6, map (PLen 6) (map kv_msg attrs), str ''attributes'', JTArr (map (jattr fmt) attrs))"
    by (rule row_jmsgs [OF _ attrs_read [OF assms(1) at]]) simp
  moreover have "row_ok fmt schLogRecord (8, when_set b ?fl, str ''flags'', JTLit (decimal (unat (traceFlags (fst p)))))" for b
    by (rule row_jscalar [where k = jkFixed32]) (use reads_scalar(6) [of fmt "pval ?fl"] flags_unat in \<open>simp_all\<close>)
  moreover have "row_ok fmt schLogRecord (9, when_set b (PLen 9 x), str ''traceId'', JTStr (hex_lower x))" for b x
    by (rule row_jscalar [where k = jkBytesHex]) (use reads_scalar(1) [of fmt "pval (PLen 9 x)"] in simp_all)
  moreover have "row_ok fmt schLogRecord (10, when_set b (PLen 10 x), str ''spanId'', JTStr (hex_lower x))" for b x
    by (rule row_jscalar [where k = jkBytesHex]) (use reads_scalar(1) [of fmt "pval (PLen 10 x)"] in simp_all)
  moreover have "row_ok fmt schLogRecord (11, when_set b (PFixed64 11 ?t), str ''observedTimeUnixNano'', JTStr (decimal (unat ?t)))" for b
    by (rule row_jscalar [where k = jkU64Str]) (use reads_scalar(3) [of fmt "pval (PFixed64 11 ?t)"] in simp_all)
  ultimately have "\<forall>row\<in>set (record_table fmt g ent attrs p). row_ok fmt schLogRecord row"
    unfolding record_table_def Let_def by (simp del: jav.simps enc_av.simps)
  moreover have "distinct (map fst (record_table fmt g ent attrs p))" by (simp add: record_table_def Let_def)
  ultimately show ?thesis
    using msg_reads_table [of "record_table fmt g ent attrs p"] assms(2)
    by (simp only: record_table_fields record_table_tree)
qed

definition jresource :: "(u64 \<Rightarrow> bytes) \<Rightarrow> entries \<Rightarrow> jtext" where
  "jresource fmt kvs = JTObj (jopt (kvs \<noteq> []) (str ''attributes'', JTArr (map (jattr fmt) kvs)))"

definition jscope :: "otlp_options \<Rightarrow> jtext" where
  "jscope o1 = JTObj (jopt (scopeName o1 \<noteq> []) (str ''name'', JTStr (utf8_fix (scopeName o1))) @
     jopt (scopeVersion o1 \<noteq> []) (str ''version'', JTStr (utf8_fix (scopeVersion o1))))"

definition jrequest :: "jtext \<Rightarrow> jtext option \<Rightarrow> jtext list \<Rightarrow> jtext" where
  "jrequest res sc recs =
     JTObj [(str ''resourceLogs'', JTArr [JTObj
       [(str ''resource'', res),
        (str ''scopeLogs'', JTArr [JTObj
          ((case sc of None \<Rightarrow> [] | Some s \<Rightarrow> [(str ''scope'', s)]) @ jopt (recs \<noteq> []) (str ''logRecords'', JTArr recs))])]])]"

lemma msg_reads_rows:
  assumes "length (enc_msg (table_fields tb)) < 2 ^ 64" and "distinct (map fst tb)" and "\<forall>row\<in>set tb. row_ok fmt sid row"
  shows "msg_reads fmt sid (enc_msg (table_fields tb)) (JTObj (rows tb))"
  using msg_reads_table [OF assms] by (simp add: table_tree_def rows_def)

lemma msg_reads_resource:
  assumes "float_text_ok fmt" and "length (enc_kvs 1 kvs) < 2 ^ 64"
  shows "msg_reads fmt schResource (enc_kvs 1 kvs) (jresource fmt kvs)"
proof -
  let ?tb = "[(1, map (PLen 1) (map kv_msg kvs), str ''attributes'', JTArr (map (jattr fmt) kvs))]"
  have f: "enc_msg (table_fields ?tb) = enc_kvs 1 kvs" by (simp add: table_fields_def enc_kvs_def kv_field_msg)
  have l: "length (enc_msg (map (PLen 1) (map kv_msg kvs))) < 2 ^ 64"
    using assms(2) unfolding enc_kvs_def kv_field_msg .
  have "row_ok fmt schResource (1, map (PLen 1) (map kv_msg kvs), str ''attributes'', JTArr (map (jattr fmt) kvs))"
    by (rule row_jmsgs [OF _ attrs_read [OF assms(1) l]]) simp
  then have "msg_reads fmt schResource (enc_msg (table_fields ?tb)) (JTObj (rows ?tb))"
    using assms(2) unfolding f [symmetric] by (intro msg_reads_rows) simp_all
  then show ?thesis unfolding f rows_simps jresource_def by simp
qed

lemma msg_reads_scope:
  assumes "length (enc_msg (scope_fields o1)) < 2 ^ 64"
  shows "msg_reads fmt schScope (enc_msg (scope_fields o1)) (jscope o1)"
proof -
  let ?n = "scopeName o1" and ?v = "scopeVersion o1"
  let ?tb = "[(1, when_set (?n \<noteq> []) (PLen 1 ?n), str ''name'', JTStr (utf8_fix ?n)),
    (2, when_set (?v \<noteq> []) (PLen 2 ?v), str ''version'', JTStr (utf8_fix ?v))]"
  have f: "table_fields ?tb = scope_fields o1" by (simp add: table_fields_def scope_fields_def)
  have "row_ok fmt schScope (1, when_set b (PLen 1 x), str ''name'', JTStr (utf8_fix x))" for b x
    by (rule row_jscalar [where k = jkString]) (use reads_string [of fmt "pval (PLen 1 x)"] in simp_all)
  moreover have "row_ok fmt schScope (2, when_set b (PLen 2 x), str ''version'', JTStr (utf8_fix x))" for b x
    by (rule row_jscalar [where k = jkString]) (use reads_string [of fmt "pval (PLen 2 x)"] in simp_all)
  ultimately have "msg_reads fmt schScope (enc_msg (table_fields ?tb)) (JTObj (rows ?tb))"
    using assms unfolding f [symmetric] by (intro msg_reads_rows) simp_all
  then show ?thesis unfolding f rows_simps jscope_def by simp
qed

lemma msg_reads_request:
  assumes size: "sizeFor e (batchCost rs) < 2 ^ 64" and res: "msg_reads fmt schResource (resourceBlob e) jr"
    and sc: "scopeBlob e \<noteq> [] \<Longrightarrow> msg_reads fmt schScope (scopeBlob e) js"
    and rs: "list_all2 (msg_reads fmt schLogRecord) rs jrs"
  shows "msg_reads fmt schExportRequest (assemble e [] rs)
    (jrequest jr (if scopeBlob e = [] then None else Some js) jrs)"
proof -
  let ?sl = "enc_msg (scopeFields e rs)"
  let ?rl = "enc_msg [PLen 1 (resourceBlob e), PLen 2 ?sl]"
  have a: "assemble e [] rs = enc_msg [PLen 1 ?rl]" by (simp add: assemble_enc requestFields_def)
  have l1: "length (enc_msg [PLen 1 ?rl]) < 2 ^ 64" using size length_assemble [of e "[]" rs] unfolding a by simp
  have l2: "length ?rl < 2 ^ 64" using payload_less [of 1 ?rl "[PLen 1 ?rl]"] l1 by simp
  have l3: "length ?sl < 2 ^ 64" using payload_less [of 2 ?sl "[PLen 1 (resourceBlob e), PLen 2 ?sl]"] l2 by simp
  let ?t3 = "[(1, when_set (scopeBlob e \<noteq> []) (PLen 1 (scopeBlob e)), str ''scope'', js),
    (2, map (PLen 2) rs, str ''logRecords'', JTArr jrs)]"
  have f3: "table_fields ?t3 = scopeFields e rs" by (simp add: table_fields_def scopeFields_def when_set_def)
  have "row_ok fmt schScopeLogs (1, when_set (scopeBlob e \<noteq> []) (PLen 1 (scopeBlob e)), str ''scope'', js)"
    by (rule row_jmsg [where sub = schScope]) (simp_all add: sc)
  moreover have "row_ok fmt schScopeLogs (2, map (PLen 2) rs, str ''logRecords'', JTArr jrs)"
    by (rule row_jmsgs [OF _ rs]) simp
  ultimately have r3: "msg_reads fmt schScopeLogs ?sl (JTObj (rows ?t3))"
    using l3 unfolding f3 [symmetric] by (intro msg_reads_rows) simp_all
  let ?t2 = "[(1, when_set True (PLen 1 (resourceBlob e)), str ''resource'', jr),
    (2, map (PLen 2) [?sl], str ''scopeLogs'', JTArr [JTObj (rows ?t3)])]"
  have f2: "enc_msg (table_fields ?t2) = ?rl" by (simp add: table_fields_def when_set_def)
  have "row_ok fmt schResourceLogs (1, when_set True (PLen 1 (resourceBlob e)), str ''resource'', jr)"
    by (rule row_jmsg [where sub = schResource]) (simp_all add: res)
  moreover have "row_ok fmt schResourceLogs (2, map (PLen 2) [?sl], str ''scopeLogs'', JTArr [JTObj (rows ?t3)])"
    using r3 by (intro row_jmsgs [where sub = schScopeLogs]) simp_all
  ultimately have r2: "msg_reads fmt schResourceLogs ?rl (JTObj (rows ?t2))"
    using l2 unfolding f2 [symmetric] by (intro msg_reads_rows) simp_all
  let ?t1 = "[(1, map (PLen 1) [?rl], str ''resourceLogs'', JTArr [JTObj (rows ?t2)])]"
  have f1: "enc_msg (table_fields ?t1) = enc_msg [PLen 1 ?rl]" by (simp add: table_fields_def)
  have "row_ok fmt schExportRequest (1, map (PLen 1) [?rl], str ''resourceLogs'', JTArr [JTObj (rows ?t2)])"
    using r2 by (intro row_jmsgs [where sub = schResourceLogs]) simp_all
  then have r1: "msg_reads fmt schExportRequest (enc_msg (table_fields ?t1)) (JTObj (rows ?t1))"
    using l1 unfolding f1 [symmetric] by (intro msg_reads_rows) simp_all
  have "rs \<noteq> [] \<longleftrightarrow> jrs \<noteq> []" using rs by (auto dest: list_all2_lengthD)
  then have "JTObj (rows ?t1) = jrequest jr (if scopeBlob e = [] then None else Some js) jrs"
    unfolding rows_simps jrequest_def by (simp add: jopt_def)
  with r1 show ?thesis unfolding f1 a by (simp only:)
qed

section \<open>The response\<close>

text \<open>
  How \<^verbatim>\<open>json.Unmarshal\<close> reads the response document is the library's: an argument gives its
  error, or the raw text of \<^verbatim>\<open>rejectedLogRecords\<close> and the string \<^verbatim>\<open>errorMessage\<close>.
\<close>

definition is_space :: "byte \<Rightarrow> bool" where
  "is_space c \<longleftrightarrow> c = 9 \<or> c = 10 \<or> c = 11 \<or> c = 12 \<or> c = 13 \<or> c = 32"

definition trim_bytes :: "(byte \<Rightarrow> bool) \<Rightarrow> bytes \<Rightarrow> bytes" where
  "trim_bytes P s = rev (dropWhile P (rev (dropWhile P s)))"

text \<open>
  The text of the malformed case stands for the code's, which quotes the value with \<^verbatim>\<open>%q\<close> and adds the
  wrapped error of \<^verbatim>\<open>strconv.ParseInt\<close>.
\<close>

definition decodePartialSuccessJSON :: "(bytes \<Rightarrow> (go_error, bytes \<times> bytes) result) \<Rightarrow> bytes \<Rightarrow>
    (go_error, int \<times> bytes) result" where
  "decodePartialSuccessJSON unmarshal resp =
     (if resp = [] then Inr (0, [])
      else case unmarshal resp of
        Inl uerr \<Rightarrow> Inl uerr
      | Inr (rawRejected, msg) \<Rightarrow>
          (let raw1 = trim_bytes is_space rawRejected; raw = trim_bytes (\<lambda>c. c = 34) raw1 in
           if raw = [] \<or> raw = str ''null'' then Inr (0, msg)
           else case ParseInt raw of
             None \<Rightarrow> Inl (str ''otlp: malformed rejectedLogRecords '' @ raw)
           | Some n \<Rightarrow>
               if n < 0 then Inl (str ''otlp: negative rejectedLogRecords '' @ format_int n) else Inr (n, msg)))"

definition resolveAcceptJSON :: "(bytes \<Rightarrow> (go_error, bytes \<times> bytes) result) \<Rightarrow> bytes \<Rightarrow> ExportError \<Rightarrow>
    acceptance option" where
  "resolveAcceptJSON unmarshal respBody base =
     (case decodePartialSuccessJSON unmarshal respBody of
        Inl e \<Rightarrow> classifyAccept 0 [] (Some e) base
      | Inr (rej, msg) \<Rightarrow> classifyAccept rej msg None base)"

lemma dropWhile_none: "\<forall>c\<in>set s. \<not> P c \<Longrightarrow> dropWhile P s = s"
  by (cases s) auto

lemma trim_none: "\<forall>c\<in>set s. \<not> P c \<Longrightarrow> trim_bytes P s = s"
  by (simp add: trim_bytes_def dropWhile_none)

lemma trim_quotes: "\<forall>c\<in>set s. c \<noteq> 34 \<Longrightarrow> trim_bytes (\<lambda>c. c = 34) (quoted s) = s"
  using dropWhile_none [of s "\<lambda>c. c = 34"] dropWhile_none [of "rev s" "\<lambda>c. c = 34"]
  by (cases s) (simp_all add: trim_bytes_def quoted_def)

section \<open>Properties\<close>

text \<open>The records of a batch, and what each means.\<close>

definition call_record :: "otlp_options \<Rightarrow> zfield list list \<times> entry \<times> zfield list \<Rightarrow> bytes" where
  "call_record o1 call =
     (case call of (withs, ent, fs) \<Rightarrow>
        otlp_EncodeEntry (core_enc (foldl core_With \<lparr>enabled = \<lambda>_. True, core_enc = newEncoder o1\<rparr> withs)) ent fs)"

definition call_tree :: "(u64 \<Rightarrow> bytes) \<Rightarrow> otlp_options \<Rightarrow> zfield list list \<times> entry \<times> zfield list \<Rightarrow> jtext" where
  "call_tree fmt o1 call =
     (case call of (withs, ent, fs) \<Rightarrow>
        (let g = cfg (newEncoder o1); logger = foldl (foldl log_field) (([], []), (zero_spanctx, False)) withs;
             (attrs, p) = entry_meaning g logger ent fs
         in jrecord fmt g ent attrs p))"

lemma call_reads:
  assumes "float_text_ok fmt" and "length (call_record o1 call) < 2 ^ 64"
  shows "msg_reads fmt schLogRecord (call_record o1 call) (call_tree fmt o1 call)"
proof -
  obtain withs ent fs where c: "call = (withs, ent, fs)" by (cases call)
  obtain attrs p where m: "entry_meaning (cfg (newEncoder o1)) (foldl (foldl log_field) (([], []), (zero_spanctx, False)) withs)
      ent fs = (attrs, p)" by (rule prod.exhaust)
  have r: "call_record o1 call = enc_msg (record_fields (cfg (newEncoder o1)) ent attrs p)"
    using EncodeEntry_logger [OF m] by (simp add: call_record_def c)
  show ?thesis using msg_reads_record [OF assms(1), of "cfg (newEncoder o1)" ent attrs p] assms(2)
    unfolding r by (simp add: call_tree_def c m)
qed

definition resource_attrs :: "otlp_options \<Rightarrow> entries" where
  "resource_attrs o1 = fst (resource_collected o1) @ closed_ns (snd (resource_collected o1))"

lemma transcode_reads:
  assumes "float_text_ok fmt" and "sizeFor (newEnvelope o1) (batchCost (map (call_record o1) calls)) < 2 ^ 64"
  shows "\<exists>t. appendRequestJSON fmt dst (assemble (newEnvelope o1) [] (map (call_record o1) calls)) = Inr (dst @ t) \<and>
    read_val t = Some (jrequest (jresource fmt (resource_attrs o1))
      (if scopeName o1 = [] \<and> scopeVersion o1 = [] then None else Some (jscope o1)) (map (call_tree fmt o1) calls), [])"
proof -
  let ?e = "newEnvelope o1" and ?rs = "map (call_record o1) calls"
  note ok = request_fields_ok [OF assms(2)]
  have e: "resourceBlob ?e = enc_kvs 1 (resource_attrs o1)" "scopeBlob ?e = enc_msg (scope_fields o1)"
    by (simp_all add: newEnvelope_enc resource_attrs_def)
  have sc: "scopeBlob ?e = [] \<longleftrightarrow> scopeName o1 = [] \<and> scopeVersion o1 = []"
    unfolding e(2) by (simp add: scope_fields_def enc_msg_append enc_when append_simps)
  have "length (resourceBlob ?e) < 2 ^ 64" using ok(2) by simp
  then have r: "msg_reads fmt schResource (resourceBlob ?e) (jresource fmt (resource_attrs o1))"
    unfolding e by (rule msg_reads_resource [OF assms(1)])
  have s: "msg_reads fmt schScope (scopeBlob ?e) (jscope o1)" if "scopeBlob ?e \<noteq> []"
    using ok(3) that unfolding e by (intro msg_reads_scope) (simp add: scopeFields_def e)
  have len: "length (call_record o1 c) < 2 ^ 64" if "c \<in> set calls" for c
  proof -
    have "PLen 2 (call_record o1 c) \<in> set (scopeFields ?e ?rs)" using that by (auto simp: scopeFields_def)
    with ok(3) show ?thesis by fastforce
  qed
  have "list_all2 (msg_reads fmt schLogRecord) ?rs (map (call_tree fmt o1) calls)"
    by (simp add: list_all2_map1 list_all2_map2 list_all2_same call_reads [OF assms(1) len])
  from msg_reads_request [OF assms(2) r s this] obtain t where
    t: "\<forall>dst. appendMsgJSON fmt dst (assemble ?e [] ?rs) schExportRequest = Inr (dst @ t)"
    and rd: "reads_json t (jrequest (jresource fmt (resource_attrs o1)) (if scopeBlob ?e = [] then None else Some (jscope o1))
      (map (call_tree fmt o1) calls))"
    unfolding msg_reads_def by blast
  have "read_val (t @ []) = Some (jrequest (jresource fmt (resource_attrs o1))
      (if scopeBlob ?e = [] then None else Some (jscope o1)) (map (call_tree fmt o1) calls), [])"
    using rd unfolding reads_json_def by (metis ends_lit_simps(1))
  then show ?thesis using t unfolding sc appendRequestJSON_def by auto
qed

text \<open>C35: in JSON mode no batch is lost to the transcoder and nothing is misread: for every writer
  configuration and every batch of entries, whatever their fields, the transcoder succeeds on the
  assembled request, and a JSON reader of its output gets exactly the request's tree, the resource,
  the scope and the records in order, each with its times and identifiers as strings, its severity
  as a number and the tree of its attributes.\<close>

theorem json_transcode_total:
  assumes "float_text_ok fmt" and "sizeFor (newEnvelope o1) (batchCost (map (call_record o1) calls)) < 2 ^ 64"
  shows "\<exists>t. appendRequestJSON fmt dst (assemble (newEnvelope o1) [] (map (call_record o1) calls)) = Inr (dst @ t) \<and>
    read_val t = Some (jrequest (jresource fmt (resource_attrs o1))
      (if scopeName o1 = [] \<and> scopeVersion o1 = [] then None else Some (jscope o1)) (map (call_tree fmt o1) calls), [])"
  by (rule transcode_reads [OF assms])

definition int_format :: "u64 \<Rightarrow> bytes" where
  "int_format d = decimal (unat d)"

theorem json_transcode_total_witness:
  "\<exists>t. appendRequestJSON int_format [] (assemble (newEnvelope sample_options) []
       (map (call_record sample_options) [([[zap_Namespace [110]]], sample_entry, [zap_String [107] [118]])])) = Inr t \<and>
     read_val t = Some (jrequest (jresource int_format (resource_attrs sample_options)) (Some (jscope sample_options))
       [call_tree int_format sample_options ([[zap_Namespace [110]]], sample_entry, [zap_String [107] [118]])], [])"
proof -
  have f: "float_text_ok int_format"
    using decimal_nonempty lit_decimal by (simp add: float_text_ok_def int_format_def)
  have "sizeFor (newEnvelope sample_options) (batchCost (map (call_record sample_options)
      [([[zap_Namespace [110]]], sample_entry, [zap_String [107] [118]])])) < 1000" by code_simp
  then have s: "sizeFor (newEnvelope sample_options) (batchCost (map (call_record sample_options)
      [([[zap_Namespace [110]]], sample_entry, [zap_String [107] [118]])])) < 2 ^ 64" by simp
  have "scopeName sample_options \<noteq> []" by code_simp
  with json_transcode_total [OF f s, of "[]"] show ?thesis by simp
qed

text \<open>a JSON response is accounted for like a protobuf one: a negative or unreadable count
  is an error, a missing or null one is no rejection, and a decimal count, quoted or not, is read
  exactly; the outcome is then classified by the shared rules.\<close>

theorem json_response_accounting:
  assumes "unmarshal resp = Inr (raw, msg)" and "resp \<noteq> []"
  shows "(\<forall>n. n < 2 ^ 63 \<longrightarrow> raw = decimal n \<or> raw = quoted (decimal n) \<longrightarrow>
      decodePartialSuccessJSON unmarshal resp = Inr (int n, msg) \<and>
      resolveAcceptJSON unmarshal resp base = classifyAccept (int n) msg None base) \<and>
    (raw = [] \<or> raw = str ''null'' \<longrightarrow> decodePartialSuccessJSON unmarshal resp = Inr (0, msg)) \<and>
    (\<forall>n. 0 < n \<and> n \<le> 2 ^ 63 \<longrightarrow> raw = format_int (- int n) \<longrightarrow>
      (\<exists>e. decodePartialSuccessJSON unmarshal resp = Inl e \<and> resolveAcceptJSON unmarshal resp base = classifyAccept 0 [] (Some e) base))"
proof -
  have d: "decimal n \<noteq> str ''null''" "decimal n \<noteq> []" "(45 # decimal n) \<noteq> str ''null''" for n
    using decimal_digits [of n] decimal_nonempty by (auto simp: str_def is_digit_def)
  have tr: "trim_bytes P (decimal n) = decimal n" "trim_bytes P (45 # decimal n) = 45 # decimal n"
    if "\<And>c. is_digit c \<or> c = 45 \<Longrightarrow> \<not> P c" for P n
    using that decimal_digits [of n] by (auto intro!: trim_none)
  have sp: "is_digit c \<or> c = 45 \<Longrightarrow> \<not> is_space c" "is_digit c \<or> c = 45 \<Longrightarrow> c \<noteq> 34" for c
    by (auto simp: is_digit_unat is_space_def)
  have "\<not> is_space 34" by (simp add: is_space_def)
  then have "\<forall>c\<in>set (quoted (decimal n)). \<not> is_space c" for n
    using decimal_digits [of n] sp(1) by (auto simp: quoted_def)
  then have q: "trim_bytes is_space (quoted (decimal n)) = quoted (decimal n)"
    "trim_bytes (\<lambda>c. c = 34) (quoted (decimal n)) = decimal n" for n
    using decimal_digits [of n] sp(2) by (blast intro: trim_none, blast intro: trim_quotes)
  note s = tr(1) [OF sp(1)] tr(2) [OF sp(1)] tr(1) [OF sp(2)] tr(2) [OF sp(2)] q d
  let ?dec = "decodePartialSuccessJSON unmarshal resp"
  have res: "resolveAcceptJSON unmarshal resp base =
      (case ?dec of Inl e \<Rightarrow> classifyAccept 0 [] (Some e) base | Inr (rej, m) \<Rightarrow> classifyAccept rej m None base)"
    by (simp add: resolveAcceptJSON_def)
  have 1: "?dec = Inr (int n, msg)" if "n < 2 ^ 63" "raw = decimal n \<or> raw = quoted (decimal n)" for n
    using assms that(2) by (elim disjE; simp add: decodePartialSuccessJSON_def s ParseInt_decimal [OF that(1)] Let_def)
  have "trim_bytes is_space [] = []" "trim_bytes is_space (str ''null'') = str ''null''" "trim_bytes (\<lambda>c. c = 34) [] = []"
    "trim_bytes (\<lambda>c. c = 34) (str ''null'') = str ''null''"
    by (simp_all add: trim_bytes_def is_space_def str_def)
  then have 2: "?dec = Inr (0, msg)" if "raw = [] \<or> raw = str ''null''"
    using assms that by (elim disjE; simp add: decodePartialSuccessJSON_def Let_def)
  have 3: "?dec = Inl (str ''otlp: negative rejectedLogRecords '' @ raw)" if "0 < n" "n \<le> 2 ^ 63" "raw = format_int (- int n)" for n
  proof -
    have r: "raw = 45 # decimal n" using that by (simp add: format_int_def)
    have f: "format_int (- int n) = 45 # decimal n" using that(1) by (simp add: format_int_def)
    show ?thesis using assms that(1) unfolding r
      by (simp add: decodePartialSuccessJSON_def s ParseInt_neg [OF that(2)] f Let_def)
  qed
  have 4: "resolveAcceptJSON unmarshal resp base = classifyAccept (int n) msg None base"
    if "n < 2 ^ 63" "raw = decimal n \<or> raw = quoted (decimal n)" for n
    using 1 [OF that] by (simp add: res)
  have 5: "\<exists>e. ?dec = Inl e \<and> resolveAcceptJSON unmarshal resp base = classifyAccept 0 [] (Some e) base"
    if "0 < n" "n \<le> 2 ^ 63" "raw = format_int (- int n)" for n
    using 3 [OF that] by (simp add: res)
  show ?thesis using 1 2 4 5 by blast
qed

theorem json_response_accounting_witness:
  "resolveAcceptJSON (\<lambda>_. Inr (quoted (decimal 7), str ''slow'')) [123] no_export_error =
     classifyAccept 7 (str ''slow'') None no_export_error"
proof -
  have "(7::nat) < 2 ^ 63" by simp
  with json_response_accounting [of "\<lambda>_. Inr (quoted (decimal 7), str ''slow'')" "[123]" "quoted (decimal 7)" "str ''slow''" no_export_error]
  show ?thesis by (metis list.distinct(1) of_nat_numeral)
qed

end
