(* ===== verification/Otlp_Http.thy ===== *)
theory Otlp_Http
  imports Otlp_Json
begin

text \<open>
  \<^verbatim>\<open>otlp/http_transport.go\<close>: preparing a request once per batch, posting it, and classifying the
  answer. The HTTP client, gzip, URL parsing and the clock are arguments. A server that honours the
  request's own headers is shown to recover exactly the assembled message, whatever headers the
  caller configured.
\<close>

section \<open>HTTP\<close>

definition lower_byte :: "byte \<Rightarrow> byte" where
  "lower_byte c = (if 65 \<le> c \<and> c \<le> 90 then c + 32 else c)"

definition upper_byte :: "byte \<Rightarrow> byte" where
  "upper_byte c = (if 97 \<le> c \<and> c \<le> 122 then c - 32 else c)"

definition token_byte :: "byte \<Rightarrow> bool" where
  "token_byte c \<longleftrightarrow> is_digit c \<or> 65 \<le> c \<and> c \<le> 90 \<or> 97 \<le> c \<and> c \<le> 122 \<or> c \<in> set (str ''!#$%&*+-.^_|~'') \<or> c = 39 \<or> c = 96"

fun canon_loop :: "bool \<Rightarrow> bytes \<Rightarrow> bytes" where
  "canon_loop up [] = []"
| "canon_loop up (c # s) = (if up then upper_byte c else lower_byte c) # canon_loop (c = 45) s"

text \<open>\<^verbatim>\<open>textproto.CanonicalMIMEHeaderKey\<close> and the header operations built on it.\<close>

definition canonical :: "bytes \<Rightarrow> bytes" where
  "canonical k = (if list_all token_byte k then canon_loop True k else k)"

type_synonym http_header = "(bytes \<times> bytes) list"

definition header_Del :: "bytes \<Rightarrow> http_header \<Rightarrow> http_header" where
  "header_Del k h = filter (\<lambda>(k', v). k' \<noteq> canonical k) h"

definition header_Set :: "bytes \<Rightarrow> bytes \<Rightarrow> http_header \<Rightarrow> http_header" where
  "header_Set k v h = (canonical k, v) # header_Del k h"

definition header_Get :: "bytes \<Rightarrow> http_header \<Rightarrow> bytes" where
  "header_Get k h = (case map_of h (canonical k) of None \<Rightarrow> [] | Some v \<Rightarrow> v)"

record http_request =
  rq_url :: bytes
  rq_header :: http_header
  rq_body :: bytes

record http_response =
  rs_status :: int
  rs_header :: http_header
  rs_trailer :: http_header
  rs_body :: bytes
  rs_readErr :: "go_error option"

text \<open>A body is read up to one mebibyte.\<close>

definition limit_body :: "bytes \<Rightarrow> bytes" where
  "limit_body b = take (2 ^ 20) b"

record go_url =
  u_Scheme :: bytes
  u_Host :: bytes
  u_Path :: bytes
  u_RawQuery :: bytes
  u_Fragment :: bytes

datatype endpoint_error = ErrNoEndpoint | BadEndpoint go_error

definition resolveEndpoint :: "(bytes \<Rightarrow> (go_error, go_url) result) \<Rightarrow> (go_url \<Rightarrow> bytes) \<Rightarrow> bytes \<Rightarrow>
    (endpoint_error, bytes) result" where
  "resolveEndpoint parse render ep =
     (if ep = [] then Inl ErrNoEndpoint
      else case parse ep of
        Inl err \<Rightarrow> Inl (BadEndpoint (str ''otlp: invalid endpoint'' @ err))
      | Inr u \<Rightarrow>
          if u_Scheme u \<noteq> str ''http'' \<and> u_Scheme u \<noteq> str ''https'' \<or> u_Host u = []
          then Inl (BadEndpoint (str ''otlp: endpoint must be an http(s) URL''))
          else Inr (render (if u_Path u = [] \<or> u_Path u = str ''/'' then u\<lparr>u_Path := str ''/v1/logs''\<rparr> else u)))"

section \<open>The transport\<close>

record httpTransport =
  ht_endpoint :: bytes
  ht_client :: nat
  ht_headers :: http_header
  ht_gzipOn :: bool
  ht_jsonOn :: bool
  ht_timeout :: int

definition newHTTPTransport :: "(bytes \<Rightarrow> (go_error, go_url) result) \<Rightarrow> (go_url \<Rightarrow> bytes) \<Rightarrow> bytes \<Rightarrow> otlp_options \<Rightarrow>
    (endpoint_error, httpTransport) result" where
  "newHTTPTransport parse render ep o1 =
     (case resolveEndpoint parse render ep of
        Inl err \<Rightarrow> Inl err
      | Inr u \<Rightarrow>
          (case encoding o1 of
             UndefinedEncoding k \<Rightarrow> Inl (BadEndpoint (str ''otlp: undefined Encoding '' @ decimal k))
           | _ \<Rightarrow> Inr \<lparr>ht_endpoint = u, ht_client = client o1, ht_headers = headers o1, ht_gzipOn = (compression o1 = Gzip),
                       ht_jsonOn = (encoding o1 = JSON), ht_timeout = o_timeout o1\<rparr>))"

definition json_error_text :: "json_error \<Rightarrow> go_error" where
  "json_error_text e =
     (case e of
        JTruncated \<Rightarrow> str ''otlp: truncated export response''
      | JUnknownField n sid \<Rightarrow> str ''otlp: json transcode: unknown field '' @ decimal n
      | JWireType n nm wt want \<Rightarrow> str ''otlp: json transcode: field '' @ decimal n @ str '' ('' @ nm @ str '') has wire type '' @
          decimal wt @ str '', want '' @ decimal want)"

text \<open>Compression returns nothing when it fails.\<close>

definition gzip_failed :: ExportError where
  "gzip_failed = no_export_error\<lparr>Message := str ''gzip failed; sent uncompressed''\<rparr>"

definition http_prepare :: "(u64 \<Rightarrow> bytes) \<Rightarrow> (bytes \<Rightarrow> bytes option) \<Rightarrow> httpTransport \<Rightarrow> bytes \<Rightarrow> prepared" where
  "http_prepare fmt gz t msg0 =
     (case (if ht_jsonOn t then appendRequestJSON fmt [] msg0 else Inr msg0) of
        Inl err \<Rightarrow>
          \<lparr>body = [], compressed = False, warn = None,
           fail = Some (no_export_error\<lparr>Err := Some (json_error_text err), Message := str ''json transcode failed; batch dropped''\<rparr>)\<rparr>
      | Inr msg \<Rightarrow>
          if \<not> ht_gzipOn t then \<lparr>body = msg, compressed = False, warn = None, fail = None\<rparr>
          else case gz msg of
            Some z \<Rightarrow> \<lparr>body = z, compressed = True, warn = None, fail = None\<rparr>
          | None \<Rightarrow> \<lparr>body = msg, compressed = False, warn = Some gzip_failed, fail = None\<rparr>)"

definition http_request_of :: "httpTransport \<Rightarrow> prepared \<Rightarrow> http_request" where
  "http_request_of t p =
     (let h1 = foldl (\<lambda>h (k, v). header_Set k v h) [] (ht_headers t);
          ct = (if ht_jsonOn t then str ''application/json'' else str ''application/x-protobuf'');
          h2 = header_Set (str ''Content-Type'') ct h1;
          h3 = (if compressed p then header_Set (str ''Content-Encoding'') (str ''gzip'') h2
                else header_Del (str ''Content-Encoding'') h2)
      in \<lparr>rq_url = ht_endpoint t, rq_header = h3, rq_body = body p\<rparr>)"

definition retryableStatus :: "int \<Rightarrow> bool" where
  "retryableStatus code \<longleftrightarrow> code = 429 \<or> code = 502 \<or> code = 503 \<or> code = 504"

text \<open>\<^verbatim>\<open>http.ParseTime\<close> is an argument; times and durations are nanoseconds.\<close>

definition parseRetryAfter :: "(bytes \<Rightarrow> int option) \<Rightarrow> int \<Rightarrow> bytes \<Rightarrow> int" where
  "parseRetryAfter parse_time now h =
     (if h = [] then 0
      else
        let by_date = (case parse_time h of Some at \<Rightarrow> if at - now > 0 then at - now else 0 | None \<Rightarrow> 0) in
        case ParseInt h of
          Some secs \<Rightarrow> if secs > 0 then wrap64 (secs * Second) else by_date
        | None \<Rightarrow> by_date)"

definition excerpt :: "bytes \<Rightarrow> bytes" where
  "excerpt b = (if length b > 256 then take 256 b else b)"

text \<open>\<^verbatim>\<open>strings.Cut\<close> at the semicolon, then \<^verbatim>\<open>strings.TrimSpace\<close>.\<close>

definition media_type :: "bytes \<Rightarrow> bytes" where
  "media_type ct = trim_bytes is_space (takeWhile (\<lambda>c. c \<noteq> 59) ct)"

definition http_resolve :: "(bytes \<Rightarrow> (go_error, bytes \<times> bytes) result) \<Rightarrow> httpTransport \<Rightarrow> bytes \<Rightarrow> bytes \<Rightarrow>
    acceptance option" where
  "http_resolve unmarshal t respBody respCT =
     (let base = no_export_error\<lparr>StatusCode := 200\<rparr> in
      if \<not> ht_jsonOn t then resolveAccept respBody base
      else if media_type respCT = str ''application/x-protobuf'' then resolveAccept respBody base
      else resolveAcceptJSON unmarshal respBody base)"

text \<open>
  One attempt: \<open>newreq\<close> is the error of building the request, \<open>send\<close> the client.
\<close>

definition http_attempt :: "(bytes \<Rightarrow> (go_error, bytes \<times> bytes) result) \<Rightarrow> (bytes \<Rightarrow> int option) \<Rightarrow> int \<Rightarrow>
    (bytes \<Rightarrow> go_error option) \<Rightarrow> (http_request \<Rightarrow> (go_error, http_response) result) \<Rightarrow> httpTransport \<Rightarrow> prepared \<Rightarrow>
    (ExportError, acceptance option) result" where
  "http_attempt unmarshal parse_time now newreq send t p =
     (case newreq (ht_endpoint t) of
        Some err \<Rightarrow> Inl (no_export_error\<lparr>Err := Some err\<rparr>)
      | None \<Rightarrow>
          (case send (http_request_of t p) of
             Inl err \<Rightarrow> Inl (no_export_error\<lparr>Err := Some err\<rparr>)
           | Inr resp \<Rightarrow>
               (let respBody = limit_body (rs_body resp) in
                if rs_status resp = 200
                then Inr (http_resolve unmarshal t respBody (header_Get (str ''Content-Type'') (rs_header resp)))
                else if retryableStatus (rs_status resp)
                then Inl (no_export_error\<lparr>StatusCode := rs_status resp, Retryable := True, Message := excerpt respBody,
                       retryAfter := parseRetryAfter parse_time now (header_Get (str ''Retry-After'') (rs_header resp))\<rparr>)
                else Inl (no_export_error\<lparr>StatusCode := rs_status resp, Message := excerpt respBody\<rparr>))))"

section \<open>The ship layer\<close>

text \<open>
  What the writer relies on: a message that is prepared without failing reaches the server as that
  message. The batch's records then reach it in order.
\<close>

locale ship_layer =
  fixes prepare :: "bytes \<Rightarrow> prepared" and receive :: "prepared \<Rightarrow> bytes option" and admitted :: "bytes \<Rightarrow> bool"
  assumes delivers: "admitted msg \<Longrightarrow> fail (prepare msg) = None \<and> receive (prepare msg) = Some msg"
begin

lemma batch_delivered:
  assumes "sizeFor e (batchCost rs) < 2 ^ 64" and "admitted (assemble e [] rs)"
  shows "fail (prepare (assemble e [] rs)) = None \<and>
    Option.bind (receive (prepare (assemble e [] rs))) parse_request =
      Some (Some (resourceBlob e), (if scopeBlob e = [] then None else Some (scopeBlob e)), rs)"
  using delivers [OF assms(2)] parse_assembled [OF assms(1)] by simp

end

locale gzip_laws =
  fixes gz :: "bytes \<Rightarrow> bytes option" and gunzip :: "bytes \<Rightarrow> bytes option"
  assumes gunzip_gzip: "gz x = Some z \<Longrightarrow> gunzip z = Some x"

section \<open>Headers\<close>

lemma map_of_Del: "map_of (header_Del k h) x = (if x = canonical k then None else map_of h x)"
  by (induction h) (auto simp: header_Del_def)

lemma map_of_Set: "map_of (header_Set k v h) x = (if x = canonical k then Some v else map_of h x)"
  by (simp add: header_Set_def map_of_Del)

lemma canonical_names [simp]:
  "canonical (str ''Content-Type'') = str ''Content-Type''"
  "canonical (str ''Content-Encoding'') = str ''Content-Encoding''"
  "str ''Content-Type'' \<noteq> str ''Content-Encoding''"
  by code_simp+

text \<open>A server that honours the request's own content encoding.\<close>

definition http_receive :: "(bytes \<Rightarrow> bytes option) \<Rightarrow> http_request \<Rightarrow> bytes option" where
  "http_receive gunzip rq =
     (case map_of (rq_header rq) (str ''Content-Encoding'') of
        None \<Rightarrow> Some (rq_body rq)
      | Some e \<Rightarrow> if e = str ''gzip'' then gunzip (rq_body rq) else None)"

lemma request_encoding:
  "map_of (rq_header (http_request_of t p)) (str ''Content-Encoding'') = (if compressed p then Some (str ''gzip'') else None)"
  by (simp add: http_request_of_def Let_def map_of_Set map_of_Del)

lemma request_type:
  "header_Get (str ''Content-Type'') (rq_header (http_request_of t p)) =
     (if ht_jsonOn t then str ''application/json'' else str ''application/x-protobuf'')"
  by (simp add: http_request_of_def header_Get_def Let_def map_of_Set map_of_Del)

lemma request_body [simp]: "rq_body (http_request_of t p) = body p"
  by (simp add: http_request_of_def Let_def)

context gzip_laws
begin

lemma http_shipped:
  assumes "(if ht_jsonOn t then appendRequestJSON fmt [] msg else Inr msg) = Inr m"
  shows "fail (http_prepare fmt gz t msg) = None \<and> http_receive gunzip (http_request_of t (http_prepare fmt gz t msg)) = Some m"
  using assms by (auto simp: http_receive_def request_encoding http_prepare_def gunzip_gzip split: option.split)

end

sublocale gzip_laws < http: ship_layer "http_prepare fmt gz t" "\<lambda>p. http_receive gunzip (http_request_of t p)" "\<lambda>msg. \<not> ht_jsonOn t"
  for fmt t
  by unfold_locales (simp add: http_shipped)

text \<open>Storing the message behind the two magic bytes is one codec that keeps the law.\<close>

definition stored_gzip :: "bytes \<Rightarrow> bytes option" where "stored_gzip x = Some (0x1f # 0x8b # x)"

fun stored_gunzip :: "bytes \<Rightarrow> bytes option" where
  "stored_gunzip (a # b # x) = (if a = 0x1f \<and> b = 0x8b then Some x else None)"
| "stored_gunzip _ = None"

interpretation stored: gzip_laws stored_gzip stored_gunzip
  by unfold_locales (auto simp: stored_gzip_def)

section \<open>Properties\<close>

text \<open>C36: an HTTP request carries its batch faithfully whatever headers the caller configured: the
  preparation never fails, the content type and content encoding describe the body that is sent, and
  a server that honours them reads, in protobuf mode, exactly the resource, the scope and the
  batch's records in order, and in JSON mode the same request as a JSON tree.\<close>

theorem http_delivers_batch:
  assumes "gzip_laws gz gunzip" and "float_text_ok fmt"
    and "sizeFor (newEnvelope o1) (batchCost (map (call_record o1) calls)) < 2 ^ 64"
    and p: "p = http_prepare fmt gz t (assemble (newEnvelope o1) [] (map (call_record o1) calls))"
  shows "fail p = None \<and>
    header_Get (str ''Content-Type'') (rq_header (http_request_of t p)) =
      (if ht_jsonOn t then str ''application/json'' else str ''application/x-protobuf'') \<and>
    (\<exists>m. http_receive gunzip (http_request_of t p) = Some m \<and>
      (if ht_jsonOn t
       then read_val m = Some (jrequest (jresource fmt (resource_attrs o1))
         (if scopeName o1 = [] \<and> scopeVersion o1 = [] then None else Some (jscope o1)) (map (call_tree fmt o1) calls), [])
       else parse_request m = Some (Some (resourceBlob (newEnvelope o1)),
         (if scopeBlob (newEnvelope o1) = [] then None else Some (scopeBlob (newEnvelope o1))), map (call_record o1) calls)))"
proof -
  let ?msg = "assemble (newEnvelope o1) [] (map (call_record o1) calls)"
  obtain m where m: "(if ht_jsonOn t then appendRequestJSON fmt [] ?msg else Inr ?msg) = Inr m"
    and r: "ht_jsonOn t \<Longrightarrow> read_val m = Some (jrequest (jresource fmt (resource_attrs o1))
         (if scopeName o1 = [] \<and> scopeVersion o1 = [] then None else Some (jscope o1)) (map (call_tree fmt o1) calls), [])"
    using transcode_reads [OF assms(2,3), of "[]"] by (cases "ht_jsonOn t") auto
  show ?thesis
    using gzip_laws.http_shipped [OF assms(1) m] r m parse_assembled [OF assms(3)]
    unfolding p request_type by auto
qed

definition sample_http :: httpTransport where
  "sample_http = \<lparr>ht_endpoint = str ''http://c/v1/logs'', ht_client = 0,
     ht_headers = [(str ''content-encoding'', str ''br''), (str ''CONTENT-TYPE'', str ''text/plain'')],
     ht_gzipOn = True, ht_jsonOn = False, ht_timeout = Second\<rparr>"

theorem http_delivers_batch_witness:
  "Option.bind (http_receive stored_gunzip (http_request_of sample_http (http_prepare int_format stored_gzip sample_http
      (assemble (newEnvelope sample_options) [] (map (call_record sample_options) [([], sample_entry, [])])))) ) parse_request =
   Some (Some (resourceBlob (newEnvelope sample_options)), Some (scopeBlob (newEnvelope sample_options)),
     [call_record sample_options ([], sample_entry, [])])"
proof -
  let ?calls = "[([], sample_entry, [])] :: (zfield list list \<times> entry \<times> zfield list) list"
  have f: "float_text_ok int_format"
    using decimal_nonempty lit_decimal by (simp add: float_text_ok_def int_format_def)
  have "sizeFor (newEnvelope sample_options) (batchCost (map (call_record sample_options) ?calls)) < 1000" by code_simp
  then have s: "sizeFor (newEnvelope sample_options) (batchCost (map (call_record sample_options) ?calls)) < 2 ^ 64" by simp
  have j: "\<not> ht_jsonOn sample_http" "scopeBlob (newEnvelope sample_options) \<noteq> []" by code_simp+
  from http_delivers_batch [OF stored.gzip_laws_axioms f s refl, of sample_http] show ?thesis using j by auto
qed

text \<open>how an HTTP answer is classified, on every branch: status 200 is accepted and never
  retried; 429, 502, 503 and 504 are retryable and carry the server's Retry-After; every other
  status, and every failure to send, is final. The excerpt of the body never exceeds 256 bytes.\<close>

theorem http_answer_classes:
  assumes "newreq (ht_endpoint t) = None"
  shows "(\<forall>resp. send (http_request_of t p) = Inr resp \<longrightarrow>
      (if rs_status resp = 200
       then http_attempt unmarshal parse_time now newreq send t p =
         Inr (http_resolve unmarshal t (limit_body (rs_body resp)) (header_Get (str ''Content-Type'') (rs_header resp)))
       else \<exists>e. http_attempt unmarshal parse_time now newreq send t p = Inl e \<and> StatusCode e = rs_status resp \<and>
         (Retryable e \<longleftrightarrow> rs_status resp \<in> {429, 502, 503, 504}) \<and> length (Message e) \<le> 256 \<and>
         (\<not> Retryable e \<longrightarrow> retryAfter e = 0) \<and>
         (\<forall>n. 0 < n \<and> n \<le> 9223372036 \<and> Retryable e \<and> header_Get (str ''Retry-After'') (rs_header resp) = decimal n \<longrightarrow>
            retryAfter e = int n * Second))) \<and>
    (\<forall>err. send (http_request_of t p) = Inl err \<longrightarrow>
      http_attempt unmarshal parse_time now newreq send t p = Inl (no_export_error\<lparr>Err := Some err\<rparr>))"
proof -
  have ex: "length (excerpt b) \<le> 256" for b by (simp add: excerpt_def)
  have ra: "parseRetryAfter parse_time now (decimal n) = int n * Second" if "0 < n" "n \<le> 9223372036" for n
  proof -
    have "int n * Second < 2 ^ 63" "- (2 ^ 63) \<le> int n * Second" using that by (simp_all add: Second_def)
    then have "wrap64 (int n * Second) = int n * Second" by (intro wrap64_id)
    then show ?thesis using that by (simp add: parseRetryAfter_def ParseInt_decimal decimal_nonempty Let_def)
  qed
  show ?thesis
    by (auto simp: http_attempt_def assms retryableStatus_def ex ra no_export_error_def Let_def)
qed

definition sample_503 :: http_response where
  "sample_503 = \<lparr>rs_status = 503, rs_header = [(str ''Retry-After'', decimal 7)], rs_trailer = [], rs_body = [], rs_readErr = None\<rparr>"

theorem http_answer_classes_witness:
  "\<exists>e. http_attempt (\<lambda>_. Inl []) (\<lambda>_. None) 0 (\<lambda>_. None) (\<lambda>_. Inr sample_503)
      sample_http \<lparr>body = [], compressed = False, warn = None, fail = None\<rparr> = Inl e \<and> Retryable e \<and> retryAfter e = 7 * Second"
proof -
  have "canonical (str ''Retry-After'') = str ''Retry-After''" by code_simp
  then have h: "header_Get (str ''Retry-After'') (rs_header sample_503) = decimal 7" by (simp add: header_Get_def sample_503_def)
  have s: "rs_status sample_503 = 503" by (simp add: sample_503_def)
  from http_answer_classes [of "\<lambda>_. None" sample_http "\<lambda>_. Inr sample_503"
      "\<lparr>body = [], compressed = False, warn = None, fail = None\<rparr>" "\<lambda>_. Inl []" "\<lambda>_. None" 0, OF refl, THEN conjunct1,
      THEN spec, of sample_503, THEN mp, OF refl]
  obtain e where e: "http_attempt (\<lambda>_. Inl []) (\<lambda>_. None) 0 (\<lambda>_. None) (\<lambda>_. Inr sample_503) sample_http
      \<lparr>body = [], compressed = False, warn = None, fail = None\<rparr> = Inl e" "Retryable e"
    and d: "\<forall>n. 0 < n \<and> n \<le> 9223372036 \<and> Retryable e \<and> decimal 7 = decimal n \<longrightarrow> retryAfter e = int n * Second"
    unfolding s h by auto
  from d [rule_format, of 7] e(2) have "retryAfter e = 7 * Second" by simp
  with e show ?thesis by blast
qed

text \<open>
  The conversion of a Retry-After count to a duration is not checked: a count past 9223372036
  seconds wraps, here to less than a third of a second.
\<close>

lemma retry_after_wraps: "parseRetryAfter (\<lambda>_. None) 0 (decimal 18446744074) = 290448384"
proof -
  have "ParseInt (decimal 18446744074) = Some 18446744074" using ParseInt_decimal [of 18446744074] by simp
  then show ?thesis by (simp add: parseRetryAfter_def decimal_nonempty Second_def wrap64_def)
qed

end
