(* ===== verification/Otlp_Grpc.thy ===== *)
theory Otlp_Grpc
  imports Otlp_Http
begin

text \<open>
  \<^verbatim>\<open>otlp/grpc_status.go\<close> and \<^verbatim>\<open>otlp/grpc_transport.go\<close>: status codes and their classes, the
  metadata encodings, the endpoint forms, the length-prefixed message framing and the resolution of
  one unary call.
\<close>

section \<open>Status\<close>

definition grpcOK :: int where "grpcOK = 0"
definition grpcCancelled :: int where "grpcCancelled = 1"
definition grpcUnknown :: int where "grpcUnknown = 2"
definition grpcDeadlineExceeded :: int where "grpcDeadlineExceeded = 4"
definition grpcPermissionDenied :: int where "grpcPermissionDenied = 7"
definition grpcResourceExhausted :: int where "grpcResourceExhausted = 8"
definition grpcAborted :: int where "grpcAborted = 10"
definition grpcOutOfRange :: int where "grpcOutOfRange = 11"
definition grpcUnimplemented :: int where "grpcUnimplemented = 12"
definition grpcInternal :: int where "grpcInternal = 13"
definition grpcUnavailable :: int where "grpcUnavailable = 14"
definition grpcDataLoss :: int where "grpcDataLoss = 15"
definition grpcUnauthenticated :: int where "grpcUnauthenticated = 16"

lemmas grpc_codes = grpcOK_def grpcCancelled_def grpcUnknown_def grpcDeadlineExceeded_def grpcPermissionDenied_def
  grpcResourceExhausted_def grpcAborted_def grpcOutOfRange_def grpcUnimplemented_def grpcInternal_def grpcUnavailable_def
  grpcDataLoss_def grpcUnauthenticated_def

definition retryableGRPCStatus :: "int \<Rightarrow> bool \<Rightarrow> bool" where
  "retryableGRPCStatus code hasRetryDelay =
     (if code = grpcCancelled \<or> code = grpcDeadlineExceeded \<or> code = grpcAborted \<or> code = grpcOutOfRange \<or>
         code = grpcUnavailable \<or> code = grpcDataLoss then True
      else if code = grpcResourceExhausted then hasRetryDelay
      else False)"

definition httpStatusToGRPCStatus :: "int \<Rightarrow> int" where
  "httpStatusToGRPCStatus code =
     (if code = 400 then grpcInternal
      else if code = 401 then grpcUnauthenticated
      else if code = 403 then grpcPermissionDenied
      else if code = 404 then grpcUnimplemented
      else if code = 429 \<or> code = 502 \<or> code = 503 \<or> code = 504 then grpcUnavailable
      else grpcUnknown)"

definition unhex :: "byte \<Rightarrow> byte option" where
  "unhex c =
     (if 48 \<le> c \<and> c \<le> 57 then Some (c - 48)
      else if 97 \<le> c \<and> c \<le> 102 then Some (c - 97 + 10)
      else if 65 \<le> c \<and> c \<le> 70 then Some (c - 65 + 10)
      else None)"

fun percent_loop :: "bytes \<Rightarrow> bytes" where
  "percent_loop [] = []"
| "percent_loop (c # r) =
     (case r of
        h # l # r' \<Rightarrow>
          (if c = 37 then
             (case (unhex h, unhex l) of
                (Some hi, Some lo) \<Rightarrow> (push_bit 4 hi OR lo) # percent_loop r'
              | _ \<Rightarrow> c # percent_loop r)
           else c # percent_loop r)
      | _ \<Rightarrow> c # percent_loop r)"

definition percentDecode :: "bytes \<Rightarrow> bytes" where
  "percentDecode s = (if 37 \<notin> set s then s else percent_loop s)"

text \<open>The error of a failed decoding is not inspected by the caller.\<close>

definition decodeBinHeader :: "bytes \<Rightarrow> bytes option" where
  "decodeBinHeader s = (case b64_decode False s of Some b \<Rightarrow> Some b | None \<Rightarrow> b64_decode True s)"

definition retryInfoTypeURL :: bytes where
  "retryInfoTypeURL = str ''type.googleapis.com/google.rpc.RetryInfo''"

text \<open>The callback on one detail: whether to go on, and the delay found.\<close>

definition retry_detail :: "bytes \<Rightarrow> int \<times> bool \<Rightarrow> bool \<times> int \<times> bool" where
  "retry_detail anyMsg st =
     (case findField anyMsg 1 of
        Inl _ \<Rightarrow> (True, st)
      | Inr tu \<Rightarrow>
          if (case tu of None \<Rightarrow> [] | Some u \<Rightarrow> u) \<noteq> retryInfoTypeURL then (True, st)
          else case findField anyMsg 2 of
            Inr (Some val) \<Rightarrow>
              (case findField val 1 of
                 Inr (Some dur) \<Rightarrow>
                   (case findVarint dur 1 of
                      Inl _ \<Rightarrow> (True, st)
                    | Inr secs \<Rightarrow>
                        (case findVarint dur 2 of
                           Inl _ \<Rightarrow> (True, st)
                         | Inr nanos \<Rightarrow>
                             (let d = wrap64 (wrap64 (sint secs * Second) + sint nanos)
                              in if d > 0 then (False, d, True) else (False, st))))
               | _ \<Rightarrow> (True, st))
          | _ \<Rightarrow> (True, st))"

definition retryDelayFromStatus :: "bytes \<Rightarrow> int \<times> bool" where
  "retryDelayFromStatus raw = snd (forEachLenField raw 3 retry_detail (0, False))"

text \<open>Durations are nanoseconds; \<^verbatim>\<open>Milliseconds\<close> and the division truncate.\<close>

definition grpcTimeoutValue :: "int \<Rightarrow> bytes" where
  "grpcTimeoutValue d =
     (if d \<le> 0 then []
      else
        let ms = max (d div 1000000) 1 in
        if ms \<le> 99999999 then format_int ms @ str ''m''
        else format_int (min (d div Second) 99999999) @ str ''S'')"

section \<open>Endpoints and headers\<close>

definition grpcMethodPath :: bytes where
  "grpcMethodPath = str ''/opentelemetry.proto.collector.logs.v1.LogsService/Export''"

definition grpcDefaultPort :: bytes where "grpcDefaultPort = str ''4317''"

text \<open>
  \<^verbatim>\<open>net.SplitHostPort\<close>, of which only whether it fails matters, and \<^verbatim>\<open>net.JoinHostPort\<close>.
\<close>

definition last_index :: "byte \<Rightarrow> bytes \<Rightarrow> nat option" where
  "last_index c s = (case filter (\<lambda>i. s ! i = c) [0..<length s] of [] \<Rightarrow> None | is \<Rightarrow> Some (last is))"

definition first_index :: "byte \<Rightarrow> bytes \<Rightarrow> nat option" where
  "first_index c s = (case filter (\<lambda>i. s ! i = c) [0..<length s] of [] \<Rightarrow> None | i # _ \<Rightarrow> Some i)"

definition SplitHostPort_ok :: "bytes \<Rightarrow> bool" where
  "SplitHostPort_ok hp =
     (case last_index 58 hp of
        None \<Rightarrow> False
      | Some i \<Rightarrow>
          if hd hp = 91 then
            (case first_index 93 hp of
               None \<Rightarrow> False
             | Some e \<Rightarrow> e + 1 = i \<and> 91 \<notin> set (drop 1 hp) \<and> 93 \<notin> set (drop (e + 1) hp))
          else 58 \<notin> set (take i hp) \<and> 91 \<notin> set hp \<and> 93 \<notin> set hp)"

definition JoinHostPort :: "bytes \<Rightarrow> bytes \<Rightarrow> bytes" where
  "JoinHostPort host port =
     (if 58 \<in> set host then str ''['' @ host @ str '']:'' @ port else host @ str '':'' @ port)"

fun contains :: "bytes \<Rightarrow> bytes \<Rightarrow> bool" where
  "contains [] sub \<longleftrightarrow> sub = []"
| "contains (c # s) sub \<longleftrightarrow> take (length sub) (c # s) = sub \<or> contains s sub"

definition resolveGRPCEndpoint :: "(bytes \<Rightarrow> (go_error, go_url) result) \<Rightarrow> bytes \<Rightarrow> bool \<Rightarrow> bool \<Rightarrow>
    (endpoint_error, bytes \<times> bool) result" where
  "resolveGRPCEndpoint parse ep insec hasTLSCfg =
     (if ep = [] then Inl ErrNoEndpoint
      else if \<not> contains ep (str ''://'') then
        (if (\<exists>c\<in>set ep. c \<in> set (str ''/?#''))
         then Inl (BadEndpoint (str ''otlp: grpc endpoint must be host[:port]''))
         else
           (let host = (if SplitHostPort_ok ep then ep else JoinHostPort ep grpcDefaultPort) in
            if insec then
              (if hasTLSCfg then Inl (BadEndpoint (str ''otlp: WithInsecure and WithTLSConfig conflict''))
               else Inr (str ''http://'' @ host, False))
            else Inr (str ''https://'' @ host, True)))
      else case parse ep of
        Inl perr \<Rightarrow> Inl (BadEndpoint (str ''otlp: invalid grpc endpoint'' @ perr))
      | Inr u \<Rightarrow>
          if u_Host u = [] then Inl (BadEndpoint (str ''otlp: grpc endpoint has no host''))
          else if (u_Path u \<noteq> [] \<and> u_Path u \<noteq> str ''/'') \<or> u_RawQuery u \<noteq> [] \<or> u_Fragment u \<noteq> []
          then Inl (BadEndpoint (str ''otlp: grpc endpoint must not carry a path/query/fragment''))
          else if u_Scheme u = str ''http'' then
            (if hasTLSCfg then Inl (BadEndpoint (str ''otlp: WithTLSConfig conflicts with plaintext scheme''))
             else Inr (str ''http://'' @ u_Host u, False))
          else if u_Scheme u = str ''https'' then Inr (str ''https://'' @ u_Host u, True)
          else Inl (BadEndpoint (str ''otlp: grpc endpoint must be host:port or an http(s) URL'')))"

text \<open>
  \<^verbatim>\<open>strings.ToLower\<close> on ASCII strings; on others the Unicode mapping is an argument.
\<close>

definition ToLower :: "(bytes \<Rightarrow> bytes) \<Rightarrow> bytes \<Rightarrow> bytes" where
  "ToLower uni s = (if list_all (\<lambda>c. c < 0x80) s then map lower_byte s else uni s)"

definition has_suffix :: "bytes \<Rightarrow> bytes \<Rightarrow> bool" where
  "has_suffix s suf \<longleftrightarrow> length suf \<le> length s \<and> drop (length s - length suf) s = suf"

definition has_prefix :: "bytes \<Rightarrow> bytes \<Rightarrow> bool" where
  "has_prefix s pre \<longleftrightarrow> take (length pre) s = pre"

definition reserved_key :: "bytes \<Rightarrow> bool" where
  "reserved_key lk \<longleftrightarrow> has_prefix lk (str ''grpc-'') \<or> has_suffix lk (str ''-bin'') \<or> has_prefix lk (str '':'') \<or>
     lk = str ''content-type'' \<or> lk = str ''te''"

fun validateGRPCHeaders :: "(bytes \<Rightarrow> bytes) \<Rightarrow> http_header \<Rightarrow> go_error option" where
  "validateGRPCHeaders uni [] = None"
| "validateGRPCHeaders uni ((k, v) # hs) =
     (if reserved_key (ToLower uni k) then Some (str ''otlp: header is reserved on the gRPC transport: '' @ k)
      else if (\<exists>c\<in>set v. c < 0x20 \<or> c > 0x7e)
      then Some (str ''otlp: header value contains non-printable-ASCII byte: '' @ k)
      else if v \<noteq> trim_bytes is_space v then Some (str ''otlp: header value has leading/trailing whitespace: '' @ k)
      else validateGRPCHeaders uni hs)"

section \<open>The transport\<close>

record grpcTransport =
  gt_url :: bytes
  gt_useTLS :: bool
  gt_headers :: http_header
  gt_gzipOn :: bool
  gt_timeout :: int
  gt_timeoutHdr :: bytes
  gt_userAgent :: bytes

definition newGRPCTransport :: "(bytes \<Rightarrow> (go_error, go_url) result) \<Rightarrow> (bytes \<Rightarrow> bytes) \<Rightarrow> process \<Rightarrow> bytes \<Rightarrow> otlp_options \<Rightarrow>
    (endpoint_error, grpcTransport) result" where
  "newGRPCTransport parse uni ps ep o1 =
     (if encoding o1 \<noteq> Protobuf
      then Inl (BadEndpoint (str ''otlp: WithEncoding is not supported on the gRPC transport''))
      else case resolveGRPCEndpoint parse ep (insecure o1) (tlsConfig o1 \<noteq> None) of
        Inl err \<Rightarrow> Inl err
      | Inr (base, useTLS) \<Rightarrow>
          (case validateGRPCHeaders uni (headers o1) of
             Some err \<Rightarrow> Inl (BadEndpoint err)
           | None \<Rightarrow>
               Inr \<lparr>gt_url = base @ grpcMethodPath, gt_useTLS = useTLS, gt_headers = headers o1,
                    gt_gzipOn = (compression o1 = Gzip), gt_timeout = o_timeout o1,
                    gt_timeoutHdr = grpcTimeoutValue (o_timeout o1),
                    gt_userAgent = str ''zapwire-otlp'' @ (if moduleVersion ps \<noteq> [] then str ''/'' @ moduleVersion ps else [])\<rparr>))"

definition grpcFrame :: "bytes \<Rightarrow> bool \<Rightarrow> bytes" where
  "grpcFrame msg cmp = ((if cmp then 1 else 0) # be32 (of_nat (length msg))) @ msg"

definition grpc_prepare :: "(bytes \<Rightarrow> bytes option) \<Rightarrow> grpcTransport \<Rightarrow> bytes \<Rightarrow> prepared" where
  "grpc_prepare gz t msg =
     (if gt_gzipOn t then
        (case gz msg of
           Some z \<Rightarrow> \<lparr>body = grpcFrame z True, compressed = True, warn = None, fail = None\<rparr>
         | None \<Rightarrow> \<lparr>body = grpcFrame msg False, compressed = False, warn = Some gzip_failed, fail = None\<rparr>)
      else \<lparr>body = grpcFrame msg False, compressed = False, warn = None, fail = None\<rparr>)"

definition grpc_request_of :: "grpcTransport \<Rightarrow> prepared \<Rightarrow> http_request" where
  "grpc_request_of t p =
     (let h1 = header_Set (str ''Content-Type'') (str ''application/grpc'') [];
          h2 = header_Set (str ''TE'') (str ''trailers'') h1;
          h3 = header_Set (str ''Grpc-Accept-Encoding'') (str ''identity,gzip'') h2;
          h4 = header_Set (str ''User-Agent'') (gt_userAgent t) h3;
          h5 = (if gt_timeoutHdr t \<noteq> [] then header_Set (str ''Grpc-Timeout'') (gt_timeoutHdr t) h4 else h4);
          h6 = (if compressed p then header_Set (str ''Grpc-Encoding'') (str ''gzip'') h5 else h5);
          h7 = foldl (\<lambda>h (k, v). header_Set k v h) h6 (gt_headers t)
      in \<lparr>rq_url = gt_url t, rq_header = h7, rq_body = body p\<rparr>)"

text \<open>The decoder of a compressed answer is an argument; it reads at most one mebibyte.\<close>

definition deframeGRPCResponse :: "(bytes \<Rightarrow> (go_error, bytes) result) \<Rightarrow> bytes \<Rightarrow> bytes \<Rightarrow> (go_error, bytes option) result" where
  "deframeGRPCResponse unzip b enc =
     (if length b = 0 then Inr None
      else if length b < 5 then Inl (proto_error_text ErrTruncatedResponse)
      else
        let mlen = unat (be32_read (take 4 (drop 1 b))) in
        if length b - 5 < mlen then Inl (proto_error_text ErrTruncatedResponse)
        else if length b - 5 - mlen > 0
        then Inl (str ''otlp: '' @ decimal (length b - 5 - mlen) @ str '' trailing bytes after unary response frame'')
        else
          let msg = take mlen (drop 5 b) in
          if b ! 0 AND 1 = 0 then Inr (Some msg)
          else if enc \<noteq> str ''gzip'' then Inl (str ''otlp: compressed response frame with grpc-encoding '' @ enc)
          else map_sum id Some (unzip msg))"

definition transportError :: "bool \<Rightarrow> go_error \<Rightarrow> ExportError" where
  "transportError expired err =
     no_export_error\<lparr>GRPCStatus := (if expired then grpcDeadlineExceeded else grpcUnavailable), Retryable := True, Err := Some err\<rparr>"

text \<open>
  One call: \<open>expired\<close> tells whether the attempt's own deadline has passed when an error is
  classified.
\<close>

definition grpc_attempt :: "(bytes \<Rightarrow> (go_error, bytes) result) \<Rightarrow> bool \<Rightarrow> (bytes \<Rightarrow> go_error option) \<Rightarrow>
    (http_request \<Rightarrow> (go_error, http_response) result) \<Rightarrow> grpcTransport \<Rightarrow> prepared \<Rightarrow>
    (ExportError, acceptance option) result" where
  "grpc_attempt unzip expired newreq send t p =
     (case newreq (gt_url t) of
        Some err \<Rightarrow> Inl (no_export_error\<lparr>Err := Some err\<rparr>)
      | None \<Rightarrow>
          (case send (grpc_request_of t p) of
             Inl err \<Rightarrow> Inl (transportError expired err)
           | Inr resp \<Rightarrow>
               (case rs_readErr resp of
                  Some rerr \<Rightarrow> Inl (transportError expired rerr)
                | None \<Rightarrow>
                    (let respBody = limit_body (rs_body resp);
                         status0 = header_Get (str ''Grpc-Status'') (rs_trailer resp);
                         meta = (if status0 = [] then rs_header resp else rs_trailer resp);
                         statusStr = (if status0 = [] then header_Get (str ''Grpc-Status'') (rs_header resp) else status0) in
                     if statusStr = [] then
                       (let code = httpStatusToGRPCStatus (rs_status resp) in
                        Inl (no_export_error\<lparr>StatusCode := rs_status resp, GRPCStatus := code,
                               Retryable := retryableGRPCStatus code False, Message := excerpt respBody\<rparr>))
                     else case ParseInt statusStr of
                       None \<Rightarrow> Inl (no_export_error\<lparr>Message := str ''malformed grpc-status '' @ excerpt statusStr,
                                  Err := Some (str ''strconv.Atoi: parsing '' @ statusStr)\<rparr>)
                     | Some code \<Rightarrow>
                         if code = grpcOK then
                           (case deframeGRPCResponse unzip respBody (header_Get (str ''Grpc-Encoding'') (rs_header resp)) of
                              Inl derr \<Rightarrow> Inr (Some \<lparr>rejected = 0, event = Some (no_export_error\<lparr>Err := Some derr\<rparr>)\<rparr>)
                            | Inr None \<Rightarrow> Inr None
                            | Inr (Some msg) \<Rightarrow> Inr (resolveAccept msg no_export_error))
                         else
                           (let det = header_Get (str ''Grpc-Status-Details-Bin'') meta;
                                (delay, found) = (case (if det \<noteq> [] then decodeBinHeader det else None) of
                                    Some raw \<Rightarrow> (case retryDelayFromStatus raw of (d, ok) \<Rightarrow> if ok then (d, True) else (0, False))
                                  | None \<Rightarrow> (0, False)) in
                            Inl (no_export_error\<lparr>GRPCStatus := code, Retryable := retryableGRPCStatus code found,
                                   Message := percentDecode (header_Get (str ''Grpc-Message'') meta), retryAfter := delay\<rparr>))))))"

section \<open>Headers the transport owns\<close>

lemma lower_case [simp]: "lower_byte (upper_byte c) = lower_byte c" "lower_byte (lower_byte c) = lower_byte c"
  by (rule byte_all [where P = "\<lambda>c. lower_byte (upper_byte c) = lower_byte c"], code_simp)
    (rule byte_all [where P = "\<lambda>c. lower_byte (lower_byte c) = lower_byte c"], code_simp)

lemma map_lower_canon: "map lower_byte (canon_loop up k) = map lower_byte k"
  by (induction k arbitrary: up) auto

lemma token_ascii: "token_byte c \<Longrightarrow> c < 0x80"
  by (auto simp: token_byte_def is_digit_def str_def word_less_nat_alt word_le_nat_alt)

lemma canonical_lower:
  assumes "canonical k = x" and "list_all token_byte x"
  shows "ToLower uni k = map lower_byte x"
proof (cases "list_all token_byte k")
  case True
  then have "list_all (\<lambda>c. c < 0x80) k" by (auto simp: list_all_iff dest: token_ascii)
  moreover have "map lower_byte k = map lower_byte x"
    using assms(1) True map_lower_canon [of True k] by (simp add: canonical_def)
  ultimately show ?thesis by (simp add: ToLower_def)
next
  case False
  with assms show ?thesis by (simp add: canonical_def)
qed

definition owned :: "bytes list" where
  "owned = [str ''Content-Type'', str ''Te'', str ''Grpc-Accept-Encoding'', str ''Grpc-Timeout'', str ''Grpc-Encoding'']"

lemma owned_reserved: "x \<in> set owned \<Longrightarrow> canonical k = x \<Longrightarrow> reserved_key (ToLower uni k)"
proof -
  have "list_all (\<lambda>x. list_all token_byte x \<and> reserved_key (map lower_byte x)) owned" by code_simp
  then show "x \<in> set owned \<Longrightarrow> canonical k = x \<Longrightarrow> reserved_key (ToLower uni k)"
    using canonical_lower [of k x uni] by (auto simp: list_all_iff)
qed

lemma validate_keys: "validateGRPCHeaders uni hs = None \<Longrightarrow> (k, v) \<in> set hs \<Longrightarrow> \<not> reserved_key (ToLower uni k)"
  by (induction uni hs rule: validateGRPCHeaders.induct) (auto split: if_splits)

lemma user_headers_keep:
  assumes "\<forall>(k, v)\<in>set hs. canonical k \<noteq> x"
  shows "map_of (foldl (\<lambda>h (k, v). header_Set k v h) h hs) x = map_of h x"
  using assms by (induction hs arbitrary: h) (auto simp: map_of_Set)

lemma canonical_grpc [simp]:
  "canonical (str ''TE'') = str ''Te''" "canonical (str ''Grpc-Accept-Encoding'') = str ''Grpc-Accept-Encoding''"
  "canonical (str ''User-Agent'') = str ''User-Agent''" "canonical (str ''Grpc-Timeout'') = str ''Grpc-Timeout''"
  "canonical (str ''Grpc-Encoding'') = str ''Grpc-Encoding''"
  by code_simp+

lemma grpc_owned_headers:
  assumes "validateGRPCHeaders uni (gt_headers t) = None"
  shows "map_of (rq_header (grpc_request_of t p)) (str ''Content-Type'') = Some (str ''application/grpc'')"
    "map_of (rq_header (grpc_request_of t p)) (str ''Te'') = Some (str ''trailers'')"
    "map_of (rq_header (grpc_request_of t p)) (str ''Grpc-Encoding'') = (if compressed p then Some (str ''gzip'') else None)"
    "map_of (rq_header (grpc_request_of t p)) (str ''Grpc-Timeout'') =
       (if gt_timeoutHdr t = [] then None else Some (gt_timeoutHdr t))"
proof -
  have keep: "map_of (foldl (\<lambda>h (k, v). header_Set k v h) h (gt_headers t)) x = map_of h x" if "x \<in> set owned" for h x
    using that validate_keys [OF assms] owned_reserved [of x _ uni] by (intro user_headers_keep) blast
  have o: "str ''Content-Type'' \<in> set owned" "str ''Te'' \<in> set owned" "str ''Grpc-Encoding'' \<in> set owned" "str ''Grpc-Timeout'' \<in> set owned"
    by (simp_all add: owned_def)
  have d: "distinct [str ''Content-Type'', str ''Te'', str ''Grpc-Accept-Encoding'', str ''Grpc-Timeout'', str ''Grpc-Encoding'', str ''User-Agent'']"
    by code_simp
  show "map_of (rq_header (grpc_request_of t p)) (str ''Content-Type'') = Some (str ''application/grpc'')"
    "map_of (rq_header (grpc_request_of t p)) (str ''Te'') = Some (str ''trailers'')"
    "map_of (rq_header (grpc_request_of t p)) (str ''Grpc-Encoding'') = (if compressed p then Some (str ''gzip'') else None)"
    "map_of (rq_header (grpc_request_of t p)) (str ''Grpc-Timeout'') =
       (if gt_timeoutHdr t = [] then None else Some (gt_timeoutHdr t))"
    using d by (auto simp: grpc_request_of_def Let_def keep [OF o(1)] keep [OF o(2)] keep [OF o(3)] keep [OF o(4)] map_of_Set)
qed

section \<open>Frames\<close>

text \<open>A server's reading of a request: one length-prefixed message, decompressed as the metadata says.\<close>

definition grpc_receive :: "(bytes \<Rightarrow> bytes option) \<Rightarrow> http_request \<Rightarrow> bytes option" where
  "grpc_receive gunzip rq =
     (let b = rq_body rq in
      if length b < 5 \<or> length b \<noteq> 5 + unat (be32_read (drop 1 b)) then None
      else if hd b = 0 then Some (drop 5 b)
      else if hd b = 1 \<and> map_of (rq_header rq) (str ''Grpc-Encoding'') = Some (str ''gzip'') then gunzip (drop 5 b)
      else None)"

lemma grpcFrame_parts:
  "length (grpcFrame m c) = 5 + length m" "drop 5 (grpcFrame m c) = m" "hd (grpcFrame m c) = (if c then 1 else 0)"
  by (simp_all add: grpcFrame_def)

lemma grpcFrame_length:
  assumes "length m < 2 ^ 32"
  shows "unat (be32_read (drop 1 (grpcFrame m c @ r))) = length m"
    "unat (be32_read (take 4 (drop 1 (grpcFrame m c @ r)))) = length m"
proof -
  let ?w = "of_nat (length m) :: u32"
  have u: "unat ?w = length m" using assms by (simp add: unsigned_of_nat take_bit_nat_eq_self)
  show "unat (be32_read (drop 1 (grpcFrame m c @ r))) = length m"
    using be32_read_be32 [of ?w "m @ r"] u by (simp add: grpcFrame_def)
  show "unat (be32_read (take 4 (drop 1 (grpcFrame m c @ r)))) = length m"
    using be32_read_be32 [of ?w "[]"] u by (simp add: grpcFrame_def)
qed

lemma grpc_request_body [simp]: "rq_body (grpc_request_of t p) = body p"
  by (simp add: grpc_request_of_def Let_def)

context gzip_laws
begin

lemma grpc_shipped:
  assumes "validateGRPCHeaders uni (gt_headers t) = None" and "length msg < 2 ^ 32"
    and "\<And>z. gz msg = Some z \<Longrightarrow> length z < 2 ^ 32"
  shows "fail (grpc_prepare gz t msg) = None \<and> grpc_receive gunzip (grpc_request_of t (grpc_prepare gz t msg)) = Some msg"
proof (cases "gt_gzipOn t \<and> gz msg \<noteq> None")
  case True
  then obtain z where z: "gz msg = Some z" by blast
  then have "grpc_prepare gz t msg = \<lparr>body = grpcFrame z True, compressed = True, warn = None, fail = None\<rparr>"
    using True by (simp add: grpc_prepare_def)
  then show ?thesis
    using grpcFrame_length(1) [OF assms(3) [OF z], of True "[]"] gunzip_gzip [OF z]
    by (simp add: grpc_receive_def grpc_owned_headers [OF assms(1)] grpcFrame_parts Let_def)
next
  case False
  then have "body (grpc_prepare gz t msg) = grpcFrame msg False \<and> fail (grpc_prepare gz t msg) = None"
    by (auto simp: grpc_prepare_def split: option.split)
  then show ?thesis
    using grpcFrame_length(1) [OF assms(2), of False "[]"] by (simp add: grpc_receive_def grpcFrame_parts Let_def)
qed

end

sublocale gzip_laws < grpc: ship_layer "grpc_prepare gz t" "\<lambda>p. grpc_receive gunzip (grpc_request_of t p)"
  "\<lambda>msg. validateGRPCHeaders uni (gt_headers t) = None \<and> length msg < 2 ^ 32 \<and> (\<forall>z. gz msg = Some z \<longrightarrow> length z < 2 ^ 32)"
  for uni t
  by (unfold_locales, elim conjE, rule grpc_shipped [where uni = uni]) simp_all

context gzip_laws
begin

lemmas grpc_batch = grpc.batch_delivered

end

section \<open>Metadata\<close>

text \<open>The encodings a server uses: percent encoding of the message, base64 of binary metadata.\<close>

definition hex_upper :: "nat \<Rightarrow> byte" where
  "hex_upper n = (if n < 10 then of_nat (48 + n) else of_nat (55 + n))"

definition percent_byte :: "byte \<Rightarrow> bytes" where
  "percent_byte c =
     (if 0x20 \<le> c \<and> c \<le> 0x7e \<and> c \<noteq> 37 then [c] else [37, hex_upper (unat c div 16), hex_upper (unat c mod 16)])"

definition percent_encode :: "bytes \<Rightarrow> bytes" where
  "percent_encode s = concat (map percent_byte s)"

lemma unhex_upper: "n < 16 \<Longrightarrow> unhex (hex_upper n) = Some (of_nat n)"
proof -
  have "list_all (\<lambda>n. unhex (hex_upper n) = Some (of_nat n)) [0..<16]" by code_simp
  then show "n < 16 \<Longrightarrow> unhex (hex_upper n) = Some (of_nat n)" by (simp add: list_all_iff)
qed

lemma nibbles: "push_bit 4 (of_nat (unat c div 16)) OR of_nat (unat c mod 16) = (c :: byte)"
proof -
  have "unat (of_nat (unat c div 16) :: byte) = unat c div 2 ^ 4" using byte_unat_less [of c] by (subst unat_of_nat_byte) simp_all
  then have "(of_nat (unat c div 16) :: byte) = drop_bit 4 c" by (simp only: word_unat_eq_iff unat_drop_bit_div)
  moreover have "(of_nat (unat c mod 16) :: byte) = take_bit 4 c"
    by (simp only: word_unat_eq_iff unsigned_take_bit_eq) (simp add: take_bit_eq_mod unat_of_nat_byte)
  moreover have "push_bit 4 (drop_bit 4 c) OR take_bit 4 c = c"
    by (rule bit_word_eqI) (auto simp: bit_simps not_less)
  ultimately show ?thesis by (simp only:)
qed

lemma percent_byte_cases:
  "percent_byte c = [c] \<and> c \<noteq> 37 \<or>
   (\<exists>h l hi lo. percent_byte c = [37, h, l] \<and> unhex h = Some hi \<and> unhex l = Some lo \<and> push_bit 4 hi OR lo = c)"
proof (cases "0x20 \<le> c \<and> c \<le> 0x7e \<and> c \<noteq> 37")
  case False
  have "unat c div 16 < 16" using byte_unat_less [of c] by simp
  with False show ?thesis
    unfolding percent_byte_def if_not_P [OF False] by (auto simp: unhex_upper nibbles)
qed (simp add: percent_byte_def)

lemma percent_loop_other: "c \<noteq> 37 \<Longrightarrow> percent_loop (c # r) = c # percent_loop r"
  by (simp split: list.split)

lemma percent_loop_encode: "percent_loop (percent_encode s) = s"
proof (induction s)
  case (Cons c s)
  from percent_byte_cases [of c] Cons show ?case
    by (auto simp: percent_encode_def percent_loop_other simp del: percent_loop.simps)
      (simp add: percent_loop.simps)
qed (simp add: percent_encode_def)

lemma percent_loop_none: "37 \<notin> set s \<Longrightarrow> percent_loop s = s"
  by (induction s) (simp_all add: percent_loop_other del: percent_loop.simps(2))

lemma percentDecode_encode: "percentDecode (percent_encode s) = s"
  using percent_loop_encode [of s] percent_loop_none [of "percent_encode s"] by (auto simp: percentDecode_def)

text \<open>A status with a RetryInfo detail, after details of other kinds.\<close>

definition retry_status :: "u64 \<Rightarrow> bytes \<Rightarrow> (bytes \<times> bytes) list \<Rightarrow> u64 \<Rightarrow> u64 \<Rightarrow> pfield list" where
  "retry_status code msg others secs nanos =
     [PVarint 1 code, PLen 2 msg] @
     map (PLen 3) (map (\<lambda>(u, v). enc_msg [PLen 1 u, PLen 2 v]) others) @
     [PLen 3 (enc_msg [PLen 1 retryInfoTypeURL, PLen 2 (enc_msg [PLen 1 (enc_msg [PVarint 1 secs, PVarint 2 nanos])])])]"

lemma forEach_here:
  assumes "field_ok (PLen k p)"
  shows "forEachLenField (enc_field (PLen k p) @ rest) k fn s =
    (case fn p s of (go, s') \<Rightarrow> if go then forEachLenField rest k fn s' else (None, s'))"
  using wire_step_enc [OF assms, of rest]
  by (subst forEachLenField.simps) (simp del: enc_field.simps)

lemma forEach_skip:
  assumes "\<forall>p\<in>set ps. field_ok (PLen k p) \<and> fn p s = (True, s)"
  shows "forEachLenField (enc_msg (map (PLen k) ps) @ rest) k fn s = forEachLenField rest k fn s"
  using assms by (induction ps) (simp_all add: forEach_here del: enc_field.simps field_ok.simps)

lemma forEach_other:
  assumes "field_ok f" and "field_num f \<noteq> k"
  shows "forEachLenField (enc_field f @ rest) k fn s = forEachLenField rest k fn s"
  using assms by (cases f) (simp_all add: forEachLenField.simps [of "enc_field _ @ _"] wire_step_enc del: enc_field.simps)

lemma other_detail:
  assumes "length u < 2 ^ 64" and "length v < 2 ^ 64" and "u \<noteq> retryInfoTypeURL"
  shows "retry_detail (enc_msg [PLen 1 u, PLen 2 v]) st = (True, st)"
  using assms by (simp add: retry_detail_def findField_enc_msg del: enc_msg_Cons)

lemma retry_detail_found:
  assumes "d = sint secs * Second + sint nanos" and "0 < d" and "d < 2 ^ 63" and "\<bar>sint secs * Second\<bar> < 2 ^ 63"
  shows "retry_detail (enc_msg [PLen 1 retryInfoTypeURL, PLen 2 (enc_msg [PLen 1 (enc_msg [PVarint 1 secs, PVarint 2 nanos])])]) st =
    (False, d, True)"
proof -
  let ?dur = "enc_msg [PVarint 1 secs, PVarint 2 nanos]"
  let ?val = "enc_msg [PLen 1 ?dur]"
  have u: "length retryInfoTypeURL < 100" by code_simp
  have "length ?dur \<le> 22" using uvarintLen_bounds [of secs] uvarintLen_bounds [of nanos]
    by (simp add: append_simps)
  moreover have "length ?val \<le> 11 + length ?dur" using uvarintLen_bounds [of "of_nat (length ?dur)"]
    by (simp add: append_simps)
  ultimately have l: "length ?dur < 2 ^ 64" "length ?val < 2 ^ 64" by simp_all
  have ok: "\<forall>f\<in>set [PLen 1 retryInfoTypeURL, PLen 2 ?val]. field_ok f" "\<forall>f\<in>set [PLen 1 ?dur]. field_ok f"
    "\<forall>f\<in>set [PVarint 1 secs, PVarint 2 nanos]. field_ok f"
    using u l by (simp_all del: enc_msg_Cons)
  have f: "findField (enc_msg [PLen 1 retryInfoTypeURL, PLen 2 ?val]) 1 = Inr (Some retryInfoTypeURL)"
    "findField (enc_msg [PLen 1 retryInfoTypeURL, PLen 2 ?val]) 2 = Inr (Some ?val)"
    "findField ?val 1 = Inr (Some ?dur)" "findVarint ?dur 1 = Inr secs" "findVarint ?dur 2 = Inr nanos"
    unfolding findField_enc_msg [OF ok(1)] findField_enc_msg [OF ok(2)] findVarint_enc_msg [OF ok(3)] by simp_all
  have "wrap64 (sint secs * Second) = sint secs * Second" using assms(4) by (intro wrap64_id) linarith+
  moreover have "wrap64 d = d" using assms(2,3) by (intro wrap64_id) linarith+
  ultimately show ?thesis unfolding retry_detail_def f option.case sum.case using assms(1,2) by (simp add: Let_def)
qed

lemma retry_delay_read:
  assumes "d = sint secs * Second + sint nanos" and "0 < d" and "d < 2 ^ 63" and "\<bar>sint secs * Second\<bar> < 2 ^ 63"
    and "\<forall>f\<in>set (retry_status code msg others secs nanos). field_ok f"
    and "\<forall>(u, v)\<in>set others. u \<noteq> retryInfoTypeURL"
  shows "retryDelayFromStatus (enc_msg (retry_status code msg others secs nanos)) = (d, True)"
proof -
  let ?info = "enc_msg [PLen 1 retryInfoTypeURL, PLen 2 (enc_msg [PLen 1 (enc_msg [PVarint 1 secs, PVarint 2 nanos])])]"
  have ok: "field_ok (PVarint 1 code)" "field_ok (PLen 2 msg)" "field_ok (PLen 3 ?info)"
    using assms(5) unfolding retry_status_def by (simp_all del: field_ok.simps enc_msg_Cons)
  have sk: "\<forall>m\<in>set (map (\<lambda>(u, v). enc_msg [PLen 1 u, PLen 2 v]) others). field_ok (PLen 3 m) \<and> retry_detail m (0, False) = (True, (0, False))"
  proof
    fix m assume m: "m \<in> set (map (\<lambda>(u, v). enc_msg [PLen 1 u, PLen 2 v]) others)"
    then obtain u v where uv: "(u, v) \<in> set others" "m = enc_msg [PLen 1 u, PLen 2 v]" by auto
    have "PLen 3 m \<in> set (retry_status code msg others secs nanos)"
      unfolding retry_status_def set_append set_map [of "PLen 3"] using m by blast
    with assms(5) have o: "field_ok (PLen 3 m)" by blast
    have "length u < length m" "length v < length m"
      unfolding uv(2) by (rule payload_less [of 1 u], simp, rule payload_less [of 2 v], simp)
    with o have "length u < 2 ^ 64" "length v < 2 ^ 64" by simp_all
    moreover have "u \<noteq> retryInfoTypeURL" using assms(6) uv(1) by blast
    ultimately show "field_ok (PLen 3 m) \<and> retry_detail m (0, False) = (True, 0, False)" using o other_detail uv(2) by blast
  qed
  have l: "forEachLenField (enc_field (PLen 3 ?info) @ []) 3 retry_detail (0, False) = (None, (d, True))"
    unfolding forEach_here [OF ok(3)] retry_detail_found [OF assms(1-4)] by simp
  have n: "field_num (PVarint 1 code) \<noteq> 3" "field_num (PLen 2 msg) \<noteq> 3" by simp_all
  have "forEachLenField (enc_msg (retry_status code msg others secs nanos)) 3 retry_detail (0, False) = (None, (d, True))"
    unfolding retry_status_def enc_msg_append enc_msg_Cons [of "PVarint 1 code"] enc_msg_Cons [of "PLen 2 msg"] enc_msg_Cons [of "PLen 3 ?info"]
      append_assoc enc_msg_Nil append_Nil forEach_other [OF ok(1) n(1)] forEach_other [OF ok(2) n(2)] forEach_skip [where fn = retry_detail and s = "(0, False)", OF sk] by (rule l)
  then show ?thesis by (simp add: retryDelayFromStatus_def)
qed

text \<open>The delay of a status is positive exactly when one was found.\<close>

lemma retry_detail_sound:
  "retry_detail m (0, False) = (go, d, ok) \<Longrightarrow> (ok \<longleftrightarrow> 0 < d) \<and> (\<not> ok \<longrightarrow> d = 0) \<and> (go \<longrightarrow> \<not> ok)"
  by (auto simp: retry_detail_def Let_def split: sum.splits option.splits if_splits)

lemma forEach_retry:
  "forEachLenField b 3 retry_detail (0, False) = (err, d, ok) \<Longrightarrow> (ok \<longleftrightarrow> 0 < d) \<and> (\<not> ok \<longrightarrow> d = 0)"
proof (induction b arbitrary: err d ok rule: length_induct)
  case (1 b)
  have IH: "forEachLenField r 3 retry_detail (0, False) = (err, d, ok) \<Longrightarrow> ?case" if "wire_step b = Some (n, v, r)" "b \<noteq> []" for n v r
    using 1(1) wire_step_shorter that by blast
  show ?case
  proof (cases "b = []")
    case False
    show ?thesis
    proof (cases "wire_step b")
      case (Some a)
      then obtain n v r where w: "wire_step b = Some (n, v, r)" by (cases a) auto
      show ?thesis
      proof (cases "\<exists>m. v = WLen m \<and> n = 3")
        case True
        then obtain m where v: "v = WLen m" "n = 3" by blast
        obtain go d' ok' where m: "retry_detail m (0, False) = (go, d', ok')" by (cases "retry_detail m (0, False)") auto
        from retry_detail_sound [OF m] show ?thesis
          using 1(2) IH [OF w False] w v m False
          by (cases go; cases ok') (auto simp: forEachLenField.simps [of b])
      next
        case other: False
        then show ?thesis using 1(2) IH [OF w False] w False
          by (cases v) (auto simp: forEachLenField.simps [of b] split: if_splits)
      qed
    qed (use 1(2) False in \<open>simp add: forEachLenField.simps [of b]\<close>)
  qed (use 1(2) in \<open>simp add: forEachLenField.simps\<close>)
qed

lemma retry_delay_sound: "retryDelayFromStatus raw = (d, ok) \<Longrightarrow> (ok \<longleftrightarrow> 0 < d) \<and> (\<not> ok \<longrightarrow> d = 0)"
  using forEach_retry [of raw] by (cases "forEachLenField raw 3 retry_detail (0, False)") (auto simp: retryDelayFromStatus_def)

lemma decodeBinHeader_encode: "decodeBinHeader (base64 raw) = Some raw" "decodeBinHeader (raw_base64 raw) = Some raw"
  using b64_decode_mixed [of raw] b64_decode_encode [of raw] by (auto simp: decodeBinHeader_def)

text \<open>The duration a \<^verbatim>\<open>grpc-timeout\<close> value denotes, in nanoseconds.\<close>

definition timeout_meaning :: "bytes \<Rightarrow> int option" where
  "timeout_meaning v =
     (if v = [] then None
      else map_option (\<lambda>n. int n * (if last v = 109 then 1000000 else Second)) (parse_digits (butlast v)))"

lemma timeout_millis: "0 < d \<Longrightarrow> d < 10 ^ 14 \<Longrightarrow> grpcTimeoutValue d = decimal (nat (max (d div 1000000) 1)) @ [109]"
  by (simp add: grpcTimeoutValue_def format_int_def Let_def str_def)

lemma timeout_seconds: "10 ^ 14 \<le> d \<Longrightarrow> grpcTimeoutValue d = decimal (nat (min (d div Second) 99999999)) @ [83]"
proof -
  assume d: "10 ^ 14 \<le> d"
  then have "99999999 < d div 1000000" "0 \<le> d div Second" by (simp_all add: Second_def)
  with d show ?thesis by (simp add: grpcTimeoutValue_def format_int_def Let_def str_def)
qed

lemma timeout_decimal: "timeout_meaning (decimal n @ [u]) = Some (int n * (if u = 109 then 1000000 else Second))"
  by (simp add: timeout_meaning_def parse_digits_decimal)

section \<open>Properties\<close>

text \<open>a gRPC request carries its batch faithfully. When the configured headers pass
  \<^verbatim>\<open>validateGRPCHeaders\<close>, preparing never fails, no configured header replaces the content type, the
  trailers announcement, the encoding or the deadline of the call, and a server that reads the
  length-prefixed frame and honours its compressed flag gets exactly the resource, the scope and
  the batch's records in order.\<close>

theorem grpc_delivers_batch:
  assumes "gzip_laws gz gunzip" and "validateGRPCHeaders uni (gt_headers t) = None"
    and "sizeFor e (batchCost rs) < 2 ^ 64" and "length (assemble e [] rs) < 2 ^ 32"
    and "\<forall>z. gz (assemble e [] rs) = Some z \<longrightarrow> length z < 2 ^ 32"
    and p: "p = grpc_prepare gz t (assemble e [] rs)"
  shows "fail p = None \<and>
    Option.bind (grpc_receive gunzip (grpc_request_of t p)) parse_request =
      Some (Some (resourceBlob e), (if scopeBlob e = [] then None else Some (scopeBlob e)), rs) \<and>
    map_of (rq_header (grpc_request_of t p)) (str ''Content-Type'') = Some (str ''application/grpc'') \<and>
    map_of (rq_header (grpc_request_of t p)) (str ''Te'') = Some (str ''trailers'') \<and>
    map_of (rq_header (grpc_request_of t p)) (str ''Grpc-Timeout'') = (if gt_timeoutHdr t = [] then None else Some (gt_timeoutHdr t))"
  unfolding p
  using gzip_laws.grpc_batch [OF assms(1,3), of uni t] assms(2,4,5) grpc_owned_headers [OF assms(2)] by blast

definition sample_grpc :: grpcTransport where
  "sample_grpc = \<lparr>gt_url = str ''http://c:4317'' @ grpcMethodPath, gt_useTLS = False,
     gt_headers = [(str ''user-agent'', str ''x''), (str ''X-Tenant'', str ''a b'')], gt_gzipOn = True, gt_timeout = Second,
     gt_timeoutHdr = grpcTimeoutValue Second, gt_userAgent = str ''zapwire-otlp''\<rparr>"

theorem grpc_delivers_batch_witness:
  "Option.bind (grpc_receive stored_gunzip (grpc_request_of sample_grpc (grpc_prepare stored_gzip sample_grpc
      (assemble demo_envelope [] [[7, 8], []])))) parse_request = Some (Some [1, 2], Some [3], [[7, 8], []])"
proof -
  let ?m = "assemble demo_envelope [] [[7, 8], []]"
  have v: "validateGRPCHeaders id (gt_headers sample_grpc) = None" by code_simp
  have "sizeFor demo_envelope (batchCost [[7, 8], []]) < 100" "length ?m < 100" by code_simp+
  then have s: "sizeFor demo_envelope (batchCost [[7, 8], []]) < 2 ^ 64" "length ?m < 2 ^ 32"
    "\<forall>z. stored_gzip ?m = Some z \<longrightarrow> length z < 2 ^ 32" by (simp_all add: stored_gzip_def)
  from grpc_delivers_batch [OF stored.gzip_laws_axioms v s refl] show ?thesis by (simp add: demo_envelope_def)
qed

text \<open>the framing of unary responses: an uncompressed frame gives its message, a compressed one
  what the decoder gives; an empty body is no message; a body cut anywhere inside the frame, or with
  bytes after it, is an error.\<close>

theorem grpc_response_frames:
  assumes "length m < 2 ^ 32"
  shows "deframeGRPCResponse unzip (grpcFrame m False) enc = Inr (Some m) \<and>
    deframeGRPCResponse unzip (grpcFrame m True) (str ''gzip'') = map_sum id Some (unzip m) \<and>
    (enc \<noteq> str ''gzip'' \<longrightarrow> (\<exists>err. deframeGRPCResponse unzip (grpcFrame m True) enc = Inl err)) \<and>
    deframeGRPCResponse unzip [] enc = Inr None \<and>
    (\<forall>n. 0 < n \<and> n < 5 + length m \<longrightarrow>
       deframeGRPCResponse unzip (take n (grpcFrame m c)) enc = Inl (proto_error_text ErrTruncatedResponse)) \<and>
    (\<forall>extra. extra \<noteq> [] \<longrightarrow> (\<exists>err. deframeGRPCResponse unzip (grpcFrame m c @ extra) enc = Inl err))"
proof -
  have h: "grpcFrame m c ! 0 = (if c then 1 else 0)" for c by (simp add: grpcFrame_def)
  have l: "length (grpcFrame m c) = 5 + length m" for c by (rule grpcFrame_parts)
  note u = grpcFrame_length(2) [OF assms]
  have t: "deframeGRPCResponse unzip (take n (grpcFrame m c)) enc = Inl (proto_error_text ErrTruncatedResponse)"
    if n: "0 < n" "n < 5 + length m" for n
  proof (cases "n < 5")
    case True
    with n show ?thesis by (simp add: deframeGRPCResponse_def l)
  next
    case False
    then have "take 4 (drop 1 (take n (grpcFrame m c))) = take 4 (drop 1 (grpcFrame m c))" by (simp add: drop_take)
    moreover have "n - 5 < length m" using n False by linarith
    ultimately show ?thesis using n False u [of c "[]"] by (simp add: deframeGRPCResponse_def l Let_def)
  qed
  show ?thesis
    using t u [of _ "[]"] u [of c] by (auto simp: deframeGRPCResponse_def l h grpcFrame_parts Let_def)
qed

theorem grpc_response_frames_witness:
  "deframeGRPCResponse Inr (grpcFrame [1, 2, 3] False) [] = Inr (Some [1, 2, 3]) \<and>
   deframeGRPCResponse Inr (take 6 (grpcFrame [1, 2, 3] False)) [] = Inl (proto_error_text ErrTruncatedResponse)"
proof -
  have "length ([1, 2, 3] :: bytes) < 2 ^ 32" by simp
  from grpc_response_frames [OF this, of Inr "[]" False] show ?thesis by simp
qed

text \<open>the deadline sent to the server: for a positive timeout the \<^verbatim>\<open>grpc-timeout\<close> value has at most
  eight digits and a unit, denotes a positive time that never exceeds the timeout once that is a
  millisecond or more, and is less than a second short of it below ten to the eighth seconds.\<close>

theorem grpc_timeout_bounds:
  assumes "0 < d"
  shows "\<exists>ns. timeout_meaning (grpcTimeoutValue d) = Some ns \<and> length (grpcTimeoutValue d) \<le> 9 \<and> 0 < ns \<and>
    (if 1000000 \<le> d then ns \<le> d else ns = 1000000) \<and> (d < 10 ^ 8 * Second \<longrightarrow> d < ns + Second)"
proof (cases "d < 10 ^ 14")
  case True
  define n where "n = nat (max (d div 1000000) 1)"
  have "n < 10 ^ 8" using True by (simp add: n_def)
  then have "length (decimal n) \<le> 8" by (rule length_decimal_le) simp
  moreover have "0 < n" "d < int n * 1000000 + Second" "if 1000000 \<le> d then int n * 1000000 \<le> d else n = 1"
    using assms by (auto simp: n_def Second_def max_def)
  ultimately show ?thesis using timeout_millis [OF assms True] by (auto simp: timeout_decimal n_def [symmetric])
next
  case False
  define n where "n = nat (min (d div Second) 99999999)"
  have "n < 10 ^ 8" by (simp add: n_def)
  then have "length (decimal n) \<le> 8" by (rule length_decimal_le) simp
  moreover have "0 < int n" "int n * Second \<le> d" "d < 10 ^ 8 * Second \<longrightarrow> d < int n * Second + Second"
    using False by (auto simp: n_def Second_def min_def)
  moreover have "grpcTimeoutValue d = decimal n @ [83]" using timeout_seconds [of d] False by (simp add: n_def)
  ultimately show ?thesis using False by (auto simp: timeout_decimal Second_def)
qed

theorem grpc_timeout_bounds_witness:
  "timeout_meaning (grpcTimeoutValue (123456 * Second + 1)) = Some (123456 * Second)"
proof -
  have d: "0 < 123456 * Second + 1" by (simp add: Second_def)
  have "timeout_meaning (grpcTimeoutValue (123456 * Second + 1)) = Some (123456 * Second)"
    using timeout_seconds [of "123456 * Second + 1"] by (simp add: timeout_decimal Second_def)
  with grpc_timeout_bounds [OF d] show ?thesis by simp
qed

text \<open>The status a response carries: in the trailers, or else in the headers.\<close>

definition status_text :: "http_response \<Rightarrow> bytes" where
  "status_text resp =
     (if header_Get (str ''Grpc-Status'') (rs_trailer resp) \<noteq> []
      then header_Get (str ''Grpc-Status'') (rs_trailer resp) else header_Get (str ''Grpc-Status'') (rs_header resp))"

definition status_meta :: "http_response \<Rightarrow> http_header" where
  "status_meta resp = (if header_Get (str ''Grpc-Status'') (rs_trailer resp) \<noteq> [] then rs_trailer resp else rs_header resp)"

definition status_delay :: "http_response \<Rightarrow> int \<times> bool" where
  "status_delay resp =
     (let det = header_Get (str ''Grpc-Status-Details-Bin'') (status_meta resp) in
      case (if det \<noteq> [] then decodeBinHeader det else None) of
        Some raw \<Rightarrow> (case retryDelayFromStatus raw of (d, ok) \<Rightarrow> if ok then (d, True) else (0, False))
      | None \<Rightarrow> (0, False))"

lemma status_delay_sound: "0 \<le> fst (status_delay resp) \<and> (snd (status_delay resp) \<longleftrightarrow> 0 < fst (status_delay resp))"
  by (auto simp: status_delay_def Let_def split: option.split prod.split dest!: retry_delay_sound)

definition answered :: "(bytes \<Rightarrow> go_error option) \<Rightarrow> (http_request \<Rightarrow> (go_error, http_response) result) \<Rightarrow>
    grpcTransport \<Rightarrow> prepared \<Rightarrow> http_response \<Rightarrow> bool" where
  "answered newreq send t p resp \<longleftrightarrow>
     newreq (gt_url t) = None \<and> send (grpc_request_of t p) = Inr resp \<and> rs_readErr resp = None"

lemma attempt_no_status:
  assumes "answered newreq send t p resp" and "status_text resp = []"
  shows "grpc_attempt unzip expired newreq send t p =
    Inl (no_export_error\<lparr>StatusCode := rs_status resp, GRPCStatus := httpStatusToGRPCStatus (rs_status resp),
      Retryable := retryableGRPCStatus (httpStatusToGRPCStatus (rs_status resp)) False, Message := excerpt (limit_body (rs_body resp))\<rparr>)"
  using assms unfolding answered_def grpc_attempt_def status_text_def Let_def by (simp split: if_splits)

lemma attempt_malformed:
  assumes "answered newreq send t p resp" and "status_text resp \<noteq> []" and "ParseInt (status_text resp) = None"
  shows "grpc_attempt unzip expired newreq send t p =
    Inl (no_export_error\<lparr>Message := str ''malformed grpc-status '' @ excerpt (status_text resp),
      Err := Some (str ''strconv.Atoi: parsing '' @ status_text resp)\<rparr>)"
  using assms unfolding answered_def grpc_attempt_def status_text_def Let_def by (simp split: if_splits)

lemma attempt_ok:
  assumes "answered newreq send t p resp" and "status_text resp \<noteq> []" and "ParseInt (status_text resp) = Some 0"
  shows "grpc_attempt unzip expired newreq send t p =
    (case deframeGRPCResponse unzip (limit_body (rs_body resp)) (header_Get (str ''Grpc-Encoding'') (rs_header resp)) of
       Inl derr \<Rightarrow> Inr (Some \<lparr>rejected = 0, event = Some (no_export_error\<lparr>Err := Some derr\<rparr>)\<rparr>)
     | Inr None \<Rightarrow> Inr None
     | Inr (Some msg) \<Rightarrow> Inr (resolveAccept msg no_export_error))"
  using assms unfolding answered_def grpc_attempt_def status_text_def Let_def by (simp add: grpcOK_def split: if_splits)

lemma attempt_status:
  assumes "answered newreq send t p resp" and "status_text resp \<noteq> []" and "ParseInt (status_text resp) = Some c" and "c \<noteq> 0"
  shows "grpc_attempt unzip expired newreq send t p =
    Inl (no_export_error\<lparr>GRPCStatus := c, Retryable := retryableGRPCStatus c (snd (status_delay resp)),
      Message := percentDecode (header_Get (str ''Grpc-Message'') (status_meta resp)), retryAfter := fst (status_delay resp)\<rparr>)"
  using assms unfolding answered_def grpc_attempt_def status_text_def status_delay_def status_meta_def Let_def
  by (simp add: grpcOK_def case_prod_beta split: if_splits)

lemma mapped_retryable: "retryableGRPCStatus (httpStatusToGRPCStatus c) False \<longleftrightarrow> c \<in> {429, 502, 503, 504}"
  by (simp add: retryableGRPCStatus_def httpStatusToGRPCStatus_def grpc_codes)

lemma retryable_codes:
  "retryableGRPCStatus c ok \<longleftrightarrow> c \<in> {1, 4, 10, 11, 14, 15} \<or> c = 8 \<and> ok"
  by (auto simp: retryableGRPCStatus_def grpc_codes)

text \<open>C37: how a gRPC answer is classified, on every branch. Failing to send, or to read the body, is
  always retryable, as a deadline or as unavailability. Without a status anywhere the HTTP status
  decides; status 0 is accepted, never retried; another status is retryable exactly for the six
  codes of the OTLP table, and for RESOURCE_EXHAUSTED when a positive delay came with it; a status
  that is no number is final.\<close>

theorem grpc_answer_classes:
  assumes "newreq (gt_url t) = None"
  shows "(\<forall>err. send (grpc_request_of t p) = Inl err \<or> (\<exists>resp. send (grpc_request_of t p) = Inr resp \<and> rs_readErr resp = Some err) \<longrightarrow>
      (\<exists>e. grpc_attempt unzip expired newreq send t p = Inl e \<and> Retryable e \<and> Err e = Some err \<and>
        GRPCStatus e = (if expired then 4 else 14))) \<and>
    (\<forall>resp. send (grpc_request_of t p) = Inr resp \<and> rs_readErr resp = None \<longrightarrow>
      (let out = grpc_attempt unzip expired newreq send t p in
       if status_text resp = [] then
         (\<exists>e. out = Inl e \<and> StatusCode e = rs_status resp \<and> GRPCStatus e = httpStatusToGRPCStatus (rs_status resp) \<and>
           (Retryable e \<longleftrightarrow> rs_status resp \<in> {429, 502, 503, 504}))
       else case ParseInt (status_text resp) of
         None \<Rightarrow> \<exists>e. out = Inl e \<and> \<not> Retryable e \<and> Err e \<noteq> None
       | Some c \<Rightarrow>
           if c = 0 then \<exists>a. out = Inr a
           else \<exists>e. out = Inl e \<and> GRPCStatus e = c \<and> 0 \<le> retryAfter e \<and>
             (Retryable e \<longleftrightarrow> c \<in> {1, 4, 10, 11, 14, 15} \<or> c = 8 \<and> 0 < retryAfter e)))"
proof (intro conjI allI impI)
  fix err
  assume "send (grpc_request_of t p) = Inl err \<or> (\<exists>resp. send (grpc_request_of t p) = Inr resp \<and> rs_readErr resp = Some err)"
  then show "\<exists>e. grpc_attempt unzip expired newreq send t p = Inl e \<and> Retryable e \<and> Err e = Some err \<and> GRPCStatus e = (if expired then 4 else 14)"
    using assms by (auto simp: grpc_attempt_def transportError_def no_export_error_def grpc_codes)
next
  fix resp assume "send (grpc_request_of t p) = Inr resp \<and> rs_readErr resp = None"
  then have r: "send (grpc_request_of t p) = Inr resp" "rs_readErr resp = None" by simp_all
  have "answered newreq send t p resp" using assms r by (simp add: answered_def)
  note steps = this [THEN attempt_no_status] this [THEN attempt_malformed] this [THEN attempt_ok] this [THEN attempt_status]
  show "let out = grpc_attempt unzip expired newreq send t p in
       if status_text resp = [] then
         (\<exists>e. out = Inl e \<and> StatusCode e = rs_status resp \<and> GRPCStatus e = httpStatusToGRPCStatus (rs_status resp) \<and>
           (Retryable e \<longleftrightarrow> rs_status resp \<in> {429, 502, 503, 504}))
       else case ParseInt (status_text resp) of
         None \<Rightarrow> \<exists>e. out = Inl e \<and> \<not> Retryable e \<and> Err e \<noteq> None
       | Some c \<Rightarrow>
           if c = 0 then \<exists>a. out = Inr a
           else \<exists>e. out = Inl e \<and> GRPCStatus e = c \<and> 0 \<le> retryAfter e \<and>
             (Retryable e \<longleftrightarrow> c \<in> {1, 4, 10, 11, 14, 15} \<or> c = 8 \<and> 0 < retryAfter e)"
    using status_delay_sound [of resp]
    by (cases "status_text resp = []"; cases "ParseInt (status_text resp)")
      (simp_all add: steps mapped_retryable no_export_error_def Let_def split: sum.split option.split,
        auto simp: retryable_codes)
qed

definition sample_busy :: "bytes \<Rightarrow> http_response" where
  "sample_busy details = \<lparr>rs_status = 200, rs_header = [(str ''Grpc-Status'', decimal 0)],
     rs_trailer = [(str ''Grpc-Status'', decimal 8), (str ''Grpc-Message'', percent_encode (str ''50% full'')),
       (str ''Grpc-Status-Details-Bin'', details)], rs_body = [], rs_readErr = None\<rparr>"

definition no_body :: prepared where "no_body = \<lparr>body = [], compressed = False, warn = None, fail = None\<rparr>"

lemma sample_busy_status: "status_text (sample_busy details) = decimal 8" "status_meta (sample_busy details) = rs_trailer (sample_busy details)"
  "header_Get (str ''Grpc-Status-Details-Bin'') (rs_trailer (sample_busy details)) = details"
  "header_Get (str ''Grpc-Message'') (rs_trailer (sample_busy details)) = percent_encode (str ''50% full'')"
  "rs_readErr (sample_busy details) = None"
proof -
  have "canonical (str ''Grpc-Status'') = str ''Grpc-Status''" "canonical (str ''Grpc-Status-Details-Bin'') = str ''Grpc-Status-Details-Bin''"
    "canonical (str ''Grpc-Message'') = str ''Grpc-Message''"
    "distinct [str ''Grpc-Status'', str ''Grpc-Status-Details-Bin'', str ''Grpc-Message'']"
    by code_simp+
  then show "status_text (sample_busy details) = decimal 8" "status_meta (sample_busy details) = rs_trailer (sample_busy details)"
    "header_Get (str ''Grpc-Status-Details-Bin'') (rs_trailer (sample_busy details)) = details"
    "header_Get (str ''Grpc-Message'') (rs_trailer (sample_busy details)) = percent_encode (str ''50% full'')"
    "rs_readErr (sample_busy details) = None"
    by (auto simp: sample_busy_def status_text_def status_meta_def header_Get_def decimal_nonempty)
qed

theorem grpc_answer_classes_witness:
  "\<exists>e. grpc_attempt Inr False (\<lambda>_. None) (\<lambda>_. Inr (sample_busy [])) sample_grpc no_body = Inl e \<and>
     GRPCStatus e = 8 \<and> (Retryable e \<longleftrightarrow> 0 < retryAfter e)"
proof -
  have "ParseInt (decimal 8) = Some 8" using ParseInt_decimal [of 8] by simp
  with grpc_answer_classes [of "\<lambda>_. None" sample_grpc "\<lambda>_. Inr (sample_busy [])" no_body Inr False, OF refl]
  show ?thesis by (auto simp: sample_busy_status decimal_nonempty)
qed

text \<open>C38: the retry hint of a gRPC status. When the server percent-encodes its message and sends, as
  padded or unpadded base64, a \<^verbatim>\<open>google.rpc.Status\<close> whose details hold a RetryInfo among details of
  other types, the client reports that code, exactly that message and exactly that delay, and may
  retry RESOURCE_EXHAUSTED.\<close>

theorem grpc_retry_info:
  assumes "answered newreq send t p resp"
    and "status_text resp = decimal c" and "0 < c" and "c < 2 ^ 63"
    and "header_Get (str ''Grpc-Message'') (status_meta resp) = percent_encode msg"
    and raw: "raw = enc_msg (retry_status code text others secs nanos)"
    and det: "header_Get (str ''Grpc-Status-Details-Bin'') (status_meta resp) \<in> {base64 raw, raw_base64 raw}"
    and "d = sint secs * Second + sint nanos" and "0 < d" and "d < 2 ^ 63" and "\<bar>sint secs * Second\<bar> < 2 ^ 63"
    and "\<forall>f\<in>set (retry_status code text others secs nanos). field_ok f" and "\<forall>(u, v)\<in>set others. u \<noteq> retryInfoTypeURL"
  shows "\<exists>e. grpc_attempt unzip expired newreq send t p = Inl e \<and> GRPCStatus e = int c \<and> Message e = msg \<and>
    retryAfter e = d \<and> (Retryable e \<longleftrightarrow> c \<in> {1, 4, 8, 10, 11, 14, 15})"
proof -
  let ?det = "header_Get (str ''Grpc-Status-Details-Bin'') (status_meta resp)"
  have r: "retryDelayFromStatus raw = (d, True)" unfolding raw using assms(8-13) by (rule retry_delay_read)
  have dec: "decodeBinHeader ?det = Some raw" using det decodeBinHeader_encode [of raw] by auto
  have "decodeBinHeader [] = Some []" "retryDelayFromStatus [] = (0, False)"
    by (code_simp, simp add: retryDelayFromStatus_def forEachLenField.simps)
  then have "?det \<noteq> []" using dec r by auto
  then have sd: "status_delay resp = (d, True)" using dec r by (simp add: status_delay_def)
  have "(int c = 1) = (c = 1)" "(int c = 4) = (c = 4)" "(int c = 8) = (c = 8)" "(int c = 10) = (c = 10)" "(int c = 11) = (c = 11)"
    "(int c = 14) = (c = 14)" "(int c = 15) = (c = 15)" by presburger+
  then show ?thesis
    using assms(3) attempt_status [OF assms(1), of "int c" unzip expired]
    by (simp add: assms(2,5) decimal_nonempty ParseInt_decimal [OF assms(4)] sd percentDecode_encode retryable_codes no_export_error_def) blast
qed

theorem grpc_retry_info_witness:
  "\<exists>e. grpc_attempt Inr False (\<lambda>_. None)
      (\<lambda>_. Inr (sample_busy (raw_base64 (enc_msg (retry_status 8 [] [(str ''x'', [1])] 3 500))))) sample_grpc no_body = Inl e \<and>
    GRPCStatus e = 8 \<and> Message e = str ''50% full'' \<and> retryAfter e = 3 * Second + 500 \<and> Retryable e"
proof -
  let ?raw = "enc_msg (retry_status 8 [] [(str ''x'', [1])] 3 500)"
  let ?resp = "sample_busy (raw_base64 ?raw)"
  have a: "answered (\<lambda>_. None) (\<lambda>_. Inr ?resp) sample_grpc no_body ?resp" by (simp add: answered_def sample_busy_status)
  have d: "header_Get (str ''Grpc-Status-Details-Bin'') (status_meta ?resp) \<in> {base64 ?raw, raw_base64 ?raw}"
    by (simp add: sample_busy_status)
  have m: "header_Get (str ''Grpc-Message'') (status_meta ?resp) = percent_encode (str ''50% full'')" by (simp add: sample_busy_status)
  have l: "length ?raw < 1000" by code_simp
  have ok: "\<forall>f\<in>set (retry_status 8 [] [(str ''x'', [1])] 3 500). field_ok f"
  proof
    fix f assume f: "f \<in> set (retry_status 8 [] [(str ''x'', [1])] 3 500)"
    then have "field_num f < 16" by (auto simp: retry_status_def simp del: enc_msg_Cons)
    then show "field_ok f" using payload_less f l by (cases f) fastforce+
  qed
  have u: "\<forall>(u, v)\<in>set [(str ''x'', [1 :: byte])]. u \<noteq> retryInfoTypeURL" by code_simp
  have s: "(3 * Second + 500 :: int) = sint (3 :: u64) * Second + sint (500 :: u64)" "(0 :: int) < 3 * Second + 500"
    "3 * Second + 500 < 2 ^ 63" "\<bar>sint (3 :: u64) * Second\<bar> < 2 ^ 63" by (simp_all add: Second_def)
  show ?thesis
    using grpc_retry_info [OF a sample_busy_status(1) _ _ m refl d s ok u, of Inr False] by simp
qed

text \<open>
  A bracketed IPv6 host without a port is bracketed again: \<^verbatim>\<open>net.SplitHostPort\<close> fails on it and
  \<^verbatim>\<open>net.JoinHostPort\<close> brackets every host with a colon.
\<close>

lemma bracketed_endpoint:
  "resolveGRPCEndpoint parse (str ''[::1]'') False False = Inr (str ''https://[[::1]]:4317'', True)"
  "resolveGRPCEndpoint parse (str ''::1'') False False = Inr (str ''https://[::1]:4317'', True)"
  "resolveGRPCEndpoint parse (str ''[::1]:80'') False False = Inr (str ''https://[::1]:80'', True)"
  by code_simp+

end
