(* ===== verification/Otlp_Async.thy ===== *)
theory Otlp_Async
  imports Otlp_Writer Interleaving
begin

text \<open>
  \<^verbatim>\<open>otlp/writer.go\<close> with its goroutines interleaved: any number of callers of \<^verbatim>\<open>Write\<close> and
  \<^verbatim>\<open>Sync\<close>, the caller of \<^verbatim>\<open>Close\<close> that enters \<^verbatim>\<open>closeOnce\<close>, and the flush goroutine
  \<^verbatim>\<open>run\<close>. Every access to the admit lock, the closed flag, the queue and the counter is a step of
  its own; an export, which shares nothing with the other goroutines but the counter, the handler and
  the cancelled context, is the step \<^verbatim>\<open>Otlp_Writer.export\<close>. The error handler that the flush goroutine
  calls may itself call \<^verbatim>\<open>Close\<close> or \<^verbatim>\<open>Sync\<close>, as its documentation allows.
\<close>

section \<open>Program counters and state\<close>

datatype owpc =
    OIdle
  | OLock bytes
  | OHeld bytes
  | OSend bytes
  | OEvict bytes
  | OEvicted bytes
  | ORetry bytes
  | ODrop bool
  | OUnlock bool
  | ONotify

datatype ocpc = OcIdle | OcWant | OcLocked | OcCancel | OcWait | OcTeardown | OcFinished

text \<open>A caller of \<^verbatim>\<open>Sync\<close> carries the number of records accepted when it was called.\<close>

datatype ospc = OsIdle | OsReq nat | OsWait nat | OsReturned nat

text \<open>What the flush goroutine is doing: the loop itself, a Sync drain or the final drain, the last
  two with the deadline of their budget.\<close>

datatype ocont = KSel | KSync nat "int option" | KLast "int option"

datatype hcall = HNone | HClose | HSync

text \<open>
  The batch in hand, and for \<open>RAdd\<close> and \<open>RExport\<close> the record to be added next; \<open>RFinal\<close> is the
  last flush of a drain, after the queue was found empty when the given number of records had been
  accepted; \<open>RHold\<close> is a handler inside one of the writer's methods.
\<close>

datatype orpc =
    RSelect "bytes list"
  | RDrain "bytes list" ocont
  | RAdd "bytes list" bytes ocont
  | RExport "bytes list" "bytes option" ocont
  | RFinal "bytes list" ocont nat
  | RHold hcall orpc
  | RExit

text \<open>
  The last five fields are history: records that passed the closed check, records dropped by
  \<^verbatim>\<open>Write\<close>, records accepted by the queue in order, the number accepted when a finished drain
  last found the queue empty, and for each export what it met: its environment, whether it could
  retry, and the deadline of its drain. The counter itself is \<open>ow_dropped\<close> of the writer.
\<close>

record oastate =
  oa_w :: otlp_writer
  oa_cancelled :: bool
  oa_done :: bool
  oa_pcs :: "owpc list"
  oa_syncs :: "ospc list"
  oa_close :: ocpc
  oa_run :: orpc
  oa_offered :: nat
  oa_lost :: nat
  oa_in :: "bytes list"
  oa_clean :: nat
  oa_met :: "(export_env \<times> bool \<times> int option) list"

section \<open>Write\<close>

definition goto_o :: "nat \<Rightarrow> owpc \<Rightarrow> oastate \<Rightarrow> oastate" where
  "goto_o i pc s = s\<lparr>oa_pcs := (oa_pcs s)[i := pc]\<rparr>"

definition oa_count :: "oastate \<Rightarrow> oastate" where
  "oa_count s = s\<lparr>oa_w := add_dropped1 (oa_w s), oa_lost := oa_lost s + 1\<rparr>"

definition oa_accept :: "bytes chan \<Rightarrow> bytes \<Rightarrow> oastate \<Rightarrow> oastate" where
  "oa_accept q r s = s\<lparr>oa_w := (oa_w s)\<lparr>ow_queue := q\<rparr>, oa_in := oa_in s @ [r]\<rparr>"

definition one_fits :: "otlp_writer \<Rightarrow> bytes \<Rightarrow> bool" where
  "one_fits w r \<longleftrightarrow> int (sizeFor (ow_env w) (recordCost (length r))) \<le> ow_maxBytes w"

text \<open>The step of writer \<open>i\<close>, which starts a call of \<^verbatim>\<open>Write\<close> with \<open>p\<close> when idle.\<close>

definition owriter_act :: "nat \<Rightarrow> bytes \<Rightarrow> oastate \<Rightarrow> oastate option" where
  "owriter_act i p s =
     (if i < length (oa_pcs s) then
        (case oa_pcs s ! i of
           OIdle \<Rightarrow> Some (goto_o i (OLock p) s)
         | OLock r \<Rightarrow> if oa_close s = OcLocked then None else Some (goto_o i (OHeld r) s)
         | OHeld r \<Rightarrow>
             if ow_closed (oa_w s) then Some (goto_o i (OUnlock False) s)
             else Some (goto_o i (if one_fits (oa_w s) r then OSend r else ODrop True)
                    (s\<lparr>oa_offered := oa_offered s + 1\<rparr>))
         | OSend r \<Rightarrow>
             (case try_send (ow_queue (oa_w s)) r of
                Some q \<Rightarrow> Some (goto_o i (OUnlock False) (oa_accept q r s))
              | None \<Rightarrow> Some (goto_o i (if ow_dropPolicy (oa_w s) = DropOldest then OEvict r else ODrop False) s))
         | OEvict r \<Rightarrow>
             (case try_recv (ow_queue (oa_w s)) of
                Some (_, q) \<Rightarrow> Some (goto_o i (OEvicted r) (s\<lparr>oa_w := (oa_w s)\<lparr>ow_queue := q\<rparr>\<rparr>))
              | None \<Rightarrow> Some (goto_o i (ORetry r) s))
         | OEvicted r \<Rightarrow> Some (goto_o i (ORetry r) (oa_count s))
         | ORetry r \<Rightarrow>
             (case try_send (ow_queue (oa_w s)) r of
                Some q \<Rightarrow> Some (goto_o i (OUnlock False) (oa_accept q r s))
              | None \<Rightarrow> Some (goto_o i (ODrop False) s))
         | ODrop notify \<Rightarrow> Some (goto_o i (OUnlock notify) (oa_count s))
         | OUnlock notify \<Rightarrow> Some (goto_o i (if notify then ONotify else OIdle) s)
         | ONotify \<Rightarrow> Some (goto_o i OIdle (s\<lparr>oa_w := report record_too_big (oa_w s)\<rparr>)))
      else None)"

definition holds_admit :: "owpc \<Rightarrow> bool" where
  "holds_admit pc = (case pc of OIdle \<Rightarrow> False | OLock _ \<Rightarrow> False | ONotify \<Rightarrow> False | _ \<Rightarrow> True)"

section \<open>Close and Sync\<close>

definition oclose_act :: "oastate \<Rightarrow> oastate option" where
  "oclose_act s =
     (case oa_close s of
        OcIdle \<Rightarrow> Some (s\<lparr>oa_w := (oa_w s)\<lparr>ow_closed := True\<rparr>, oa_close := OcWant\<rparr>)
      | OcWant \<Rightarrow> if list_ex holds_admit (oa_pcs s) then None else Some (s\<lparr>oa_close := OcLocked\<rparr>)
      | OcLocked \<Rightarrow> Some (s\<lparr>oa_close := OcCancel\<rparr>)
      | OcCancel \<Rightarrow> Some (s\<lparr>oa_cancelled := True, oa_close := OcWait\<rparr>)
      | OcWait \<Rightarrow> if oa_done s then Some (s\<lparr>oa_close := OcTeardown\<rparr>) else None
      | OcTeardown \<Rightarrow> Some (s\<lparr>oa_close := OcFinished\<rparr>)
      | OcFinished \<Rightarrow> None)"

definition osync_act :: "nat \<Rightarrow> oastate \<Rightarrow> oastate option" where
  "osync_act j s =
     (if j < length (oa_syncs s) then
        (case oa_syncs s ! j of
           OsIdle \<Rightarrow>
             if ow_closed (oa_w s) then Some s
             else Some (s\<lparr>oa_syncs := (oa_syncs s)[j := OsReq (length (oa_in s))]\<rparr>)
         | OsReq _ \<Rightarrow> if oa_cancelled s then Some (s\<lparr>oa_syncs := (oa_syncs s)[j := OsIdle]\<rparr>) else None
         | OsWait _ \<Rightarrow> if oa_done s then Some (s\<lparr>oa_syncs := (oa_syncs s)[j := OsIdle]\<rparr>) else None
         | OsReturned _ \<Rightarrow> Some (s\<lparr>oa_syncs := (oa_syncs s)[j := OsIdle]\<rparr>))
      else None)"

section \<open>The flush goroutine\<close>

datatype rchoice = RcCancelled | RcReq nat | RcTick | RcRecord

definition allowRetry_of :: "ocont \<Rightarrow> bool" where
  "allowRetry_of k = (case k of KLast _ \<Rightarrow> False | _ \<Rightarrow> True)"

definition deadline_of :: "ocont \<Rightarrow> int option" where
  "deadline_of k = (case k of KSel \<Rightarrow> None | KSync _ dd \<Rightarrow> dd | KLast dd \<Rightarrow> dd)"

definition resume :: "bytes list \<Rightarrow> ocont \<Rightarrow> orpc" where
  "resume b k = (case k of KSel \<Rightarrow> RSelect b | _ \<Rightarrow> RDrain b k)"

definition added :: "otlp_writer \<Rightarrow> bytes list \<Rightarrow> ocont \<Rightarrow> orpc" where
  "added w b k =
     (if batch_full (ow_env w) (ow_maxBytes w) (ow_batchSize w) b then RExport b None k else resume b k)"

text \<open>
  After an export that reported something the handler may be inside \<^verbatim>\<open>Close\<close>, or inside
  \<^verbatim>\<open>Sync\<close> unless that returned at once. (The code calls the handler with the warning of
  \<^verbatim>\<open>prepare\<close> before the first attempt; here the whole export precedes the stay in the handler, as
  for the errors. The stay itself is the same: nothing of the flush goroutine runs during it.)
\<close>

definition hold :: "hcall \<Rightarrow> otlp_writer \<Rightarrow> otlp_writer \<Rightarrow> orpc \<Rightarrow> orpc" where
  "hold h w w' r =
     (if length (ow_events w') = length (ow_events w) then r
      else case h of HNone \<Rightarrow> r | HClose \<Rightarrow> RHold HClose r | HSync \<Rightarrow> if ow_closed w then r else RHold HSync r)"

definition oexport :: "export_env \<Rightarrow> hcall \<Rightarrow> bytes list \<Rightarrow> ocont \<Rightarrow> orpc \<Rightarrow> oastate \<Rightarrow> oastate option" where
  "oexport env h b k r s =
     (case export env b (allowRetry_of k) (deadline_of k) (oa_w s) of
        None \<Rightarrow> None
      | Some w' \<Rightarrow> Some (s\<lparr>oa_w := w', oa_run := hold h (oa_w s) w' r,
          oa_met := oa_met s @ [(env, allowRetry_of k, deadline_of k)]\<rparr>))"

definition finish_drain :: "ocont \<Rightarrow> nat \<Rightarrow> oastate \<Rightarrow> oastate" where
  "finish_drain k m s =
     (case k of
        KSync j _ \<Rightarrow> s\<lparr>oa_run := RSelect [], oa_clean := m,
          oa_syncs := (oa_syncs s)[j := (case oa_syncs s ! j of OsWait n \<Rightarrow> OsReturned n | pc \<Rightarrow> pc)]\<rparr>
      | _ \<Rightarrow> s\<lparr>oa_run := RExit, oa_done := True, oa_clean := m\<rparr>)"

definition orun_act :: "rchoice \<Rightarrow> export_env \<Rightarrow> int \<Rightarrow> hcall \<Rightarrow> oastate \<Rightarrow> oastate option" where
  "orun_act ch env now h s =
     (case oa_run s of
        RSelect b \<Rightarrow>
          (case ch of
             RcCancelled \<Rightarrow>
               if oa_cancelled s then Some (s\<lparr>oa_run := RDrain b (KLast (drainBudget now (oa_w s)))\<rparr>) else None
           | RcReq j \<Rightarrow>
               if j < length (oa_syncs s) then
                 (case oa_syncs s ! j of
                    OsReq n \<Rightarrow> Some (s\<lparr>oa_run := RDrain b (KSync j (drainBudget now (oa_w s))),
                                      oa_syncs := (oa_syncs s)[j := OsWait n]\<rparr>)
                  | _ \<Rightarrow> None)
               else None
           | RcTick \<Rightarrow> Some (if b = [] then s else s\<lparr>oa_run := RExport b None KSel\<rparr>)
           | RcRecord \<Rightarrow>
               (case try_recv (ow_queue (oa_w s)) of
                  Some (r, q) \<Rightarrow> Some (s\<lparr>oa_w := (oa_w s)\<lparr>ow_queue := q\<rparr>, oa_run := RAdd b r KSel\<rparr>)
                | None \<Rightarrow> None))
      | RDrain b k \<Rightarrow>
          (case try_recv (ow_queue (oa_w s)) of
             Some (r, q) \<Rightarrow> Some (s\<lparr>oa_w := (oa_w s)\<lparr>ow_queue := q\<rparr>, oa_run := RAdd b r k\<rparr>)
           | None \<Rightarrow> Some (s\<lparr>oa_run := RFinal b k (length (oa_in s))\<rparr>))
      | RAdd b r k \<Rightarrow>
          Some (s\<lparr>oa_run := (if over_limit (ow_env (oa_w s)) (ow_maxBytes (oa_w s)) b r then RExport b (Some r) k
                            else added (oa_w s) (b @ [r]) k)\<rparr>)
      | RExport b ro k \<Rightarrow>
          oexport env h b k (case ro of None \<Rightarrow> resume [] k | Some r \<Rightarrow> added (oa_w s) [r] k) s
      | RFinal b k m \<Rightarrow>
          if b = [] then Some (finish_drain k m s) else oexport env h b k (RFinal [] k m) s
      | RHold c r \<Rightarrow>
          if (if c = HClose then oa_close s = OcFinished else oa_cancelled s) then Some (s\<lparr>oa_run := r\<rparr>) else None
      | RExit \<Rightarrow> None)"

section \<open>Schedules\<close>

datatype oaction = OAWriter nat bytes | OAClose | OASync nat | OARun rchoice export_env int hcall

fun oact :: "oaction \<Rightarrow> oastate \<Rightarrow> oastate option" where
  "oact (OAWriter i p) s = owriter_act i p s"
| "oact OAClose s = oclose_act s"
| "oact (OASync j) s = osync_act j s"
| "oact (OARun ch env now h) s = orun_act ch env now h s"

text \<open>What a constructor starts, with \<open>n\<close> writers and \<open>m\<close> callers of Sync.\<close>

definition oasync_init :: "otlp_writer \<Rightarrow> nat \<Rightarrow> nat \<Rightarrow> oastate" where
  "oasync_init w n m =
     \<lparr>oa_w = w, oa_cancelled = False, oa_done = False, oa_pcs = replicate n OIdle, oa_syncs = replicate m OsIdle,
      oa_close = OcIdle, oa_run = RSelect [], oa_offered = 0, oa_lost = 0, oa_in = [], oa_clean = 0, oa_met = []\<rparr>"

section \<open>Invariants\<close>

definition osending :: "owpc \<Rightarrow> bool" where
  "osending pc = (case pc of OSend _ \<Rightarrow> True | OEvict _ \<Rightarrow> True | OEvicted _ \<Rightarrow> True | ORetry _ \<Rightarrow> True | _ \<Rightarrow> False)"

text \<open>Records a writer answers for: its own, and an evicted one not yet counted.\<close>

definition oweight :: "owpc \<Rightarrow> nat" where
  "oweight pc = (case pc of OSend _ \<Rightarrow> 1 | OEvict _ \<Rightarrow> 1 | OEvicted _ \<Rightarrow> 2 | ORetry _ \<Rightarrow> 1 | ODrop _ \<Rightarrow> 1 | _ \<Rightarrow> 0)"

definition ohand :: "oastate \<Rightarrow> nat" where
  "ohand s = sum_list (map oweight (oa_pcs s))"

fun ocarried :: "orpc \<Rightarrow> bytes list" where
  "ocarried (RSelect b) = b"
| "ocarried (RDrain b k) = b"
| "ocarried (RAdd b r k) = b @ [r]"
| "ocarried (RExport b ro k) = b @ (case ro of None \<Rightarrow> [] | Some r \<Rightarrow> [r])"
| "ocarried (RFinal b k m) = b"
| "ocarried (RHold h r) = ocarried r"
| "ocarried RExit = []"

definition last_drain :: "ocont \<Rightarrow> bool" where
  "last_drain k = (case k of KLast _ \<Rightarrow> True | _ \<Rightarrow> False)"

fun ofinal :: "orpc \<Rightarrow> bool" where
  "ofinal (RSelect b) \<longleftrightarrow> False"
| "ofinal (RDrain b k) \<longleftrightarrow> last_drain k"
| "ofinal (RAdd b r k) \<longleftrightarrow> last_drain k"
| "ofinal (RExport b ro k) \<longleftrightarrow> last_drain k"
| "ofinal (RFinal b k m) \<longleftrightarrow> last_drain k"
| "ofinal (RHold h r) \<longleftrightarrow> ofinal r"
| "ofinal RExit \<longleftrightarrow> True"

text \<open>The batch in hand stays within the limits.\<close>

definition small :: "otlp_writer \<Rightarrow> bytes list \<Rightarrow> bool" where
  "small w b \<longleftrightarrow> int (length b) < ow_batchSize w \<and> (b = [] \<or> int (sizeFor (ow_env w) (batchCost b)) \<le> ow_maxBytes w)"

fun run_ok :: "otlp_writer \<Rightarrow> orpc \<Rightarrow> bool" where
  "run_ok w (RSelect b) \<longleftrightarrow> small w b"
| "run_ok w (RDrain b k) \<longleftrightarrow> small w b \<and> k \<noteq> KSel"
| "run_ok w (RAdd b r k) \<longleftrightarrow> small w b \<and> one_fits w r"
| "run_ok w (RExport b ro k) \<longleftrightarrow> b \<noteq> [] \<and> fits w b \<and> (case ro of None \<Rightarrow> True | Some r \<Rightarrow> one_fits w r)"
| "run_ok w (RFinal b k m) \<longleftrightarrow> k \<noteq> KSel \<and> (b = [] \<or> fits w b)"
| "run_ok w (RHold h r) \<longleftrightarrow> run_ok w r \<and> r \<noteq> RExit \<and> (\<forall>h' r'. r \<noteq> RHold h' r')"
| "run_ok w RExit \<longleftrightarrow> True"

definition writer_ok :: "otlp_writer \<Rightarrow> owpc \<Rightarrow> bool" where
  "writer_ok w pc = (case pc of OSend r \<Rightarrow> one_fits w r | OEvict r \<Rightarrow> one_fits w r | OEvicted r \<Rightarrow> one_fits w r
     | ORetry r \<Rightarrow> one_fits w r | _ \<Rightarrow> True)"

definition oshape :: "oastate \<Rightarrow> bool" where
  "oshape s \<longleftrightarrow> 0 < ow_batchSize (oa_w s) \<and>
     length (buf (ow_queue (oa_w s))) \<le> cap (ow_queue (oa_w s)) \<and>
     (\<forall>r\<in>set (buf (ow_queue (oa_w s))). one_fits (oa_w s) r) \<and>
     (\<forall>i < length (oa_pcs s). writer_ok (oa_w s) (oa_pcs s ! i)) \<and>
     run_ok (oa_w s) (oa_run s) \<and> (\<forall>b\<in>set (ow_sent (oa_w s)). b \<noteq> [] \<and> fits (oa_w s) b)"

text \<open>The lifecycle: once Close has passed its barrier no writer is between the closed check and
  the end of its send; the final drain runs only then, and at its end the queue is empty.\<close>

fun drained :: "orpc \<Rightarrow> bool" where
  "drained (RFinal b k m) \<longleftrightarrow> last_drain k"
| "drained (RHold h r) \<longleftrightarrow> drained r"
| "drained RExit \<longleftrightarrow> True"
| "drained r \<longleftrightarrow> False"

definition ogate :: "oastate \<Rightarrow> bool" where
  "ogate s \<longleftrightarrow> (ow_closed (oa_w s) \<longleftrightarrow> oa_close s \<noteq> OcIdle) \<and>
     (oa_cancelled s \<longleftrightarrow> oa_close s \<in> {OcWait, OcTeardown, OcFinished}) \<and>
     (oa_close s \<notin> {OcIdle, OcWant} \<longrightarrow> (\<forall>i < length (oa_pcs s). \<not> osending (oa_pcs s ! i))) \<and>
     (oa_done s \<longleftrightarrow> oa_run s = RExit) \<and> (oa_close s \<in> {OcTeardown, OcFinished} \<longrightarrow> oa_done s) \<and>
     (ofinal (oa_run s) \<longrightarrow> oa_cancelled s) \<and> (drained (oa_run s) \<longrightarrow> buf (ow_queue (oa_w s)) = [])"

text \<open>Every record that passed the closed check is in exactly one place.\<close>

definition obalance :: "oastate \<Rightarrow> bool" where
  "obalance s \<longleftrightarrow> oa_offered s = oa_lost s + length (concat (ow_sent (oa_w s))) + ohand s +
     length (ocarried (oa_run s)) + length (buf (ow_queue (oa_w s)))"

text \<open>Order, and what a returned Sync means. While a drain makes its last flush, everything still
  queued was accepted after the queue was found empty.\<close>

definition osync_ok :: "nat \<Rightarrow> nat \<Rightarrow> ospc \<Rightarrow> bool" where
  "osync_ok accepted clean pc =
     (case pc of OsIdle \<Rightarrow> True | OsReq n \<Rightarrow> n \<le> accepted | OsWait n \<Rightarrow> n \<le> accepted | OsReturned n \<Rightarrow> n \<le> clean)"

definition waits_ok :: "ospc list \<Rightarrow> ocont \<Rightarrow> nat \<Rightarrow> bool" where
  "waits_ok pcs k m \<longleftrightarrow>
     (case k of KSync j _ \<Rightarrow> j < length pcs \<longrightarrow> (case pcs ! j of OsWait n \<Rightarrow> n \<le> m | _ \<Rightarrow> True) | _ \<Rightarrow> True)"

fun mark_ok :: "oastate \<Rightarrow> orpc \<Rightarrow> bool" where
  "mark_ok s (RFinal b k m) \<longleftrightarrow> oa_clean s \<le> m \<and> m \<le> length (oa_in s) \<and>
     subseq (buf (ow_queue (oa_w s))) (drop m (oa_in s)) \<and> waits_ok (oa_syncs s) k m"
| "mark_ok s (RHold h r) \<longleftrightarrow> mark_ok s r"
| "mark_ok s r \<longleftrightarrow> True"

definition oordered :: "oastate \<Rightarrow> bool" where
  "oordered s \<longleftrightarrow>
     subseq (concat (ow_sent (oa_w s)) @ ocarried (oa_run s) @ buf (ow_queue (oa_w s))) (oa_in s) \<and>
     oa_clean s \<le> length (oa_in s) \<and>
     subseq (ocarried (oa_run s) @ buf (ow_queue (oa_w s))) (drop (oa_clean s) (oa_in s)) \<and>
     (\<forall>j < length (oa_syncs s). osync_ok (length (oa_in s)) (oa_clean s) (oa_syncs s ! j)) \<and>
     mark_ok s (oa_run s)"

section \<open>Steps\<close>

lemma nth_goto_o [simp]: "j < length (oa_pcs s) \<Longrightarrow> oa_pcs (goto_o i pc s) ! j = (if j = i then pc else oa_pcs s ! j)"
  by (simp add: goto_o_def nth_list_update)

lemma goto_o_fields [simp]:
  "length (oa_pcs (goto_o i pc s)) = length (oa_pcs s)" "oa_w (goto_o i pc s) = oa_w s"
  "oa_cancelled (goto_o i pc s) = oa_cancelled s" "oa_done (goto_o i pc s) = oa_done s"
  "oa_syncs (goto_o i pc s) = oa_syncs s" "oa_close (goto_o i pc s) = oa_close s"
  "oa_run (goto_o i pc s) = oa_run s" "oa_offered (goto_o i pc s) = oa_offered s"
  "oa_lost (goto_o i pc s) = oa_lost s" "oa_in (goto_o i pc s) = oa_in s" "oa_clean (goto_o i pc s) = oa_clean s"
  "oa_met (goto_o i pc s) = oa_met s"
  by (simp_all add: goto_o_def)

lemma add_dropped1_fields [simp]:
  "fixed (add_dropped1 w) = fixed w" "ow_sent (add_dropped1 w) = ow_sent w" "ow_dropPolicy (add_dropped1 w) = ow_dropPolicy w"
  by (simp_all add: add_dropped1_def fixed_def)

lemma fixed_fields:
  assumes "fixed w' = fixed w"
  shows "ow_env w' = ow_env w" "ow_maxBytes w' = ow_maxBytes w" "ow_batchSize w' = ow_batchSize w"
    "ow_queue w' = ow_queue w" "ow_closed w' = ow_closed w" "ow_retry w' = ow_retry w"
    "small w' = small w" "fits w' = fits w" "one_fits w' = one_fits w" "run_ok w' = run_ok w" "writer_ok w' = writer_ok w"
proof -
  show f: "ow_env w' = ow_env w" "ow_maxBytes w' = ow_maxBytes w" "ow_batchSize w' = ow_batchSize w"
    "ow_queue w' = ow_queue w" "ow_closed w' = ow_closed w" "ow_retry w' = ow_retry w"
    using assms by (simp_all add: fixed_def)
  show g: "small w' = small w" "fits w' = fits w" "one_fits w' = one_fits w"
    by (simp_all add: fun_eq_iff small_def fits_def one_fits_def f)
  show "writer_ok w' = writer_ok w" by (simp add: fun_eq_iff writer_ok_def g split: owpc.split)
  have "run_ok w' r = run_ok w r" for r by (induction r) (simp_all add: g split: option.split)
  then show "run_ok w' = run_ok w" by blast
qed

lemma limits_queue [simp]:
  "small (w\<lparr>ow_queue := q\<rparr>) = small w" "fits (w\<lparr>ow_queue := q\<rparr>) = fits w" "one_fits (w\<lparr>ow_queue := q\<rparr>) = one_fits w"
  "run_ok (w\<lparr>ow_queue := q\<rparr>) = run_ok w" "writer_ok (w\<lparr>ow_queue := q\<rparr>) = writer_ok w"
  "small (w\<lparr>ow_closed := c\<rparr>) = small w" "fits (w\<lparr>ow_closed := c\<rparr>) = fits w" "one_fits (w\<lparr>ow_closed := c\<rparr>) = one_fits w"
  "run_ok (w\<lparr>ow_closed := c\<rparr>) = run_ok w" "writer_ok (w\<lparr>ow_closed := c\<rparr>) = writer_ok w"
proof -
  show g: "small (w\<lparr>ow_queue := q\<rparr>) = small w" "fits (w\<lparr>ow_queue := q\<rparr>) = fits w" "one_fits (w\<lparr>ow_queue := q\<rparr>) = one_fits w"
    "small (w\<lparr>ow_closed := c\<rparr>) = small w" "fits (w\<lparr>ow_closed := c\<rparr>) = fits w" "one_fits (w\<lparr>ow_closed := c\<rparr>) = one_fits w"
    by (simp_all add: fun_eq_iff small_def fits_def one_fits_def)
  show "writer_ok (w\<lparr>ow_queue := q\<rparr>) = writer_ok w" "writer_ok (w\<lparr>ow_closed := c\<rparr>) = writer_ok w"
    by (simp_all add: fun_eq_iff writer_ok_def g split: owpc.split)
  have "run_ok (w\<lparr>ow_queue := q\<rparr>) r = run_ok w r \<and> run_ok (w\<lparr>ow_closed := c\<rparr>) r = run_ok w r" for r
    by (induction r) (simp_all add: g split: option.split)
  then show "run_ok (w\<lparr>ow_queue := q\<rparr>) = run_ok w" "run_ok (w\<lparr>ow_closed := c\<rparr>) = run_ok w" by blast+
qed

lemma ohand_goto:
  "i < length (oa_pcs s) \<Longrightarrow> ohand (goto_o i pc s) + oweight (oa_pcs s ! i) = ohand s + oweight pc"
  unfolding ohand_def goto_o_def using sum_list_update [of i "oa_pcs s" oweight pc] by simp

text \<open>One case rule for a step of a writer: what it does to the shared state.\<close>

lemma owriter_act_cases [consumes 1, case_names move offer accept evict count notify]:
  assumes act: "owriter_act i p s = Some s'"
  obtains pc where "i < length (oa_pcs s)" "s' = goto_o i pc s" "oweight pc = oweight (oa_pcs s ! i)"
      "osending pc \<Longrightarrow> osending (oa_pcs s ! i)" "writer_ok (oa_w s) (oa_pcs s ! i) \<Longrightarrow> writer_ok (oa_w s) pc"
  | pc where "i < length (oa_pcs s)" "oweight (oa_pcs s ! i) = 0" "oweight pc = 1" "\<not> ow_closed (oa_w s)"
      "s' = goto_o i pc (s\<lparr>oa_offered := oa_offered s + 1\<rparr>)" "writer_ok (oa_w s) pc"
  | r q where "i < length (oa_pcs s)" "osending (oa_pcs s ! i)" "oweight (oa_pcs s ! i) = 1"
      "try_send (ow_queue (oa_w s)) r = Some q" "s' = goto_o i (OUnlock False) (oa_accept q r s)"
      "writer_ok (oa_w s) (oa_pcs s ! i) \<Longrightarrow> one_fits (oa_w s) r"
  | r y q where "i < length (oa_pcs s)" "oa_pcs s ! i = OEvict r" "try_recv (ow_queue (oa_w s)) = Some (y, q)"
      "s' = goto_o i (OEvicted r) (s\<lparr>oa_w := (oa_w s)\<lparr>ow_queue := q\<rparr>\<rparr>)"
  | pc where "i < length (oa_pcs s)" "oweight (oa_pcs s ! i) = oweight pc + 1"
      "osending pc \<Longrightarrow> osending (oa_pcs s ! i)" "s' = goto_o i pc (oa_count s)"
      "writer_ok (oa_w s) (oa_pcs s ! i) \<Longrightarrow> writer_ok (oa_w s) pc"
  | "i < length (oa_pcs s)" "oweight (oa_pcs s ! i) = 0" "s' = goto_o i OIdle (s\<lparr>oa_w := report record_too_big (oa_w s)\<rparr>)"
proof -
  have i: "i < length (oa_pcs s)" using act by (simp add: owriter_act_def split: if_splits)
  note defs = owriter_act_def oweight_def osending_def writer_ok_def
  show ?thesis
  proof (cases "oa_pcs s ! i")
    case OIdle
    with act i that(1) [of "OLock p"] show ?thesis by (auto simp: defs)
  next
    case (OLock r)
    with act i that(1) [of "OHeld r"] show ?thesis by (auto simp: defs split: if_splits)
  next
    case (OHeld r)
    with act i that(1) [of "OUnlock False"] that(2) [of "OSend r"] that(2) [of "ODrop True"] show ?thesis
      by (auto simp: defs split: if_splits)
  next
    case (OSend r)
    with act i that(1) [of "OEvict r"] that(1) [of "ODrop False"] that(3) show ?thesis
      by (auto simp: defs split: option.splits if_splits)
  next
    case (OEvict r)
    with act i that(1) [of "ORetry r"] that(4) show ?thesis by (auto simp: defs split: option.splits)
  next
    case (OEvicted r)
    with act i that(5) [of "ORetry r"] show ?thesis by (auto simp: defs)
  next
    case (ORetry r)
    with act i that(1) [of "ODrop False"] that(3) show ?thesis by (auto simp: defs split: option.splits)
  next
    case (ODrop n)
    with act i that(5) [of "OUnlock n"] show ?thesis by (auto simp: defs)
  next
    case (OUnlock n)
    with act i that(1) [of OIdle] that(1) [of ONotify] show ?thesis by (auto simp: defs split: if_splits)
  next
    case ONotify
    with act i that(6) show ?thesis by (auto simp: defs)
  qed
qed

text \<open>What an export step does: it hands on one batch and nothing else.\<close>

lemma oexport_step:
  assumes "oexport env h b k r s = Some s'" and "b \<noteq> []"
  obtains w' met where "fixed w' = fixed (oa_w s)" "ow_sent w' = ow_sent (oa_w s) @ [b]"
    "s' = s\<lparr>oa_w := w', oa_run := hold h (oa_w s) w' r, oa_met := oa_met s @ [met]\<rparr>"
  using assms export_fixed [of env b "allowRetry_of k" "deadline_of k" "oa_w s"]
  by (auto simp: oexport_def split: option.splits)

lemma hold_parts [simp]:
  "ocarried (hold h w w' r) = ocarried r" "ofinal (hold h w w' r) = ofinal r" "drained (hold h w w' r) = drained r"
  "r \<noteq> RExit \<Longrightarrow> hold h w w' r \<noteq> RExit" "mark_ok s (hold h w w' r) = mark_ok s r"
  by (auto simp: hold_def split: hcall.split)

lemma hold_ok: "run_ok v r \<Longrightarrow> r \<noteq> RExit \<Longrightarrow> (\<And>h' r'. r \<noteq> RHold h' r') \<Longrightarrow> run_ok v (hold h w w' r)"
  by (auto simp: hold_def split: hcall.split)

lemma resume_parts [simp]:
  "ocarried (resume b k) = b" "resume b k \<noteq> RExit" "resume b k \<noteq> RHold h r" "\<not> drained (resume b k)" "mark_ok s (resume b k)"
  "ofinal (resume b k) = last_drain k" "run_ok w (resume b k) = small w b"
  by (cases k; simp add: resume_def last_drain_def)+

lemma added_parts [simp]:
  "ocarried (added w b k) = b" "added w b k \<noteq> RExit" "added w b k \<noteq> RHold h r" "\<not> drained (added w b k)" "mark_ok s (added w b k)"
  "ofinal (added w b k) = last_drain k"
  by (simp_all add: added_def)

lemma added_ok: "b \<noteq> [] \<Longrightarrow> fits w b \<Longrightarrow> run_ok w (added w b k)"
  by (auto simp: added_def batch_full_def fits_def small_def length_assemble)

lemma small_fits: "small w b \<Longrightarrow> b \<noteq> [] \<Longrightarrow> fits w b"
  by (simp add: small_def fits_def length_assemble)

lemma one_fits_batch: "one_fits w r \<Longrightarrow> 0 < ow_batchSize w \<Longrightarrow> fits w [r]"
  by (simp add: one_fits_def fits_def length_assemble)

lemma fits_snoc:
  "small w b \<Longrightarrow> one_fits w r \<Longrightarrow> \<not> over_limit (ow_env w) (ow_maxBytes w) b r \<Longrightarrow> fits w (b @ [r])"
  by (cases "b = []") (auto simp: over_limit_def fits_def small_def one_fits_def length_assemble)

text \<open>One case rule for a step of the flush goroutine.\<close>

lemma orun_act_cases [consumes 1, case_names stay oncancel onreq ontick take empty cut add ship last_ship finish release]:
  assumes act: "orun_act ch env now h s = Some s'"
  obtains "oa_run s = RSelect []" "s' = s"
  | b dd where "oa_run s = RSelect b" "oa_cancelled s" "s' = s\<lparr>oa_run := RDrain b (KLast dd)\<rparr>"
  | b j n dd where "oa_run s = RSelect b" "j < length (oa_syncs s)" "oa_syncs s ! j = OsReq n"
      "s' = s\<lparr>oa_run := RDrain b (KSync j dd), oa_syncs := (oa_syncs s)[j := OsWait n]\<rparr>"
  | b where "oa_run s = RSelect b" "b \<noteq> []" "s' = s\<lparr>oa_run := RExport b None KSel\<rparr>"
  | b k r q where "oa_run s = RDrain b k \<or> (oa_run s = RSelect b \<and> k = KSel)" "try_recv (ow_queue (oa_w s)) = Some (r, q)"
      "s' = s\<lparr>oa_w := (oa_w s)\<lparr>ow_queue := q\<rparr>, oa_run := RAdd b r k\<rparr>"
  | b k where "oa_run s = RDrain b k" "buf (ow_queue (oa_w s)) = []" "s' = s\<lparr>oa_run := RFinal b k (length (oa_in s))\<rparr>"
  | b r k where "oa_run s = RAdd b r k" "over_limit (ow_env (oa_w s)) (ow_maxBytes (oa_w s)) b r"
      "s' = s\<lparr>oa_run := RExport b (Some r) k\<rparr>"
  | b r k where "oa_run s = RAdd b r k" "\<not> over_limit (ow_env (oa_w s)) (ow_maxBytes (oa_w s)) b r"
      "s' = s\<lparr>oa_run := added (oa_w s) (b @ [r]) k\<rparr>"
  | b ro k where "oa_run s = RExport b ro k"
      "oexport env h b k (case ro of None \<Rightarrow> resume [] k | Some r \<Rightarrow> added (oa_w s) [r] k) s = Some s'"
  | b k m where "oa_run s = RFinal b k m" "b \<noteq> []" "oexport env h b k (RFinal [] k m) s = Some s'"
  | k m where "oa_run s = RFinal [] k m" "s' = finish_drain k m s"
  | c r where "oa_run s = RHold c r" "if c = HClose then oa_close s = OcFinished else oa_cancelled s"
      "s' = s\<lparr>oa_run := r\<rparr>"
proof (cases "oa_run s")
  case (RSelect b)
  show ?thesis
  proof (cases ch)
    case RcCancelled
    with act RSelect that(2) show ?thesis by (auto simp: orun_act_def split: if_splits)
  next
    case (RcReq j)
    with act RSelect that(3) show ?thesis by (auto simp: orun_act_def split: if_splits ospc.splits)
  next
    case RcTick
    with act RSelect that(1,4) show ?thesis by (auto simp: orun_act_def split: if_splits)
  next
    case RcRecord
    with act RSelect that(5) [of b KSel] show ?thesis by (auto simp: orun_act_def split: option.splits)
  qed
next
  case (RDrain b k)
  with act that(5) [of b k] that(6) [of b k] show ?thesis
    using gochan.recv_None [of "ow_queue (oa_w s)"] by (auto simp: orun_act_def split: option.splits)
next
  case (RAdd b r k)
  with act that(7,8) show ?thesis by (auto simp: orun_act_def split: if_splits)
next
  case (RExport b ro k)
  with act that(9) show ?thesis by (auto simp: orun_act_def)
next
  case (RFinal b k m)
  with act that(10,11) show ?thesis by (auto simp: orun_act_def split: if_splits)
next
  case (RHold c r)
  with act that(12) show ?thesis by (auto simp: orun_act_def split: if_splits)
next
  case RExit
  with act show ?thesis by (simp add: orun_act_def)
qed

lemmas counted_fields = fixed_fields [OF add_dropped1_fields(1)] fixed_fields [OF effects_fixed(1)]

lemma oshape_writer:
  assumes "owriter_act i p s = Some s'" and sh: "oshape s"
  shows "oshape s'"
  using assms(1)
proof (cases rule: owriter_act_cases)
  case (accept r q)
  with sh gochan.send_Some [of "ow_queue (oa_w s)" r q] show ?thesis
    by (auto simp: oshape_def oa_accept_def writer_ok_def)
next
  case (evict r y q)
  then have "writer_ok (oa_w s) (OEvicted r)" using sh by (auto simp: oshape_def writer_ok_def dest!: spec)
  with sh evict show ?thesis by (auto simp: oshape_def try_recv_buf)
next
  case (count pc)
  with sh show ?thesis by (auto simp: oshape_def oa_count_def counted_fields)
next
  case notify
  with sh show ?thesis by (auto simp: oshape_def counted_fields writer_ok_def)
qed (use sh in \<open>auto simp: oshape_def\<close>)

lemma oshape_close: "oclose_act s = Some s' \<Longrightarrow> oshape s \<Longrightarrow> oshape s'"
  by (cases "oa_close s") (auto simp: oclose_act_def oshape_def split: if_splits)

lemma osync_act_eq:
  assumes "osync_act j s = Some s'"
  shows "\<exists>pc. s' = s\<lparr>oa_syncs := (oa_syncs s)[j := pc]\<rparr> \<and>
    (pc = oa_syncs s ! j \<or> pc = OsIdle \<or> pc = OsReq (length (oa_in s)))"
proof -
  have "s = s\<lparr>oa_syncs := (oa_syncs s)[j := oa_syncs s ! j]\<rparr>" by simp
  with assms show ?thesis by (cases "oa_syncs s ! j") (auto simp: osync_act_def split: if_splits)
qed

lemma oshape_sync: "osync_act j s = Some s' \<Longrightarrow> oshape s \<Longrightarrow> oshape s'"
  by (drule osync_act_eq) (elim exE conjE, simp add: oshape_def)

lemma oshape_export:
  assumes "oexport env h b k r s = Some s'" and "b \<noteq> []" and "oshape s" and "fits (oa_w s) b"
    and "run_ok (oa_w s) r" and "r \<noteq> RExit" and "\<And>h' r'. r \<noteq> RHold h' r'"
  shows "oshape s'"
proof -
  obtain w' met where w': "fixed w' = fixed (oa_w s)" "ow_sent w' = ow_sent (oa_w s) @ [b]"
    "s' = s\<lparr>oa_w := w', oa_run := hold h (oa_w s) w' r, oa_met := oa_met s @ [met]\<rparr>" using oexport_step [OF assms(1,2)] .
  note ff = fixed_fields [OF w'(1)]
  have "run_ok w' (hold h (oa_w s) w' r)" using assms(5-7) by (intro hold_ok) (simp_all add: ff)
  then show ?thesis using assms(2-4) w' by (auto simp: oshape_def ff)
qed

lemma oshape_run:
  assumes "orun_act ch env now h s = Some s'" and sh: "oshape s"
  shows "oshape s'"
  using assms(1)
proof (cases rule: orun_act_cases)
  case (take b k r q)
  then have "small (oa_w s) b \<and> one_fits (oa_w s) r" using sh by (auto simp: oshape_def try_recv_buf)
  with take sh show ?thesis by (auto simp: oshape_def try_recv_buf)
next
  case (cut b r k)
  then have "b \<noteq> []" by (simp add: over_limit_def)
  with cut sh small_fits show ?thesis by (auto simp: oshape_def)
next
  case (add b r k)
  with sh fits_snoc [of "oa_w s" b r] show ?thesis by (auto simp: oshape_def intro: added_ok)
next
  case (ship b ro k)
  from sh ship(1) have b: "b \<noteq> []" "fits (oa_w s) b" "\<And>r. ro = Some r \<Longrightarrow> one_fits (oa_w s) r" "0 < ow_batchSize (oa_w s)"
    by (auto simp: oshape_def)
  have "run_ok (oa_w s) (case ro of None \<Rightarrow> resume [] k | Some r \<Rightarrow> added (oa_w s) [r] k)"
    using b(3,4) one_fits_batch by (auto simp: small_def intro!: added_ok split: option.split)
  from oshape_export [OF ship(2) b(1) sh b(2) this] show ?thesis by (auto split: option.split)
next
  case (last_ship b k m)
  then have "fits (oa_w s) b" "k \<noteq> KSel" using sh by (auto simp: oshape_def)
  then show ?thesis using oshape_export [OF last_ship(3,2) sh] by simp
next
  case (finish k m)
  with sh show ?thesis by (auto simp: oshape_def finish_drain_def small_def split: ocont.split)
qed (use sh small_fits in \<open>auto simp: oshape_def\<close>)

lemma ogate_writer:
  assumes "owriter_act i p s = Some s'" and g: "ogate s"
  shows "ogate s'"
proof -
  have c: "oa_close s \<in> {OcIdle, OcWant}" if "i < length (oa_pcs s)" "osending (oa_pcs s ! i)"
    using g that by (auto simp: ogate_def)
  have nd: "\<not> drained (oa_run s)" if "oa_close s \<in> {OcIdle, OcWant}"
  proof -
    have "drained r \<Longrightarrow> ofinal r" for r by (induction r) auto
    then show ?thesis using g that by (auto simp: ogate_def)
  qed
  note g' = g [unfolded ogate_def]
  show ?thesis
    using assms(1)
  proof (cases rule: owriter_act_cases)
    case (accept r q)
    with g c nd show ?thesis by (auto simp: ogate_def oa_accept_def osending_def)
  next
    case (evict r y q)
    have "osending (oa_pcs s ! i)" using evict(2) by (simp add: osending_def)
    with evict g c nd show ?thesis by (auto simp: ogate_def)
  next
    case (offer pc)
    then show ?thesis using g by (auto simp: ogate_def)
  next
    case (count pc)
    then show ?thesis using g by (auto simp: ogate_def oa_count_def counted_fields)
  next
    case notify
    then show ?thesis using g by (auto simp: ogate_def counted_fields osending_def)
  qed (use g in \<open>auto simp: ogate_def\<close>)
qed

lemma holds_admit_sending: "osending pc \<Longrightarrow> holds_admit pc"
  by (cases pc) (auto simp: osending_def holds_admit_def)

lemma ogate_close: "oclose_act s = Some s' \<Longrightarrow> ogate s \<Longrightarrow> ogate s'"
  by (cases "oa_close s")
    (auto simp: oclose_act_def ogate_def list_ex_iff dest: holds_admit_sending nth_mem split: if_splits)

lemma ogate_sync: "osync_act j s = Some s' \<Longrightarrow> ogate s \<Longrightarrow> ogate s'"
  by (drule osync_act_eq) (elim exE conjE, auto simp: ogate_def)

lemma ogate_export:
  assumes "oexport env h b k r s = Some s'" and "b \<noteq> []" and g: "ogate s" and "r \<noteq> RExit" and "oa_run s \<noteq> RExit"
    and "ofinal r \<longrightarrow> ofinal (oa_run s)" and "drained r \<longrightarrow> drained (oa_run s)"
  shows "ogate s'"
proof -
  obtain w' met where w': "fixed w' = fixed (oa_w s)"
    "s' = s\<lparr>oa_w := w', oa_run := hold h (oa_w s) w' r, oa_met := oa_met s @ [met]\<rparr>"
    using oexport_step [OF assms(1,2)] by metis
  then show ?thesis using assms(3-) by (auto simp: ogate_def fixed_fields [OF w'(1)])
qed

lemma ogate_run:
  assumes "orun_act ch env now h s = Some s'" and sh: "oshape s" and g: "ogate s"
  shows "ogate s'"
  using assms(1)
proof (cases rule: orun_act_cases)
  case (ship b ro k)
  then have "b \<noteq> []" using sh by (auto simp: oshape_def)
  with ship g show ?thesis by (intro ogate_export [OF ship(2)]) (auto split: option.split)
next
  case (last_ship b k m)
  with g show ?thesis by (intro ogate_export [OF last_ship(3)]) auto
next
  case (finish k m)
  moreover have "k \<noteq> KSel" using finish sh by (simp add: oshape_def)
  ultimately show ?thesis using g by (cases k) (auto simp: ogate_def finish_drain_def last_drain_def)
next
  case (release c r)
  moreover have "r \<noteq> RExit" using release sh by (simp add: oshape_def)
  ultimately show ?thesis using g by (auto simp: ogate_def)
next
  case (take b k r q)
  with g show ?thesis by (auto simp: ogate_def last_drain_def try_recv_buf)
qed (use g in \<open>auto simp: ogate_def last_drain_def\<close>)

lemma ohand_pcs: "oa_pcs s' = oa_pcs s \<Longrightarrow> ohand s' = ohand s"
  by (simp add: ohand_def)

lemma obalance_move:
  assumes "obalance s" and "i < length (oa_pcs s)" and "oa_pcs s1 = oa_pcs s"
    and "oa_offered s1 + oweight (oa_pcs s ! i) + lost =
      oa_offered s + oweight pc + length (buf (ow_queue (oa_w s1))) + (oa_lost s1 - oa_lost s)"
    and "ow_sent (oa_w s1) = ow_sent (oa_w s)" and "oa_run s1 = oa_run s" and "oa_lost s \<le> oa_lost s1"
    and "lost = length (buf (ow_queue (oa_w s)))"
  shows "obalance (goto_o i pc s1)"
  using ohand_goto [of i s1 pc] ohand_pcs [OF assms(3)] assms by (simp add: obalance_def)

lemma obalance_writer:
  assumes "owriter_act i p s = Some s'" and b: "obalance s"
  shows "obalance s'"
  using assms(1)
proof (cases rule: owriter_act_cases)
  case (move pc)
  with obalance_move [OF b, of i s _ pc] show ?thesis by simp
next
  case (offer pc)
  with obalance_move [OF b, of i "s\<lparr>oa_offered := oa_offered s + 1\<rparr>" _ pc] show ?thesis by simp
next
  case (accept r q)
  then have "buf q = buf (ow_queue (oa_w s)) @ [r]" using gochan.send_Some by metis
  with accept obalance_move [OF b, of i "oa_accept q r s" _ "OUnlock False"] show ?thesis
    by (simp add: oa_accept_def oweight_def)
next
  case (evict r y q)
  with obalance_move [OF b, of i "s\<lparr>oa_w := (oa_w s)\<lparr>ow_queue := q\<rparr>\<rparr>" _ "OEvicted r"] show ?thesis
    by (simp add: oweight_def try_recv_buf)
next
  case (count pc)
  with obalance_move [OF b, of i "oa_count s" _ pc] show ?thesis by (simp add: oa_count_def counted_fields)
next
  case notify
  with obalance_move [OF b, of i "s\<lparr>oa_w := report record_too_big (oa_w s)\<rparr>" _ OIdle] show ?thesis
    by (simp add: oweight_def counted_fields)
qed

lemma obalance_close: "oclose_act s = Some s' \<Longrightarrow> obalance s \<Longrightarrow> obalance s'"
  by (cases "oa_close s") (auto simp: oclose_act_def obalance_def ohand_def split: if_splits)

lemma obalance_sync: "osync_act j s = Some s' \<Longrightarrow> obalance s \<Longrightarrow> obalance s'"
  by (drule osync_act_eq) (elim exE conjE, simp add: obalance_def ohand_def)

lemma obalance_export:
  assumes "oexport env h b k r s = Some s'" and "b \<noteq> []" and "obalance s"
    and "length (ocarried (oa_run s)) = length b + length (ocarried r)"
  shows "obalance s'"
proof -
  obtain w' met where w': "fixed w' = fixed (oa_w s)" "ow_sent w' = ow_sent (oa_w s) @ [b]"
    "s' = s\<lparr>oa_w := w', oa_run := hold h (oa_w s) w' r, oa_met := oa_met s @ [met]\<rparr>" using oexport_step [OF assms(1,2)] .
  then show ?thesis using assms(3,4) by (simp add: obalance_def ohand_def fixed_fields [OF w'(1)])
qed

lemma obalance_run:
  assumes "orun_act ch env now h s = Some s'" and sh: "oshape s" and b: "obalance s"
  shows "obalance s'"
  using assms(1)
proof (cases rule: orun_act_cases)
  case (ship c ro k)
  then have "c \<noteq> []" using sh by (auto simp: oshape_def)
  with ship b show ?thesis by (intro obalance_export [OF ship(2)]) (auto split: option.split)
next
  case (last_ship c k m)
  with b show ?thesis by (intro obalance_export [OF last_ship(3)]) auto
next
  case (finish k m)
  with b show ?thesis by (auto simp: obalance_def ohand_def finish_drain_def split: ocont.split)
qed (use b in \<open>auto simp: obalance_def ohand_def try_recv_buf\<close>)

lemma osync_later: "osync_ok n c pc \<Longrightarrow> n \<le> n' \<Longrightarrow> c \<le> c' \<Longrightarrow> osync_ok n' c' pc"
  by (auto simp: osync_ok_def split: ospc.splits)

lemma mark_ok_cong:
  "oa_clean s' = oa_clean s \<Longrightarrow> oa_in s' = oa_in s \<Longrightarrow> buf (ow_queue (oa_w s')) = buf (ow_queue (oa_w s)) \<Longrightarrow>
   oa_syncs s' = oa_syncs s \<Longrightarrow> mark_ok s' r = mark_ok s r"
  by (induction r) simp_all

lemma mark_ok_accept:
  assumes "mark_ok s r" and "buf (ow_queue (oa_w s')) = buf (ow_queue (oa_w s)) @ [x]" and "oa_in s' = oa_in s @ [x]"
    and "oa_clean s' = oa_clean s" and "oa_syncs s' = oa_syncs s"
  shows "mark_ok s' r"
  using assms(1)
proof (induction r)
  case (RFinal b k m)
  then show ?case using assms(2-) subseq_snoc [of "buf (ow_queue (oa_w s))" "drop m (oa_in s)" x] by simp
qed simp_all

lemma mark_ok_evict:
  assumes "mark_ok s r" and "buf (ow_queue (oa_w s)) = x # buf (ow_queue (oa_w s'))" and "oa_in s' = oa_in s"
    and "oa_clean s' = oa_clean s" and "oa_syncs s' = oa_syncs s"
  shows "mark_ok s' r"
  using assms(1)
proof (induction r)
  case (RFinal b k m)
  then show ?case using assms(2-) subseq_Cons' [of x "buf (ow_queue (oa_w s'))" "drop m (oa_in s)"] by simp
qed simp_all

lemma mark_ok_sync:
  assumes "mark_ok s r" and "s' = s\<lparr>oa_syncs := (oa_syncs s)[j := pc]\<rparr>" and "\<And>n. pc = OsWait n \<Longrightarrow> oa_syncs s ! j = OsWait n"
  shows "mark_ok s' r"
  using assms(1)
proof (induction r)
  case (RFinal b k m)
  then have "waits_ok (oa_syncs s) k m" by simp
  then have "waits_ok ((oa_syncs s)[j := pc]) k m"
    using assms(3) by (auto simp: waits_ok_def nth_update_any split: ocont.splits ospc.splits if_splits)
  then show ?case using RFinal assms(2) by simp
qed (use assms(2) in simp_all)

lemma oordered_writer:
  assumes "owriter_act i p s = Some s'" and o: "oordered s"
  shows "oordered s'"
  using assms(1)
proof (cases rule: owriter_act_cases)
  case (accept r q)
  then have q: "buf q = buf (ow_queue (oa_w s)) @ [r]" using gochan.send_Some by metis
  have "mark_ok s' (oa_run s)" using o accept(5) q
    by (intro mark_ok_accept [of s "oa_run s" s' r]) (simp_all add: oordered_def oa_accept_def)
  moreover have "osync_ok (Suc (length (oa_in s))) (oa_clean s) pc" if "osync_ok (length (oa_in s)) (oa_clean s) pc" for pc
    using osync_later [OF that] by simp
  ultimately show ?thesis using o accept(5) q
    subseq_snoc [of "concat (ow_sent (oa_w s)) @ ocarried (oa_run s) @ buf (ow_queue (oa_w s))" "oa_in s" r]
      subseq_snoc [of "ocarried (oa_run s) @ buf (ow_queue (oa_w s))" "drop (oa_clean s) (oa_in s)" r]
    by (simp add: oordered_def oa_accept_def)
next
  case (evict r y q)
  then have q: "buf (ow_queue (oa_w s)) = y # buf q" using gochan.recv_Some by metis
  have "mark_ok s' (oa_run s)" using o evict(4) q
    by (intro mark_ok_evict [of s "oa_run s" y s']) (simp_all add: oordered_def)
  with o evict q show ?thesis
    using subseq_evict2 [of "concat (ow_sent (oa_w s))" "ocarried (oa_run s)" y "buf q"]
      subseq_evict [of "ocarried (oa_run s)" y "buf q"]
    by (simp add: oordered_def)
next
  case (move pc)
  then have "mark_ok s' (oa_run s) = mark_ok s (oa_run s)" by (intro mark_ok_cong) simp_all
  with o move show ?thesis by (simp add: oordered_def)
next
  case (offer pc)
  then have "mark_ok s' (oa_run s) = mark_ok s (oa_run s)" by (intro mark_ok_cong) simp_all
  with o offer show ?thesis by (simp add: oordered_def)
next
  case (count pc)
  then have "mark_ok s' (oa_run s) = mark_ok s (oa_run s)" by (intro mark_ok_cong) (simp_all add: oa_count_def counted_fields)
  with o count show ?thesis by (simp add: oordered_def oa_count_def counted_fields)
next
  case notify
  then have "mark_ok s' (oa_run s) = mark_ok s (oa_run s)" by (intro mark_ok_cong) (simp_all add: counted_fields)
  with o notify show ?thesis by (simp add: oordered_def counted_fields)
qed

lemma oordered_close:
  assumes "oclose_act s = Some s'" and "oordered s"
  shows "oordered s'"
proof -
  have "mark_ok s' r = mark_ok s r" for r
    using assms(1) by (intro mark_ok_cong; cases "oa_close s") (auto simp: oclose_act_def split: if_splits)
  then show ?thesis
    using assms by (cases "oa_close s") (auto simp: oclose_act_def oordered_def split: if_splits)
qed

lemma oordered_sync:
  assumes "osync_act j s = Some s'" and o: "oordered s"
  shows "oordered s'"
proof -
  obtain pc where s': "s' = s\<lparr>oa_syncs := (oa_syncs s)[j := pc]\<rparr>"
    and pc: "pc = oa_syncs s ! j \<or> pc = OsIdle \<or> pc = OsReq (length (oa_in s))"
    using osync_act_eq [OF assms(1)] by blast
  have "mark_ok s' (oa_run s)" using o s' pc by (intro mark_ok_sync [of s "oa_run s" s' j pc]) (auto simp: oordered_def)
  moreover have "j < length (oa_syncs s) \<Longrightarrow> osync_ok (length (oa_in s)) (oa_clean s) pc"
    using pc o by (auto simp: oordered_def osync_ok_def)
  ultimately show ?thesis using o by (auto simp: oordered_def s' nth_update_any)
qed

lemma oordered_export:
  assumes "oexport env h b k r s = Some s'" and "b \<noteq> []" and o: "oordered s"
    and "ocarried (oa_run s) = b @ ocarried r" and "mark_ok s r"
  shows "oordered s'"
proof -
  obtain w' met where w': "fixed w' = fixed (oa_w s)" "ow_sent w' = ow_sent (oa_w s) @ [b]"
    "s' = s\<lparr>oa_w := w', oa_run := hold h (oa_w s) w' r, oa_met := oa_met s @ [met]\<rparr>" using oexport_step [OF assms(1,2)] .
  have q: "ow_queue w' = ow_queue (oa_w s)" by (rule fixed_fields [OF w'(1)])
  have "mark_ok s' r = mark_ok s r" using w'(3) q by (intro mark_ok_cong) simp_all
  then show ?thesis
    using o assms(4,5) w' q subseq_flushed [of b "ocarried r @ buf (ow_queue (oa_w s))" "drop (oa_clean s) (oa_in s)"]
    by (simp add: oordered_def)
qed

lemma oordered_run:
  assumes "orun_act ch env now h s = Some s'" and sh: "oshape s" and o: "oordered s"
  shows "oordered s'"
  using assms(1)
proof (cases rule: orun_act_cases)
  case (ship b ro k)
  then have "b \<noteq> []" using sh by (auto simp: oshape_def)
  with ship o show ?thesis by (intro oordered_export [OF ship(2)]) (auto split: option.split)
next
  case (last_ship b k m)
  with o show ?thesis by (intro oordered_export [OF last_ship(3)]) (auto simp: oordered_def)
next
  case (onreq b j n dd)
  then have "osync_ok (length (oa_in s)) (oa_clean s) (OsReq n)" using o by (auto simp: oordered_def)
  then have "osync_ok (length (oa_in s)) (oa_clean s) (OsWait n)" by (simp add: osync_ok_def)
  with onreq o show ?thesis by (simp add: oordered_def nth_update_any)
next
  case (empty b k)
  have "waits_ok (oa_syncs s) k (length (oa_in s))"
  proof -
    have "n \<le> length (oa_in s)" if "j < length (oa_syncs s)" "oa_syncs s ! j = OsWait n" for j n
      using o that by (fastforce simp: oordered_def osync_ok_def)
    then show ?thesis by (auto simp: waits_ok_def split: ocont.split ospc.split)
  qed
  with empty o show ?thesis by (simp add: oordered_def)
next
  case (finish k m)
  from o finish(1) have m: "oa_clean s \<le> m" "m \<le> length (oa_in s)" "subseq (buf (ow_queue (oa_w s))) (drop m (oa_in s))"
    "waits_ok (oa_syncs s) k m" by (simp_all add: oordered_def)
  have up: "osync_ok (length (oa_in s)) m pc" if "osync_ok (length (oa_in s)) (oa_clean s) pc" for pc
    using osync_later [OF that _ m(1)] by simp
  have base: "subseq (concat (ow_sent (oa_w s)) @ buf (ow_queue (oa_w s))) (oa_in s)"
    "\<forall>j < length (oa_syncs s). osync_ok (length (oa_in s)) (oa_clean s) (oa_syncs s ! j)"
    using o finish(1) by (simp_all add: oordered_def)
  have ret: "osync_ok (length (oa_in s)) m (case pc of OsWait n \<Rightarrow> OsReturned n | pc \<Rightarrow> pc)"
    if "j < length (oa_syncs s)" "k = KSync j dd" "pc = oa_syncs s ! j" for j dd pc
  proof (cases pc)
    case (OsWait n)
    then have "oa_syncs s ! j = OsWait n" using that(3) by simp
    with that m(4) show ?thesis by (simp add: waits_ok_def osync_ok_def)
  qed (use up [OF base(2) [rule_format, OF that(1)]] that in simp_all)
  show ?thesis
  proof (cases k)
    case (KSync j dd)
    then show ?thesis using finish(2) base m(2,3) up ret [OF _ KSync refl]
      by (simp add: oordered_def finish_drain_def nth_update_any)
  qed (use finish(2) base m(2,3) up in \<open>simp_all add: oordered_def finish_drain_def\<close>)
next
  case (take b k r q)
  have "mark_ok s' (RAdd b r k)" by simp
  with take o show ?thesis by (auto simp: oordered_def try_recv_buf)
next
  case (release c r)
  then have "mark_ok s' r = mark_ok s r" by (intro mark_ok_cong) simp_all
  with release o show ?thesis by (simp add: oordered_def)
qed (use o in \<open>auto simp: oordered_def\<close>)

definition oasync_inv :: "oastate \<Rightarrow> bool" where
  "oasync_inv s \<longleftrightarrow> oshape s \<and> ogate s \<and> obalance s \<and> oordered s"

lemma oasync_inv_act: "oasync_inv s \<Longrightarrow> oact a s = Some s' \<Longrightarrow> oasync_inv s'"
  unfolding oasync_inv_def
  by (cases a) (auto intro: oshape_writer oshape_close oshape_sync oshape_run ogate_writer ogate_close ogate_sync
      ogate_run obalance_writer obalance_close obalance_sync obalance_run oordered_writer oordered_close
      oordered_sync oordered_run)

interpretation oasync: step_invariant oact oasync_inv
  by unfold_locales (rule oasync_inv_act)

lemma oasync_inv_init: "otlp_wf o1 \<Longrightarrow> oasync_inv (oasync_init (newWriterCore prep env o1) n m)"
  by (auto simp: oasync_inv_def oasync_init_def newWriterCore_def otlp_wf_def oshape_def small_def writer_ok_def
      ogate_def osending_def obalance_def ohand_def oweight_def sum_list_replicate oordered_def osync_ok_def)

lemma oasync_inv_reachable:
  "otlp_wf o1 \<Longrightarrow> reachable oact (oasync_init (newWriterCore prep env o1) n m) s \<Longrightarrow> oasync_inv s"
  by (rule oasync.reachable_inv [OF _ oasync_inv_init])

section \<open>What the exports came to\<close>

text \<open>
  The outcomes of the exports made, one for each batch: its attempts, and the records it lost. The
  posts and the drop counter are those of the outcomes, and of the drops of \<^verbatim>\<open>Write\<close>.
\<close>

definition settled :: "(bytes \<Rightarrow> prepared) \<Rightarrow> envelope \<Rightarrow> (export_env \<times> bool \<times> int option) list \<Rightarrow>
    bytes list list \<Rightarrow> (nat \<times> int) list \<Rightarrow> bool" where
  "settled prep ev mets sent outs \<longleftrightarrow> length mets = length sent \<and>
     list_all2 (\<lambda>(met, rs). export_result prep ev met rs) (zip mets sent) outs"

definition posts_of :: "(bytes \<Rightarrow> prepared) \<Rightarrow> envelope \<Rightarrow> bytes list list \<Rightarrow> (nat \<times> int) list \<Rightarrow> prepared list" where
  "posts_of prep ev sent outs = concat (map2 (\<lambda>rs out. replicate (fst out) (prep (assemble ev [] rs))) sent outs)"

definition metered :: "(bytes \<Rightarrow> prepared) \<Rightarrow> envelope \<Rightarrow> int \<Rightarrow> oastate \<Rightarrow> bool" where
  "metered prep ev mb s \<longleftrightarrow> ow_prepare (oa_w s) = prep \<and> ow_env (oa_w s) = ev \<and> ow_maxBytes (oa_w s) = mb \<and>
     (\<exists>outs. settled prep ev (oa_met s) (ow_sent (oa_w s)) outs \<and>
        ow_posts (oa_w s) = posts_of prep ev (ow_sent (oa_w s)) outs \<and>
        ow_dropped (oa_w s) = of_nat (oa_lost s) + of_int (sum_list (map snd outs)))"

lemma settled_length: "settled prep ev mets sent outs \<Longrightarrow> length outs = length sent"
  by (auto simp: settled_def dest: list_all2_lengthD)

text \<open>The records a server confirmed: those of the batches, less the lost ones.\<close>

definition confirmed :: "bytes list list \<Rightarrow> (nat \<times> int) list \<Rightarrow> int" where
  "confirmed sent outs = sum_list (map2 (\<lambda>rs out. int (length rs) - snd out) sent outs)"

lemma confirmed_eq:
  "length outs = length sent \<Longrightarrow> confirmed sent outs = int (length (concat sent)) - sum_list (map snd outs)"
  by (induction outs sent rule: list_induct2) (simp_all add: confirmed_def)

lemma settled_snoc:
  "settled prep ev mets sent outs \<Longrightarrow> export_result prep ev met rs out \<Longrightarrow>
     settled prep ev (mets @ [met]) (sent @ [rs]) (outs @ [out])"
  by (auto simp: settled_def intro: list_all2_appendI)

lemma posts_of_snoc:
  "length outs = length sent \<Longrightarrow>
     posts_of prep ev (sent @ [rs]) (outs @ [(k, d)]) = posts_of prep ev sent outs @ replicate k (prep (assemble ev [] rs))"
  by (simp add: posts_of_def)

lemma settled_posts:
  assumes "settled prep ev mets sent outs" and "p \<in> set (posts_of prep ev sent outs)"
  shows "\<exists>rs\<in>set sent. fail (prep (assemble ev [] rs)) = None \<and> p = prep (assemble ev [] rs)"
proof -
  obtain i where i: "i < length sent" "p = prep (assemble ev [] (sent ! i))" "0 < fst (outs ! i)"
    using assms(2) by (auto simp: posts_of_def set_zip) (metis fst_conv)
  then have "export_result prep ev (mets ! i) (sent ! i) (outs ! i)"
    using assms(1) by (auto simp: settled_def list_all2_conv_all_nth)
  with i have "fail (prep (assemble ev [] (sent ! i))) = None"
    by (cases "mets ! i"; cases "outs ! i"; cases "fst (outs ! i)") auto
  with i show ?thesis using nth_mem by blast
qed

lemma metered_same:
  assumes "metered prep ev mb s" and "oa_met s' = oa_met s" and "ow_sent (oa_w s') = ow_sent (oa_w s)"
    and "ow_posts (oa_w s') = ow_posts (oa_w s)" and "ow_prepare (oa_w s') = ow_prepare (oa_w s)"
    and "ow_env (oa_w s') = ow_env (oa_w s)" and "ow_maxBytes (oa_w s') = ow_maxBytes (oa_w s)"
    and "ow_dropped (oa_w s') - of_nat (oa_lost s') = ow_dropped (oa_w s) - of_nat (oa_lost s)"
  shows "metered prep ev mb s'"
  using assms unfolding metered_def by (auto simp: algebra_simps)

lemma metered_export:
  assumes "oexport env h b k r s = Some s'" and "b \<noteq> []" and m: "metered prep ev mb s"
  shows "metered prep ev mb s'"
proof -
  obtain w' where w': "export env b (allowRetry_of k) (deadline_of k) (oa_w s) = Some w'"
    "s' = s\<lparr>oa_w := w', oa_run := hold h (oa_w s) w' r, oa_met := oa_met s @ [(env, allowRetry_of k, deadline_of k)]\<rparr>"
    using assms(1) by (auto simp: oexport_def split: option.splits)
  note fx = export_fixed(1) [OF w'(1)]
  have sent: "ow_sent w' = ow_sent (oa_w s) @ [b]" using export_fixed(2) [OF w'(1)] assms(2) by simp
  obtain outs where outs: "settled prep ev (oa_met s) (ow_sent (oa_w s)) outs"
    "ow_posts (oa_w s) = posts_of prep ev (ow_sent (oa_w s)) outs"
    "ow_dropped (oa_w s) = of_nat (oa_lost s) + of_int (sum_list (map snd outs))"
    and same: "ow_prepare (oa_w s) = prep" "ow_env (oa_w s) = ev" "ow_maxBytes (oa_w s) = mb"
    using m by (auto simp: metered_def)
  obtain n d where nd: "export_result prep ev (env, allowRetry_of k, deadline_of k) b (n, d)"
    "ow_dropped w' = ow_dropped (oa_w s) + of_int d"
    "ow_posts w' = ow_posts (oa_w s) @ replicate n (prep (assemble ev [] b))" "ow_prepare w' = prep"
    using export_settles [OF w'(1) assms(2)] same by auto
  have "settled prep ev (oa_met s') (ow_sent w') (outs @ [(n, d)])"
    using settled_snoc [OF outs(1) nd(1)] by (simp add: w'(2) sent)
  moreover have "ow_posts w' = posts_of prep ev (ow_sent w') (outs @ [(n, d)])"
    using nd(3) outs(2) posts_of_snoc [OF settled_length [OF outs(1)]] by (simp add: sent)
  moreover have "ow_dropped w' = of_nat (oa_lost s) + of_int (sum_list (map snd (outs @ [(n, d)])))"
    using nd(2) outs(3) by simp
  ultimately show ?thesis
    using nd(4) same fixed_fields(1,2) [OF fx] unfolding metered_def by (auto simp: w'(2))
qed

lemma metered_act:
  assumes "oasync_inv s" and "oact a s = Some s'" and m: "metered prep ev mb s"
  shows "metered prep ev mb s'"
proof (cases a)
  case (OAWriter i p)
  with assms(2) have "owriter_act i p s = Some s'" by simp
  then show ?thesis
    by (cases rule: owriter_act_cases) (auto simp: oa_accept_def oa_count_def goto_o_def intro: metered_same [OF m])
next
  case OAClose
  with assms(2) show ?thesis
    by (cases "oa_close s") (auto simp: oclose_act_def intro: metered_same [OF m] split: if_splits)
next
  case (OASync j)
  with assms(2) show ?thesis by (auto dest!: osync_act_eq intro: metered_same [OF m])
next
  case (OARun ch env now h)
  with assms(2) have "orun_act ch env now h s = Some s'" by simp
  then show ?thesis
  proof (cases rule: orun_act_cases)
    case (ship b ro k)
    then have "b \<noteq> []" using assms(1) by (auto simp: oasync_inv_def oshape_def)
    with ship(2) show ?thesis using m by (rule metered_export)
  next
    case (last_ship b k mk)
    show ?thesis using last_ship(3,2) m by (rule metered_export)
  qed (auto simp: finish_drain_def intro: m metered_same [OF m] split: ocont.split)
qed

interpretation ometer: step_invariant oact "\<lambda>s. oasync_inv s \<and> metered prep ev mb s" for prep ev mb
  by unfold_locales (blast intro: metered_act oasync_inv_act)

lemma metered_reachable:
  assumes "otlp_wf o1" and "reachable oact (oasync_init (newWriterCore prep ev o1) n m) s"
  shows "metered prep ev (maxRequestBytes o1) s"
proof -
  have "metered prep ev (maxRequestBytes o1) (oasync_init (newWriterCore prep ev o1) n m)"
    by (simp add: metered_def oasync_init_def newWriterCore_def settled_def posts_of_def)
  with ometer.reachable_inv [OF assms(2)] oasync_inv_init [OF assms(1)] show ?thesis by blast
qed

section \<open>Progress\<close>

lemma owriter_locked:
  "i < length (oa_pcs s) \<Longrightarrow> holds_admit (oa_pcs s ! i) \<Longrightarrow> \<exists>s'. owriter_act i p s = Some s'"
  by (auto simp: owriter_act_def holds_admit_def split: owpc.splits option.splits)

lemma oclose_blocked:
  "oclose_act s = None \<longleftrightarrow> (oa_close s = OcWant \<and> list_ex holds_admit (oa_pcs s)) \<or>
     (oa_close s = OcWait \<and> \<not> oa_done s) \<or> oa_close s = OcFinished"
  by (auto simp: oclose_act_def split: ocpc.splits)

definition clock_ok :: "export_env \<Rightarrow> bool" where
  "clock_ok env \<longleftrightarrow> (\<forall>i. ee_now env i < ee_now env (Suc i)) \<and> (\<forall>i. 0 \<le> ee_jitter env i)"

definition retry_ok :: "RetryConfig \<Rightarrow> bool" where
  "retry_ok r \<longleftrightarrow> retry_wf r \<and> Initial r < 2 ^ 62 \<and> MaxInterval r < 2 ^ 62"

lemma oexport_enabled:
  "clock_ok env \<Longrightarrow> retry_ok (ow_retry (oa_w s)) \<Longrightarrow> \<exists>s'. oexport env h b k r s = Some s'"
  using export_total [of env "oa_w s" b "allowRetry_of k" "deadline_of k"]
  by (auto simp: oexport_def clock_ok_def retry_ok_def)

text \<open>A handler inside Close is what can stop the flush goroutine.\<close>

definition held_by_close :: "oastate \<Rightarrow> bool" where
  "held_by_close s = (case oa_run s of RHold HClose _ \<Rightarrow> True | _ \<Rightarrow> False)"

lemma orun_enabled:
  assumes "clock_ok env" and "retry_ok (ow_retry (oa_w s))" and "oa_cancelled s" and "oa_run s \<noteq> RExit" and "\<not> held_by_close s"
  shows "\<exists>s'. orun_act RcCancelled env now h s = Some s'"
  using assms oexport_enabled [OF assms(1,2)]
  by (auto simp: orun_act_def held_by_close_def split: orpc.splits option.splits hcall.splits)

lemma oretry_act: "oact a s = Some s' \<Longrightarrow> ow_retry (oa_w s') = ow_retry (oa_w s)"
proof (cases a)
  case (OAWriter i p)
  moreover assume "oact a s = Some s'"
  ultimately have "owriter_act i p s = Some s'" by simp
  then show ?thesis
    by (cases rule: owriter_act_cases) (simp_all add: oa_accept_def oa_count_def counted_fields)
next
  case OAClose
  moreover assume "oact a s = Some s'"
  ultimately show ?thesis by (cases "oa_close s") (auto simp: oclose_act_def split: if_splits)
next
  case (OASync j)
  moreover assume "oact a s = Some s'"
  ultimately show ?thesis by (auto dest!: osync_act_eq)
next
  case (OARun ch env now h)
  have ex: "ow_retry (oa_w s') = ow_retry (oa_w s)" if "oexport env h b k r s = Some s'" for b k r
    using that fixed_fields(6) [OF export_fixed(1)] by (auto simp: oexport_def split: option.splits)
  assume "oact a s = Some s'"
  with OARun have "orun_act ch env now h s = Some s'" by simp
  then show ?thesis by (cases rule: orun_act_cases) (auto simp: finish_drain_def dest: ex split: ocont.split)
qed

interpretation oretry: step_invariant oact "\<lambda>s. ow_retry (oa_w s) = r" for r
  by unfold_locales (simp add: oretry_act)

lemma oretry_reachable:
  "reachable oact (oasync_init (newWriterCore prep env o1) n m) s \<Longrightarrow> ow_retry (oa_w s) = retry o1"
  by (erule oretry.reachable_inv) (simp add: oasync_init_def newWriterCore_def)

text \<open>How much of the final drain is left, by the records still queued.\<close>

fun orun_left :: "nat \<Rightarrow> orpc \<Rightarrow> nat" where
  "orun_left q (RSelect b) = 6 * q + 10"
| "orun_left q (RDrain b k) = 6 * q + 4"
| "orun_left q (RAdd b r k) = 6 * q + 9"
| "orun_left q (RExport b ro k) = 6 * q + (case ro of None \<Rightarrow> 6 | Some _ \<Rightarrow> 8)"
| "orun_left q (RFinal b k m) = (if b = [] then 1 else 3)"
| "orun_left q (RHold h r) = orun_left q r + 1"
| "orun_left q RExit = 0"

abbreviation drain_left :: "oastate \<Rightarrow> nat" where
  "drain_left s \<equiv> orun_left (length (buf (ow_queue (oa_w s)))) (oa_run s)"

lemma hold_left: "orun_left q (hold h w w' r) \<le> orun_left q r + 1"
  by (auto simp: hold_def split: hcall.split)

lemma export_left:
  assumes "oexport env h b k r s = Some s'" and "b \<noteq> []" and "ofinal r"
    and "orun_left (length (buf (ow_queue (oa_w s)))) r + 1 < drain_left s"
  shows "ofinal (oa_run s') \<and> drain_left s' < drain_left s"
proof -
  obtain w' met where w': "fixed w' = fixed (oa_w s)"
    "s' = s\<lparr>oa_w := w', oa_run := hold h (oa_w s) w' r, oa_met := oa_met s @ [met]\<rparr>"
    using oexport_step [OF assms(1,2)] by metis
  then show ?thesis
    using assms(3,4) hold_left [of "length (buf (ow_queue (oa_w s)))" h "oa_w s" w' r]
    by (simp add: fixed_fields(4) [OF w'(1)])
qed

lemma drain_decreases:
  assumes "orun_act ch env now h s = Some s'" and f: "ofinal (oa_run s)" and sh: "oshape s"
  shows "ofinal (oa_run s') \<and> drain_left s' < drain_left s"
  using assms(1)
proof (cases rule: orun_act_cases)
  case (ship b ro k)
  then have k: "last_drain k" "b \<noteq> []" using f sh by (auto simp: oshape_def)
  then have "resume [] k = RDrain [] k" by (auto simp: resume_def last_drain_def split: ocont.splits)
  with k ship(1) show ?thesis by (intro export_left [OF ship(2)]) (auto simp: added_def resume_def split: option.split ocont.split)
next
  case (last_ship b k m)
  with f show ?thesis by (intro export_left [OF last_ship(3)]) auto
next
  case (finish k m)
  with f show ?thesis by (auto simp: finish_drain_def last_drain_def split: ocont.splits)
next
  case (take b k r q)
  with f show ?thesis by (auto simp: try_recv_buf last_drain_def)
next
  case (add b r k)
  with f show ?thesis by (auto simp: added_def resume_def last_drain_def split: ocont.splits)
next
  case (release c r)
  with f show ?thesis by auto
qed (use f in \<open>auto simp: last_drain_def\<close>)

lemma drain_others:
  assumes "ogate s" and "ofinal (oa_run s)" and "oact a s = Some s'" and "\<And>ch env now h. a \<noteq> OARun ch env now h"
  shows "drain_left s' = drain_left s \<and> oa_run s' = oa_run s"
proof (cases a)
  case (OAWriter i p)
  have ns: "\<not> osending (oa_pcs s ! i)" if "i < length (oa_pcs s)"
    using assms(1,2) that by (auto simp: ogate_def)
  from OAWriter assms(3) have "owriter_act i p s = Some s'" by simp
  then show ?thesis
    by (cases rule: owriter_act_cases)
      (use ns in \<open>auto simp: oa_count_def osending_def counted_fields\<close>)
next
  case OAClose
  with assms(3) show ?thesis by (cases "oa_close s") (auto simp: oclose_act_def split: if_splits)
next
  case (OASync j)
  then show ?thesis using assms(3) by (auto dest: osync_act_eq)
qed (use assms(4) in auto)

text \<open>A flush goroutine whose handler is inside Close stays there: Close waits for its exit.\<close>

lemma held_act:
  assumes "ogate s" and "oa_run s = RHold HClose r" and "oact a s = Some s'"
  shows "oa_run s' = RHold HClose r"
proof (cases a)
  case (OAWriter i p)
  with assms(3) have "owriter_act i p s = Some s'" by simp
  then show ?thesis
    by (cases rule: owriter_act_cases) (use assms(2) in \<open>simp_all add: oa_count_def oa_accept_def\<close>)
next
  case OAClose
  with assms show ?thesis by (cases "oa_close s") (auto simp: oclose_act_def split: if_splits)
next
  case (OASync j)
  with assms show ?thesis by (auto dest: osync_act_eq)
next
  case (OARun ch env now h)
  have "oa_close s \<noteq> OcFinished" using assms(1,2) by (auto simp: ogate_def)
  with OARun assms show ?thesis by (auto simp: orun_act_def)
qed

lemma held_run:
  "run oact as s = Some s' \<Longrightarrow> oasync_inv s \<Longrightarrow> oa_run s = RHold HClose r \<Longrightarrow> oasync_inv s' \<and> oa_run s' = RHold HClose r"
proof (induction "as" arbitrary: s)
  case (Cons a "as")
  then obtain t where t: "oact a s = Some t" "run oact as t = Some s'" by (auto split: option.splits)
  have "oa_run t = RHold HClose r" using held_act [OF _ Cons.prems(3) t(1)] Cons.prems(2) by (simp add: oasync_inv_def)
  with Cons.IH [OF t(2) oasync_inv_act [OF Cons.prems(2) t(1)]] show ?case .
qed simp

lemma held_close_stuck:
  assumes "oasync_inv s" and "held_by_close s" and "run oact sched s = Some s'"
  shows "oa_close s' \<notin> {OcTeardown, OcFinished}"
proof -
  obtain r where "oa_run s = RHold HClose r" using assms(2) by (auto simp: held_by_close_def split: orpc.splits hcall.splits)
  from held_run [OF assms(3,1) this] show ?thesis by (auto simp: oasync_inv_def ogate_def)
qed

section \<open>Sequential behaviour\<close>

text \<open>A call of Write with no other goroutine in between, until it returns.\<close>

fun solo :: "nat \<Rightarrow> nat \<Rightarrow> bytes \<Rightarrow> oastate \<Rightarrow> oastate option" where
  "solo 0 i p s = None"
| "solo (Suc n) i p s =
     (case owriter_act i p s of
        None \<Rightarrow> None
      | Some s' \<Rightarrow> if oa_pcs s' ! i = OIdle then Some s' else solo n i p s')"

lemma solo_run: "solo n i p s = Some s' \<Longrightarrow> \<exists>k. run oact (replicate k (OAWriter i p)) s = Some s'"
proof (induction n arbitrary: s)
  case (Suc n)
  then obtain t where t: "owriter_act i p s = Some t" by (auto split: option.splits)
  show ?case
  proof (cases "oa_pcs t ! i = OIdle")
    case True
    with Suc.prems t show ?thesis by (intro exI [of _ 1]) simp
  next
    case False
    with Suc.prems t have "solo n i p t = Some s'" by simp
    from Suc.IH [OF this] obtain k where "run oact (replicate k (OAWriter i p)) t = Some s'" by blast
    with t show ?thesis by (intro exI [of _ "Suc k"]) simp
  qed
qed simp

lemmas solo_simps = numeral_eq_Suc owriter_act_def goto_o_def oa_count_def oa_accept_def one_fits_def Let_def

lemma solo_write:
  assumes i: "i < length (oa_pcs s)" and pc: "oa_pcs s ! i = OIdle" and open_gate: "oa_close s \<noteq> OcLocked"
  shows "\<exists>s'. solo 9 i p s = Some s' \<and> oa_pcs s' = oa_pcs s \<and> oa_w s' = snd (otlp_Write p (oa_w s)) \<and> oa_run s' = oa_run s \<and>
    oa_syncs s' = oa_syncs s \<and> oa_close s' = oa_close s"
proof -
  have id: "(oa_pcs s)[i := OIdle] = oa_pcs s" using pc by (metis list_update_id)
  consider (closed) "ow_closed (oa_w s)"
    | (big) "\<not> ow_closed (oa_w s)" "\<not> one_fits (oa_w s) p"
    | (room) q where "\<not> ow_closed (oa_w s)" "one_fits (oa_w s) p" "try_send (ow_queue (oa_w s)) p = Some q"
    | (newest) "\<not> ow_closed (oa_w s)" "one_fits (oa_w s) p" "try_send (ow_queue (oa_w s)) p = None" "ow_dropPolicy (oa_w s) \<noteq> DropOldest"
    | (oldest) "\<not> ow_closed (oa_w s)" "one_fits (oa_w s) p" "try_send (ow_queue (oa_w s)) p = None" "ow_dropPolicy (oa_w s) = DropOldest"
    by (cases "try_send (ow_queue (oa_w s)) p") blast+
  then show ?thesis
  proof cases
    case closed
    with assms id show ?thesis by (simp add: solo_simps otlp_Write_def)
  next
    case big
    with assms id show ?thesis by (simp add: solo_simps otlp_Write_def)
  next
    case (room q)
    with assms id show ?thesis by (simp add: solo_simps otlp_Write_def)
  next
    case newest
    with assms id show ?thesis by (simp add: solo_simps otlp_Write_def)
  next
    case oldest
    show ?thesis
    proof (cases "try_recv (ow_queue (oa_w s))")
      case None
      with oldest assms id show ?thesis by (simp add: solo_simps otlp_Write_def)
    next
      case (Some yq)
      obtain y q where yq: "yq = (y, q)" by (cases yq)
      show ?thesis
        by (cases "try_send q p") (use Some yq oldest assms id in \<open>simp_all add: solo_simps otlp_Write_def add_dropped1_def\<close>)
    qed
  qed
qed

section \<open>Properties\<close>

declare export_loop.simps [code]

definition small_options :: otlp_options where
  "small_options = (otlp_defaultOptions \<lparr>exeBase = [], moduleVersion = []\<rparr>)\<lparr>o_batchSize := 2, maxRequestBytes := 20, queueSize := 2\<rparr>"

lemma small_options_wf: "otlp_wf small_options" "retry_ok (retry small_options)"
  by (simp_all add: small_options_def otlp_wf_def retry_ok_def retry_wf_def otlp_defaultOptions_def maxQueueSize_def
      maxRequestBytesCeil_def Second_def)

abbreviation small_start :: oastate where
  "small_start \<equiv> oasync_init (newWriterCore plain_prepare demo_envelope small_options) 2 1"

definition failing_env :: export_env where
  "failing_env = sample_env\<lparr>ee_answer := (\<lambda>_. Inl no_export_error)\<rparr>"

definition oput :: "nat \<Rightarrow> bytes \<Rightarrow> oaction list" where
  "oput i p = replicate 5 (OAWriter i p)"

definition ostep :: "rchoice \<Rightarrow> oaction" where
  "ostep ch = OARun ch quick_env 0 HNone"

text \<open>C15: in every interleaving of the exporter's goroutines the queue stays within its capacity, every
  batch handed to export is non-empty and within the batch size and the request limit, and each
  record that passed the closed check is in exactly one place: handed to export, dropped by Write, in a
  writer's hand, in the current batch, or queued. Each export came to an outcome that what it met
  allows: attempts, of which all but the last met a retryable error, and records lost, all of them or
  those the server rejected. The drop counter, as \<^verbatim>\<open>DroppedLogs\<close> reads it, is the number of records
  dropped by Write plus those the exports lost, and the requests posted are those of the attempts, in
  order. What was handed to export, then the batch in hand, then the queue, is in the order the queue
  accepted the records.\<close>

theorem otlp_async_accounting:
  assumes "otlp_wf o1" and "reachable oact (oasync_init (newWriterCore prep env o1) n m) s"
  shows "length (buf (ow_queue (oa_w s))) \<le> cap (ow_queue (oa_w s)) \<and>
    (\<forall>b\<in>set (ow_sent (oa_w s)). b \<noteq> [] \<and> int (length b) \<le> ow_batchSize (oa_w s) \<and>
       int (length (assemble (ow_env (oa_w s)) [] b)) \<le> ow_maxBytes (oa_w s)) \<and>
    oa_offered s = oa_lost s + length (concat (ow_sent (oa_w s))) + ohand s + length (ocarried (oa_run s)) +
      length (buf (ow_queue (oa_w s))) \<and>
    (\<exists>outs. settled prep env (oa_met s) (ow_sent (oa_w s)) outs \<and>
       otlp_DroppedLogs (oa_w s) = of_nat (oa_lost s) + of_int (sum_list (map snd outs)) \<and>
       ow_posts (oa_w s) = posts_of prep env (ow_sent (oa_w s)) outs) \<and>
    subseq (concat (ow_sent (oa_w s)) @ ocarried (oa_run s) @ buf (ow_queue (oa_w s))) (oa_in s)"
  using oasync_inv_reachable [OF assms] metered_reachable [OF assms]
  by (auto simp: oasync_inv_def oshape_def obalance_def oordered_def fits_def metered_def otlp_DroppedLogs_def)

theorem otlp_async_accounting_witness:
  "\<exists>s. run oact (oput 0 [1] @ oput 1 [2] @ [ostep RcRecord, ostep RcTick] @ oput 0 [3] @ replicate 5 (OAWriter 1 [4])) small_start = Some s \<and>
     oa_offered s = 4 \<and> ocarried (oa_run s) = [[1]] \<and> buf (ow_queue (oa_w s)) = [[2], [3]] \<and>
     oa_offered s = oa_lost s + length (concat (ow_sent (oa_w s))) + ohand s + length (ocarried (oa_run s)) +
      length (buf (ow_queue (oa_w s))) \<and>
     otlp_DroppedLogs (oa_w s) = of_nat (oa_lost s)"
proof -
  let ?as = "oput 0 [1] @ oput 1 [2] @ [ostep RcRecord, ostep RcTick] @ oput 0 [3] @ replicate 5 (OAWriter 1 [4])"
  have "reaches oact ?as (\<lambda>s. oa_offered s = 4 \<and> ocarried (oa_run s) = [[1]] \<and> buf (ow_queue (oa_w s)) = [[2], [3]] \<and>
      ow_sent (oa_w s) = []) small_start"
    by code_simp
  then obtain s where s: "run oact ?as small_start = Some s" "oa_offered s = 4" "ocarried (oa_run s) = [[1]]"
    "buf (ow_queue (oa_w s)) = [[2], [3]]" "ow_sent (oa_w s) = []" by (auto simp: reaches_iff)
  show ?thesis using otlp_async_accounting [OF small_options_wf(1) run_reachable [OF s(1)]] s settled_length by fastforce
qed

text \<open>C14: Close strands no record. When Close has returned, whatever the interleaving, the flush
  goroutine has exited, queue and batch are empty, no writer can still enqueue, and every record that
  passed the closed check was handed to export, dropped by Write, or is about to be counted by
  the writer that holds it. Each export came to an outcome that what it met allows, and the drop counter
  is what Write and the exports lost: once the writers are idle, each record offered is confirmed by the
  server or counted in \<^verbatim>\<open>DroppedLogs\<close>.\<close>

theorem otlp_close_strands_nothing:
  assumes "otlp_wf o1" and "reachable oact (oasync_init (newWriterCore prep env o1) n m) s" and "oa_close s = OcFinished"
  shows "oa_run s = RExit \<and> buf (ow_queue (oa_w s)) = [] \<and> (\<forall>i < length (oa_pcs s). \<not> osending (oa_pcs s ! i)) \<and>
    oa_offered s = oa_lost s + length (concat (ow_sent (oa_w s))) + ohand s \<and>
    ((\<forall>pc\<in>set (oa_pcs s). pc = OIdle) \<longrightarrow> oa_offered s = oa_lost s + length (concat (ow_sent (oa_w s)))) \<and>
    (\<exists>outs. settled prep env (oa_met s) (ow_sent (oa_w s)) outs \<and>
       otlp_DroppedLogs (oa_w s) = of_nat (oa_lost s) + of_int (sum_list (map snd outs)) \<and>
       ((\<forall>pc\<in>set (oa_pcs s). pc = OIdle) \<longrightarrow>
          of_nat (oa_offered s) = of_int (confirmed (ow_sent (oa_w s)) outs) + otlp_DroppedLogs (oa_w s)))"
proof -
  have "oasync_inv s" by (rule oasync_inv_reachable [OF assms(1,2)])
  then have g: "ogate s" and b: "obalance s" by (simp_all add: oasync_inv_def)
  have r: "oa_run s = RExit" using g assms(3) by (auto simp: ogate_def)
  have q: "buf (ow_queue (oa_w s)) = []" "\<forall>i < length (oa_pcs s). \<not> osending (oa_pcs s ! i)"
    using g assms(3) r by (auto simp: ogate_def)
  have idle: "ohand s = 0" if "\<forall>pc\<in>set (oa_pcs s). pc = OIdle" using that by (auto simp: ohand_def oweight_def)
  obtain outs where outs: "settled prep env (oa_met s) (ow_sent (oa_w s)) outs"
    "otlp_DroppedLogs (oa_w s) = of_nat (oa_lost s) + of_int (sum_list (map snd outs))"
    using metered_reachable [OF assms(1,2)] by (auto simp: metered_def otlp_DroppedLogs_def)
  have all: "oa_offered s = oa_lost s + length (concat (ow_sent (oa_w s))) + ohand s"
    using b r q by (simp add: obalance_def)
  have "of_nat (oa_offered s) = of_int (confirmed (ow_sent (oa_w s)) outs) + otlp_DroppedLogs (oa_w s)"
    if "\<forall>pc\<in>set (oa_pcs s). pc = OIdle"
    using all idle [OF that] outs(2) confirmed_eq [OF settled_length [OF outs(1)]] by simp
  with all idle r q outs show ?thesis by auto
qed

text \<open>Two records queued, a third writer at the lock when Close runs; the server refuses the final batch.\<close>

definition oclose_run :: "oaction list" where
  "oclose_run = oput 0 [1] @ oput 1 [2] @ [OAWriter 0 [3]] @ replicate 4 OAClose @
     replicate 8 (OARun RcCancelled failing_env 0 HNone) @ replicate 2 OAClose @ replicate 3 (OAWriter 0 [3])"

theorem otlp_close_strands_nothing_witness:
  "\<exists>s. run oact oclose_run small_start = Some s \<and> oa_close s = OcFinished \<and> ow_sent (oa_w s) = [[[1], [2]]] \<and>
     oa_offered s = oa_lost s + length (concat (ow_sent (oa_w s))) + ohand s \<and> ohand s = 0 \<and>
     otlp_DroppedLogs (oa_w s) = 2 \<and>
     (\<exists>outs. settled plain_prepare demo_envelope (oa_met s) [[[1], [2]]] outs \<and> of_int (sum_list (map snd outs)) = (2 :: u64))"
proof -
  have "reaches oact oclose_run (\<lambda>s. oa_close s = OcFinished \<and> ow_sent (oa_w s) = [[[1], [2]]] \<and> ohand s = 0 \<and>
      oa_lost s = 0 \<and> otlp_DroppedLogs (oa_w s) = 2) small_start"
    by code_simp
  then obtain s where s: "run oact oclose_run small_start = Some s" "oa_close s = OcFinished"
    "ow_sent (oa_w s) = [[[1], [2]]]" "ohand s = 0" "oa_lost s = 0" "otlp_DroppedLogs (oa_w s) = 2" by (auto simp: reaches_iff)
  then show ?thesis using otlp_close_strands_nothing [OF small_options_wf(1) run_reachable [OF s(1)] s(2)] by auto
qed

text \<open>C16: Sync is a barrier. When a Sync whose request the flush goroutine served has returned, what is
  still queued or batched was accepted after the \<open>k\<close> records accepted when Sync was called: those
  have all been handed to export or evicted.\<close>

theorem otlp_sync_barrier:
  assumes "otlp_wf o1" and "reachable oact (oasync_init (newWriterCore prep env o1) n m) s"
    and "j < length (oa_syncs s)" and "oa_syncs s ! j = OsReturned k"
  shows "k \<le> length (oa_in s) \<and> subseq (ocarried (oa_run s) @ buf (ow_queue (oa_w s))) (drop k (oa_in s))"
proof -
  have o: "oordered s" using oasync_inv_reachable [OF assms(1,2)] by (simp add: oasync_inv_def)
  then have k: "k \<le> oa_clean s" using assms(3,4) by (auto simp: oordered_def osync_ok_def)
  with o show ?thesis by (auto simp: oordered_def intro: subseq_order.trans [OF _ subseq_drop_le])
qed

definition osync_run :: "oaction list" where
  "osync_run = oput 0 [1] @ [OASync 0, ostep (RcReq 0), ostep RcTick, ostep RcTick, ostep RcTick] @ oput 1 [2] @
     replicate 2 (ostep RcTick) @ oput 1 [3]"

theorem otlp_sync_barrier_witness:
  "\<exists>s. run oact osync_run small_start = Some s \<and> oa_syncs s = [OsReturned 1] \<and> ow_sent (oa_w s) = [[[1]]] \<and>
     subseq (ocarried (oa_run s) @ buf (ow_queue (oa_w s))) [[2], [3]]"
proof -
  have "reaches oact osync_run (\<lambda>s. oa_syncs s = [OsReturned 1] \<and> oa_in s = [[1], [2], [3]] \<and> ow_sent (oa_w s) = [[[1]]]) small_start"
    by code_simp
  then obtain s where s: "run oact osync_run small_start = Some s" "oa_syncs s = [OsReturned 1]"
    "oa_in s = [[1], [2], [3]]" "ow_sent (oa_w s) = [[[1]]]" by (auto simp: reaches_iff)
  show ?thesis using otlp_sync_barrier [OF small_options_wf(1) run_reachable [OF s(1)], of 0 1] s by simp
qed

text \<open>C17: Close makes progress unless the error handler is inside it, and the final drain ends. While Close
  is running, Close has a step, or a writer that holds the admit lock has, or the flush goroutine has, its
  exports returning because the clock moves between attempts and the retry intervals are below 2^62 ns;
  or Close waits for a flush goroutine whose error handler has called Close, as the documentation
  allows, and then no schedule whatever brings Close past its wait. Once the final drain has begun each
  step of the flush goroutine decreases a bound of six times the queue plus eleven, which no other
  step changes.\<close>

theorem otlp_close_progress:
  assumes "otlp_wf o1" and "reachable oact (oasync_init (newWriterCore prep env o1) n m) s"
    and "retry_ok (retry o1)" and "clock_ok ex"
    and "oa_close s \<notin> {OcIdle, OcFinished}"
  shows "((\<exists>s'. oclose_act s = Some s') \<or>
     (oa_close s = OcWant \<and> (\<exists>i < length (oa_pcs s). holds_admit (oa_pcs s ! i) \<and> (\<exists>s'. owriter_act i [] s = Some s'))) \<or>
     (oa_close s = OcWait \<and> (\<exists>s'. orun_act RcCancelled ex now h s = Some s')) \<or>
     (oa_close s = OcWait \<and> held_by_close s \<and>
        (\<forall>sched s'. run oact sched s = Some s' \<longrightarrow> oa_close s' \<notin> {OcTeardown, OcFinished}))) \<and>
    (\<forall>a s'. ofinal (oa_run s) \<and> oact a s = Some s' \<longrightarrow> ofinal (oa_run s') \<and>
      (case a of OARun _ _ _ _ \<Rightarrow> drain_left s' < drain_left s | _ \<Rightarrow> drain_left s' = drain_left s)) \<and>
    drain_left s \<le> 6 * cap (ow_queue (oa_w s)) + 11"
proof (intro conjI allI impI)
  have inv: "oshape s" "ogate s" using oasync_inv_reachable [OF assms(1,2)] by (simp_all add: oasync_inv_def)
  have r: "retry_ok (ow_retry (oa_w s))" using oretry_reachable [OF assms(2)] assms(3) by simp
  show "(\<exists>s'. oclose_act s = Some s') \<or>
     (oa_close s = OcWant \<and> (\<exists>i < length (oa_pcs s). holds_admit (oa_pcs s ! i) \<and> (\<exists>s'. owriter_act i [] s = Some s'))) \<or>
     (oa_close s = OcWait \<and> (\<exists>s'. orun_act RcCancelled ex now h s = Some s')) \<or>
     (oa_close s = OcWait \<and> held_by_close s \<and>
        (\<forall>sched s'. run oact sched s = Some s' \<longrightarrow> oa_close s' \<notin> {OcTeardown, OcFinished}))"
  proof (cases "oclose_act s")
    case None
    with assms(5) consider "oa_close s = OcWant" "list_ex holds_admit (oa_pcs s)" | "oa_close s = OcWait" "\<not> oa_done s"
      by (auto simp: oclose_blocked)
    then show ?thesis
    proof cases
      case 1
      then obtain i where "i < length (oa_pcs s)" "holds_admit (oa_pcs s ! i)" by (auto simp: list_ex_iff in_set_conv_nth)
      with 1 show ?thesis using owriter_locked by blast
    next
      case 2
      then have "oa_run s \<noteq> RExit" "oa_cancelled s" using inv(2) by (auto simp: ogate_def)
      with 2 show ?thesis
        using orun_enabled [OF assms(4) r] held_close_stuck [OF oasync_inv_reachable [OF assms(1,2)]] by blast
    qed
  qed blast
  show "ofinal (oa_run s')" "case a of OARun _ _ _ _ \<Rightarrow> drain_left s' < drain_left s | _ \<Rightarrow> drain_left s' = drain_left s"
    if "ofinal (oa_run s) \<and> oact a s = Some s'" for a s'
    using that drain_others [OF inv(2)] drain_decreases [OF _ _ inv(1)] by (cases a; force)+
  have "run_ok w p \<Longrightarrow> orun_left q p \<le> 6 * q + 11" for w q p
  proof (cases p)
    case (RHold h r)
    moreover assume "run_ok w p"
    ultimately show ?thesis by (cases r) (auto split: option.split)
  qed (auto split: option.split)
  then have "drain_left s \<le> 6 * length (buf (ow_queue (oa_w s))) + 11" using inv(1) by (auto simp: oshape_def)
  then show "drain_left s \<le> 6 * cap (ow_queue (oa_w s)) + 11" using inv(1) by (simp add: oshape_def)
qed

theorem otlp_close_progress_witness:
  "\<exists>s. run oact (oput 0 [1] @ replicate 4 OAClose @ [ostep RcCancelled]) small_start = Some s \<and> oclose_act s = None \<and>
     (\<exists>s'. orun_act RcCancelled quick_env 0 HNone s = Some s' \<and> drain_left s' < drain_left s)"
proof -
  let ?as = "oput 0 [1] @ replicate 4 OAClose @ [ostep RcCancelled]"
  have "reaches oact ?as (\<lambda>s. oa_close s = OcWait \<and> \<not> oa_done s \<and> ofinal (oa_run s) \<and> \<not> held_by_close s) small_start"
    by code_simp
  then obtain s where s: "run oact ?as small_start = Some s" "oa_close s = OcWait" "\<not> oa_done s" "ofinal (oa_run s)"
    "\<not> held_by_close s" by (auto simp: reaches_iff)
  have c: "clock_ok quick_env" using quick_env_ok by (simp add: clock_ok_def)
  have "oa_close s \<notin> {OcIdle, OcFinished}" using s(2) by simp
  note p = otlp_close_progress [OF small_options_wf(1) run_reachable [OF s(1)] small_options_wf(2) c this, of 0 HNone]
  have b: "oclose_act s = None" using s(2,3) by (simp add: oclose_blocked)
  with p s(2,5) obtain s' where "orun_act RcCancelled quick_env 0 HNone s = Some s'" by auto
  moreover from this p s(4) have "drain_left s' < drain_left s"
    by (auto dest!: conjunct2 [THEN conjunct1, THEN spec [of _ "OARun RcCancelled quick_env 0 HNone"]])
  ultimately show ?thesis using s(1) b by blast
qed

text \<open>C18: an error handler that calls Close from the flush goroutine never returns. Once the flush
  goroutine is inside such a handler, no schedule whatever lets it go on, and no call of Close,
  the handler's own included, ever passes the wait for its exit.\<close>

theorem otlp_handler_close_deadlocks:
  assumes "otlp_wf o1" and "reachable oact (oasync_init (newWriterCore prep env o1) n m) s"
    and "oa_run s = RHold HClose r" and "run oact as s = Some s'"
  shows "oa_run s' = RHold HClose r \<and> \<not> oa_done s' \<and> oa_close s' \<notin> {OcTeardown, OcFinished} \<and>
    (\<forall>ch ex now h. orun_act ch ex now h s' = None)"
proof -
  have "oasync_inv s' \<and> oa_run s' = RHold HClose r"
    by (rule held_run [OF assms(4) oasync_inv_reachable [OF assms(1,2)] assms(3)])
  then show ?thesis by (auto simp: oasync_inv_def ogate_def orun_act_def)
qed

text \<open>One record that the server refuses for good; the handler of the failure closes the writer.\<close>

definition handler_run :: "oaction list" where
  "handler_run = oput 0 [1] @ [ostep RcRecord, ostep RcRecord, ostep RcTick, OARun RcTick failing_env 0 HClose]"

theorem otlp_handler_close_deadlocks_witness:
  "\<exists>s s'. run oact handler_run small_start = Some s \<and> run oact (replicate 4 OAClose) s = Some s' \<and>
     oclose_act s' = None \<and> (\<forall>ch ex now h. orun_act ch ex now h s' = None)"
proof -
  let ?held = "\<lambda>s. oa_run s = RHold HClose (RSelect [])"
  have "reaches oact handler_run (\<lambda>s. ?held s \<and> reaches oact (replicate 4 OAClose) (\<lambda>s'. oclose_act s' = None) s) small_start"
    by code_simp
  then obtain s s' where s: "run oact handler_run small_start = Some s" "?held s"
    "run oact (replicate 4 OAClose) s = Some s'" "oclose_act s' = None" by (auto simp: reaches_iff)
  show ?thesis
    using otlp_handler_close_deadlocks [OF small_options_wf(1) run_reachable [OF s(1)] s(2,3)] s by blast
qed

text \<open>The atomic steps of Write refine the sequential Write. Run without interruption while nobody
  holds the admit lock exclusively, they return after at most nine steps, in exactly the state the
  sequential definition gives, and touch nothing else.\<close>

theorem otlp_write_refines:
  assumes "i < length (oa_pcs s)" and "oa_pcs s ! i = OIdle" and "oa_close s \<noteq> OcLocked"
  shows "\<exists>k s'. run oact (replicate k (OAWriter i p)) s = Some s' \<and> solo 9 i p s = Some s' \<and> oa_pcs s' = oa_pcs s \<and>
    oa_w s' = snd (otlp_Write p (oa_w s)) \<and> oa_run s' = oa_run s \<and> oa_syncs s' = oa_syncs s \<and> oa_close s' = oa_close s"
  using solo_write [OF assms] solo_run by blast

theorem otlp_write_refines_witness:
  "\<exists>k s'. run oact (replicate k (OAWriter 1 [5])) small_start = Some s' \<and> buf (ow_queue (oa_w s')) = [[5]]"
proof -
  have i: "1 < length (oa_pcs small_start)" "oa_pcs small_start ! 1 = OIdle" "oa_close small_start \<noteq> OcLocked"
    by (simp_all add: oasync_init_def)
  have "buf (ow_queue (snd (otlp_Write [5] (oa_w small_start)))) = [[5]]" by code_simp
  with otlp_write_refines [OF i, of "[5]"] show ?thesis by metis
qed

end
