(* ===== verification/Otlp_Presets.thy ===== *)
theory Otlp_Presets
  imports Otlp_Grpc Otlp_Async
begin

text \<open>
  The constructors of the OTLP exporter, of \<^verbatim>\<open>otlp/writer.go\<close> and \<^verbatim>\<open>otlp/core.go\<close>, over both
  transports, and the exporter as a whole: the interleaved writer with a transport's preparation,
  up to the requests a collector reads.
\<close>

section \<open>Constructors\<close>

text \<open>
  The standard library as in the transports: URL parsing and rendering, the text of a float, gzip,
  case folding of header names. A constructor gives the transport inside the writer with it; the
  goroutine it starts is the interleaved writer's.
\<close>

record otlp_lib =
  l_parse :: "bytes \<Rightarrow> (go_error, go_url) result"
  l_render :: "go_url \<Rightarrow> bytes"
  l_float :: "u64 \<Rightarrow> bytes"
  l_gzip :: "bytes \<Rightarrow> bytes option"
  l_lower :: "bytes \<Rightarrow> bytes"

definition NewHTTPWriter :: "otlp_lib \<Rightarrow> process \<Rightarrow> bytes \<Rightarrow> otlp_option list \<Rightarrow>
    (endpoint_error, httpTransport \<times> otlp_writer) result" where
  "NewHTTPWriter L ps endpoint opts =
     (let o1 = otlp_applyOptions ps opts in
      case newHTTPTransport (l_parse L) (l_render L) endpoint o1 of
        Inl err \<Rightarrow> Inl err
      | Inr tr \<Rightarrow> Inr (tr, newWriterCore (http_prepare (l_float L) (l_gzip L) tr) (newEnvelope o1) o1))"

definition NewGRPCWriter :: "otlp_lib \<Rightarrow> process \<Rightarrow> bytes \<Rightarrow> otlp_option list \<Rightarrow>
    (endpoint_error, grpcTransport \<times> otlp_writer) result" where
  "NewGRPCWriter L ps endpoint opts =
     (let o1 = otlp_applyOptions ps opts in
      case newGRPCTransport (l_parse L) (l_lower L) ps endpoint o1 of
        Inl err \<Rightarrow> Inl err
      | Inr tr \<Rightarrow> Inr (tr, newWriterCore (grpc_prepare (l_gzip L) tr) (newEnvelope o1) o1))"

definition newOTLPCore :: "encoder \<Rightarrow> (level \<Rightarrow> bool) \<Rightarrow> core" where
  "newOTLPCore enc level = \<lparr>enabled = level, core_enc = enc\<rparr>"

definition core_Sync :: "'w syncer \<Rightarrow> core \<Rightarrow> 'w \<Rightarrow> go_error option \<times> 'w" where
  "core_Sync out c w = sy_Sync out w"

definition otlp_NewEncoder :: "process \<Rightarrow> otlp_option list \<Rightarrow> encoder" where
  "otlp_NewEncoder ps opts = newEncoder (otlp_applyOptions ps opts)"

definition NewHTTPCore :: "otlp_lib \<Rightarrow> process \<Rightarrow> bytes \<Rightarrow> (level \<Rightarrow> bool) \<Rightarrow> otlp_option list \<Rightarrow>
    (endpoint_error, core \<times> httpTransport \<times> otlp_writer) result" where
  "NewHTTPCore L ps endpoint level opts =
     (case NewHTTPWriter L ps endpoint opts of
        Inl err \<Rightarrow> Inl err
      | Inr w \<Rightarrow> Inr (newOTLPCore (newEncoder (otlp_applyOptions ps opts)) level, w))"

definition NewGRPCCore :: "otlp_lib \<Rightarrow> process \<Rightarrow> bytes \<Rightarrow> (level \<Rightarrow> bool) \<Rightarrow> otlp_option list \<Rightarrow>
    (endpoint_error, core \<times> grpcTransport \<times> otlp_writer) result" where
  "NewGRPCCore L ps endpoint level opts =
     (case NewGRPCWriter L ps endpoint opts of
        Inl err \<Rightarrow> Inl err
      | Inr w \<Rightarrow> Inr (newOTLPCore (newEncoder (otlp_applyOptions ps opts)) level, w))"

section \<open>What the interleaved writer posts\<close>

text \<open>Every request ever posted is the preparation of a batch that was handed to export.\<close>

lemma posts_reachable:
  assumes "otlp_wf o1" and "reachable oact (oasync_init (newWriterCore prep env o1) n m) s" and "p \<in> set (ow_posts (oa_w s))"
  shows "\<exists>rs\<in>set (ow_sent (oa_w s)). fail (prep (assemble env [] rs)) = None \<and> p = prep (assemble env [] rs)"
  using metered_reachable [OF assms(1,2)] assms(3) by (auto simp: metered_def dest: settled_posts)

lemma subseq_front: "subseq (a @ b) c \<Longrightarrow> subseq a c"
proof (erule subseq_order.trans [rotated])
  show "subseq a (a @ b)" by (induction a) auto
qed

text \<open>With a ship layer every posted request is read by the server as one of the exported batches.\<close>

context ship_layer
begin

lemma posted_batches:
  assumes "otlp_wf o1" and "reachable oact (oasync_init (newWriterCore prepare env o1) n m) s"
    and "p \<in> set (ow_posts (oa_w s))" and "maxRequestBytes o1 < 2 ^ 63"
    and "\<And>msg. int (length msg) \<le> maxRequestBytes o1 \<Longrightarrow> admitted msg"
  shows "\<exists>rs. rs \<in> set (ow_sent (oa_w s)) \<and> rs \<noteq> [] \<and>
    Option.bind (receive p) parse_request =
      Some (Some (resourceBlob env), (if scopeBlob env = [] then None else Some (scopeBlob env)), rs) \<and>
    subseq (concat (ow_sent (oa_w s))) (oa_in s)"
proof -
  obtain rs where rs: "rs \<in> set (ow_sent (oa_w s))" "p = prepare (assemble env [] rs)"
    using posts_reachable [OF assms(1-3)] by blast
  have inv: "oasync_inv s" by (rule oasync_inv_reachable [OF assms(1,2)])
  then have f: "rs \<noteq> []" "fits (oa_w s) rs" using rs(1) by (auto simp: oasync_inv_def oshape_def)
  then have l: "int (length (assemble env [] rs)) \<le> maxRequestBytes o1"
    using f(2) metered_reachable [OF assms(1,2)] by (simp add: fits_def metered_def)
  then have "sizeFor env (batchCost rs) < 2 ^ 64" using assms(4) by (simp add: length_assemble)
  from batch_delivered [OF this assms(5) [OF l]] f(1) rs
  show ?thesis using inv subseq_front by (fastforce simp: oasync_inv_def oordered_def)
qed

end

context gzip_laws
begin

lemmas http_posted = http.posted_batches
lemmas grpc_posted = grpc.posted_batches

end

text \<open>The configured options of a writer are well formed whatever options it was given.\<close>

lemma applied_wf: "otlp_wf (otlp_applyOptions ps opts)"
  by (simp add: otlp_applyOptions_def normalize_wf)

section \<open>Properties\<close>


text \<open>An exporter over the stored codec, one record written and flushed at a tick.\<close>

definition sample_url :: go_url where
  "sample_url = \<lparr>u_Scheme = str ''http'', u_Host = str ''c'', u_Path = [], u_RawQuery = [], u_Fragment = []\<rparr>"

definition sample_otlp_lib :: otlp_lib where
  "sample_otlp_lib = \<lparr>l_parse = \<lambda>_. Inr sample_url, l_render = \<lambda>_. str ''http://c/v1/logs'', l_float = int_format,
     l_gzip = stored_gzip, l_lower = id\<rparr>"

definition sample_opts :: "otlp_option list" where
  "sample_opts = [WithQueueSize 2, WithCompression Gzip]"

abbreviation no_process :: process where "no_process \<equiv> \<lparr>exeBase = [], moduleVersion = []\<rparr>"

definition tick_run :: "oaction list" where
  "tick_run = oput 0 [1] @ [ostep RcRecord, ostep RcRecord, ostep RcTick, ostep RcTick]"

lemma tick_run_posts:
  "case NewHTTPCore sample_otlp_lib no_process (str ''c'') (\<lambda>_. True) sample_opts of Inl _ \<Rightarrow> False
   | Inr (core, tr, w) \<Rightarrow> reaches oact tick_run (\<lambda>s. ow_sent (oa_w s) = [[[1]]] \<and> map compressed (ow_posts (oa_w s)) = [True]) (oasync_init w 1 0)"
  by code_simp


text \<open>C27: the OTLP/gRPC exporter, end to end. The same for the gRPC transport: in any interleaving every
  request ever posted, with its frame and its headers, is, for the collector that reads the
  length-prefixed frame and honours its compressed flag, the resource, the scope and one of the exported batches, as long as the request
  limit keeps messages below the 4 GiB of the frame.\<close>

theorem grpc_exporter_end_to_end:
  assumes "NewGRPCCore L ps endpoint level opts = Inr (core, tr, w)" and "gzip_laws (l_gzip L) gunzip"
    and "o1 = otlp_applyOptions ps opts" and "maxRequestBytes o1 < 2 ^ 32"
    and "\<forall>msg z. int (length msg) \<le> maxRequestBytes o1 \<and> l_gzip L msg = Some z \<longrightarrow> length z < 2 ^ 32"
    and "reachable oact (oasync_init w n m) s" and "p \<in> set (ow_posts (oa_w s))"
  shows "core_enc core = otlp_NewEncoder ps opts \<and>
    (\<exists>rs. rs \<in> set (ow_sent (oa_w s)) \<and> rs \<noteq> [] \<and>
      Option.bind (grpc_receive gunzip (grpc_request_of tr p)) parse_request =
        Some (Some (resourceBlob (newEnvelope o1)),
          (if scopeBlob (newEnvelope o1) = [] then None else Some (scopeBlob (newEnvelope o1))), rs) \<and>
      subseq (concat (ow_sent (oa_w s))) (oa_in s))"
proof -
  have w: "w = newWriterCore (grpc_prepare (l_gzip L) tr) (newEnvelope o1) o1"
    and v: "validateGRPCHeaders (l_lower L) (gt_headers tr) = None"
    and core: "core_enc core = otlp_NewEncoder ps opts"
    using assms(1)
    by (auto simp: NewGRPCCore_def NewGRPCWriter_def newGRPCTransport_def newOTLPCore_def otlp_NewEncoder_def assms(3) Let_def
        split: sum.splits if_splits option.splits)
  have r: "reachable oact (oasync_init (newWriterCore (grpc_prepare (l_gzip L) tr) (newEnvelope o1) o1) n m) s"
    using assms(6) w by simp
  have l: "maxRequestBytes o1 < 2 ^ 63" using assms(4) by simp
  have a: "validateGRPCHeaders (l_lower L) (gt_headers tr) = None \<and> length msg < 2 ^ 32 \<and> (\<forall>z. l_gzip L msg = Some z \<longrightarrow> length z < 2 ^ 32)"
    if "int (length msg) \<le> maxRequestBytes o1" for msg
    using that v assms(4,5) by auto
  show ?thesis
    using gzip_laws.grpc_posted [OF assms(2) _ r assms(7) l a] applied_wf core unfolding assms(3) by blast
qed

definition grpc_opts :: "otlp_option list" where
  "grpc_opts = [WithQueueSize 2, WithTimeout 5, WithCompression Gzip, WithInsecure]"

lemma tick_run_frames:
  "case NewGRPCCore sample_otlp_lib no_process (str ''c:4317'') (\<lambda>_. True) grpc_opts of Inl _ \<Rightarrow> False
   | Inr (core, tr, w) \<Rightarrow> reaches oact tick_run (\<lambda>s. ow_sent (oa_w s) = [[[1]]] \<and> map compressed (ow_posts (oa_w s)) = [True]) (oasync_init w 1 0)"
  by code_simp

theorem grpc_exporter_end_to_end_witness:
  "\<exists>core tr w s p res scp. NewGRPCCore sample_otlp_lib no_process (str ''c:4317'') (\<lambda>_. True) grpc_opts =
       Inr (core, tr, w) \<and>
     run oact tick_run (oasync_init w 1 0) = Some s \<and> ow_posts (oa_w s) = [p] \<and> compressed p \<and>
     Option.bind (grpc_receive stored_gunzip (grpc_request_of tr p)) parse_request = Some (res, scp, [[1]])"
proof -
  let ?o1 = "otlp_applyOptions no_process grpc_opts"
  obtain core tr w s p where c: "NewGRPCCore sample_otlp_lib no_process (str ''c:4317'') (\<lambda>_. True) grpc_opts = Inr (core, tr, w)"
      and r: "run oact tick_run (oasync_init w 1 0) = Some s" "ow_sent (oa_w s) = [[[1]]]" "ow_posts (oa_w s) = [p]" "compressed p"
    using tick_run_frames by (auto simp: reaches_iff length_Suc_conv split: sum.splits)
  have e: "maxRequestBytes ?o1 < 2 ^ 31" by code_simp
  then have l: "maxRequestBytes ?o1 < 2 ^ 32" by simp
  have z: "\<forall>msg z. int (length msg) \<le> maxRequestBytes ?o1 \<and> l_gzip sample_otlp_lib msg = Some z \<longrightarrow> length z < 2 ^ 32"
    using e by (auto simp: sample_otlp_lib_def stored_gzip_def)
  have g: "gzip_laws (l_gzip sample_otlp_lib) stored_gunzip" using stored.gzip_laws_axioms by (simp add: sample_otlp_lib_def)
  have "p \<in> set (ow_posts (oa_w s))" by (simp add: r)
  from grpc_exporter_end_to_end [OF c g refl l z run_reachable [OF r(1)] this] show ?thesis using c r by auto
qed

end
