(* ===== verification/Otlp_Pool.thy ===== *)
theory Otlp_Pool
  imports Otlp_Attr Go_Heap
begin

text \<open>
  The pooled buffers of \<^verbatim>\<open>otlp/attr.go\<close>. The frames of an encoder state hold slices that
  \<^verbatim>\<open>frameBufPool\<close> recycles, and many encoder states share the pool: every \<^verbatim>\<open>EncodeEntry\<close> clones the
  logger's state, works on the clone and frees it. Here an append writes in place while the capacity
  lasts and moves to a larger array when it does not, the pool returns whatever it likes, and the
  states are operated on in any order. The refinement says that each state holds, at any time, exactly
  what \<open>Otlp_Attr\<close> computes for it by value: no buffer is ever in two hands. This is what allows
  \<open>Otlp_Attr\<close> to leave the pool out.
\<close>

section \<open>Encoder states in the store\<close>

text \<open>A frame is a cell with its kind and its namespace key.\<close>

type_synonym pframe = "(frameKind \<times> bytes) cell"

abbreviation pf_kind :: "pframe \<Rightarrow> frameKind" where "pf_kind f \<equiv> fst (c_meta f)"
abbreviation pf_key :: "pframe \<Rightarrow> bytes" where "pf_key f \<equiv> snd (c_meta f)"

definition to_frame :: "frameKind \<times> bytes \<Rightarrow> bytes \<Rightarrow> frame" where
  "to_frame m b = \<lparr>kind = fst m, nsKey = snd m, fr_buf = b\<rparr>"

definition frameBufCap :: nat where "frameBufCap = 1024"

definition getFrameBuf :: "choice \<Rightarrow> heap \<Rightarrow> slice \<times> heap" where
  "getFrameBuf ch h = get_buf frameBufCap ch h"

definition putFrameBuf :: "slice \<Rightarrow> heap \<Rightarrow> heap" where
  "putFrameBuf sl h = put_buf sl h"

definition p_tag :: "frameKind \<Rightarrow> byte" where
  "p_tag k = (if k = frameRoot then 0x32 else 0x0a)"

text \<open>The appends of \<^verbatim>\<open>addKV\<close> and \<^verbatim>\<open>addKVRoot\<close>, of \<^verbatim>\<open>addAV\<close>, and of the header written by \<^verbatim>\<open>sealTop\<close>.\<close>

definition kv_pieces :: "frameKind \<Rightarrow> bytes \<Rightarrow> bytes \<Rightarrow> bytes list" where
  "kv_pieces k key av =
     (let kvLen = 1 + uvarintLen (of_nat (length key)) + length key +
            1 + uvarintLen (of_nat (length av)) + length av
      in [[p_tag k], appendUvarint [] (of_nat kvLen), appendTaggedString [] 0x0a key, appendTaggedBytes [] 0x12 av])"

definition seal_pieces :: "frameKind \<Rightarrow> frameKind \<Rightarrow> bytes \<Rightarrow> nat \<Rightarrow> bytes list" where
  "seal_pieces pk k key n =
     (let avTag = (if k = frameArray then 0x2a else 0x32);
          avLen = 1 + uvarintLen (of_nat n) + n
      in (if pk = frameArray then [[p_tag pk], appendUvarint [] (of_nat avLen)]
          else
            let kvLen = 1 + uvarintLen (of_nat (length key)) + length key + 1 + uvarintLen (of_nat avLen) + avLen
            in [[p_tag pk], appendUvarint [] (of_nat kvLen), appendTaggedString [] 0x0a key, [0x12],
                appendUvarint [] (of_nat avLen)]) @ [[avTag], appendUvarint [] (of_nat n)])"

definition p_new :: "choice \<Rightarrow> heap \<Rightarrow> pframe list \<times> heap" where
  "p_new ch h = (let (sl, h') = getFrameBuf ch h in ([\<lparr>c_meta = (frameRoot, []), c_buf = sl\<rparr>], h'))"

fun p_free :: "pframe list \<Rightarrow> heap \<Rightarrow> heap" where
  "p_free [] h = h"
| "p_free (f # fs) h = p_free fs (putFrameBuf (c_buf f) h)"

fun p_clone :: "(nat \<Rightarrow> choice) \<Rightarrow> nat \<Rightarrow> pframe list \<Rightarrow> heap \<Rightarrow> pframe list \<times> heap" where
  "p_clone ch grow [] h = ([], h)"
| "p_clone ch grow (f # fs) h =
     (let (sl, h1) = getFrameBuf (ch (length fs)) h;
          (sl', h2) = append_slice grow sl (slice_bytes h1 (c_buf f)) h1;
          (gs, h3) = p_clone ch grow fs h2
      in (\<lparr>c_meta = c_meta f, c_buf = sl'\<rparr> # gs, h3))"

definition p_open :: "choice \<Rightarrow> frameKind \<Rightarrow> bytes \<Rightarrow> pframe list \<Rightarrow> heap \<Rightarrow> pframe list \<times> heap" where
  "p_open ch k key fs h = (let (sl, h') = getFrameBuf ch h in (fs @ [\<lparr>c_meta = (k, key), c_buf = sl\<rparr>], h'))"

definition p_addValue :: "nat \<Rightarrow> bytes \<Rightarrow> bytes \<Rightarrow> pframe list \<Rightarrow> heap \<Rightarrow> pframe list \<times> heap" where
  "p_addValue grow key av fs h =
     (let f = last fs;
          (f', h') = append_all grow f
            (if pf_kind f = frameArray then [appendTaggedBytes [] (p_tag (pf_kind f)) av] else kv_pieces (pf_kind f) key av) h
      in (butlast fs @ [f'], h'))"

definition p_addKVRoot :: "nat \<Rightarrow> bytes \<Rightarrow> bytes \<Rightarrow> pframe list \<Rightarrow> heap \<Rightarrow> pframe list \<times> heap" where
  "p_addKVRoot grow key av fs h =
     (let (f', h') = append_all grow (hd fs) (kv_pieces (pf_kind (hd fs)) key av) h in (f' # tl fs, h'))"

definition p_sealTop :: "nat \<Rightarrow> pframe list \<Rightarrow> heap \<Rightarrow> pframe list \<times> heap" where
  "p_sealTop grow fs h =
     (let tp = last fs; below = butlast fs; parent = last below;
          (f1, h1) = append_all grow parent
            (seal_pieces (pf_kind parent) (pf_kind tp) (pf_key tp) (sl_len (c_buf tp))) h;
          (f2, h2) = append_cell grow f1 (slice_bytes h1 (c_buf tp)) h1
      in (butlast below @ [f2], putFrameBuf (c_buf tp) h2))"

text \<open>\<^verbatim>\<open>rollback\<close>: the frames above the snapshot go back to the pool, the current one is truncated.\<close>

definition p_rollback :: "snapshot \<Rightarrow> pframe list \<Rightarrow> heap \<Rightarrow> pframe list \<times> heap" where
  "p_rollback sn fs h =
     (let kept = take (depth sn) fs; f = last kept
      in (butlast kept @ [f\<lparr>c_buf := (c_buf f)\<lparr>sl_len := bufLen sn\<rparr>\<rparr>], p_free (rev (drop (depth sn) fs)) h))"

section \<open>Any number of states, operated on in any order\<close>

type_synonym opool = "(nat, frameKind \<times> bytes) pool_world"

text \<open>
  \<open>PDrop\<close> is the garbage collector emptying the pool. A state is an empty list before it is made
  and after \<^verbatim>\<open>free\<close>; an operation on it panics in the code and is no step here, as is a rollback to a
  snapshot that is not one of this state's past.
\<close>

datatype pact =
    PNew nat choice
  | PClone nat nat "nat \<Rightarrow> choice" nat
  | PFree nat
  | POpen nat choice frameKind bytes
  | PAdd nat nat bytes bytes
  | PAddRoot nat nat bytes bytes
  | PSeal nat nat
  | PRollback nat snapshot
  | PDrop nat

fun pool_act :: "pact \<Rightarrow> opool \<Rightarrow> opool option" where
  "pool_act (PNew i ch) w = (if pw_states w i = [] then Some (store i (p_new ch (pw_heap w)) w) else None)"
| "pool_act (PClone i j ch grow) w =
     (if pw_states w i \<noteq> [] \<and> pw_states w j = [] then Some (store j (p_clone ch grow (pw_states w i) (pw_heap w)) w) else None)"
| "pool_act (PFree i) w =
     (if pw_states w i \<noteq> [] then Some (store i ([], p_free (pw_states w i) (pw_heap w)) w) else None)"
| "pool_act (POpen i ch k key) w =
     (if pw_states w i \<noteq> [] then Some (store i (p_open ch k key (pw_states w i) (pw_heap w)) w) else None)"
| "pool_act (PAdd i grow key av) w =
     (if pw_states w i \<noteq> [] then Some (store i (p_addValue grow key av (pw_states w i) (pw_heap w)) w) else None)"
| "pool_act (PAddRoot i grow key av) w =
     (if pw_states w i \<noteq> [] then Some (store i (p_addKVRoot grow key av (pw_states w i) (pw_heap w)) w) else None)"
| "pool_act (PSeal i grow) w =
     (if 1 < length (pw_states w i) then Some (store i (p_sealTop grow (pw_states w i) (pw_heap w)) w) else None)"
| "pool_act (PRollback i sn) w =
     (let fs = pw_states w i in
      if 0 < depth sn \<and> depth sn \<le> length fs \<and> bufLen sn \<le> sl_len (c_buf (fs ! (depth sn - 1)))
      then Some (store i (p_rollback sn fs (pw_heap w)) w) else None)"
| "pool_act (PDrop k) w = Some (drop_pooled k w)"

text \<open>The same operations by value, those of \<open>Otlp_Attr\<close>.\<close>

definition by_value :: "(encState \<Rightarrow> encState) \<Rightarrow> frame list \<Rightarrow> frame list" where
  "by_value op fs = stack (op \<lparr>stack = fs, scSink = None\<rparr>)"

fun value_act :: "pact \<Rightarrow> (nat \<Rightarrow> frame list) \<Rightarrow> (nat \<Rightarrow> frame list) option" where
  "value_act (PNew i ch) v = (if v i = [] then Some (v(i := stack newEncState)) else None)"
| "value_act (PClone i j ch grow) v = (if v i \<noteq> [] \<and> v j = [] then Some (v(j := by_value clone (v i))) else None)"
| "value_act (PFree i) v = (if v i \<noteq> [] then Some (v(i := [])) else None)"
| "value_act (POpen i ch k key) v = (if v i \<noteq> [] then Some (v(i := by_value (openFrame k key) (v i))) else None)"
| "value_act (PAdd i grow key av) v = (if v i \<noteq> [] then Some (v(i := by_value (addValue key av) (v i))) else None)"
| "value_act (PAddRoot i grow key av) v = (if v i \<noteq> [] then Some (v(i := by_value (addKVRoot key av) (v i))) else None)"
| "value_act (PSeal i grow) v = (if 1 < length (v i) then Some (v(i := by_value sealTop (v i))) else None)"
| "value_act (PRollback i sn) v =
     (if 0 < depth sn \<and> depth sn \<le> length (v i) \<and> bufLen sn \<le> length (fr_buf (v i ! (depth sn - 1)))
      then Some (v(i := by_value (rollback sn) (v i))) else None)"
| "value_act (PDrop k) v = Some v"

section \<open>Operations on one state\<close>

lemmas pool_defs = getFrameBuf_def putFrameBuf_def

lemma p_free_cells: "p_free fs h = free_cells fs h"
  by (induction fs arbitrary: h) (simp_all add: pool_defs)

lemma p_clone_cells: "p_clone ch grow fs h = clone_cells frameBufCap ch grow fs h"
  by (induction fs arbitrary: h) (simp_all add: pool_defs)

lemma to_frame_simps [simp]: "kind (to_frame m b) = fst m" "nsKey (to_frame m b) = snd m" "fr_buf (to_frame m b) = b"
  "(to_frame m b)\<lparr>fr_buf := c\<rparr> = to_frame m c"
  by (simp_all add: to_frame_def)

abbreviation o_does :: "heap \<Rightarrow> pframe list \<Rightarrow> nat set \<Rightarrow> (frame list \<Rightarrow> frame list) \<Rightarrow> pframe list \<times> heap \<Rightarrow> bool" where
  "o_does \<equiv> does to_frame"

lemma kv_pieces_value: "kv_into (to_frame m b) key av = b @ concat (kv_pieces (fst m) key av)"
  using appendUvarint_prefix [of "b @ [entryTag (to_frame m b)]" "[]"]
  by (simp add: kv_into_def kv_pieces_def Let_def appendTagged_append entryTag_def p_tag_def)

lemma p_new_does:
  assumes "free_ok h R"
  shows "o_does h [] R (\<lambda>_. stack newEncState) (p_new ch h)"
  using open_does [of h "[]" R to_frame "(frameRoot, [])" frameBufCap ch] assms
  by (simp add: p_new_def open_cell_def pool_defs newEncState_def to_frame_def does_def)

lemma p_open_does:
  assumes "own h fs R"
  shows "o_does h fs R (by_value (openFrame k key)) (p_open ch k key fs h)"
  using open_does [OF assms, of to_frame "(k, key)" frameBufCap ch]
  by (simp add: p_open_def open_cell_def pool_defs by_value_def openFrame_def to_frame_def does_def)

lemma by_value_cur:
  "stack (set_cur b \<lparr>stack = A @ [F], scSink = None\<rparr>) = A @ [F\<lparr>fr_buf := b\<rparr>]" "cur \<lparr>stack = A @ [F], scSink = None\<rparr> = F"
  by (simp_all add: set_cur_def cur_def)

lemma p_addValue_does:
  assumes "own h fs R" and "fs \<noteq> []"
  shows "o_does h fs R (by_value (addValue key av)) (p_addValue grow key av fs h)"
proof -
  obtain xs f where fs: "fs = xs @ f # []" using assms(2) by (metis snoc_last)
  let ?ps = "if pf_kind f = frameArray then [appendTaggedBytes [] (p_tag (pf_kind f)) av] else kv_pieces (pf_kind f) key av"
  obtain f' h' where a: "append_all grow f ?ps h = (f', h')" by force
  have "by_value (addValue key av) (abs_cells to_frame h (xs @ f # [])) = abs_cells to_frame h xs @
      to_frame (c_meta f) (slice_bytes h (c_buf f) @ concat ?ps) # abs_cells to_frame h []"
    by (auto simp: by_value_def addValue_def addAV_def addKV_def by_value_cur kv_pieces_value abs_cell_def
        entryTag_def p_tag_def appendTagged_append)
  from append_does [where op = "by_value (addValue key av)", OF assms(1) [unfolded fs] a this] append_all_meta [OF a]
  show ?thesis by (simp add: fs p_addValue_def a)
qed

lemma p_addKVRoot_does:
  assumes "own h fs R" and "fs \<noteq> []"
  shows "o_does h fs R (by_value (addKVRoot key av)) (p_addKVRoot grow key av fs h)"
proof -
  obtain f ys where fs: "fs = [] @ f # ys" using assms(2) by (cases fs) auto
  obtain f' h' where a: "append_all grow f (kv_pieces (pf_kind f) key av) h = (f', h')" by force
  have "by_value (addKVRoot key av) (abs_cells to_frame h ([] @ f # ys)) = abs_cells to_frame h [] @
      to_frame (c_meta f) (slice_bytes h (c_buf f) @ concat (kv_pieces (pf_kind f) key av)) # abs_cells to_frame h ys"
    by (simp add: by_value_def addKVRoot_def kv_pieces_value abs_cell_def)
  from append_does [where op = "by_value (addKVRoot key av)", OF assms(1) [unfolded fs] a this] append_all_meta [OF a]
  show ?thesis by (simp add: fs p_addKVRoot_def a)
qed

lemma seal_value:
  "by_value sealTop (A @ [P, T]) = A @ [P\<lparr>fr_buf := fr_buf P @
     concat (seal_pieces (kind P) (kind T) (nsKey T) (length (fr_buf T))) @ fr_buf T\<rparr>]"
proof -
  have u: "appendUvarint b n = b @ appendUvarint [] n" for b n using appendUvarint_prefix [of b "[]" n] by simp
  have "butlast (A @ [P, T]) = A @ [P]" "last (A @ [P, T]) = T" by (simp_all add: butlast_append)
  then show ?thesis
    unfolding by_value_def sealTop_def seal_pieces_def Let_def
    by (simp add: by_value_cur entryTag_def p_tag_def appendTagged_append u [of "_ @ _"])
qed

lemma p_sealTop_does:
  assumes "own h fs R" and "1 < length fs"
  shows "o_does h fs R (by_value sealTop) (p_sealTop grow fs h)"
proof -
  obtain xs p tp where fs: "fs = xs @ [p, tp]" using two_last [OF assms(2)] by blast
  let ?ps = "seal_pieces (pf_kind p) (pf_kind tp) (pf_key tp) (sl_len (c_buf tp))"
  have len: "sl_len (c_buf tp) = length (slice_bytes h (c_buf tp))"
    using assms(1) by (simp add: fs own_def within_def slice_bytes_def)
  have "by_value sealTop (abs_cells to_frame h fs) = abs_cells to_frame h xs @
      [to_frame (c_meta p) (slice_bytes h (c_buf p) @ concat ?ps @ slice_bytes h (c_buf tp))]"
    using seal_value [of "abs_cells to_frame h xs" "abs_cell to_frame h p" "abs_cell to_frame h tp"]
    by (simp add: fs len) (simp add: abs_cell_def)
  from seal_does [where op = "by_value sealTop", OF assms(1) fs this, of grow]
  show ?thesis by (simp add: p_sealTop_def seal_cells_def fs butlast_append Let_def pool_defs)
qed

lemma p_rollback_does:
  assumes "own h fs R" and "0 < depth sn" "depth sn \<le> length fs" "bufLen sn \<le> sl_len (c_buf (fs ! (depth sn - 1)))"
  shows "o_does h fs R (by_value (rollback sn)) (p_rollback sn fs h)"
proof -
  let ?ys = "drop (depth sn) fs"
  have ne: "take (depth sn) fs \<noteq> []" using assms(2,3) by auto
  then obtain xs f where k: "take (depth sn) fs = xs @ [f]" by (metis snoc_last)
  have "f = take (depth sn) fs ! (depth sn - 1)" using k assms(2,3)
    by (metis diff_Suc_1 length_append_singleton length_take min.absorb2 nth_append_length)
  then have f: "f = fs ! (depth sn - 1)" using assms(2) by simp
  let ?f = "f\<lparr>c_buf := (c_buf f)\<lparr>sl_len := bufLen sn\<rparr>\<rparr>" and ?h = "free_cells (rev ?ys) h"
  have "own h ((xs @ [f]) @ ?ys) R" using assms(1) k by (metis append_take_drop_id)
  note o = own_take [OF this]
  have "own ?h (xs @ [?f]) R" using o(1) assms(4) f by (auto simp: own_def within_def)
  moreover have "keeps R h ?h" using o(2) by (simp add: keeps_def)
  moreover have "abs_cell to_frame h ?f = to_frame (c_meta f) (take (bufLen sn) (slice_bytes h (c_buf f)))"
    using assms(4) f by (simp add: abs_cell_def slice_bytes_def min_def)
  moreover have "take (depth sn) (abs_cells to_frame h fs) = abs_cells to_frame h xs @ [abs_cell to_frame h f]"
    using k by (simp add: abs_cells_def take_map)
  ultimately show ?thesis
    using abs_same_arrays [OF o(2), of to_frame]
    by (simp add: does_def p_rollback_def k Let_def by_value_def rollback_def by_value_cur p_free_cells)
      (simp add: abs_cell_def)
qed

section \<open>All states\<close>

abbreviation frames_of :: "opool \<Rightarrow> nat \<Rightarrow> frame list" where
  "frames_of \<equiv> values_of to_frame"

lemma clone_value: "by_value clone fs = fs"
  by (simp add: by_value_def clone_def map_idI)

lemma pool_step:
  assumes "separate w"
  shows "map_option frames_of (pool_act a w) = value_act a (frames_of w) \<and>
    (\<forall>w'. pool_act a w = Some w' \<longrightarrow> separate w')"
proof -
  note o = separate_own [OF assms]
  have v: "abs_cells to_frame (pw_heap w) (pw_states w i) = frames_of w i" for i by (simp add: values_of_def)
  show ?thesis
  proof (cases a)
    case (PNew i ch)
    show ?thesis
    proof (cases "pw_states w i = []")
      case True
      then have "free_ok (pw_heap w) (others w i)" using o [of i] by simp
      from store_does [OF assms p_new_does [OF this, of ch]] True PNew show ?thesis by simp
    qed (simp add: PNew)
  next
    case (PClone i j ch g)
    show ?thesis
    proof (cases "pw_states w i \<noteq> [] \<and> pw_states w j = []")
      case True
      then have "free_ok (pw_heap w) (others w j)" "i \<noteq> j" using o [of j] by auto
      moreover obtain gs h' where c: "clone_cells frameBufCap ch g (pw_states w i) (pw_heap w) = (gs, h')" by force
      ultimately have "own h' gs (others w j) \<and> keeps (others w j) (pw_heap w) h' \<and>
          abs_cells to_frame h' gs = abs_cells to_frame (pw_heap w) (pw_states w i)"
        using clone_own [OF _ in_others c, where mk = to_frame] by blast
      then have "o_does (pw_heap w) [] (others w j) (\<lambda>_. frames_of w i) (gs, h')" by (simp add: does_def v)
      from store_does [OF assms this] True PClone c show ?thesis by (simp add: clone_value p_clone_cells)
    qed (auto simp: PClone)
  next
    case (PFree i)
    then show ?thesis using store_does [OF assms free_does [OF o [of i], of to_frame]] by (simp add: p_free_cells)
  next
    case (POpen i ch k key)
    then show ?thesis using store_does [OF assms p_open_does [OF o [of i], of k key ch]] by (simp add: v)
  next
    case (PAdd i g key av)
    then show ?thesis using store_does [OF assms p_addValue_does [OF o [of i], of key av g]] by (simp add: v)
  next
    case (PAddRoot i g key av)
    then show ?thesis using store_does [OF assms p_addKVRoot_does [OF o [of i], of key av g]] by (simp add: v)
  next
    case (PSeal i g)
    then show ?thesis using store_does [OF assms p_sealTop_does [OF o [of i], of g]] by (simp add: v)
  next
    case (PRollback i sn)
    show ?thesis
    proof (cases "0 < depth sn \<and> depth sn \<le> length (pw_states w i)")
      case True
      then have b: "length (fr_buf (frames_of w i ! (depth sn - 1))) = sl_len (c_buf (pw_states w i ! (depth sn - 1)))"
      proof -
        have k: "depth sn - 1 < length (pw_states w i)" using True by linarith
        from values_buf [OF assms k] k show ?thesis by (simp add: values_of_def abs_cells_def abs_cell_def)
      qed
      show ?thesis
        using PRollback True b store_does [OF assms p_rollback_does [OF o [of i], of sn]] by (simp add: v Let_def)
    qed (auto simp: PRollback Let_def)
  next
    case (PDrop k)
    then show ?thesis using separate_drop [OF assms] by simp
  qed
qed

interpretation opool: pool_machine pool_act value_act frames_of
  by unfold_locales (rule pool_step)

section \<open>Properties\<close>

text \<open>C19: the pool is invisible. For every sequence of operations on any number of encoder states that share
  the pool, whatever buffers the pool hands out, drops or has to make, and however arrays grow, the
  states hold exactly the bytes the by-value encoder computes for them, and a step is possible in the
  one model exactly when it is in the other; no array is live in two places or live and pooled.\<close>

theorem pool_refines_values:
  "map_option frames_of (run pool_act as pool_init) = run value_act as (\<lambda>_. []) \<and>
   (\<forall>w. run pool_act as pool_init = Some w \<longrightarrow> separate w)"
  using opool.pool_run [OF separate_init(1), of "as"] by (simp add: separate_init(2))

text \<open>
  A state is made, written to and cloned; the clone is written to, the original freed and its buffer
  taken from the pool by a third state, which is written to as well.
\<close>

definition pool_sample :: "pact list" where
  "pool_sample =
     [PNew 0 Fresh, PAdd 0 0 [107] [1], PClone 0 1 (\<lambda>_. Fresh) 0, PAdd 1 0 [108] [2], PFree 0,
      PNew 2 (Pooled 0), PAdd 2 0 [109] [3]]"

theorem pool_refines_values_witness:
  "\<exists>w. run pool_act pool_sample pool_init = Some w \<and> separate w \<and>
     frames_of w 0 = [] \<and>
     map fr_buf (frames_of w 1) = [[0x32, 6, 0x0a, 1, 107, 0x12, 1, 1, 0x32, 6, 0x0a, 1, 108, 0x12, 1, 2]] \<and>
     map fr_buf (frames_of w 2) = [[0x32, 6, 0x0a, 1, 109, 0x12, 1, 3]]"
proof -
  have v: "map_option (\<lambda>v. (map fr_buf (v 0), map fr_buf (v 1), map fr_buf (v 2))) (run value_act pool_sample (\<lambda>_. [])) =
     Some ([], [[0x32, 6, 0x0a, 1, 107, 0x12, 1, 1, 0x32, 6, 0x0a, 1, 108, 0x12, 1, 2]],
       [[0x32, 6, 0x0a, 1, 109, 0x12, 1, 3]])"
    unfolding pool_sample_def by code_simp
  with pool_refines_values [of pool_sample] show ?thesis by (cases "run pool_act pool_sample pool_init") auto
qed

end
