(* ===== verification/Spec2Isabelle.thy ===== *)
theory Spec2Isabelle
  imports Presets_Async Fluent_Entry Fluent_Pool Otlp_Presets Otlp_Pool
begin

text \<open>
  Verification of zapwire, a library that ships the records of Go's zap logger over the network.

  \<^bold>\<open>The program.\<close> A record leaves the logger through a zap core and an encoder, is queued by a writer,
  and is sent in batches by one flush goroutine. There are two writers. The stream writer of the root
  package (\<^verbatim>\<open>writer.go\<close>) frames a batch with a \<^verbatim>\<open>Framer\<close> and writes it to a TCP or Unix socket that a
  reconnect goroutine replaces when it fails; the presets \<^verbatim>\<open>ndjson\<close>, \<^verbatim>\<open>syslog\<close> and \<^verbatim>\<open>fluent\<close> give it an
  encoder and a framer. The exporter of \<^verbatim>\<open>otlp\<close> (\<^verbatim>\<open>otlp/writer.go\<close>) assembles a batch into one OTLP
  request and ships it through a transport, HTTP or gRPC, with retries until a deadline. Both writers
  promise the same: \<^verbatim>\<open>Write\<close> never blocks on the network, a record is delivered or counted as dropped,
  order is kept, \<^verbatim>\<open>Sync\<close> is a barrier, and \<^verbatim>\<open>Close\<close> strands nothing.

  \<^bold>\<open>Foundations.\<close>
  \<^item> \<open>Zapwire_Prelude\<close>: bytes, machine integers, results, the named collections, list and word lemmas.
  \<^item> \<open>Go_Runtime\<close>, \<open>Go_Text\<close>, \<open>Go_Float\<close>: what the code uses of the language and its library. Decimal
    formatting, varints, 64-bit wrap-around, buffered channels (locale \<open>bounded_queue\<close>, interpreted on
    \<open>try_send\<close> and \<open>try_recv\<close>), UTF-8, base64, a JSON reader, and \<^verbatim>\<open>float64\<close> as exact rationals.
  \<^item> \<open>Interleaving\<close>: goroutines as a partial step function on a shared state. A schedule is a list of
    steps, \<open>reachable\<close> an inductive predicate, \<open>step_invariant\<close> the locale of an invariant of every
    step; every concurrent model interprets it.
  \<^item> \<open>Zap_Types\<close>, \<open>Zap_Marshal\<close>: entries, levels and times as zap hands them over, and a user's
    marshaler as the tree of the calls it makes, each answered with the error the encoder returns.

  \<^bold>\<open>The stream writer.\<close>
  \<^item> \<open>Root_Options\<close> (\<^verbatim>\<open>options.go\<close>, \<^verbatim>\<open>errors.go\<close>): the configuration, every option, the normalisation.
  \<^item> \<open>Wire_Interface\<close> (\<^verbatim>\<open>encoder.go\<close>, \<^verbatim>\<open>passthrough.go\<close>): the locales \<open>append_encoder\<close>, \<open>append_framer\<close>
    and \<open>stream_framer\<close>, a framer with a receiver that splits a stream back into payloads.
  \<^item> \<open>Root_Writer\<close> (\<^verbatim>\<open>writer.go\<close>, \<^verbatim>\<open>transport.go\<close>): every method as a function on the record \<open>writer\<close>,
    one caller at a time; the network's answers are arguments.
  \<^item> \<open>Root_Async\<close>: the queue with writers, \<^verbatim>\<open>Sync\<close> callers, \<^verbatim>\<open>Close\<close> and the flush goroutine interleaved,
    every lock, atomic access and channel operation a step of its own. The fields after \<open>a_flush\<close> are
    history variables that no step reads.
  \<^item> \<open>Root_Conn\<close>: the connection with \<^verbatim>\<open>writeFrame\<close>, \<^verbatim>\<open>handleWriteError\<close>, the reconnect goroutine and the
    teardown of \<^verbatim>\<open>Close\<close> interleaved, for any number of frame writers.
  \<^item> \<open>Root_System\<close>: the two composed, as the writer is in asynchronous mode. The flush goroutine of the
    queue is the one frame writer of the connection, and \<^verbatim>\<open>Close\<close> acts on both; a run of the whole
    projects to a run of each part, and a coupling invariant ties batch, frame, wire and drop counter.
  \<^item> \<open>Ndjson\<close>, \<open>Syslog\<close>, \<open>Msgpack\<close>, \<open>Fluent_Wire\<close>, \<open>Fluent_Encoder\<close>, \<open>Fluent_Time\<close>,
    \<open>Fluent_Transcode\<close>: the formats, each with the receiver its round trips are stated against.
  \<^item> \<open>Fluent_Entry\<close> (\<^verbatim>\<open>fluent/proto_gen.go\<close>): the generated methods of \<^verbatim>\<open>Entry\<close>, over the msgpack
    library's stream writer and readers.
  \<^item> \<open>Presets\<close> (\<^verbatim>\<open>core.go\<close> and the constructors): a constructed writer is run, written to and closed,
    and a receiver reads the connection.
  \<^item> \<open>Presets_Async\<close>: a constructed asynchronous writer is started and its goroutines run in any order;
    the peer of each connection reads what it received.

  \<^bold>\<open>Shared buffers.\<close>
  \<^item> \<open>Go_Heap\<close>: byte slices over an explicit store of arrays, a pool of recycled arrays, and ownership;
    the locale \<open>pool_machine\<close> states once what operations must keep so that no array is live twice or
    live and pooled. \<open>Otlp_Pool\<close> and \<open>Fluent_Pool\<close> interpret it on the pooled encoder states of both
    encoders, and show that these hold exactly the bytes of the by-value encoders modelled elsewhere.

  \<^bold>\<open>The OTLP exporter.\<close>
  \<^item> \<open>Otlp_Proto\<close>, \<open>Otlp_Envelope\<close>, \<open>Otlp_Options\<close>: the wire helpers of \<^verbatim>\<open>otlp/proto.go\<close>, the request
    and its exact size, options and severities.
  \<^item> \<open>Otlp_Attr\<close>, \<open>Otlp_Encoder\<close>, \<open>Otlp_Receiver\<close>: the object encoder as a stack of open containers, the
    record encoder and core, and a receiver of the data model that reads the bytes back.
  \<^item> \<open>Otlp_Writer\<close>, \<open>Otlp_Async\<close>: the exporter's methods as functions, the retry loop, and its
    goroutines interleaved.
  \<^item> \<open>Otlp_Json\<close>, \<open>Otlp_Http\<close>, \<open>Otlp_Grpc\<close>: the schema-driven JSON transcoder and the two transports;
    \<open>ship_layer\<close> is the contract both give the writer, that what a server reads from a prepared request
    is the batch.
  \<^item> \<open>Otlp_Presets\<close>: the constructors and the exporter as a whole, from \<^verbatim>\<open>Write\<close> to what a collector reads.

  \<^bold>\<open>What the lemmas show.\<close>
  \<^item> Interleaved writers (\<open>Root_Async\<close>, \<open>Root_Conn\<close>, \<open>Root_System\<close>, \<open>Otlp_Async\<close>): one invariant for shape and
    bounds, one for the gate that \<^verbatim>\<open>Close\<close> shuts, one for accounting and one for order, each kept by each
    step; from them the accounting of the drop counter, order on the wire, the barriers of \<^verbatim>\<open>Sync\<close>,
    what \<^verbatim>\<open>Close\<close> settles, which goroutine it waits for, and that the final drain ends. In the exporter
    every export has an outcome its environment allows, and \<^verbatim>\<open>DroppedLogs\<close> is what \<^verbatim>\<open>Write\<close> and these
    outcomes lost.
  \<^item> Formats: a receiver, written independently of the encoder, gives back what was logged.
  \<^item> Encoders: refinement to trees of values, exact sizes, what a failed marshaler leaves.
  \<^item> Transports: what a server reads from the request as it is sent, and how each answer is classified.
  \<^item> Sequential writers: every branch of every method, the state invariant, retry and reconnect bounds.

  \<^bold>\<open>Bounds and fuel.\<close> Loops that may not end are \<open>partial_function (option)\<close>, \<open>None\<close> being that they do
  not, and are shown to return (\<open>export_returns\<close>: the clock moves between attempts, intervals below 2^62
  ns, where doubling does not wrap). The final flush of the stream writer takes at most 64 times buffer
  and batch size plus 44 steps of its goroutine, the drain of the exporter 6 times the queue plus 11.
  Drop counters are \<^verbatim>\<open>uint64\<close> and wrap. Containers nest at most 1000 deep (\<open>maxEncodeDepth\<close>), gRPC frames
  and msgpack strings are below 4 GiB, where the code does not check, as hypotheses.

  \<^bold>\<open>Not modelled, and why.\<close> The conformance servers, examples and benchmarks are not part of the library.
  Libraries are parameters with the laws their documentation states, shown satisfiable by an
  instance: TLS and the HTTP clients, gzip, \<^verbatim>\<open>url.Parse\<close>, \<^verbatim>\<open>json.Unmarshal\<close> and \<^verbatim>\<open>json.Decoder\<close>, \<^verbatim>\<open>time.Parse\<close>, the
  shortest text of a float, zap's own encoders and cores, and the append functions of tinylib/msgp.
  Timers, deadlines and the network are choices of the environment: any tick, failure, partial write or
  answer may come at any step. The text of a malformed JSON answer's error is shortened.
\<close>

end
